(* ===== verification/Dlb_Bytes.thy ===== *)
theory Dlb_Bytes
  imports Dlb_Prelude
begin

text \<open>
  The endian-specific accessors of src/src/bytes.h. A pointer to raw data is the list of
  the bytes it points to; a read of \<open>k\<close> bytes needs at least \<open>k\<close> of them. The readers
  and writers are translated expression by expression; the theorems show that a writer
  followed by its reader returns the value, that writing back what was read changes
  nothing, and that the network order is the little-endian order of the reversed bytes.
\<close>

unbundle bit_operations_syntax

section \<open>Readers and writers\<close>

definition bytes_r16le :: "u8 list \<Rightarrow> u16" where
  "bytes_r16le data = ucast (data ! 0) OR push_bit 8 (ucast (data ! 1))"

definition bytes_r16net :: "u8 list \<Rightarrow> u16" where
  "bytes_r16net data = ucast (data ! 1) OR push_bit 8 (ucast (data ! 0))"

definition bytes_w16le :: "u8 list \<Rightarrow> u16 \<Rightarrow> u8 list" where
  "bytes_w16le data v = data[0 := ucast v, 1 := ucast (drop_bit 8 v)]"

definition bytes_w16net :: "u8 list \<Rightarrow> u16 \<Rightarrow> u8 list" where
  "bytes_w16net data v = data[1 := ucast v, 0 := ucast (drop_bit 8 v)]"

definition bytes_r32le :: "u8 list \<Rightarrow> u32" where
  "bytes_r32le data =
     ucast (data ! 0) OR
     push_bit 8 (ucast (data ! 1)) OR
     push_bit 16 (ucast (data ! 2)) OR
     push_bit 24 (ucast (data ! 3))"

definition bytes_r32net :: "u8 list \<Rightarrow> u32" where
  "bytes_r32net data =
     ucast (data ! 3) OR
     push_bit 8 (ucast (data ! 2)) OR
     push_bit 16 (ucast (data ! 1)) OR
     push_bit 24 (ucast (data ! 0))"

definition bytes_w32le :: "u8 list \<Rightarrow> u32 \<Rightarrow> u8 list" where
  "bytes_w32le data v = data[
     0 := ucast v,
     1 := ucast (drop_bit 8 v),
     2 := ucast (drop_bit 16 v),
     3 := ucast (drop_bit 24 v)]"

definition bytes_w32net :: "u8 list \<Rightarrow> u32 \<Rightarrow> u8 list" where
  "bytes_w32net data v = data[
     3 := ucast v,
     2 := ucast (drop_bit 8 v),
     1 := ucast (drop_bit 16 v),
     0 := ucast (drop_bit 24 v)]"

definition bytes_r64le :: "u8 list \<Rightarrow> u64" where
  "bytes_r64le data =
     ucast (data ! 0) OR
     push_bit 8 (ucast (data ! 1)) OR
     push_bit 16 (ucast (data ! 2)) OR
     push_bit 24 (ucast (data ! 3)) OR
     push_bit 32 (ucast (data ! 4)) OR
     push_bit 40 (ucast (data ! 5)) OR
     push_bit 48 (ucast (data ! 6)) OR
     push_bit 56 (ucast (data ! 7))"

definition bytes_r64net :: "u8 list \<Rightarrow> u64" where
  "bytes_r64net data =
     ucast (data ! 7) OR
     push_bit 8 (ucast (data ! 6)) OR
     push_bit 16 (ucast (data ! 5)) OR
     push_bit 24 (ucast (data ! 4)) OR
     push_bit 32 (ucast (data ! 3)) OR
     push_bit 40 (ucast (data ! 2)) OR
     push_bit 48 (ucast (data ! 1)) OR
     push_bit 56 (ucast (data ! 0))"

definition bytes_w64le :: "u8 list \<Rightarrow> u64 \<Rightarrow> u8 list" where
  "bytes_w64le data v = data[
     0 := ucast v,
     1 := ucast (drop_bit 8 v),
     2 := ucast (drop_bit 16 v),
     3 := ucast (drop_bit 24 v),
     4 := ucast (drop_bit 32 v),
     5 := ucast (drop_bit 40 v),
     6 := ucast (drop_bit 48 v),
     7 := ucast (drop_bit 56 v)]"

definition bytes_w64net :: "u8 list \<Rightarrow> u64 \<Rightarrow> u8 list" where
  "bytes_w64net data v = data[
     7 := ucast v,
     6 := ucast (drop_bit 8 v),
     5 := ucast (drop_bit 16 v),
     4 := ucast (drop_bit 24 v),
     3 := ucast (drop_bit 32 v),
     2 := ucast (drop_bit 40 v),
     1 := ucast (drop_bit 48 v),
     0 := ucast (drop_bit 56 v)]"

lemmas bytes_read_defs =
  bytes_r16le_def bytes_r16net_def bytes_r32le_def bytes_r32net_def
  bytes_r64le_def bytes_r64net_def

lemmas bytes_write_defs =
  bytes_w16le_def bytes_w16net_def bytes_w32le_def bytes_w32net_def
  bytes_w64le_def bytes_w64net_def

section \<open>Splitting a word into bytes and joining them\<close>

lemma join_byte:
  fixes v :: "'a::len word"
  shows "take_bit n v OR push_bit n (take_bit 8 (drop_bit n v)) = take_bit (n + 8) v"
  by (rule bit_word_eqI) (auto simp: bit_simps)

lemma join_byte_assoc:
  fixes v :: "'a::len word"
  shows "take_bit n v OR push_bit n (take_bit 8 (drop_bit n v)) OR w
    = take_bit (n + 8) v OR w"
  by (simp add: join_byte flip: or.assoc)

lemma low_byte:
  fixes v :: "'a::len word"
  shows "ucast (ucast v :: u8) = take_bit 8 v"
  by (rule bit_word_eqI) (auto simp: bit_simps)

lemma take_bit_full:
  fixes v :: "'a::len word"
  shows "LENGTH('a) \<le> n \<Longrightarrow> take_bit n v = v"
  by (rule bit_word_eqI) (auto simp: bit_simps)

lemma byte_of_same:
  "n + 8 \<le> LENGTH('a::len) \<Longrightarrow>
    (ucast (drop_bit n (push_bit n (ucast (a :: u8) :: 'a word))) :: u8) = a"
  by (rule bit_word_eqI) (auto simp: bit_simps)

lemma byte_of_above:
  "n + 8 \<le> m \<Longrightarrow>
    (ucast (drop_bit n (push_bit m (ucast (a :: u8) :: 'a::len word))) :: u8) = 0"
  by (rule bit_word_eqI) (auto simp: bit_simps)

lemma byte_of_below:
  "m + 8 \<le> n \<Longrightarrow>
    (ucast (drop_bit n (push_bit m (ucast (a :: u8) :: 'a::len word))) :: u8) = 0"
  by (rule bit_word_eqI) (auto simp: bit_simps dest: bit_imp_le_length)

lemmas byte_of_below0 = byte_of_below [of 0, simplified]
lemmas byte_of_above0 = byte_of_above [of 0, simplified]

lemma byte_of_low: "8 \<le> LENGTH('a::len) \<Longrightarrow> (ucast (ucast (a :: u8) :: 'a word) :: u8) = a"
  using byte_of_same [of 0, where 'a = 'a] by simp

lemma ucast_or_u8: "(ucast (a OR b :: 'a::len word) :: u8) = ucast a OR ucast b"
  by (rule bit_word_eqI) (auto simp: bit_simps)

lemma drop_bit_or_word: "drop_bit n (a OR b :: 'a::len word) = drop_bit n a OR drop_bit n b"
  by (rule bit_word_eqI) (auto simp: bit_simps)

lemmas byte_join = low_byte join_byte join_byte_assoc take_bit_full
lemmas byte_split = ucast_or_u8 drop_bit_or_word byte_of_same byte_of_above byte_of_below
  byte_of_below0 byte_of_above0 byte_of_low

section \<open>Round trips\<close>

lemmas bytes_roundtrip_simps = bytes_read_defs bytes_write_defs byte_join nth_list_update

text \<open>
  C39: writing a 16, 32 or 64 bit value and reading it back, in little-endian order or in
  network order, returns the value.
\<close>

theorem bytes_write_read:
  "8 \<le> length data \<Longrightarrow>
     bytes_r16le (bytes_w16le data v16) = v16 \<and>
     bytes_r16net (bytes_w16net data v16) = v16 \<and>
     bytes_r32le (bytes_w32le data v32) = v32 \<and>
     bytes_r32net (bytes_w32net data v32) = v32 \<and>
     bytes_r64le (bytes_w64le data v64) = v64 \<and>
     bytes_r64net (bytes_w64net data v64) = v64"
  by (simp add: bytes_roundtrip_simps del: length_greater_0_conv)

theorem bytes_write_read_witness:
  "bytes_r32net (bytes_w32net [0, 0, 0, 0, 0, 0, 0, 0] 0x01020304) = 0x01020304
   \<and> bytes_w32net [0, 0, 0, 0, 0, 0, 0, 0] 0x01020304 = [1, 2, 3, 4, 0, 0, 0, 0]"
proof -
  have "8 \<le> length [0, 0, 0, 0, 0, 0, 0, 0 :: u8]"
    by simp
  from bytes_write_read [OF this, of 0 "0x01020304" 0]
  have "bytes_r32net (bytes_w32net [0, 0, 0, 0, 0, 0, 0, 0] 0x01020304) = 0x01020304"
    by blast
  moreover have "bytes_w32net [0, 0, 0, 0, 0, 0, 0, 0] 0x01020304 = [1, 2, 3, 4, 0, 0, 0, 0]"
    by code_simp
  ultimately show ?thesis
    by blast
qed

lemma bytes_read_write_le:
  "2 \<le> length data \<Longrightarrow> bytes_w16le data (bytes_r16le data) = data"
  "4 \<le> length data \<Longrightarrow> bytes_w32le data (bytes_r32le data) = data"
  "8 \<le> length data \<Longrightarrow> bytes_w64le data (bytes_r64le data) = data"
  by (simp_all add: bytes_read_defs bytes_write_defs byte_split)

lemma bytes_read_write_net:
  "2 \<le> length data \<Longrightarrow> bytes_w16net data (bytes_r16net data) = data"
  "4 \<le> length data \<Longrightarrow> bytes_w32net data (bytes_r32net data) = data"
  "8 \<le> length data \<Longrightarrow> bytes_w64net data (bytes_r64net data) = data"
  by (simp_all add: bytes_read_defs bytes_write_defs byte_split)

lemma bytes_net_rev:
  "length data = 2 \<Longrightarrow> bytes_r16net data = bytes_r16le (rev data)"
  "length data = 4 \<Longrightarrow> bytes_r32net data = bytes_r32le (rev data)"
  "length data = 8 \<Longrightarrow> bytes_r64net data = bytes_r64le (rev data)"
  by (simp_all add: bytes_read_defs rev_nth)

end
