(* ===== verification/Dlb_Cbuf.thy ===== *)
theory Dlb_Cbuf
  imports Dlb_Prelude
begin

text \<open>
  The circular byte buffer of src/src/cbuf.h and src/src/cbuf.c. Memory is a flat map from
  addresses to bytes, a pointer is an address, and \<open>memcpy\<close> copies a region of it, so that
  the buffer's storage, the caller's flat areas and a second buffer's storage may or may
  not overlap: the theorems say which regions have to be disjoint. The structure's fields
  are natural numbers below \<open>2 ^ 64\<close>; the one addition that can wrap (\<open>head + size\<close>) has
  its wrap-around written out. The subtractions of the source are ordinary ones, which is
  exact on well-formed buffers: \<open>cbuf_wf\<close> bounds the subtrahend.
\<close>

section \<open>Memory\<close>

type_synonym mem = "addr \<Rightarrow> u8"

definition memcpy :: "addr \<Rightarrow> addr \<Rightarrow> nat \<Rightarrow> mem \<Rightarrow> mem" where
  "memcpy dst src n m = (\<lambda>a. if dst \<le> a \<and> a < dst + n then m (src + (a - dst)) else m a)"

definition bytes_at :: "mem \<Rightarrow> addr \<Rightarrow> nat \<Rightarrow> u8 list" where
  "bytes_at m a n = map (\<lambda>i. m (a + i)) [0..<n]"

definition disjoint_regions :: "addr \<Rightarrow> nat \<Rightarrow> addr \<Rightarrow> nat \<Rightarrow> bool" where
  "disjoint_regions a n b k \<longleftrightarrow> a + n \<le> b \<or> b + k \<le> a"

lemma length_bytes_at [simp]: "length (bytes_at m a n) = n"
  by (simp add: bytes_at_def)

lemma nth_bytes_at [simp]: "i < n \<Longrightarrow> bytes_at m a n ! i = m (a + i)"
  by (simp add: bytes_at_def)

lemma bytes_at_0 [simp]: "bytes_at m a 0 = []"
  by (simp add: bytes_at_def)

lemma bytes_at_add: "bytes_at m a (n + k) = bytes_at m a n @ bytes_at m (a + n) k"
  by (rule nth_equalityI) (auto simp: nth_append)

lemma bytes_at_memcpy_frame [frame]:
  "disjoint_regions dst n a k \<Longrightarrow> bytes_at (memcpy dst src n m) a k = bytes_at m a k"
  by (rule nth_equalityI) (auto simp: memcpy_def disjoint_regions_def)

section \<open>The structure and its inline accessors\<close>

record cbuf =
  data :: addr
  capacity :: nat
  head :: nat
  size :: nat

definition cbuf_init :: "addr \<Rightarrow> nat \<Rightarrow> cbuf" where
  "cbuf_init d cap = \<lparr>data = d, capacity = cap, head = 0, size = 0\<rparr>"

definition cbuf_copy :: "cbuf \<Rightarrow> cbuf" where
  "cbuf_copy src = src"

definition cbuf_clear :: "cbuf \<Rightarrow> cbuf" where
  "cbuf_clear c = c\<lparr>head := 0, size := 0\<rparr>"

definition cbuf_used :: "cbuf \<Rightarrow> nat" where
  "cbuf_used c = size c"

definition cbuf_avail :: "cbuf \<Rightarrow> nat" where
  "cbuf_avail c = capacity c - size c"

definition cbuf_head :: "cbuf \<Rightarrow> nat" where
  "cbuf_head c = head c"

definition cbuf_tail :: "cbuf \<Rightarrow> nat" where
  "cbuf_tail c = wrap64 (head c + size c) mod capacity c"

definition cbuf_head_data :: "cbuf \<Rightarrow> addr" where
  "cbuf_head_data c = data c + head c"

definition cbuf_head_size :: "cbuf \<Rightarrow> nat" where
  "cbuf_head_size c = (let r = capacity c - head c in if r < size c then r else size c)"

definition cbuf_tail_data :: "cbuf \<Rightarrow> addr" where
  "cbuf_tail_data c = data c + cbuf_tail c"

definition cbuf_tail_size :: "cbuf \<Rightarrow> nat" where
  "cbuf_tail_size c =
     (let t = cbuf_tail c in capacity c - (if t > size c then t else size c))"

section \<open>Advancing and moving data\<close>

definition cbuf_head_advance :: "cbuf \<Rightarrow> nat \<Rightarrow> cbuf" where
  "cbuf_head_advance c count0 =
     (let count = (if count0 > size c then size c else count0)
      in c\<lparr>size := size c - count, head := wrap64 (head c + count) mod capacity c\<rparr>)"

definition cbuf_tail_advance :: "cbuf \<Rightarrow> nat \<Rightarrow> cbuf" where
  "cbuf_tail_advance c count0 =
     (let a = cbuf_avail c; count = (if count0 > a then a else count0)
      in c\<lparr>size := size c + count\<rparr>)"

text \<open>
  The loops of the three transfer functions. Each round moves one contiguous piece; the
  loop ends when the piece is empty. The state is the buffer, the memory and the number of
  bytes moved so far.
\<close>

function move_in_loop :: "addr \<Rightarrow> nat \<Rightarrow> nat \<Rightarrow> cbuf \<Rightarrow> mem \<Rightarrow> nat \<times> cbuf \<times> mem" where
  "move_in_loop src max_size count c m =
     (let tail_size = cbuf_tail_size c;
          src_size = max_size - count;
          x = (if tail_size < src_size then tail_size else src_size)
      in if x = 0 then (count, c, m)
         else move_in_loop src max_size (count + x) (cbuf_tail_advance c x)
                (memcpy (cbuf_tail_data c) (src + count) x m))"
  by pat_completeness auto
termination
  by (relation "measure (\<lambda>(src, max_size, count, c, m). max_size - count)")
    (auto simp: Let_def split: if_splits)

definition cbuf_move_in :: "cbuf \<Rightarrow> addr \<Rightarrow> nat \<Rightarrow> mem \<Rightarrow> nat \<times> cbuf \<times> mem" where
  "cbuf_move_in c src max_size m = move_in_loop src max_size 0 c m"

function move_out_loop :: "addr \<Rightarrow> nat \<Rightarrow> nat \<Rightarrow> cbuf \<Rightarrow> mem \<Rightarrow> nat \<times> cbuf \<times> mem" where
  "move_out_loop dst max_size count c m =
     (let head_size = cbuf_head_size c;
          dst_size = max_size - count;
          x = (if head_size < dst_size then head_size else dst_size)
      in if x = 0 then (count, c, m)
         else move_out_loop dst max_size (count + x) (cbuf_head_advance c x)
                (memcpy (dst + count) (cbuf_head_data c) x m))"
  by pat_completeness auto
termination
  by (relation "measure (\<lambda>(src, max_size, count, c, m). max_size - count)")
    (auto simp: Let_def split: if_splits)

definition cbuf_move_out :: "cbuf \<Rightarrow> addr \<Rightarrow> nat \<Rightarrow> mem \<Rightarrow> nat \<times> cbuf \<times> mem" where
  "cbuf_move_out c dst max_size m = move_out_loop dst max_size 0 c m"

function move_loop :: "nat \<Rightarrow> nat \<Rightarrow> cbuf \<Rightarrow> cbuf \<Rightarrow> mem \<Rightarrow> nat \<times> cbuf \<times> cbuf \<times> mem" where
  "move_loop max_size count dst src m =
     (let head_size = cbuf_head_size src;
          tail_size = cbuf_tail_size dst;
          limit = max_size - count;
          x = (if head_size < tail_size then head_size else tail_size);
          y = (if x < limit then x else limit)
      in if y = 0 then (count, dst, src, m)
         else move_loop max_size (count + y) (cbuf_tail_advance dst y) (cbuf_head_advance src y)
                (memcpy (cbuf_tail_data dst) (cbuf_head_data src) y m))"
  by pat_completeness auto
termination
  by (relation "measure (\<lambda>(max_size, count, dst, src, m). max_size - count)")
    (auto simp: Let_def split: if_splits)

definition cbuf_move :: "cbuf \<Rightarrow> cbuf \<Rightarrow> nat \<Rightarrow> mem \<Rightarrow> nat \<times> cbuf \<times> cbuf \<times> mem" where
  "cbuf_move dst src max_size m =
     move_loop (if max_size = 0 then size src else max_size) 0 dst src m"

declare move_in_loop.simps [simp del] move_out_loop.simps [simp del] move_loop.simps [simp del]

section \<open>Invariant and abstraction\<close>

definition cbuf_wf :: "cbuf \<Rightarrow> bool" where
  "cbuf_wf c \<longleftrightarrow> 0 < capacity c \<and> capacity c \<le> 2 ^ 63 \<and> head c < capacity c \<and> size c \<le> capacity c"

text \<open>The abstract value of a buffer: the queued bytes, oldest first.\<close>

definition contents :: "mem \<Rightarrow> cbuf \<Rightarrow> u8 list" where
  "contents m c = map (\<lambda>i. m (data c + (head c + i) mod capacity c)) [0..<size c]"

lemma length_contents [simp]: "length (contents m c) = size c"
  by (simp add: contents_def)

lemma cbuf_init_spec:
  "0 < cap \<Longrightarrow> cap \<le> 2 ^ 63 \<Longrightarrow> cbuf_wf (cbuf_init d cap) \<and> contents m (cbuf_init d cap) = []"
  by (simp add: cbuf_init_def cbuf_wf_def contents_def)

lemma cbuf_clear_spec:
  "cbuf_wf c \<Longrightarrow> cbuf_wf (cbuf_clear c) \<and> contents m (cbuf_clear c) = []"
  by (simp add: cbuf_clear_def cbuf_wf_def contents_def)

lemma cbuf_wrap_free: "cbuf_wf c \<Longrightarrow> n \<le> capacity c \<Longrightarrow> wrap64 (head c + n) = head c + n"
  by (simp add: cbuf_wf_def)

lemma cbuf_tail_eq: "cbuf_wf c \<Longrightarrow> cbuf_tail c = (head c + size c) mod capacity c"
  using cbuf_wrap_free [of c "size c"] by (simp add: cbuf_tail_def cbuf_wf_def)

text \<open>The tail area is contiguous, free and as long as possible.\<close>

lemma cbuf_tail_cases:
  assumes "cbuf_wf c"
  shows "cbuf_tail c = (if head c + size c < capacity c then head c + size c
                        else head c + size c - capacity c)"
proof -
  have "head c + size c < 2 * capacity c"
    using assms by (simp add: cbuf_wf_def)
  then show ?thesis
    by (simp add: cbuf_tail_eq [OF assms] mod_if)
qed

lemma cbuf_tail_size_eq:
  assumes "cbuf_wf c"
  shows "cbuf_tail_size c = (if head c + size c < capacity c then capacity c - (head c + size c)
                             else capacity c - size c)"
  using assms cbuf_tail_cases [OF assms]
  by (auto simp: cbuf_tail_size_def Let_def cbuf_wf_def)

lemma cbuf_tail_size_le: "cbuf_wf c \<Longrightarrow> cbuf_tail_size c \<le> cbuf_avail c"
  by (auto simp: cbuf_tail_size_eq cbuf_avail_def cbuf_wf_def)

lemma cbuf_tail_size_0: "cbuf_wf c \<Longrightarrow> cbuf_tail_size c = 0 \<longleftrightarrow> cbuf_avail c = 0"
  by (auto simp: cbuf_tail_size_eq cbuf_avail_def cbuf_wf_def)

lemma cbuf_head_size_le: "cbuf_wf c \<Longrightarrow> cbuf_head_size c \<le> size c"
  by (simp add: cbuf_head_size_def Let_def)

lemma cbuf_head_size_0: "cbuf_wf c \<Longrightarrow> cbuf_head_size c = 0 \<longleftrightarrow> size c = 0"
  by (auto simp: cbuf_head_size_def Let_def cbuf_wf_def)

section \<open>One contiguous piece\<close>

text \<open>Storing a piece in the tail area and advancing appends it to the contents.\<close>

lemma cbuf_index_cases:
  assumes "cbuf_wf c" "i \<le> capacity c"
  shows "(head c + i) mod capacity c
    = (if head c + i < capacity c then head c + i else head c + i - capacity c)"
proof -
  have "head c + i < 2 * capacity c"
    using assms by (simp add: cbuf_wf_def)
  then show ?thesis
    by (simp add: mod_if)
qed

lemma cbuf_tail_index:
  assumes "cbuf_wf c" "i < cbuf_tail_size c"
  shows "cbuf_tail c + i = (head c + (size c + i)) mod capacity c"
proof -
  have "size c + i \<le> capacity c"
    using assms cbuf_tail_size_le [OF assms(1)] by (simp add: cbuf_avail_def)
  then show ?thesis
    using assms cbuf_tail_cases [OF assms(1)] cbuf_tail_size_eq [OF assms(1)]
      cbuf_index_cases [OF assms(1), of "size c + i"]
    by (auto simp: cbuf_wf_def split: if_splits)
qed

lemma cbuf_used_not_in_tail:
  assumes "cbuf_wf c" "x \<le> cbuf_tail_size c" "i < size c"
  shows "\<not> (cbuf_tail c \<le> (head c + i) mod capacity c \<and>
            (head c + i) mod capacity c < cbuf_tail c + x)"
proof -
  have "i \<le> capacity c" "head c < capacity c" "size c \<le> capacity c"
    using assms by (simp_all add: cbuf_wf_def)
  then show ?thesis
    using assms(2,3) cbuf_tail_cases [OF assms(1)] cbuf_tail_size_eq [OF assms(1)]
      cbuf_index_cases [OF assms(1), of i]
    by (simp split: if_splits) linarith+
qed

lemma cbuf_tail_advance_eq:
  "cbuf_wf c \<Longrightarrow> x \<le> cbuf_tail_size c \<Longrightarrow> cbuf_tail_advance c x = c\<lparr>size := size c + x\<rparr>"
  using cbuf_tail_size_le [of c] by (simp add: cbuf_tail_advance_def Let_def)

lemma cbuf_tail_advance_wf: "cbuf_wf c \<Longrightarrow> cbuf_wf (cbuf_tail_advance c n)"
  by (auto simp: cbuf_tail_advance_def cbuf_avail_def cbuf_wf_def Let_def)

lemma cbuf_tail_advance_fields [simp]:
  "data (cbuf_tail_advance c n) = data c"
  "capacity (cbuf_tail_advance c n) = capacity c"
  "head (cbuf_tail_advance c n) = head c"
  by (simp_all add: cbuf_tail_advance_def Let_def)

lemma contents_tail_store:
  assumes wf: "cbuf_wf c" and x: "x \<le> cbuf_tail_size c"
  shows "contents (memcpy (cbuf_tail_data c) src x m) (cbuf_tail_advance c x)
    = contents m c @ bytes_at m src x"
proof (rule nth_equalityI)
  show "length (contents (memcpy (cbuf_tail_data c) src x m) (cbuf_tail_advance c x))
      = length (contents m c @ bytes_at m src x)"
    using wf x by (simp add: cbuf_tail_advance_eq)
next
  fix i
  assume "i < length (contents (memcpy (cbuf_tail_data c) src x m) (cbuf_tail_advance c x))"
  then have i: "i < size c + x"
    using wf x by (simp add: cbuf_tail_advance_eq)
  show "contents (memcpy (cbuf_tail_data c) src x m) (cbuf_tail_advance c x) ! i
      = (contents m c @ bytes_at m src x) ! i"
  proof (cases "i < size c")
    case True
    then show ?thesis
      using i wf x cbuf_used_not_in_tail [OF wf x True]
      by (auto simp: cbuf_tail_advance_eq contents_def nth_append memcpy_def cbuf_tail_data_def)
  next
    case False
    then obtain j where j: "i = size c + j" "j < x"
      using i by (metis add_diff_inverse_nat nat_add_left_cancel_less)
    then have "(head c + i) mod capacity c = cbuf_tail c + j"
      using cbuf_tail_index [OF wf, of j] x by simp
    then show ?thesis
      using i j wf x
      by (simp add: cbuf_tail_advance_eq contents_def nth_append memcpy_def cbuf_tail_data_def)
  qed
qed

text \<open>The head area holds the first bytes of the contents; advancing drops them.\<close>

lemma cbuf_head_index:
  "cbuf_wf c \<Longrightarrow> i < cbuf_head_size c \<Longrightarrow> head c + i = (head c + i) mod capacity c"
  by (auto simp: cbuf_head_size_def cbuf_wf_def Let_def split: if_splits)

lemma cbuf_head_advance_eq:
  "cbuf_wf c \<Longrightarrow> x \<le> size c \<Longrightarrow>
    cbuf_head_advance c x = c\<lparr>size := size c - x, head := (head c + x) mod capacity c\<rparr>"
  using cbuf_wrap_free [of c x] by (simp add: cbuf_head_advance_def cbuf_wf_def Let_def)

lemma cbuf_head_advance_wf: "cbuf_wf c \<Longrightarrow> cbuf_wf (cbuf_head_advance c n)"
  by (auto simp: cbuf_head_advance_def cbuf_wf_def Let_def)

lemma cbuf_head_advance_fields [simp]:
  "data (cbuf_head_advance c n) = data c"
  "capacity (cbuf_head_advance c n) = capacity c"
  by (simp_all add: cbuf_head_advance_def Let_def)

lemma contents_head_advance:
  "cbuf_wf c \<Longrightarrow> contents m (cbuf_head_advance c n) = drop n (contents m c)"
proof -
  assume wf: "cbuf_wf c"
  define x where "x = min n (size c)"
  have adv: "cbuf_head_advance c n = cbuf_head_advance c x"
    by (simp add: cbuf_head_advance_def x_def Let_def min_def)
  have "contents m (cbuf_head_advance c x) = drop x (contents m c)"
    using wf
    by (intro nth_equalityI)
      (auto simp: cbuf_head_advance_eq x_def contents_def mod_add_left_eq add.assoc)
  then show ?thesis
    using adv by (simp add: x_def min_def)
qed

lemma contents_head_piece:
  assumes wf: "cbuf_wf c" and x: "x \<le> cbuf_head_size c"
  shows "bytes_at m (cbuf_head_data c) x = take x (contents m c)"
proof (rule nth_equalityI)
  show "length (bytes_at m (cbuf_head_data c) x) = length (take x (contents m c))"
    using x cbuf_head_size_le [OF wf] by simp
next
  fix i
  assume "i < length (bytes_at m (cbuf_head_data c) x)"
  then show "bytes_at m (cbuf_head_data c) x ! i = take x (contents m c) ! i"
    using x cbuf_head_size_le [OF wf] cbuf_head_index [OF wf, of i]
    by (simp add: contents_def cbuf_head_data_def add.assoc)
qed

text \<open>Writes outside a buffer's storage leave its contents alone.\<close>

lemma contents_cong:
  "cbuf_wf c \<Longrightarrow> (\<And>a. data c \<le> a \<Longrightarrow> a < data c + capacity c \<Longrightarrow> m' a = m a) \<Longrightarrow>
    contents m' c = contents m c"
  by (simp add: contents_def cbuf_wf_def)

lemma contents_memcpy_frame [frame]:
  assumes "cbuf_wf c" "disjoint_regions dst n (data c) (capacity c)"
  shows "contents (memcpy dst src n m) c = contents m c"
  using assms by (intro contents_cong) (auto simp: memcpy_def disjoint_regions_def)

lemma tail_piece_inside:
  assumes "cbuf_wf c" "x \<le> cbuf_tail_size c" "disjoint_regions (data c) (capacity c) a n"
  shows "disjoint_regions (cbuf_tail_data c) x a n"
  using assms cbuf_tail_cases [OF assms(1)] cbuf_tail_size_eq [OF assms(1)]
  by (auto simp: disjoint_regions_def cbuf_tail_data_def cbuf_wf_def split: if_splits)

section \<open>Whole transfers\<close>

lemma move_in_loop_spec:
  assumes "cbuf_wf c" "count \<le> max_size" "disjoint_regions (data c) (capacity c) src max_size"
    and "move_in_loop src max_size count c m = (n, c', m')"
  shows "cbuf_wf c' \<and> n = min max_size (count + cbuf_avail c) \<and>
    data c' = data c \<and> capacity c' = capacity c \<and>
    contents m' c' = contents m c @ bytes_at m (src + count) (n - count) \<and>
    (\<forall>a. a < data c \<or> data c + capacity c \<le> a \<longrightarrow> m' a = m a)"
  using assms
proof (induction src max_size count c m arbitrary: n c' m' rule: move_in_loop.induct)
  case (1 src max_size count c m)
  define x where "x = min (cbuf_tail_size c) (max_size - count)"
  have x_eq: "(if cbuf_tail_size c < max_size - count then cbuf_tail_size c
      else max_size - count) = x"
    by (simp add: x_def)
  show ?case
  proof (cases "x = 0")
    case True
    then have "n = count" "c' = c" "m' = m"
      using "1.prems"(4) by (simp_all add: move_in_loop.simps [of src] Let_def x_eq)
    moreover have "count = max_size \<or> cbuf_avail c = 0"
      using True cbuf_tail_size_0 [OF "1.prems"(1)] "1.prems"(2) by (auto simp: x_def min_def split: if_splits)
    ultimately show ?thesis
      using "1.prems"(1,2) by auto
  next
    case False
    let ?c = "cbuf_tail_advance c x"
    let ?m = "memcpy (cbuf_tail_data c) (src + count) x m"
    have xt: "x \<le> cbuf_tail_size c" and xm: "count + x \<le> max_size"
      using "1.prems"(2) by (auto simp: x_def)
    have rec: "move_in_loop src max_size (count + x) ?c ?m = (n, c', m')"
      using False "1.prems"(4) by (simp add: move_in_loop.simps [of src _ count] Let_def x_eq)
    have av: "count + x + cbuf_avail ?c = count + cbuf_avail c"
      using xt cbuf_tail_size_le [OF "1.prems"(1)]
      by (simp add: cbuf_tail_advance_eq [OF "1.prems"(1) xt] cbuf_avail_def)
    have IH: "cbuf_wf c' \<and> n = min max_size (count + x + cbuf_avail ?c) \<and>
        data c' = data ?c \<and> capacity c' = capacity ?c \<and>
        contents m' c' = contents ?m ?c @ bytes_at ?m (src + (count + x)) (n - (count + x)) \<and>
        (\<forall>a. a < data ?c \<or> data ?c + capacity ?c \<le> a \<longrightarrow> m' a = ?m a)"
      using False xm "1.prems"(1,3) rec
      by (intro "1.IH" [OF refl refl x_eq [symmetric]]) (auto intro: cbuf_tail_advance_wf)
    have n: "count + x \<le> n" "n \<le> max_size"
      using IH av xm xt cbuf_tail_size_le [OF "1.prems"(1)] by auto
    have dis: "disjoint_regions (cbuf_tail_data c) x src max_size"
      by (rule tail_piece_inside [OF "1.prems"(1) xt "1.prems"(3)])
    have b: "bytes_at ?m (src + (count + x)) (n - (count + x)) = bytes_at m (src + (count + x)) (n - (count + x))"
      using dis n by (intro bytes_at_memcpy_frame) (auto simp: disjoint_regions_def)
    have "contents m' c' = contents m c @ bytes_at m (src + count) (n - count)"
      using IH b n bytes_at_add [of m "src + count" x "n - (count + x)"]
      by (simp add: contents_tail_store [OF "1.prems"(1) xt] add.assoc)
    moreover have "\<forall>a. a < data c \<or> data c + capacity c \<le> a \<longrightarrow> ?m a = m a"
      using cbuf_tail_cases [OF "1.prems"(1)] cbuf_tail_size_eq [OF "1.prems"(1)] xt "1.prems"(1)
      by (auto simp: memcpy_def cbuf_tail_data_def cbuf_wf_def split: if_splits)
    ultimately show ?thesis
      using IH av by auto
  qed
qed

lemma move_out_loop_spec:
  assumes "cbuf_wf c" "count \<le> max_size" "disjoint_regions (data c) (capacity c) dst max_size"
    and "move_out_loop dst max_size count c m = (n, c', m')"
  shows "cbuf_wf c' \<and> n = min max_size (count + size c) \<and>
    data c' = data c \<and> capacity c' = capacity c \<and>
    bytes_at m' dst n = bytes_at m dst count @ take (n - count) (contents m c) \<and>
    contents m' c' = drop (n - count) (contents m c) \<and>
    (\<forall>a. a < dst \<or> dst + n \<le> a \<longrightarrow> m' a = m a)"
  using assms
proof (induction dst max_size count c m arbitrary: n c' m' rule: move_out_loop.induct)
  case (1 dst max_size count c m)
  define x where "x = min (cbuf_head_size c) (max_size - count)"
  have x_eq: "(if cbuf_head_size c < max_size - count then cbuf_head_size c
      else max_size - count) = x"
    by (simp add: x_def)
  show ?case
  proof (cases "x = 0")
    case True
    then have "n = count" "c' = c" "m' = m"
      using "1.prems"(4) by (simp_all add: move_out_loop.simps [of dst] Let_def x_eq)
    moreover have "count = max_size \<or> size c = 0"
      using True cbuf_head_size_0 [OF "1.prems"(1)] "1.prems"(2)
      by (auto simp: x_def min_def split: if_splits)
    ultimately show ?thesis
      using "1.prems"(1,2) by auto
  next
    case False
    let ?c = "cbuf_head_advance c x"
    let ?m = "memcpy (dst + count) (cbuf_head_data c) x m"
    have xt: "x \<le> cbuf_head_size c" and xm: "count + x \<le> max_size"
      using "1.prems"(2) by (auto simp: x_def)
    have xs: "x \<le> size c"
      using xt cbuf_head_size_le [OF "1.prems"(1)] by simp
    have rec: "move_out_loop dst max_size (count + x) ?c ?m = (n, c', m')"
      using False "1.prems"(4) by (simp add: move_out_loop.simps [of dst _ count] Let_def x_eq)
    have IH: "cbuf_wf c' \<and> n = min max_size (count + x + size ?c) \<and>
        data c' = data ?c \<and> capacity c' = capacity ?c \<and>
        bytes_at m' dst n = bytes_at ?m dst (count + x) @ take (n - (count + x)) (contents ?m ?c) \<and>
        contents m' c' = drop (n - (count + x)) (contents ?m ?c) \<and>
        (\<forall>a. a < dst \<or> dst + n \<le> a \<longrightarrow> m' a = ?m a)"
      using False xm "1.prems"(1,3) rec
      by (intro "1.IH" [OF refl refl x_eq [symmetric]]) (auto intro: cbuf_head_advance_wf)
    have sz: "size ?c = size c - x"
      using xs by (simp add: cbuf_head_advance_eq [OF "1.prems"(1)])
    have n: "count + x \<le> n" "n \<le> max_size"
      using IH sz xm by auto
    have c: "contents ?m ?c = drop x (contents m c)"
      using "1.prems"(1,3) xm
      by (simp add: contents_head_advance)
        (subst contents_memcpy_frame, auto simp: disjoint_regions_def)
    have b: "bytes_at ?m dst (count + x) = bytes_at m dst count @ take x (contents m c)"
    proof -
      have "bytes_at ?m dst count = bytes_at m dst count"
        by (rule bytes_at_memcpy_frame) (simp add: disjoint_regions_def)
      moreover have "bytes_at ?m (dst + count) x = bytes_at m (cbuf_head_data c) x"
        by (rule nth_equalityI) (simp_all add: memcpy_def)
      ultimately show ?thesis
        using contents_head_piece [OF "1.prems"(1) xt] by (simp add: bytes_at_add)
    qed
    have "take x (contents m c) @ take (n - (count + x)) (drop x (contents m c))
        = take (n - count) (contents m c)"
      using n take_add [of x "n - (count + x)" "contents m c"] by simp
    moreover from IH have "bytes_at m' dst n
        = bytes_at ?m dst (count + x) @ take (n - (count + x)) (contents ?m ?c)"
      by blast
    ultimately have "bytes_at m' dst n = bytes_at m dst count @ take (n - count) (contents m c)"
      by (simp only: b c append_assoc)
    moreover have "contents m' c' = drop (n - count) (contents m c)"
      using IH c n by simp
    moreover have "\<forall>a. a < dst \<or> dst + n \<le> a \<longrightarrow> ?m a = m a"
      using n by (auto simp: memcpy_def)
    ultimately show ?thesis
      using IH sz xs by auto
  qed
qed

lemma move_loop_spec:
  assumes "cbuf_wf dst" "cbuf_wf src" "count \<le> max_size"
    and "disjoint_regions (data dst) (capacity dst) (data src) (capacity src)"
    and "move_loop max_size count dst src m = (n, dst', src', m')"
  shows "cbuf_wf dst' \<and> cbuf_wf src' \<and>
    n = min max_size (count + min (size src) (cbuf_avail dst)) \<and>
    contents m' dst' = contents m dst @ take (n - count) (contents m src) \<and>
    contents m' src' = drop (n - count) (contents m src)"
  using assms
proof (induction max_size count dst src m arbitrary: n dst' src' m' rule: move_loop.induct)
  case (1 max_size count dst src m)
  define y where "y = min (min (cbuf_head_size src) (cbuf_tail_size dst)) (max_size - count)"
  define x where "x = min (cbuf_head_size src) (cbuf_tail_size dst)"
  have x_eq: "(if cbuf_head_size src < cbuf_tail_size dst then cbuf_head_size src
      else cbuf_tail_size dst) = x"
    by (simp add: x_def)
  have y_eq: "(if x < max_size - count then x else max_size - count) = y"
    by (simp add: y_def x_def min_def)
  have step: "move_loop max_size count dst src m = (if y = 0 then (count, dst, src, m)
      else move_loop max_size (count + y) (cbuf_tail_advance dst y) (cbuf_head_advance src y)
             (memcpy (cbuf_tail_data dst) (cbuf_head_data src) y m))"
    by (subst move_loop.simps) (simp only: Let_def x_eq y_eq)
  note wf = "1.prems"(1,2)
  show ?case
  proof (cases "y = 0")
    case True
    then have "n = count" "dst' = dst" "src' = src" "m' = m"
      using "1.prems"(5) by (simp_all add: step)
    moreover have "count = max_size \<or> size src = 0 \<or> cbuf_avail dst = 0"
      using True cbuf_head_size_0 [OF wf(2)] cbuf_tail_size_0 [OF wf(1)] "1.prems"(3)
      by (auto simp: y_def min_def split: if_splits)
    ultimately show ?thesis
      using "1.prems" by auto
  next
    case False
    let ?d = "cbuf_tail_advance dst y" and ?s = "cbuf_head_advance src y"
    let ?m = "memcpy (cbuf_tail_data dst) (cbuf_head_data src) y m"
    have yt: "y \<le> cbuf_tail_size dst" and yh: "y \<le> cbuf_head_size src"
      and ym: "count + y \<le> max_size"
      using "1.prems"(3) by (auto simp: y_def)
    have ys: "y \<le> size src"
      using yh cbuf_head_size_le [OF wf(2)] by simp
    have rec: "move_loop max_size (count + y) ?d ?s ?m = (n, dst', src', m')"
      using False "1.prems"(5) by (simp add: step)
    have IH: "cbuf_wf dst' \<and> cbuf_wf src' \<and>
        n = min max_size (count + y + min (size ?s) (cbuf_avail ?d)) \<and>
        contents m' dst' = contents ?m ?d @ take (n - (count + y)) (contents ?m ?s) \<and>
        contents m' src' = drop (n - (count + y)) (contents ?m ?s)"
      using False ym "1.prems"(1,2,4) rec
      by (intro "1.IH" [OF refl refl refl x_eq [symmetric] y_eq [symmetric]])
        (auto intro: cbuf_head_advance_wf cbuf_tail_advance_wf)
    have sz: "size ?s = size src - y" "cbuf_avail ?d = cbuf_avail dst - y"
      using ys by (simp_all add: cbuf_head_advance_eq [OF wf(2)]
        cbuf_tail_advance_eq [OF wf(1) yt] cbuf_avail_def)
    have n: "n = min max_size (count + min (size src) (cbuf_avail dst))" "count + y \<le> n"
      using IH sz ys yt cbuf_tail_size_le [OF wf(1)] ym by auto
    have d: "contents ?m ?d = contents m dst @ take y (contents m src)"
      using contents_tail_store [OF wf(1) yt] contents_head_piece [OF wf(2) yh] by simp
    have s: "contents ?m ?s = drop y (contents m src)"
      using tail_piece_inside [OF wf(1) yt "1.prems"(4)] wf(2)
      by (simp add: contents_head_advance contents_memcpy_frame)
    have "take y (contents m src) @ take (n - (count + y)) (drop y (contents m src))
        = take (n - count) (contents m src)"
      using n take_add [of y "n - (count + y)" "contents m src"] by simp
    then show ?thesis
      using IH d s n by simp
  qed
qed

text \<open>
  C24: moving data into a circular buffer from a flat area outside its storage stores as
  many bytes as there is room for, in order, behind the bytes already queued, and writes
  nothing outside the storage.
\<close>

theorem cbuf_move_in_appends:
  assumes "cbuf_wf c" "disjoint_regions (data c) (capacity c) src max_size"
    and "cbuf_move_in c src max_size m = (n, c', m')"
  shows "cbuf_wf c' \<and> n = min max_size (cbuf_avail c) \<and>
    contents m' c' = contents m c @ bytes_at m src n \<and>
    (\<forall>a. a < data c \<or> data c + capacity c \<le> a \<longrightarrow> m' a = m a)"
  using move_in_loop_spec [of c 0 max_size src m n c' m'] assms
  by (simp add: cbuf_move_in_def)

theorem cbuf_move_in_appends_witness:
  "case cbuf_move_in \<lparr>data = 16, capacity = 4, head = 3, size = 2\<rparr> 100 10 of_nat of (n, c', m') \<Rightarrow>
     n = 2 \<and> contents m' c' = [19, 16, 100, 101]"
proof -
  let ?c = "\<lparr>data = 16, capacity = 4, head = 3, size = 2\<rparr>"
  obtain n c' m' where r: "cbuf_move_in ?c 100 10 of_nat = (n, c', m')"
    by (rule prod_cases3)
  have "cbuf_wf ?c" "disjoint_regions (data ?c) (capacity ?c) 100 10"
    by (simp_all add: cbuf_wf_def disjoint_regions_def)
  from cbuf_move_in_appends [OF this r] show ?thesis
    by (simp add: r cbuf_avail_def contents_def bytes_at_def upt_rec)
qed

text \<open>
  Moving data out of a circular buffer to a flat area outside its storage delivers the
  oldest bytes in order, removes exactly those, and writes nothing outside the area.
\<close>

theorem cbuf_move_out_takes:
  assumes "cbuf_wf c" "disjoint_regions (data c) (capacity c) dst max_size"
    and "cbuf_move_out c dst max_size m = (n, c', m')"
  shows "cbuf_wf c' \<and> n = min max_size (cbuf_used c) \<and>
    bytes_at m' dst n = take n (contents m c) \<and> contents m' c' = drop n (contents m c) \<and>
    (\<forall>a. a < dst \<or> dst + n \<le> a \<longrightarrow> m' a = m a)"
  using move_out_loop_spec [of c 0 max_size dst m n c' m'] assms
  unfolding cbuf_move_out_def cbuf_used_def
  by (auto simp del: take_all_iff)

theorem cbuf_move_out_takes_witness:
  "case cbuf_move_out \<lparr>data = 16, capacity = 4, head = 3, size = 3\<rparr> 100 2 of_nat of (n, c', m') \<Rightarrow>
     bytes_at m' 100 n = [19, 16] \<and> contents m' c' = [17]"
proof -
  let ?c = "\<lparr>data = 16, capacity = 4, head = 3, size = 3\<rparr>"
  obtain n c' m' where r: "cbuf_move_out ?c 100 2 of_nat = (n, c', m')"
    by (rule prod_cases3)
  have "cbuf_wf ?c" "disjoint_regions (data ?c) (capacity ?c) 100 2"
    by (simp_all add: cbuf_wf_def disjoint_regions_def)
  moreover have "contents of_nat ?c = [19, 16, 17]"
    by (simp add: contents_def upt_rec)
  ultimately show ?thesis
    using cbuf_move_out_takes [OF _ _ r] by (auto simp: r cbuf_used_def)
qed

text \<open>
  Moving between two circular buffers with disjoint storage transfers the oldest bytes
  of the source, in order, to the end of the destination; the amount is limited by the
  source, the free room of the destination and the caller's limit, where 0 means no limit.
\<close>

theorem cbuf_move_transfers:
  assumes "cbuf_wf dst" "cbuf_wf src"
    and "disjoint_regions (data dst) (capacity dst) (data src) (capacity src)"
    and "cbuf_move dst src max_size m = (n, dst', src', m')"
  shows "cbuf_wf dst' \<and> cbuf_wf src' \<and>
    n = min (if max_size = 0 then cbuf_used src else max_size)
          (min (cbuf_used src) (cbuf_avail dst)) \<and>
    contents m' dst' = contents m dst @ take n (contents m src) \<and>
    contents m' src' = drop n (contents m src)"
  using move_loop_spec [of dst src 0 "if max_size = 0 then size src else max_size" m n dst' src' m']
    assms
  by (simp add: cbuf_move_def cbuf_used_def)

theorem cbuf_move_transfers_witness:
  "case cbuf_move \<lparr>data = 16, capacity = 5, head = 3, size = 2\<rparr>
          \<lparr>data = 32, capacity = 8, head = 6, size = 5\<rparr> 0 of_nat of (n, dst', src', m') \<Rightarrow>
     contents m' dst' = [19, 20, 38, 39, 32] \<and> contents m' src' = [33, 34]"
proof -
  let ?d = "\<lparr>data = 16, capacity = 5, head = 3, size = 2\<rparr>"
  let ?s = "\<lparr>data = 32, capacity = 8, head = 6, size = 5\<rparr>"
  obtain n dst' src' m' where r: "cbuf_move ?d ?s 0 of_nat = (n, dst', src', m')"
    by (rule prod_cases4)
  have "cbuf_wf ?d" "cbuf_wf ?s"
    "disjoint_regions (data ?d) (capacity ?d) (data ?s) (capacity ?s)"
    by (simp_all add: cbuf_wf_def disjoint_regions_def)
  moreover have "contents of_nat ?d = [19, 20]" "contents of_nat ?s = [38, 39, 32, 33, 34]"
    by (simp_all add: contents_def upt_rec)
  ultimately show ?thesis
    using cbuf_move_transfers [OF _ _ _ r] by (auto simp: r cbuf_used_def cbuf_avail_def)
qed

end
