(* ===== verification/Dlb_Slist.thy ===== *)
theory Dlb_Slist
  imports Dlb_Prelude
begin

text \<open>
  The singly-linked list with a tail pointer of src/src/slist.h and src/src/slist.c. The nodes
  live in a heap of \<open>next\<close> pointers; a list is the pair of its first and last node. The
  abstraction relation \<open>slist_rep\<close> says which sequence of nodes a list holds. The interface
  that the run queue and the IO queue rely on is the locale \<open>fifo\<close>, interpreted here on
  \<open>slist_append\<close> and \<open>slist_pop\<close>.
\<close>

section \<open>The first-in first-out interface\<close>

text \<open>Taking several elements in a row, as a dispatcher does.\<close>

fun drain :: "('s \<Rightarrow> 'a \<times> 's) \<Rightarrow> nat \<Rightarrow> 's \<Rightarrow> 'a list \<times> 's" where
  "drain get 0 s = ([], s)"
| "drain get (Suc n) s =
     (let (x, s1) = get s; (xs, s2) = drain get n s1 in (x # xs, s2))"

locale fifo =
  fixes rep :: "'s \<Rightarrow> 'a list \<Rightarrow> bool"
    and none :: 'a
    and put :: "'a \<Rightarrow> 's \<Rightarrow> 's"
    and get :: "'s \<Rightarrow> 'a \<times> 's"
  assumes put_law: "rep s xs \<Longrightarrow> x \<notin> set xs \<Longrightarrow> x \<noteq> none \<Longrightarrow> rep (put x s) (xs @ [x])"
    and get_empty_law: "rep s [] \<Longrightarrow> get s = (none, s)"
    and get_law: "rep s (x # xs) \<Longrightarrow> \<exists>s'. get s = (x, s') \<and> rep s' xs"
    and rep_distinct: "rep s xs \<Longrightarrow> distinct xs \<and> none \<notin> set xs"
begin

lemma put_all:
  "rep s xs \<Longrightarrow> distinct (xs @ ys) \<Longrightarrow> none \<notin> set ys \<Longrightarrow> rep (fold put ys s) (xs @ ys)"
proof (induction ys arbitrary: s xs)
  case (Cons y ys)
  then have "rep (put y s) (xs @ [y])"
    by (intro put_law) auto
  from Cons.IH [OF this] Cons.prems show ?case
    by simp
qed simp

lemma drain_prefix:
  "rep s xs \<Longrightarrow> n \<le> length xs \<Longrightarrow> \<exists>s'. drain get n s = (take n xs, s') \<and> rep s' (drop n xs)"
proof (induction n arbitrary: s xs)
  case (Suc n)
  then obtain x ys where xs: "xs = x # ys"
    by (cases xs) auto
  with Suc.prems get_law obtain s1 where s1: "get s = (x, s1)" "rep s1 ys"
    by blast
  with Suc.IH [of s1 ys] Suc.prems xs show ?case
    by (auto simp: Let_def)
qed simp

lemma put_all_drain_all:
  assumes "rep s []" "distinct ys" "none \<notin> set ys"
  shows "\<exists>s'. drain get (length ys) (fold put ys s) = (ys, s') \<and> rep s' []"
  using drain_prefix [of "fold put ys s" ys "length ys"] put_all [of s "[]" ys] assms by simp

end

section \<open>Nodes, lists and operations\<close>

record slist =
  start :: addr
  slist_end :: addr

type_synonym slist_heap = "addr \<Rightarrow> addr"  \<comment> \<open>the \<open>next\<close> field of every node\<close>

type_synonym slist_state = "slist_heap \<times> slist"

definition slist_is_empty :: "slist \<Rightarrow> bool" where
  "slist_is_empty s \<longleftrightarrow> start s = NULL"

definition slist_init :: slist where
  "slist_init = \<lparr>start = NULL, slist_end = NULL\<rparr>"

definition slist_push :: "addr \<Rightarrow> slist_state \<Rightarrow> slist_state" where
  "slist_push n st = (case st of (h, s) \<Rightarrow>
     (h(n := start s),
      s\<lparr>start := n, slist_end := (if slist_end s = NULL then n else slist_end s)\<rparr>))"

definition slist_pop :: "slist_state \<Rightarrow> addr \<times> slist_state" where
  "slist_pop st = (case st of (h, s) \<Rightarrow>
     (let r = start s in
      if r = NULL then (NULL, (h, s))
      else (r, (h, s\<lparr>start := h r, slist_end := (if h r = NULL then NULL else slist_end s)\<rparr>))))"

definition slist_append :: "addr \<Rightarrow> slist_state \<Rightarrow> slist_state" where
  "slist_append n st = (case st of (h, s) \<Rightarrow>
     (let h1 = h(n := NULL) in
      if slist_end s \<noteq> NULL
      then (h1(slist_end s := n), s\<lparr>slist_end := n\<rparr>)
      else (h1, s\<lparr>start := n, slist_end := n\<rparr>)))"

section \<open>Which nodes a list holds\<close>

fun lseg :: "slist_heap \<Rightarrow> addr \<Rightarrow> addr list \<Rightarrow> addr \<Rightarrow> bool" where
  "lseg h p [] q \<longleftrightarrow> p = q"
| "lseg h p (x # xs) q \<longleftrightarrow> p = x \<and> lseg h (h x) xs q"

lemma lseg_append [simp]: "lseg h p (xs @ ys) q \<longleftrightarrow> (\<exists>r. lseg h p xs r \<and> lseg h r ys q)"
  by (induction xs arbitrary: p) auto

lemma lseg_frame [frame]: "x \<notin> set xs \<Longrightarrow> lseg (h(x := v)) p xs q = lseg h p xs q"
  by (induction xs arbitrary: p) auto

definition slist_rep :: "slist_state \<Rightarrow> addr list \<Rightarrow> bool" where
  "slist_rep st xs \<longleftrightarrow> (case st of (h, s) \<Rightarrow>
     lseg h (start s) xs NULL \<and> distinct xs \<and> NULL \<notin> set xs \<and>
     slist_end s = (if xs = [] then NULL else last xs))"

lemma slist_rep_unique: "slist_rep st xs \<Longrightarrow> slist_rep st ys \<Longrightarrow> xs = ys"
proof -
  have "lseg h p xs NULL \<Longrightarrow> lseg h p ys NULL \<Longrightarrow> NULL \<notin> set xs \<Longrightarrow> NULL \<notin> set ys \<Longrightarrow> xs = ys"
    for h p
  proof (induction xs arbitrary: p ys)
    case Nil
    then show ?case by (cases ys) auto
  next
    case (Cons x xs)
    then show ?case by (cases ys) auto
  qed
  then show "slist_rep st xs \<Longrightarrow> slist_rep st ys \<Longrightarrow> xs = ys"
    by (cases st) (auto simp: slist_rep_def)
qed

lemma slist_init_rep: "slist_rep (h, slist_init) []"
  by (simp add: slist_rep_def slist_init_def)

lemma slist_is_empty_rep: "slist_rep (h, s) xs \<Longrightarrow> slist_is_empty s \<longleftrightarrow> xs = []"
  by (cases xs) (auto simp: slist_rep_def slist_is_empty_def)

lemma slist_push_rep:
  "slist_rep st xs \<Longrightarrow> n \<notin> set xs \<Longrightarrow> n \<noteq> NULL \<Longrightarrow> slist_rep (slist_push n st) (n # xs)"
  by (cases st; cases xs rule: rev_cases) (auto simp: slist_rep_def slist_push_def frame)

lemma slist_append_rep:
  assumes rep: "slist_rep st xs" and n: "n \<notin> set xs" "n \<noteq> NULL"
  shows "slist_rep (slist_append n st) (xs @ [n])"
proof (cases xs rule: rev_cases)
  case Nil
  with assms show ?thesis
    by (cases st) (auto simp: slist_rep_def slist_append_def)
next
  case (snoc ys y)
  obtain h s where st: "st = (h, s)"
    by (cases st)
  have "lseg h (start s) ys y" and y: "y \<noteq> NULL" "y \<noteq> n" "n \<notin> set ys" "y \<notin> set ys"
    and e: "slist_end s = y"
    using rep n by (auto simp: slist_rep_def st snoc)
  then have "lseg (h(n := NULL, y := n)) (start s) ys y"
    by (simp add: frame)
  with y e rep n show ?thesis
    by (auto simp: slist_rep_def slist_append_def st snoc Let_def)
qed

lemma slist_pop_rep:
  "slist_rep st (x # xs) \<Longrightarrow> \<exists>st'. slist_pop st = (x, st') \<and> slist_rep st' xs"
  by (cases st; cases xs) (auto simp: slist_rep_def slist_pop_def Let_def)

lemma slist_pop_empty: "slist_rep st [] \<Longrightarrow> slist_pop st = (NULL, st)"
  by (cases st) (auto simp: slist_rep_def slist_pop_def Let_def)

interpretation slist_fifo: fifo slist_rep NULL slist_append slist_pop
proof unfold_locales
  show "slist_rep s xs \<Longrightarrow> distinct xs \<and> NULL \<notin> set xs" for s xs
    by (cases s) (simp add: slist_rep_def)
qed (auto intro: slist_append_rep dest: slist_pop_rep slist_pop_empty)

text \<open>
  Appending distinct nodes to an empty singly-linked list and popping as many returns
  them in the order they were appended and leaves the list empty.
\<close>

theorem slist_append_pop_order:
  assumes "distinct ns" "NULL \<notin> set ns"
  shows "\<exists>st. drain slist_pop (length ns) (fold slist_append ns (h, slist_init)) = (ns, st)
    \<and> slist_rep st []"
  using slist_fifo.put_all_drain_all [OF slist_init_rep assms] by blast

theorem slist_append_pop_order_witness:
  "fst (drain slist_pop 3 (fold slist_append [5, 2, 9] (\<lambda>_. 7, slist_init))) = [5, 2, 9]"
proof -
  have "distinct [5, 2, 9 :: addr]" "NULL \<notin> set [5, 2, 9]"
    by simp_all
  from slist_append_pop_order [OF this, of "\<lambda>_. 7"] show ?thesis
    by (auto simp: numeral_3_eq_3)
qed

end
