(* ===== verification/Dlb_List.thy ===== *)
theory Dlb_List
  imports Dlb_Prelude
begin

text \<open>
  The circular doubly-linked list of src/src/list.h and src/src/list.c. The heap holds the
  \<open>next\<close> and \<open>prev\<close> pointers of all nodes; a list is given by the address of its head node.
  The relation \<open>list_rep\<close> says which nodes hang on a head, in order; each operation is shown
  to have its intended effect on that sequence and to leave other lists alone.
\<close>

section \<open>The heap and the operations\<close>

record list_heap =
  nxt :: "addr \<Rightarrow> addr"
  prv :: "addr \<Rightarrow> addr"

definition list_init :: "addr \<Rightarrow> list_heap \<Rightarrow> list_heap" where
  "list_init hd0 h = h\<lparr>nxt := (nxt h)(hd0 := hd0), prv := (prv h)(hd0 := hd0)\<rparr>"

definition list_is_empty :: "addr \<Rightarrow> list_heap \<Rightarrow> bool" where
  "list_is_empty lst h \<longleftrightarrow> nxt h lst = lst"

definition list_insert :: "addr \<Rightarrow> addr \<Rightarrow> list_heap \<Rightarrow> list_heap" where
  "list_insert item after h =
     (let h1 = h\<lparr>nxt := (nxt h)(item := after)\<rparr>;
          h2 = h1\<lparr>prv := (prv h1)(item := prv h1 after)\<rparr>;
          h3 = h2\<lparr>nxt := (nxt h2)(prv h2 after := item)\<rparr>
      in h3\<lparr>prv := (prv h3)(after := item)\<rparr>)"

definition list_remove :: "addr \<Rightarrow> list_heap \<Rightarrow> list_heap" where
  "list_remove item h =
     (let h1 = h\<lparr>prv := (prv h)(nxt h item := prv h item)\<rparr>;
          h2 = h1\<lparr>nxt := (nxt h1)(prv h1 item := nxt h1 item)\<rparr>;
          h3 = h2\<lparr>prv := (prv h2)(item := NULL)\<rparr>
      in h3\<lparr>nxt := (nxt h3)(item := NULL)\<rparr>)"

definition list_move :: "addr \<Rightarrow> addr \<Rightarrow> list_heap \<Rightarrow> list_heap" where
  "list_move dst src h =
     (if list_is_empty src h
      then h\<lparr>prv := (prv h)(dst := dst), nxt := (nxt h)(dst := dst)\<rparr>
      else
       (let h1 = h\<lparr>nxt := (nxt h)(dst := nxt h src)\<rparr>;
            h2 = h1\<lparr>prv := (prv h1)(dst := prv h1 src)\<rparr>;
            h3 = h2\<lparr>prv := (prv h2)(nxt h2 dst := dst)\<rparr>;
            h4 = h3\<lparr>nxt := (nxt h3)(prv h3 dst := dst)\<rparr>
        in h4\<lparr>prv := (prv h4)(src := src), nxt := (nxt h4)(src := src)\<rparr>))"

section \<open>Which nodes hang on a head\<close>

text \<open>\<open>dseg h a xs b\<close>: from \<open>a\<close> the links lead through \<open>xs\<close> to \<open>b\<close>, in both directions.\<close>

fun dseg :: "list_heap \<Rightarrow> addr \<Rightarrow> addr list \<Rightarrow> addr \<Rightarrow> bool" where
  "dseg h a [] b \<longleftrightarrow> nxt h a = b \<and> prv h b = a"
| "dseg h a (x # xs) b \<longleftrightarrow> nxt h a = x \<and> prv h x = a \<and> dseg h x xs b"

lemma dseg_append: "dseg h a (xs @ y # ys) b \<longleftrightarrow> dseg h a xs y \<and> dseg h y ys b"
  by (induction xs arbitrary: a) auto

lemma dseg_cong:
  "(\<And>x. x = a \<or> x \<in> set xs \<Longrightarrow> nxt h' x = nxt h x) \<Longrightarrow>
   (\<And>x. x = b \<or> x \<in> set xs \<Longrightarrow> prv h' x = prv h x) \<Longrightarrow> dseg h' a xs b = dseg h a xs b"
  by (induction xs arbitrary: a) auto

definition list_rep :: "list_heap \<Rightarrow> addr \<Rightarrow> addr list \<Rightarrow> bool" where
  "list_rep h hd0 xs \<longleftrightarrow> dseg h hd0 xs hd0 \<and> distinct (hd0 # xs) \<and> NULL \<notin> set (hd0 # xs)"

text \<open>A list is unaffected by changes to the pointers of other nodes.\<close>

lemma list_rep_frame:
  "(\<And>x. x \<in> set (hd0 # xs) \<Longrightarrow> nxt h' x = nxt h x \<and> prv h' x = prv h x) \<Longrightarrow>
    list_rep h' hd0 xs = list_rep h hd0 xs"
  using dseg_cong [of hd0 xs h' h hd0] by (auto simp: list_rep_def)

lemma list_init_rep: "hd0 \<noteq> NULL \<Longrightarrow> list_rep (list_init hd0 h) hd0 []"
  by (simp add: list_rep_def list_init_def)

lemma list_is_empty_rep: "list_rep h hd0 xs \<Longrightarrow> list_is_empty hd0 h \<longleftrightarrow> xs = []"
  by (cases xs) (auto simp: list_rep_def list_is_empty_def)

text \<open>The neighbours of a position, whatever lies on either side of it.\<close>

lemma dseg_gap:
  assumes "dseg h a (xs @ ys) b"
  defines "p \<equiv> last (a # xs)" and "q \<equiv> hd (ys @ [b])"
  shows "nxt h p = q" "prv h q = p"
proof -
  have "nxt h p = q \<and> prv h q = p"
    using assms(1) unfolding p_def q_def
    by (induction xs arbitrary: a) (cases ys, auto)
  then show "nxt h p = q" "prv h q = p"
    by auto
qed

lemma dseg_relink:
  assumes "dseg h a (xs @ ys) b" "distinct (a # xs @ ys)" "b \<notin> set (xs @ ys)"
  defines "p \<equiv> last (a # xs)" and "q \<equiv> hd (ys @ [b])"
  assumes n: "\<And>x. x \<in> set (a # xs @ ys) \<Longrightarrow> x \<noteq> p \<Longrightarrow> nxt h' x = nxt h x"
    and v: "\<And>x. x \<in> set (b # xs @ ys) \<Longrightarrow> x \<noteq> q \<Longrightarrow> prv h' x = prv h x"
    and mid: "nxt h' p = m" "prv h' m = p" "nxt h' m = q" "prv h' q = m"
  shows "dseg h' a (xs @ m # ys) b"
  using assms(1-3) n v mid unfolding p_def q_def
proof (induction xs arbitrary: a)
  case Nil
  then show ?case
  proof (cases ys)
    case (Cons y zs)
    have "nxt h' x = nxt h x" if "x = y \<or> x \<in> set zs" for x
      using that Nil.prems(2) Nil.prems(4) [of x] by (auto simp: Cons)
    moreover have "prv h' x = prv h x" if "x = b \<or> x \<in> set zs" for x
      using that Nil.prems(2,3) Nil.prems(5) [of x] by (auto simp: Cons)
    ultimately have "dseg h' y zs b = dseg h y zs b"
      by (rule dseg_cong)
    with Nil.prems(1) Nil.prems(6-) show ?thesis by (simp add: Cons)
  qed simp
next
  case (Cons x xs)
  have "x \<noteq> hd (ys @ [b])"
    using Cons.prems(2,3) by (cases ys) auto
  moreover have "dseg h' x (xs @ m # ys) b"
    using Cons.prems(1-3) Cons.prems(6-) by (intro Cons.IH Cons.prems(4,5)) auto
  moreover have "a \<noteq> last (x # xs)"
    using Cons.prems(2) last_in_set [of "x # xs"] by (auto split: if_splits)
  ultimately show ?case
    using Cons.prems(1) Cons.prems(4) [of a] Cons.prems(5) [of x] by simp
qed

lemma list_insert_rep:
  assumes rep: "list_rep h hd0 (xs @ ys)" and item: "item \<notin> set (hd0 # xs @ ys)" "item \<noteq> NULL"
  shows "list_rep (list_insert item (hd (ys @ [hd0])) h) hd0 (xs @ item # ys)"
proof -
  let ?q = "hd (ys @ [hd0])" and ?p = "last (hd0 # xs)"
  have d: "dseg h hd0 (xs @ ys) hd0" "distinct (hd0 # xs @ ys)" "hd0 \<notin> set (xs @ ys)"
    using rep by (auto simp: list_rep_def)
  have pq: "nxt h ?p = ?q" "prv h ?q = ?p"
    using dseg_gap [OF d(1)] by auto
  have q_in: "?q \<in> set (hd0 # xs @ ys)" and p_in: "?p \<in> set (hd0 # xs @ ys)"
    by (cases ys, auto)
  have neq: "item \<noteq> ?q" "item \<noteq> ?p"
    using item q_in p_in by auto
  have "dseg (list_insert item ?q h) hd0 (xs @ item # ys) hd0"
    using item pq neq
    by (intro dseg_relink [OF d]) (auto simp: list_insert_def Let_def)
  then show ?thesis
    using rep item by (auto simp: list_rep_def)
qed

text \<open>
  Inserting a node before a given node of a circular doubly-linked list (or before the
  head, which is the end of the list) puts it exactly there, in both directions, and keeps
  the order of all other nodes.
\<close>

theorem list_insert_before:
  assumes "list_rep h hd0 (xs @ ys)" and "item \<notin> set (hd0 # xs @ ys)" "item \<noteq> NULL"
  shows "list_rep (list_insert item (hd (ys @ [hd0])) h) hd0 (xs @ item # ys)"
  using assms by (rule list_insert_rep)

theorem list_insert_before_witness:
  "list_rep (list_insert 3 2 (list_insert 2 9 (list_init 9 \<lparr>nxt = (\<lambda>_. 0), prv = (\<lambda>_. 0)\<rparr>)))
     9 [3, 2]"
proof -
  let ?h = "list_init 9 \<lparr>nxt = (\<lambda>_. 0), prv = (\<lambda>_. 0)\<rparr>"
  have "list_rep ?h 9 ([] @ [])"
    by (simp add: list_init_rep)
  from list_insert_before [OF this, of 2] have "list_rep (list_insert 2 9 ?h) 9 ([] @ [2])"
    by simp
  from list_insert_before [OF this, of 3] show ?thesis
    by simp
qed

section \<open>Removing and moving\<close>

lemma dseg_unlink:
  assumes "dseg h a (xs @ m # ys) b" "distinct (a # xs @ m # ys)" "b \<notin> set (xs @ m # ys)"
  defines "p \<equiv> last (a # xs)" and "q \<equiv> hd (ys @ [b])"
  assumes n: "\<And>x. x \<in> set (a # xs @ ys) \<Longrightarrow> x \<noteq> p \<Longrightarrow> nxt h' x = nxt h x"
    and v: "\<And>x. x \<in> set (b # xs @ ys) \<Longrightarrow> x \<noteq> q \<Longrightarrow> prv h' x = prv h x"
    and mid: "nxt h' p = q" "prv h' q = p"
  shows "dseg h' a (xs @ ys) b"
  using assms(1-3) n v mid unfolding p_def q_def
proof (induction xs arbitrary: a)
  case Nil
  then show ?case
  proof (cases ys)
    case (Cons y zs)
    have "nxt h' x = nxt h x" if "x = y \<or> x \<in> set zs" for x
      using that Nil.prems(2) Nil.prems(4) [of x] by (auto simp: Cons)
    moreover have "prv h' x = prv h x" if "x = b \<or> x \<in> set zs" for x
      using that Nil.prems(2,3) Nil.prems(5) [of x] by (auto simp: Cons)
    ultimately have "dseg h' y zs b = dseg h y zs b"
      by (rule dseg_cong)
    with Nil.prems(1) Nil.prems(6-) show ?thesis by (simp add: Cons)
  qed simp
next
  case (Cons x xs)
  have "x \<noteq> hd (ys @ [b])"
    using Cons.prems(2,3) by (cases ys) auto
  moreover have "dseg h' x (xs @ ys) b"
    using Cons.prems(1-3) Cons.prems(6-) by (intro Cons.IH Cons.prems(4,5)) auto
  moreover have "a \<noteq> last (x # xs)"
    using Cons.prems(2) last_in_set [of "x # xs"] by (auto split: if_splits)
  ultimately show ?case
    using Cons.prems(1) Cons.prems(4) [of a] Cons.prems(5) [of x] by simp
qed

lemma list_remove_rep:
  assumes rep: "list_rep h hd0 (xs @ item # ys)"
  shows "list_rep (list_remove item h) hd0 (xs @ ys)"
    and "nxt (list_remove item h) item = NULL" "prv (list_remove item h) item = NULL"
proof -
  let ?q = "hd (ys @ [hd0])" and ?p = "last (hd0 # xs)"
  have d: "dseg h hd0 (xs @ item # ys) hd0" "distinct (hd0 # xs @ item # ys)"
    "hd0 \<notin> set (xs @ item # ys)"
    using rep by (auto simp: list_rep_def)
  have pi: "prv h item = ?p"
    using dseg_gap [of h hd0 xs "item # ys" hd0] d(1) by simp
  have iq: "nxt h item = ?q"
    using dseg_gap [of h hd0 "xs @ [item]" ys hd0] d(1) by simp
  have neq: "item \<noteq> ?q" "item \<noteq> ?p"
    using d(2,3) last_in_set [of "hd0 # xs"] by (cases ys; auto split: if_splits)+
  have "dseg (list_remove item h) hd0 (xs @ ys) hd0"
    using pi iq neq d(2)
    by (intro dseg_unlink [OF d]) (auto simp: list_remove_def Let_def)
  then show "list_rep (list_remove item h) hd0 (xs @ ys)"
    using rep by (auto simp: list_rep_def)
  show "nxt (list_remove item h) item = NULL" "prv (list_remove item h) item = NULL"
    by (simp_all add: list_remove_def Let_def)
qed

text \<open>
  Removing a node that was just inserted restores the list it was inserted into, and
  the removed node's own links are cleared.
\<close>

theorem list_insert_remove:
  assumes "list_rep h hd0 (xs @ ys)" and "item \<notin> set (hd0 # xs @ ys)" "item \<noteq> NULL"
  shows "let h' = list_remove item (list_insert item (hd (ys @ [hd0])) h) in
    list_rep h' hd0 (xs @ ys) \<and> nxt h' item = NULL \<and> prv h' item = NULL"
  using list_remove_rep [OF list_insert_rep [OF assms]] by (simp add: Let_def)

theorem list_insert_remove_witness:
  "list_rep (list_remove 3 (list_insert 3 9 (list_init 9 \<lparr>nxt = (\<lambda>_. 0), prv = (\<lambda>_. 0)\<rparr>))) 9 []"
proof -
  let ?h = "list_init 9 \<lparr>nxt = (\<lambda>_. 0), prv = (\<lambda>_. 0)\<rparr>"
  have "list_rep ?h 9 ([] @ [])"
    by (simp add: list_init_rep)
  from list_insert_remove [OF this, of 3] show ?thesis
    by (simp add: Let_def)
qed

text \<open>
  Moving one list to another head transfers all nodes in order and leaves the source
  empty, whether or not the source was empty before.
\<close>

theorem list_move_rep:
  assumes rep: "list_rep h src xs" and dst: "dst \<notin> set (src # xs)" "dst \<noteq> NULL"
  shows "list_rep (list_move dst src h) dst xs \<and> list_rep (list_move dst src h) src []"
proof (cases xs rule: rev_cases)
  case Nil
  with assms show ?thesis
    by (auto simp: list_rep_def list_move_def list_is_empty_def)
next
  case (snoc ys z)
  have ne: "\<not> list_is_empty src h"
    using list_is_empty_rep [OF rep] snoc by simp
  have d: "dseg h src (ys @ [z]) src" "distinct (src # ys @ [z])" "NULL \<notin> set (src # ys @ [z])"
    using rep by (auto simp: list_rep_def snoc)
  let ?h = "list_move dst src h"
  have z: "prv h src = z" "nxt h z = src"
    using dseg_gap [of h src "ys @ [z]" "[]" src] d(1) by auto
  show ?thesis
  proof (cases ys)
    case Nil
    with ne d z dst show ?thesis
      by (auto simp: snoc list_rep_def list_move_def Let_def)
  next
    case (Cons y us)
    have y: "nxt h src = y" "prv h y = src" "dseg h y us z"
      using d(1) by (auto simp: Cons dseg_append)
    have "dseg ?h y us z = dseg h y us z"
      using d(2) dst z y(1)
      by (intro dseg_cong) (auto simp: Cons snoc ne list_move_def Let_def)
    moreover have "nxt ?h dst = y" "prv ?h y = dst" "nxt ?h z = dst" "prv ?h dst = z"
      "nxt ?h src = src" "prv ?h src = src"
      using ne d(2) z y(1) dst by (auto simp: Cons snoc list_move_def Let_def)
    ultimately show ?thesis
      using y(3) d(2,3) dst by (auto simp: list_rep_def snoc Cons dseg_append)
  qed
qed

theorem list_move_rep_witness:
  "list_rep (list_move 4 9 (list_insert 3 9 (list_init 9 \<lparr>nxt = (\<lambda>_. 0), prv = (\<lambda>_. 0)\<rparr>))) 4 [3]"
proof -
  let ?h = "list_insert 3 9 (list_init 9 \<lparr>nxt = (\<lambda>_. 0), prv = (\<lambda>_. 0)\<rparr>)"
  have "list_rep ?h 9 [3]"
    by (simp add: list_rep_def list_insert_def list_init_def Let_def)
  from list_move_rep [OF this, of 4] show ?thesis
    by simp
qed

section \<open>Families of lists\<close>

text \<open>Several lists in one heap that share no node.\<close>

definition family :: "list_heap \<Rightarrow> addr set \<Rightarrow> (addr \<Rightarrow> addr list) \<Rightarrow> bool" where
  "family h H L \<longleftrightarrow> (\<forall>a \<in> H. list_rep h a (L a)) \<and>
     (\<forall>a \<in> H. \<forall>b \<in> H. a \<noteq> b \<longrightarrow> set (a # L a) \<inter> set (b # L b) = {})"

definition family_nodes :: "addr set \<Rightarrow> (addr \<Rightarrow> addr list) \<Rightarrow> addr set" where
  "family_nodes H L = (\<Union>a \<in> H. set (a # L a))"

lemma familyD:
  assumes "family h H L" "a \<in> H"
  shows "list_rep h a (L a)" "b \<in> H \<Longrightarrow> a \<noteq> b \<Longrightarrow> set (a # L a) \<inter> set (b # L b) = {}"
    "a \<noteq> NULL" "NULL \<notin> set (L a)" "distinct (L a)" "a \<notin> set (L a)"
proof -
  show rep: "list_rep h a (L a)"
    using assms by (simp add: family_def)
  show "b \<in> H \<Longrightarrow> a \<noteq> b \<Longrightarrow> set (a # L a) \<inter> set (b # L b) = {}"
    using assms unfolding family_def by blast
  show "a \<noteq> NULL" "NULL \<notin> set (L a)" "distinct (L a)" "a \<notin> set (L a)"
    using rep by (auto simp: list_rep_def)
qed

text \<open>An update that touches only nodes of one list, or new nodes, keeps the others.\<close>

lemma family_update:
  assumes fam: "family h H L" and rep: "list_rep h' a xs"
    and touch: "\<And>x. x \<notin> T \<Longrightarrow> nxt h' x = nxt h x \<and> prv h' x = prv h x"
    and own: "T \<union> set xs \<subseteq> set (a # L a) \<union> N" and new: "N \<inter> family_nodes H L = {}"
    and a: "a \<in> H"
  shows "family h' H (L(a := xs))"
proof -
  have other: "(T \<union> set (a # xs)) \<inter> set (b # L b) = {}" if b: "b \<in> H" "b \<noteq> a" for b
  proof -
    have "set (a # L a) \<inter> set (b # L b) = {}" "N \<inter> set (b # L b) = {}"
      using familyD(2) [OF fam a b(1)] b new by (auto simp: family_nodes_def)
    moreover have "T \<union> set (a # xs) \<subseteq> set (a # L a) \<union> N"
      using own by auto
    ultimately show ?thesis by blast
  qed
  have "list_rep h' b (L b)" if b: "b \<in> H" "b \<noteq> a" for b
  proof -
    have "list_rep h' b (L b) = list_rep h b (L b)"
      using other [OF b] by (intro list_rep_frame touch) auto
    then show ?thesis using familyD(1) [OF fam b(1)] by simp
  qed
  moreover have "set (b # L b) \<inter> set (c # L c) = {}" if "b \<in> H" "c \<in> H" "b \<noteq> c" for b c
    using familyD(2) [OF fam that(1,2,3)] .
  moreover have "set (a # xs) \<inter> set (b # L b) = {}" if "b \<in> H" "b \<noteq> a" for b
    using other [OF that] by blast
  ultimately show ?thesis
    unfolding family_def using rep by (simp add: Int_commute)
qed

lemma family_append:
  assumes fam: "family h H L" and a: "a \<in> H" and item: "item \<notin> family_nodes H L" "item \<noteq> NULL"
  shows "family (list_insert item a h) H (L(a := L a @ [item]))"
proof (rule family_update [OF fam, of _ _ _ "{item, a, prv h a}" "{item}"])
  have "item \<notin> set (a # L a @ [])"
    using a item(1) by (auto simp: family_nodes_def)
  then show "list_rep (list_insert item a h) a (L a @ [item])"
    using list_insert_rep [of h a "L a" "[]" item] familyD(1) [OF fam a] item(2) by simp
  have "prv h a = last (a # L a)"
    using dseg_gap(2) [of h a "L a" "[]" a] familyD(1) [OF fam a] by (simp add: list_rep_def)
  then show "{item, a, prv h a} \<union> set (L a @ [item]) \<subseteq> set (a # L a) \<union> {item}"
    by auto
  show "nxt (list_insert item a h) x = nxt h x \<and> prv (list_insert item a h) x = prv h x" if "x \<notin> {item, a, prv h a}" for x
    using that \<open>item \<notin> set (a # L a @ [])\<close> by (auto simp: list_insert_def Let_def)
qed (use a item in auto)

lemma family_remove:
  assumes fam: "family h H L" and a: "a \<in> H" and item: "item \<in> set (L a)"
  shows "family (list_remove item h) H (L(a := remove1 item (L a)))"
proof -
  obtain xs ys where L: "L a = xs @ item # ys"
    using item by (meson split_list)
  have rep: "list_rep h a (xs @ item # ys)"
    using familyD(1) [OF fam a] by (simp add: L)
  have r1: "remove1 item (L a) = xs @ ys"
    using familyD(5) [OF fam a] by (simp add: L remove1_append)
  have seg: "dseg h a (xs @ item # ys) a"
    using rep by (simp add: list_rep_def)
  have p: "prv h item = last (a # xs)" "nxt h item = hd (ys @ [a])"
    using dseg_gap [of h a xs "item # ys" a] dseg_gap [of h a "xs @ [item]" ys a] seg by simp_all
  have "prv h item \<noteq> item"
    using p(1) familyD(5,6) [OF fam a] last_in_set [of "a # xs"] by (auto simp: L split: if_splits)
  show ?thesis
  proof (rule family_update [OF fam, of _ _ _ "{item, prv h item, nxt h item}" "{}"])
    show "list_rep (list_remove item h) a (remove1 item (L a))"
      unfolding r1 by (rule list_remove_rep(1) [OF rep])
    show "{item, prv h item, nxt h item} \<union> set (remove1 item (L a)) \<subseteq> set (a # L a) \<union> {}"
      using p unfolding r1 by (cases ys) (auto simp: L)
    show "nxt (list_remove item h) x = nxt h x \<and> prv (list_remove item h) x = prv h x" if "x \<notin> {item, prv h item, nxt h item}" for x
      using that \<open>prv h item \<noteq> item\<close> by (auto simp: list_remove_def Let_def)
  qed (use a in auto)
qed

lemma family_new:
  assumes fam: "family h H L" and a: "a \<notin> family_nodes H L" "a \<noteq> NULL"
  shows "family (list_init a h) (insert a H) (L(a := []))"
proof -
  have neq: "a \<noteq> b" "a \<notin> set (L b)" if "b \<in> H" for b
    using that a(1) by (auto simp: family_nodes_def)
  have "list_rep (list_init a h) b (L b)" if "b \<in> H" for b
  proof -
    have "list_rep (list_init a h) b (L b) = list_rep h b (L b)"
      using neq [OF that] by (intro list_rep_frame) (auto simp: list_init_def)
    then show ?thesis using familyD(1) [OF fam that] by simp
  qed
  with fam neq list_init_rep [OF a(2)] show ?thesis
    unfolding family_def by auto
qed

lemma family_drop: "family h H L \<Longrightarrow> H' \<subseteq> H \<Longrightarrow> family h H' L"
  unfolding family_def by blast

lemma family_gone:
  assumes fam: "family h H L" and a: "a \<in> H" and item: "item \<in> set (L a)"
  shows "item \<notin> family_nodes H (L(a := remove1 item (L a)))"
proof -
  have "item \<notin> set (c # (L(a := remove1 item (L a))) c)" if c: "c \<in> H" for c
  proof (cases "c = a")
    case True
    with familyD(5,6) [OF fam a] item show ?thesis by auto
  next
    case False
    with familyD(2) [OF fam a c] item show ?thesis by auto
  qed
  then show ?thesis
    unfolding family_nodes_def by blast
qed

lemma family_move:
  assumes fam: "family h H L" and a: "a \<in> H" and item: "item \<in> set (L a)" and c: "c \<in> H" "c \<noteq> a"
  shows "family (list_insert item c (list_remove item h)) H (L(a := remove1 item (L a), c := L c @ [item]))"
proof -
  have "item \<noteq> NULL"
    using familyD(4) [OF fam a] item by metis
  with family_append [OF family_remove [OF fam a item] c(1) family_gone [OF fam a item]] c(2) show ?thesis
    by (simp del: fun_upd_apply add: fun_upd_other)
qed

lemma family_nodes_move:
  assumes "a \<in> H" "c \<in> H" "item \<in> set (L a)"
  shows "family_nodes H (L(a := remove1 item (L a), c := L c @ [item])) \<subseteq> family_nodes H L"
proof
  fix x assume "x \<in> family_nodes H (L(a := remove1 item (L a), c := L c @ [item]))"
  then obtain d where d: "d \<in> H" "x \<in> set (d # (L(a := remove1 item (L a), c := L c @ [item])) d)"
    unfolding family_nodes_def by blast
  then have "x \<in> set (d # L d) \<or> x \<in> set (a # L a)"
    using assms(3) by (auto split: if_splits dest: notin_set_remove1)
  with assms(1) d(1) show "x \<in> family_nodes H L"
    unfolding family_nodes_def by blast
qed

end
