(* ===== verification/Dlb_Strlcpy.thy ===== *)
theory Dlb_Strlcpy
  imports Dlb_Cbuf
begin

text \<open>
  \<open>strlcpy\<close> and \<open>strlcat\<close> of src/src/strlcpy.c on the flat byte memory. \<open>strlen\<close> of the C
  library scans for the terminating zero byte; a region without one makes the scan run on,
  which is the value \<open>None\<close> of a partial function.
\<close>

section \<open>C strings in memory\<close>

partial_function (option) strlen_from :: "mem \<Rightarrow> addr \<Rightarrow> nat \<Rightarrow> nat option" where
  "strlen_from m a n = (if m (a + n) = 0 then Some n else strlen_from m a (Suc n))"

definition strlen :: "mem \<Rightarrow> addr \<Rightarrow> nat option" where
  "strlen m a = strlen_from m a 0"

text \<open>The string \<open>s\<close> (without a zero byte) is stored at \<open>a\<close>, terminated.\<close>

definition cstring_at :: "mem \<Rightarrow> addr \<Rightarrow> u8 list \<Rightarrow> bool" where
  "cstring_at m a s \<longleftrightarrow> bytes_at m a (length s) = s \<and> 0 \<notin> set s \<and> m (a + length s) = 0"

section \<open>The two functions\<close>

text \<open>Lengths are \<open>size_t\<close>: the subtractions that may wrap are written out.\<close>

definition strlcpy :: "addr \<Rightarrow> addr \<Rightarrow> nat \<Rightarrow> mem \<Rightarrow> (nat \<times> mem) option" where
  "strlcpy dst src sz m =
     (case strlen m src of None \<Rightarrow> None | Some src_len \<Rightarrow>
       (let max_len = wrap64 (sz + (2 ^ 64 - 1));
            len = (if src_len > max_len then max_len else src_len)
        in if sz = 0 then Some (0, m)
           else Some (src_len, (memcpy dst src len m)(dst + len := 0))))"

definition strlcat :: "addr \<Rightarrow> addr \<Rightarrow> nat \<Rightarrow> mem \<Rightarrow> (nat \<times> mem) option" where
  "strlcat dst src sz m =
     (case strlen m dst of None \<Rightarrow> None | Some dst_len \<Rightarrow>
      case strlen m src of None \<Rightarrow> None | Some src_len \<Rightarrow>
       (let res_len = wrap64 (dst_len + src_len);
            max_len = wrap64 (sz + 2 ^ 64 + 2 ^ 64 - dst_len - 1);
            copy = (if src_len > max_len then max_len else src_len)
        in if sz = 0 \<or> sz - 1 < dst_len then Some (0, m)
           else Some (res_len, (memcpy (dst + dst_len) src copy m)(dst + dst_len + copy := 0))))"

section \<open>Correctness\<close>

lemma strlen_from_eq:
  assumes "\<And>i. n \<le> i \<Longrightarrow> i < k \<Longrightarrow> m (a + i) \<noteq> 0" "m (a + k) = 0" "n \<le> k"
  shows "strlen_from m a n = Some k"
  using assms
proof (induction "k - n" arbitrary: n)
  case 0
  then show ?case by (subst strlen_from.simps) auto
next
  case (Suc d)
  then have "strlen_from m a (Suc n) = Some k"
    by (intro Suc.hyps) auto
  with Suc.prems Suc.hyps(2) show ?case
    by (subst strlen_from.simps) auto
qed

lemma strlen_cstring: "cstring_at m a s \<Longrightarrow> strlen m a = Some (length s)"
  unfolding strlen_def
  by (rule strlen_from_eq) (auto simp: cstring_at_def, metis nth_bytes_at nth_mem)

lemma cstring_atI:
  "(\<And>i. i < length s \<Longrightarrow> m (a + i) = s ! i) \<Longrightarrow> 0 \<notin> set s \<Longrightarrow> m (a + length s) = 0 \<Longrightarrow>
    cstring_at m a s"
  by (auto simp: cstring_at_def intro: nth_equalityI)

lemma cstring_at_nth: "cstring_at m a s \<Longrightarrow> i < length s \<Longrightarrow> m (a + i) = s ! i"
  by (metis cstring_at_def nth_bytes_at)

text \<open>
  For a non-empty destination, \<open>strlcpy\<close> stores the longest prefix of the source that
  fits, always terminated, touches nothing outside the destination and returns the full
  length of the source.
\<close>

theorem strlcpy_truncates:
  assumes src: "cstring_at m src s" and sz: "0 < sz" "sz \<le> 2 ^ 63"
    and dis: "disjoint_regions dst sz src (Suc (length s))"
  shows "\<exists>m'. strlcpy dst src sz m = Some (length s, m') \<and>
    cstring_at m' dst (take (sz - 1) s) \<and> (\<forall>a. a < dst \<or> dst + sz \<le> a \<longrightarrow> m' a = m a)"
proof -
  define len where "len = (if length s > sz - 1 then sz - 1 else length s)"
  let ?m = "(memcpy dst src len m)(dst + len := 0)"
  have wrap: "wrap64 (sz + (2 ^ 64 - 1)) = sz - 1"
    using sz by (simp add: mod_if)
  have "strlcpy dst src sz m = Some (length s, ?m)"
    unfolding strlcpy_def strlen_cstring [OF src] option.case Let_def wrap len_def [symmetric]
    using sz by simp
  moreover have "cstring_at ?m dst (take (sz - 1) s)"
  proof (rule cstring_atI)
    show "0 \<notin> set (take (sz - 1) s)"
      using src by (auto simp: cstring_at_def dest: in_set_takeD)
  qed (use cstring_at_nth [OF src] in \<open>auto simp: memcpy_def len_def min_def\<close>)
  moreover have "\<forall>a. a < dst \<or> dst + sz \<le> a \<longrightarrow> ?m a = m a"
    using sz by (auto simp: memcpy_def len_def)
  ultimately show ?thesis
    by blast
qed

theorem strlcpy_truncates_witness:
  "\<exists>m'. strlcpy 20 10 3 ((\<lambda>_. 0)(10 := 97, 11 := 98, 12 := 99)) = Some (3, m') \<and>
    cstring_at m' 20 [97, 98]"
proof -
  have "cstring_at ((\<lambda>_. 0)(10 := 97, 11 := 98, 12 := 99)) 10 [97, 98, 99]"
    by (simp add: cstring_at_def bytes_at_def upt_rec)
  from strlcpy_truncates [OF this, of 3 20] show ?thesis
    by (auto simp: disjoint_regions_def)
qed

text \<open>
  When the destination's string leaves room in its buffer, \<open>strlcat\<close> appends the longest
  prefix of the source that fits, keeps the result terminated and inside the buffer, and
  returns the length of the full concatenation; when there is no room for the terminator
  it changes nothing and returns 0.
\<close>

theorem strlcat_truncates:
  assumes dst: "cstring_at m dst d" and src: "cstring_at m src s" and sz: "sz \<le> 2 ^ 63"
    and len: "length d + length s < 2 ^ 64" "length d < 2 ^ 64"
    and dis: "disjoint_regions dst sz src (Suc (length s))"
  shows "\<exists>n m'. strlcat dst src sz m = Some (n, m') \<and>
    (if length d < sz
     then n = length d + length s \<and> cstring_at m' dst (d @ take (sz - length d - 1) s) \<and>
       (\<forall>a. a < dst \<or> dst + sz \<le> a \<longrightarrow> m' a = m a)
     else n = 0 \<and> m' = m)"
proof (cases "length d < sz")
  case False
  then have "strlcat dst src sz m = Some (0, m)"
    using strlen_cstring [OF dst] strlen_cstring [OF src] by (auto simp: strlcat_def Let_def)
  with False show ?thesis
    by simp
next
  case True
  define k where "k = (if length s > sz - length d - 1 then sz - length d - 1 else length s)"
  let ?m = "(memcpy (dst + length d) src k m)(dst + length d + k := 0)"
  have wrap: "wrap64 (sz + 2 ^ 64 + 2 ^ 64 - length d - 1) = sz - length d - 1"
  proof -
    have "sz + 2 ^ 64 + 2 ^ 64 - length d - 1 = (sz - length d - 1) + 2 * 2 ^ 64"
      using True by simp
    then have "wrap64 (sz + 2 ^ 64 + 2 ^ 64 - length d - 1) = wrap64 (sz - length d - 1)"
      by (simp only: mod_mult_self1)
    then show ?thesis
      using sz by simp
  qed
  have room: "\<not> (sz = 0 \<or> sz - 1 < length d)"
    using True by arith
  have "strlcat dst src sz m = Some (length d + length s, ?m)"
    unfolding strlcat_def strlen_cstring [OF src] strlen_cstring [OF dst] option.case Let_def wrap
      k_def [symmetric]
    using room len by simp
  moreover have s_nth: "m (src + i - length d) = s ! (i - length d)"
    if "\<not> i < length d" "i - length d < length s" for i
    using cstring_at_nth [OF src that(2)] that(1) by simp
  have "cstring_at ?m dst (d @ take (sz - length d - 1) s)"
  proof (rule cstring_atI)
    show "0 \<notin> set (d @ take (sz - length d - 1) s)"
      using src dst by (auto simp: cstring_at_def dest: in_set_takeD)
  qed (use s_nth cstring_at_nth [OF dst] True in
      \<open>auto simp: memcpy_def nth_append k_def min_def\<close>)
  moreover have "\<forall>a. a < dst \<or> dst + sz \<le> a \<longrightarrow> ?m a = m a"
    using True by (auto simp: memcpy_def k_def)
  ultimately show ?thesis
    using True by auto
qed

theorem strlcat_truncates_witness:
  "\<exists>m'. strlcat 20 10 4 ((\<lambda>_. 0)(10 := 97, 11 := 98, 12 := 99, 20 := 65, 21 := 66)) = Some (5, m')
    \<and> cstring_at m' 20 [65, 66, 97]"
proof -
  let ?m = "(\<lambda>_. 0)(10 := 97, 11 := 98, 12 := 99, 20 := 65, 21 := 66) :: mem"
  have "cstring_at ?m 20 [65, 66]" "cstring_at ?m 10 [97, 98, 99]"
    by (simp_all add: cstring_at_def bytes_at_def upt_rec)
  from strlcat_truncates [OF this, of 4] show ?thesis
    by (auto simp: disjoint_regions_def)
qed

end
