(* ===== verification/Dlb_Vector.thy ===== *)
theory Dlb_Vector
  imports Dlb_Prelude
begin

text \<open>
  The resizable array of src/src/vector.h and src/src/vector.c. The block behind \<open>ptr\<close> is a
  list of bytes (\<open>None\<close> is the NULL pointer); sizes are 32 bit words, and the C \<open>int\<close> that
  \<open>size_for\<close> computes with is the same word read as a signed number where the source
  compares it with another \<open>int\<close>. \<open>realloc\<close> of the C library is a parameter: it may fail,
  and when it succeeds it returns a block of the requested size that starts with the old
  bytes (\<open>realloc_ok\<close>).
\<close>

unbundle bit_operations_syntax

section \<open>The allocator\<close>

type_synonym block = "u8 list"

type_synonym realloc_fn = "block option \<Rightarrow> nat \<Rightarrow> block option"

definition realloc_ok :: "realloc_fn \<Rightarrow> bool" where
  "realloc_ok ra \<longleftrightarrow> (\<forall>p n b. ra p n = Some b \<longrightarrow>
     length b = n \<and> (\<forall>old. p = Some old \<longrightarrow> take (min n (length old)) b = take (min n (length old)) old))"

section \<open>The structure and its operations\<close>

record vector =
  ptr :: "block option"
  elemsize :: u32
  vcapacity :: u32
  vsize :: u32

definition vector_init :: "u32 \<Rightarrow> vector" where
  "vector_init es = \<lparr>ptr = None, elemsize = es, vcapacity = 0, vsize = 0\<rparr>"

definition vector_clear :: "vector \<Rightarrow> vector" where
  "vector_clear v = v\<lparr>ptr := None, vcapacity := 0, vsize := 0\<rparr>"

definition vector_destroy :: "vector \<Rightarrow> vector" where
  "vector_destroy v = \<lparr>ptr = None, elemsize = 0, vcapacity = 0, vsize = 0\<rparr>"

text \<open>\<open>while (cap & (cap - 1)) cap &= (cap - 1);\<close>\<close>

lemma and_minus_one_less: "(x AND (x - 1)) \<noteq> 0 \<Longrightarrow> unat (x AND (x - 1)) < unat (x :: u32)"
proof -
  assume nz: "x AND (x - 1) \<noteq> 0"
  then have "x \<noteq> 0"
    by auto
  have "x AND (x - 1) \<le> x - 1"
    by (rule word_and_le1)
  moreover have "x - 1 < x"
    using \<open>x \<noteq> 0\<close> by (simp add: word_less_nat_alt unat_minus_one unat_gt_0)
  ultimately show ?thesis
    by (simp add: word_less_nat_alt word_le_nat_alt)
qed

function top_bit :: "u32 \<Rightarrow> u32" where
  "top_bit cap = (if cap AND (cap - 1) \<noteq> 0 then top_bit (cap AND (cap - 1)) else cap)"
  by pat_completeness auto
termination
  by (relation "measure unat") (auto intro: and_minus_one_less)

declare top_bit.simps [simp del]

text \<open>
  The capacity for a number of elements. Doubling an \<open>int\<close> beyond \<open>2 ^ 30\<close> is undefined in C; the model
  gives it the wrap-around of the machine. The theorems on \<open>vector_push\<close> and \<open>vector_pop\<close> stay below.
\<close>

definition vector_cap :: "u32 \<Rightarrow> u32" where
  "vector_cap needed =
     (let cap1 = top_bit needed;
          cap2 = (if cap1 < needed then push_bit 1 cap1 else cap1)
      in if sint cap2 < 8 then 8 else cap2)"

definition size_for :: "realloc_fn \<Rightarrow> vector \<Rightarrow> u32 \<Rightarrow> int \<times> vector" where
  "size_for ra v needed =
     (let cap = vector_cap needed in
      if vcapacity v \<ge> cap \<and> vcapacity v \<le> cap * 2 then (0, v)
      else (case ra (ptr v) (unat (cap * elemsize v)) of
              None \<Rightarrow> if vcapacity v \<ge> needed then (0, v) else (-1, v)
            | Some b \<Rightarrow> (0, v\<lparr>ptr := Some b, vcapacity := cap\<rparr>)))"

definition vector_resize :: "realloc_fn \<Rightarrow> vector \<Rightarrow> u32 \<Rightarrow> int \<times> vector" where
  "vector_resize ra v new_size =
     (case size_for ra v new_size of (r, v1) \<Rightarrow>
        if r < 0 then (-1, v1) else (0, v1\<lparr>vsize := new_size\<rparr>))"

text \<open>Writing \<open>data\<close> at a byte offset of the block.\<close>

definition block_write :: "block \<Rightarrow> nat \<Rightarrow> block \<Rightarrow> block" where
  "block_write b off d = take off b @ d @ drop (off + length d) b"

definition vector_push :: "realloc_fn \<Rightarrow> vector \<Rightarrow> block \<Rightarrow> u32 \<Rightarrow> int \<times> vector" where
  "vector_push ra v dat count =
     (let needed = vsize v + count in
      case size_for ra v needed of (r, v1) \<Rightarrow>
        if r < 0 then (-1, v1)
        else (0, v1\<lparr>ptr := map_option (\<lambda>b. block_write b (unat (vsize v1 * elemsize v1))
                                (take (unat (count * elemsize v1)) dat)) (ptr v1),
                   vsize := vsize v1 + count\<rparr>))"

definition vector_pop :: "realloc_fn \<Rightarrow> vector \<Rightarrow> u32 \<Rightarrow> int \<times> vector" where
  "vector_pop ra v count0 =
     (let count = (if count0 > vsize v then vsize v else count0)
      in vector_resize ra v (vsize v - count))"

section \<open>The rounding loop\<close>

lemma bit_of_range: "2 ^ k \<le> unat x \<Longrightarrow> unat x < 2 ^ Suc k \<Longrightarrow> bit (x :: u32) k"
proof -
  assume a: "2 ^ k \<le> unat x" "unat x < 2 ^ Suc k"
  then have "unat x div 2 ^ k = 1"
    by (simp add: div_nat_eqI)
  then have "bit (unat x) k"
    by (simp add: bit_iff_odd)
  then show ?thesis
    by (simp add: bit_unsigned_iff)
qed

lemma top_bit_eq:
  assumes "2 ^ k \<le> unat x" "unat x < 2 ^ Suc k"
  shows "unat (top_bit x) = 2 ^ k"
  using assms
proof (induction x rule: top_bit.induct)
  case (1 x)
  let ?y = "x AND (x - 1)"
  have x0: "x \<noteq> 0"
    using "1.prems"(1) by auto
  have bitk: "bit ?y k" if "unat x \<noteq> 2 ^ k"
  proof -
    have "bit x k" "bit (x - 1) k"
      using "1.prems" that x0 by (auto intro!: bit_of_range simp: unat_minus_one)
    then show ?thesis
      by (simp add: bit_and_iff)
  qed
  show ?case
  proof (cases "?y = 0")
    case True
    then have "unat x = 2 ^ k"
      using bitk by auto
    with True show ?thesis
      by (simp add: top_bit.simps [of x])
  next
    case False
    have less: "unat ?y < 2 ^ Suc k"
      using and_minus_one_less [OF False] "1.prems"(2) by simp
    have "unat x \<noteq> 2 ^ k"
    proof
      assume eq: "unat x = 2 ^ k"
      have "k < 32"
      proof (rule ccontr)
        assume "\<not> k < 32"
        then have "(2::nat) ^ 32 \<le> 2 ^ k"
          by (intro power_increasing) auto
        then show False
          using eq unsigned_less [of x, where 'a = nat] by simp
      qed
      then have "unat (2 ^ k :: u32) = 2 ^ k"
        by (simp add: unat_exp)
      with eq have x: "x = 2 ^ k"
        by (simp add: word_unat_eq_iff)
      have "?y = 0"
        unfolding x by (rule bit_word_eqI) (simp add: bit_simps flip: mask_eq_exp_minus_1)
      with False show False ..
    qed
    then have "bit ?y k"
      by (rule bitk)
    then have "bit (unat ?y) k"
      by (simp add: bit_unsigned_iff)
    then have "2 ^ k \<le> unat ?y"
      by (metis bit_iff_odd div_less leI even_zero)
    with "1.IH" False less show ?thesis
      by (simp add: top_bit.simps [of x])
  qed
qed

lemma vector_cap_spec:
  assumes "unat needed \<le> 2 ^ 30"
  shows "unat needed \<le> unat (vector_cap needed) \<and> 8 \<le> unat (vector_cap needed) \<and>
    unat (vector_cap needed) \<le> max 8 (2 * unat needed) \<and> unat (vector_cap needed) \<le> 2 ^ 30"
proof (cases "needed = 0")
  case True
  then show ?thesis
    by (simp add: vector_cap_def top_bit.simps)
next
  case False
  then have pos: "1 \<le> unat needed"
    by (simp add: Suc_le_eq unat_gt_0)
  then obtain k where k: "2 ^ k \<le> unat needed" "unat needed < 2 ^ Suc k"
    using ex_power_ivl1 [of 2 "unat needed"] by auto
  have k30: "k \<le> 30"
    using k(1) assms power_le_imp_le_exp [of "2::nat" k 30] by simp
  have t: "unat (top_bit needed) = 2 ^ k"
    by (rule top_bit_eq [OF k])
  define c2 where "c2 = (if top_bit needed < needed then push_bit 1 (top_bit needed) else top_bit needed)"
  have c2: "unat c2 = (if 2 ^ k < unat needed then 2 ^ Suc k else 2 ^ k)"
  proof -
    have "unat (push_bit 1 (top_bit needed)) = 2 ^ Suc k"
    proof -
      have "unat (push_bit 1 (top_bit needed)) = (2 * 2 ^ k) mod 2 ^ 32"
        by (simp add: push_bit_eq_mult unat_word_ariths t mult.commute)
      also have "\<dots> = 2 ^ Suc k"
        using k30 power_increasing [of "Suc k" 31 "2::nat"] by simp
      finally show ?thesis .
    qed
    then show ?thesis
      by (simp add: c2_def word_less_nat_alt t)
  qed
  have le: "unat c2 \<le> 2 ^ 30"
  proof (cases "2 ^ k < unat needed")
    case True
    then have "k < 30"
      using assms k30 by (metis le_neq_implies_less linorder_not_le)
    then show ?thesis
      using True c2 power_increasing [of "Suc k" 30 "2::nat"] by simp
  next
    case False
    then show ?thesis
      using c2 k30 power_increasing [of k 30 "2::nat"] by simp
  qed
  have cap: "vector_cap needed = (if unat c2 < 8 then 8 else c2)"
  proof -
    have "sint c2 = int (unat c2)"
      using le by (intro sint_eq_unat) simp
    then have "sint c2 < 8 \<longleftrightarrow> unat c2 < 8"
      by linarith
    then show ?thesis
      by (simp add: vector_cap_def Let_def c2_def [symmetric])
  qed
  have "unat needed \<le> unat c2" "unat c2 \<le> 2 * unat needed"
    using c2 k by auto
  then show ?thesis
    using cap le by auto
qed

section \<open>Invariant and behaviour\<close>

text \<open>
  A vector is well formed when its block holds \<open>capacity\<close> elements and the elements in use
  fit. \<open>fits es n\<close> bounds the sizes for which no intermediate product wraps.
\<close>

definition block_wf :: "vector \<Rightarrow> bool" where
  "block_wf v \<longleftrightarrow> 0 < elemsize v \<and> unat (vcapacity v) * unat (elemsize v) < 2 ^ 32 \<and>
     (case ptr v of None \<Rightarrow> vcapacity v = 0
      | Some b \<Rightarrow> length b = unat (vcapacity v) * unat (elemsize v))"

definition vector_wf :: "vector \<Rightarrow> bool" where
  "vector_wf v \<longleftrightarrow> block_wf v \<and> vsize v \<le> vcapacity v"

definition vector_fits :: "vector \<Rightarrow> nat \<Rightarrow> bool" where
  "vector_fits v n \<longleftrightarrow> n \<le> 2 ^ 30 \<and> max 8 (2 * n) * unat (elemsize v) < 2 ^ 32"

text \<open>The abstract value: the bytes of the elements in use.\<close>

definition vector_block :: "vector \<Rightarrow> block" where
  "vector_block v = (case ptr v of None \<Rightarrow> [] | Some b \<Rightarrow> b)"

definition vector_bytes :: "vector \<Rightarrow> block" where
  "vector_bytes v = take (unat (vsize v) * unat (elemsize v)) (vector_block v)"

lemma unat_mult_small: "unat (a :: u32) * unat b < 2 ^ 32 \<Longrightarrow> unat (a * b) = unat a * unat b"
  by (simp add: unat_word_ariths)

lemma block_length: "block_wf v \<Longrightarrow> length (vector_block v) = unat (vcapacity v) * unat (elemsize v)"
  by (auto simp: block_wf_def vector_block_def split: option.splits)

lemma vector_bytes_length: "vector_wf v \<Longrightarrow> length (vector_bytes v) = unat (vsize v) * unat (elemsize v)"
  by (auto simp: vector_wf_def vector_bytes_def block_length word_le_nat_alt)

lemma vector_cap_bytes:
  assumes "vector_fits v (unat needed)"
  shows "unat (vector_cap needed) * unat (elemsize v) < 2 ^ 32"
proof -
  have "unat (vector_cap needed) \<le> max 8 (2 * unat needed)"
    using vector_cap_spec [of needed] assms by (simp add: vector_fits_def)
  then have "unat (vector_cap needed) * unat (elemsize v)
      \<le> max 8 (2 * unat needed) * unat (elemsize v)"
    by (rule mult_right_mono) simp
  then show ?thesis
    using assms unfolding vector_fits_def by linarith
qed

text \<open>
  The central fact: \<open>size_for\<close> either fails and changes nothing, or leaves a block with room
  for the requested number of elements that still starts with as many of the old bytes as
  both blocks hold.
\<close>

lemma size_for_spec:
  assumes ra: "realloc_ok ra" and wf: "block_wf v" and fit: "vector_fits v (unat needed)"
    and sz: "size_for ra v needed = (r, v')"
  shows "(r = -1 \<and> v' = v) \<or>
    (r = 0 \<and> elemsize v' = elemsize v \<and> vsize v' = vsize v \<and> needed \<le> vcapacity v' \<and>
     block_wf v' \<and>
     (\<forall>n. n \<le> unat needed * unat (elemsize v) \<longrightarrow> n \<le> length (vector_block v) \<longrightarrow>
        take n (vector_block v') = take n (vector_block v)))"
  (is "?fail \<or> ?ok")
proof -
  let ?cap = "vector_cap needed" and ?es = "unat (elemsize v)"
  have cap: "unat needed \<le> unat ?cap"
    using vector_cap_spec [of needed] fit by (auto simp: vector_fits_def)
  have bytes: "unat ?cap * ?es < 2 ^ 32"
    by (rule vector_cap_bytes [OF fit])
  then have prod: "unat (?cap * elemsize v) = unat ?cap * ?es"
    by (rule unat_mult_small)
  have keep: ?ok if "v' = v" "r = 0" "needed \<le> vcapacity v"
    using that wf by simp
  show ?thesis
  proof (cases "vcapacity v \<ge> ?cap \<and> vcapacity v \<le> ?cap * 2")
    case True
    then show ?thesis
      using keep sz cap by (auto simp: size_for_def word_le_nat_alt)
  next
    case False
    show ?thesis
    proof (cases "ra (ptr v) (unat (?cap * elemsize v))")
      case None
      then show ?thesis
        using keep sz False by (auto simp: size_for_def Let_def split: if_splits)
    next
      case (Some b)
      have v': "v' = v\<lparr>ptr := Some b, vcapacity := ?cap\<rparr>" "r = 0"
        using sz False Some by (auto simp: size_for_def Let_def)
      have len: "length b = unat ?cap * ?es"
        using ra Some prod by (auto simp: realloc_ok_def)
      have "take n b = take n (vector_block v)"
        if n: "n \<le> unat needed * ?es" "n \<le> length (vector_block v)" for n
      proof (cases "ptr v")
        case (Some old)
        have "n \<le> unat ?cap * ?es"
          using n(1) mult_right_mono [OF cap, of ?es] by linarith
        then have le: "n \<le> min (unat ?cap * ?es) (length old)"
          using n(2) Some by (simp add: vector_block_def)
        have "take (min (unat ?cap * ?es) (length old)) b
            = take (min (unat ?cap * ?es) (length old)) old"
          using ra \<open>ra (ptr v) _ = Some b\<close> Some prod by (auto simp: realloc_ok_def)
        then have "take n (take (min (unat ?cap * ?es) (length old)) b)
            = take n (take (min (unat ?cap * ?es) (length old)) old)"
          by simp
        then show ?thesis
          using le Some by (simp add: vector_block_def min_absorb1)
      qed (use n in \<open>simp add: vector_block_def\<close>)
      then show ?thesis
        using v' len bytes cap wf
        by (auto simp: block_wf_def vector_block_def word_le_nat_alt)
    qed
  qed
qed

lemma size_for_fails: "size_for ra v n = (r, v') \<Longrightarrow> r < 0 \<Longrightarrow> ra (ptr v) (unat (vector_cap n * elemsize v)) = None"
  by (auto simp: size_for_def Let_def split: if_splits option.splits)

text \<open>
  C40: take a vector that has at most \<open>2 ^ 30\<close> elements after the push, with twice as many of them (and
  at least 8) in less than \<open>2 ^ 32\<close> bytes (\<open>vector_fits\<close>; beyond, the \<open>int\<close> of \<open>size_for\<close> overflows, see
  \<open>vector_resize_overflow\<close>). \<open>vector_push\<close> fails only when \<open>realloc\<close> refuses the block for the new
  capacity, and then leaves the vector unchanged. Otherwise it keeps the invariant and appends the
  given bytes to the old contents.
\<close>

theorem vector_push_appends:
  assumes ra: "realloc_ok ra" and wf: "vector_wf v"
    and fit: "vector_fits v (unat (vsize v) + unat count)"
    and dat: "length dat = unat count * unat (elemsize v)"
    and push: "vector_push ra v dat count = (r, v')"
  shows "(r = -1 \<and> v' = v \<and> ra (ptr v) (unat (vector_cap (vsize v + count) * elemsize v)) = None) \<or>
    (r = 0 \<and> vector_wf v' \<and> unat (vsize v') = unat (vsize v) + unat count \<and>
     vector_bytes v' = vector_bytes v @ dat)"
proof -
  let ?es = "unat (elemsize v)" and ?n = "vsize v + count"
  have n: "unat ?n = unat (vsize v) + unat count"
    using fit by (simp add: vector_fits_def unat_word_ariths)
  obtain r1 v1 where sz: "size_for ra v ?n = (r1, v1)"
    by fastforce
  have wfb: "block_wf v" and szle: "vsize v \<le> vcapacity v"
    using wf by (auto simp: vector_wf_def)
  have fit': "vector_fits v (unat ?n)"
    using fit n by simp
  from size_for_spec [OF ra wfb fit' sz] show ?thesis
  proof
    assume "r1 = -1 \<and> v1 = v"
    then show ?thesis
      using push sz size_for_fails [OF sz] by (simp add: vector_push_def Let_def)
  next
    assume ok: "r1 = 0 \<and> elemsize v1 = elemsize v \<and> vsize v1 = vsize v \<and> ?n \<le> vcapacity v1 \<and>
      block_wf v1 \<and> (\<forall>n. n \<le> unat ?n * ?es \<longrightarrow> n \<le> length (vector_block v) \<longrightarrow>
        take n (vector_block v1) = take n (vector_block v))"
    have cap: "unat (vsize v) + unat count \<le> unat (vcapacity v1)"
      using ok n by (simp add: word_le_nat_alt)
    have room: "(unat (vsize v) + unat count) * ?es \<le> unat (vcapacity v1) * ?es"
      using cap by (rule mult_right_mono) simp
    have small: "unat (vcapacity v1) * ?es < 2 ^ 32"
      using ok by (auto simp: block_wf_def)
    have off: "unat (vsize v * elemsize v) = unat (vsize v) * ?es"
      and cnt: "unat (count * elemsize v) = unat count * ?es"
      using room small by (auto intro!: unat_mult_small simp: add_mult_distrib)
    have len1: "length (vector_block v1) = unat (vcapacity v1) * ?es"
      using ok block_length [of v1] by simp
    have len0: "unat (vsize v) * ?es \<le> length (vector_block v)"
      using szle by (simp add: block_length [OF wfb] word_le_nat_alt)
    have pre: "take (unat (vsize v) * ?es) (vector_block v1) = vector_bytes v"
      using ok len0 n by (simp add: vector_bytes_def add_mult_distrib)
    show ?thesis
    proof (cases "ptr v1")
      case None
      then have "vcapacity v1 = 0"
        using ok by (simp add: block_wf_def)
      then have zero: "unat count = 0" "unat (vsize v) = 0"
        using cap by auto
      then have "v' = v1" "r = 0"
        using push sz ok None n by (auto simp: vector_push_def Let_def word_unat_eq_iff)
      then show ?thesis
        using ok zero dat n cap None
        by (auto simp: vector_wf_def vector_bytes_def word_le_nat_alt)
    next
      case (Some b)
      have b: "vector_block v1 = b"
        using Some by (simp add: vector_block_def)
      have v': "r = 0" "v' = v1\<lparr>ptr := Some (block_write b (unat (vsize v) * ?es) dat),
          vsize := ?n\<rparr>"
        using push sz ok Some off cnt dat by (auto simp: vector_push_def Let_def)
      have "length (block_write b (unat (vsize v) * ?es) dat) = length b"
        using len1 b room dat by (simp add: block_write_def add_mult_distrib)
      then have "block_wf v'"
        using ok v' len1 b Some by (auto simp: block_wf_def)
      moreover have "vector_bytes v' = vector_bytes v @ dat"
      proof -
        let ?rest = "drop (unat (vsize v) * ?es + length dat) b"
        have "vector_block v' = (vector_bytes v @ dat) @ ?rest"
          using v' pre b by (simp add: vector_block_def block_write_def)
        moreover have "unat (vsize v') * unat (elemsize v') = length (vector_bytes v @ dat)"
          using v' ok n dat vector_bytes_length [OF wf] by (simp add: add_mult_distrib)
        ultimately show ?thesis
          unfolding vector_bytes_def [of v'] by simp
      qed
      ultimately show ?thesis
        using v' n cap by (simp add: vector_wf_def word_le_nat_alt)
    qed
  qed
qed

text \<open>A concrete allocator: it always succeeds and fills fresh memory with zero bytes.\<close>

definition ra_zero :: realloc_fn where
  "ra_zero p n = Some (take n (case p of None \<Rightarrow> [] | Some b \<Rightarrow> b) @
     replicate (n - length (case p of None \<Rightarrow> [] | Some b \<Rightarrow> b)) 0)"

lemma ra_zero_ok: "realloc_ok ra_zero"
  by (auto simp: realloc_ok_def ra_zero_def min_def)

theorem vector_push_appends_witness:
  "case vector_push ra_zero (vector_init 2) [1, 2, 3, 4] 2 of (r, v') \<Rightarrow>
     r = 0 \<and> vector_bytes v' = [1, 2, 3, 4]"
proof -
  obtain r v' where p: "vector_push ra_zero (vector_init 2) [1, 2, 3, 4] 2 = (r, v')"
    by fastforce
  have "vector_wf (vector_init 2)" "vector_fits (vector_init 2) (unat (vsize (vector_init 2)) + unat (2 :: u32))"
    "length [1, 2, 3, 4 :: u8] = unat (2 :: u32) * unat (elemsize (vector_init 2))"
    by (simp_all add: vector_init_def vector_wf_def block_wf_def vector_fits_def)
  moreover have "r \<noteq> -1"
    using p by (auto simp: vector_push_def size_for_def ra_zero_def Let_def split: if_splits)
  ultimately show ?thesis
    using vector_push_appends [OF ra_zero_ok _ _ _ p] p
    by (auto simp: vector_init_def vector_bytes_def vector_block_def)
qed

lemma vector_resize_spec:
  assumes ra: "realloc_ok ra" and wf: "vector_wf v" and fit: "vector_fits v (unat n)"
    and rs: "vector_resize ra v n = (r, v')"
  shows "(r = -1 \<and> v' = v) \<or>
    (r = 0 \<and> vector_wf v' \<and> vsize v' = n \<and> elemsize v' = elemsize v \<and>
     (\<forall>k. k \<le> unat n \<longrightarrow> k \<le> unat (vsize v) \<longrightarrow>
        take (k * unat (elemsize v)) (vector_bytes v') = take (k * unat (elemsize v)) (vector_bytes v)))"
proof -
  let ?es = "unat (elemsize v)"
  obtain r1 v1 where sz: "size_for ra v n = (r1, v1)"
    by fastforce
  have wfb: "block_wf v" and szle: "vsize v \<le> vcapacity v"
    using wf by (auto simp: vector_wf_def)
  from size_for_spec [OF ra wfb fit sz] show ?thesis
  proof
    assume "r1 = -1 \<and> v1 = v"
    then show ?thesis
      using rs sz by (simp add: vector_resize_def)
  next
    assume ok: "r1 = 0 \<and> elemsize v1 = elemsize v \<and> vsize v1 = vsize v \<and> n \<le> vcapacity v1 \<and>
      block_wf v1 \<and> (\<forall>k. k \<le> unat n * ?es \<longrightarrow> k \<le> length (vector_block v) \<longrightarrow>
        take k (vector_block v1) = take k (vector_block v))"
    then have v': "r = 0" "v' = v1\<lparr>vsize := n\<rparr>"
      using rs sz by (auto simp: vector_resize_def)
    have "take (k * ?es) (vector_bytes v') = take (k * ?es) (vector_bytes v)"
      if k: "k \<le> unat n" "k \<le> unat (vsize v)" for k
    proof -
      define j where "j = k * ?es"
      have j: "j \<le> unat n * ?es" "j \<le> unat (vsize v) * ?es"
        using k by (simp_all add: j_def)
      moreover have "unat (vsize v) * ?es \<le> length (vector_block v)"
        using szle by (simp add: block_length [OF wfb] word_le_nat_alt)
      ultimately have "take j (vector_block v1) = take j (vector_block v)"
        using ok by auto
      moreover have "vector_block v' = vector_block v1" "vsize v' = n" "elemsize v' = elemsize v"
        using v' ok by (simp_all add: vector_block_def)
      ultimately show ?thesis
        using j by (simp add: vector_bytes_def min_absorb1 flip: j_def)
    qed
    then show ?thesis
      using v' ok by (auto simp: vector_wf_def block_wf_def split: option.splits)
  qed
qed

text \<open>
  Popping elements off a well-formed vector keeps the invariant and leaves exactly the
  contents without the popped elements, or all of it when the shrinking reallocation fails
  and the vector is unchanged.
\<close>

theorem vector_pop_drops:
  assumes ra: "realloc_ok ra" and wf: "vector_wf v" and fit: "vector_fits v (unat (vsize v))"
    and pop: "vector_pop ra v count = (r, v')"
  shows "(r = -1 \<and> v' = v) \<or>
    (r = 0 \<and> vector_wf v' \<and> unat (vsize v') = unat (vsize v) - unat count \<and>
     vector_bytes v' = take ((unat (vsize v) - unat count) * unat (elemsize v)) (vector_bytes v))"
proof -
  let ?n = "vsize v - (if count > vsize v then vsize v else count)"
  have n: "unat ?n = unat (vsize v) - unat count"
    by (simp add: word_less_nat_alt unat_sub word_le_nat_alt)
  have "(unat (vsize v) - unat count) * unat (elemsize v) \<le> unat (vsize v) * unat (elemsize v)"
    by simp
  then have "max 8 (2 * (unat (vsize v) - unat count)) * unat (elemsize v)
      \<le> max 8 (2 * unat (vsize v)) * unat (elemsize v)"
    by (intro mult_right_mono) auto
  then have fit': "vector_fits v (unat ?n)"
    using fit unfolding vector_fits_def n by linarith
  have rs: "vector_resize ra v ?n = (r, v')"
    using pop by (simp add: vector_pop_def Let_def)
  from vector_resize_spec [OF ra wf fit' rs] show ?thesis
  proof
    assume ok: "r = 0 \<and> vector_wf v' \<and> vsize v' = ?n \<and> elemsize v' = elemsize v \<and>
      (\<forall>k. k \<le> unat ?n \<longrightarrow> k \<le> unat (vsize v) \<longrightarrow>
         take (k * unat (elemsize v)) (vector_bytes v') = take (k * unat (elemsize v)) (vector_bytes v))"
    then have "take (unat ?n * unat (elemsize v)) (vector_bytes v') = take (unat ?n * unat (elemsize v)) (vector_bytes v)"
      using n by auto
    moreover have "take (unat ?n * unat (elemsize v)) (vector_bytes v') = vector_bytes v'"
      using ok by (simp add: vector_bytes_length)
    ultimately show ?thesis
      using ok n by auto
  qed simp
qed

theorem vector_pop_drops_witness:
  "case vector_pop ra_zero \<lparr>ptr = Some [1, 2, 3, 4, 5, 6, 7, 8], elemsize = 1, vcapacity = 8, vsize = 3\<rparr> 2
     of (r, v') \<Rightarrow> r = 0 \<and> vector_bytes v' = [1]"
proof -
  let ?v = "\<lparr>ptr = Some [1, 2, 3, 4, 5, 6, 7, 8], elemsize = 1, vcapacity = 8, vsize = 3\<rparr>"
  obtain r v' where p: "vector_pop ra_zero ?v 2 = (r, v')"
    by fastforce
  have "vector_wf ?v" "vector_fits ?v (unat (vsize ?v))"
    by (simp_all add: vector_wf_def block_wf_def vector_fits_def)
  moreover have "r \<noteq> -1"
    using p by (auto simp: vector_pop_def vector_resize_def size_for_def ra_zero_def Let_def
      split: if_splits)
  ultimately show ?thesis
    using vector_pop_drops [OF ra_zero_ok _ _ p] p
    by (auto simp: vector_bytes_def vector_block_def)
qed

text \<open>
  Above \<open>2 ^ 30\<close> elements the rounding in \<open>size_for\<close> overflows the C \<open>int\<close>: asking for
  \<open>2 ^ 30 + 1\<close> elements reports success after allocating room for 8.
\<close>

lemma vector_resize_overflow:
  assumes "ra None 8 = Some b"
  shows "vector_resize ra (vector_init 1) (2 ^ 30 + 1) =
    (0, \<lparr>ptr = Some b, elemsize = 1, vcapacity = 8, vsize = 2 ^ 30 + 1\<rparr>)"
proof -
  have t: "unat (top_bit (2 ^ 30 + 1)) = 2 ^ 30"
    by (rule top_bit_eq) simp_all
  then have t': "top_bit (2 ^ 30 + 1) = 2 ^ 30"
    by (simp add: word_unat_eq_iff)
  have "vector_cap (2 ^ 30 + 1) = 8"
    unfolding vector_cap_def Let_def t' by (simp add: push_bit_eq_mult)
  with assms show ?thesis
    by (simp add: vector_resize_def size_for_def vector_init_def)
qed

end
