(* ===== verification/Dlb_Hash.thy ===== *)
theory Dlb_Hash
  imports Dlb_Prelude
begin

text \<open>
  The intrusive hash table of src/src/hash.h and src/src/hash.c. The table is the list of its
  chains, and a chain is the list of the addresses of its nodes (the \<open>next\<close> pointers run
  through nothing else); the \<open>code\<close> fields of the nodes are a map from addresses. The user's
  callbacks are parameters: the hash function \<open>hf\<close> and the comparison \<open>eq\<close>, where \<open>eq k n\<close>
  says that the C callback returns 0. The verdict of the one \<open>malloc\<close> call is the parameter
  \<open>mok\<close>. A node's key is fixed while it is in a table: \<open>key_of\<close> in the theorems.
\<close>

unbundle bit_operations_syntax

section \<open>Interface: a set of nodes indexed by their keys\<close>

locale keyed_nodes =
  fixes inv :: "'t \<Rightarrow> bool"
    and key_of :: "addr \<Rightarrow> 'k"
    and count :: "'t \<Rightarrow> nat"
    and limit :: nat
    and find :: "'t \<Rightarrow> 'k \<Rightarrow> addr option"
    and put :: "addr \<Rightarrow> 't \<Rightarrow> 't"
    and del :: "addr \<Rightarrow> 't \<Rightarrow> 't"
  assumes put_law: "inv t \<Longrightarrow> count t < limit \<Longrightarrow> find t (key_of n) \<noteq> Some n \<Longrightarrow>
      inv (put n t) \<and> count (put n t) \<le> count t + 1 \<and> find (put n t) = (find t)(key_of n \<mapsto> n)"
    and del_law: "inv t \<Longrightarrow> count t < limit \<Longrightarrow> find t (key_of n) = Some n \<Longrightarrow>
      inv (del n t) \<and> find (del n t) = (find t)(key_of n := None)"
begin

lemma put_del:
  assumes "inv t" "count t + 1 < limit" "find t (key_of n) = None"
  shows "inv (del n (put n t)) \<and> find (del n (put n t)) = find t"
proof -
  have "inv (put n t)" "find (put n t) = (find t)(key_of n \<mapsto> n)" "count (put n t) < limit"
    using assms put_law [of t n] by auto
  then show ?thesis
    using del_law [of "put n t" n] assms(3) by (auto simp: fun_eq_iff)
qed

lemma put_all_find:
  assumes "inv t" "count t + length ns \<le> limit" "distinct (map key_of ns)"
    and "\<And>n. n \<in> set ns \<Longrightarrow> find t (key_of n) = None"
  shows "inv (fold put ns t) \<and> (\<forall>n\<in>set ns. find (fold put ns t) (key_of n) = Some n) \<and>
    (\<forall>k. k \<notin> key_of ` set ns \<longrightarrow> find (fold put ns t) k = find t k)"
  using assms
proof (induction ns arbitrary: t)
  case (Cons n ns)
  have p: "inv (put n t)" "count (put n t) \<le> count t + 1" "find (put n t) = (find t)(key_of n \<mapsto> n)"
    using Cons.prems put_law [of t n] by auto
  have "find (put n t) (key_of m) = None" if "m \<in> set ns" for m
    using that Cons.prems p(3) by (auto simp: rev_image_eqI)
  with Cons.IH [OF p(1)] Cons.prems(2,3) p(2) have IH: "inv (fold put ns (put n t)) \<and>
      (\<forall>m\<in>set ns. find (fold put ns (put n t)) (key_of m) = Some m) \<and>
      (\<forall>k. k \<notin> key_of ` set ns \<longrightarrow> find (fold put ns (put n t)) k = find (put n t) k)"
    by simp
  have "key_of n \<notin> key_of ` set ns"
    using Cons.prems(3) by simp
  with IH p(3) show ?case
    by auto
qed simp

end

section \<open>The table and its operations\<close>

record hash =
  hsize :: nat
  hcount :: nat
  htable :: "addr list list"

type_synonym codes = "addr \<Rightarrow> u32"

definition hash_init :: hash where
  "hash_init = \<lparr>hsize = 0, hcount = 0, htable = []\<rparr>"

definition hash_destroy :: "hash \<Rightarrow> hash" where
  "hash_destroy h = \<lparr>hsize = 0, hcount = 0, htable = []\<rparr>"

text \<open>The doubling loop: \<open>while (new_size < hint) new_size <<= 1;\<close> on 32 bit numbers.\<close>

partial_function (option) grow :: "nat \<Rightarrow> nat \<Rightarrow> nat option" where
  "grow new_size hint = (if new_size < hint then grow (wrap32 (2 * new_size)) hint else Some new_size)"

text \<open>The inner loop of the primality search: \<open>for (d = 2; d * d <= new_size; d++)\<close>.\<close>

function no_divisor :: "nat \<Rightarrow> nat \<Rightarrow> bool" where
  "no_divisor d n = (if d * d \<le> n then (if n mod d = 0 then False else no_divisor (d + 1) n) else True)"
  by pat_completeness auto
termination
proof (relation "measure (\<lambda>(d, n). Suc n - d)")
  fix d n :: nat
  assume "d * d \<le> n"
  then have "d \<le> n"
    using le_square [of d] by linarith
  then show "((d + 1, n), d, n) \<in> measure (\<lambda>(d, n). Suc n - d)"
    by simp
qed simp

declare no_divisor.simps [simp del]

lemma no_divisor_iff: "2 \<le> d \<Longrightarrow> no_divisor d n \<longleftrightarrow> (\<forall>e. d \<le> e \<longrightarrow> e * e \<le> n \<longrightarrow> \<not> e dvd n)"
proof (induction d n rule: no_divisor.induct)
  case (1 d n)
  show ?case
  proof (cases "d * d \<le> n")
    case True
    have "(\<forall>e. d \<le> e \<longrightarrow> e * e \<le> n \<longrightarrow> \<not> e dvd n) \<longleftrightarrow>
        \<not> d dvd n \<and> (\<forall>e. d + 1 \<le> e \<longrightarrow> e * e \<le> n \<longrightarrow> \<not> e dvd n)"
      using True by (metis Suc_eq_plus1 Suc_leD le_antisym not_less_eq_eq order_refl)
    then show ?thesis
      using True "1" by (simp add: no_divisor.simps [of d] dvd_eq_mod_eq_0)
  next
    case False
    have "d * d \<le> e * e" if "d \<le> e" for e
      using that by (simp add: mult_le_mono)
    then have "\<not> e * e \<le> n" if "d \<le> e" for e
      using that False le_trans by blast
    then show ?thesis
      using False by (simp add: no_divisor.simps [of d])
  qed
qed

text \<open>There is always a next number without divisors (Euclid), so the search ends.\<close>

lemma no_divisor_above: "\<exists>p\<ge>n. no_divisor 2 p"
proof -
  let ?P = "\<lambda>p::nat. 2 \<le> p \<and> p dvd fact n + 1"
  define p where "p = (LEAST p. ?P p)"
  have "?P (fact n + 1)"
    using fact_ge_1 [of n, where 'a = nat] by simp
  then have p: "?P p"
    unfolding p_def by (rule LeastI)
  have least: "p \<le> q" if "?P q" for q
    unfolding p_def using that by (rule Least_le)
  have "n \<le> p"
  proof (rule ccontr)
    assume "\<not> n \<le> p"
    then have "p dvd fact n"
      using p by (intro dvd_fact) auto
    then have "p dvd 1"
      using p by (metis dvd_add_right_iff)
    then show False
      using p by simp
  qed
  moreover have "no_divisor 2 p"
  proof -
    have "\<not> e dvd p" if "2 \<le> e" "e * e \<le> p" for e
    proof
      assume "e dvd p"
      then have "p \<le> e"
        using p that least dvd_trans by blast
      moreover have "e < e * e"
        using that by simp
      ultimately show False
        using that by simp
    qed
    then show ?thesis
      by (simp add: no_divisor_iff)
  qed
  ultimately show ?thesis
    by blast
qed

function next_prime :: "nat \<Rightarrow> nat" where
  "next_prime n = (if no_divisor 2 n then n else next_prime (n + 1))"
  by pat_completeness auto
termination
proof (relation "measure (\<lambda>n. (LEAST p. n \<le> p \<and> no_divisor 2 p) - n)")
  fix n :: nat
  assume n: "\<not> no_divisor 2 n"
  let ?L = "\<lambda>n. LEAST p. n \<le> p \<and> no_divisor 2 p"
  have ex: "n \<le> ?L n \<and> no_divisor 2 (?L n)"
    by (rule LeastI_ex) (use no_divisor_above [of n] in blast)
  then have "n + 1 \<le> ?L n"
    using n by (metis Suc_eq_plus1 le_neq_implies_less less_eq_Suc_le)
  moreover have "?L (n + 1) \<le> ?L n"
    by (rule Least_le) (use ex calculation in blast)
  moreover have "n + 1 \<le> ?L (n + 1)"
  proof -
    have "n + 1 \<le> ?L (n + 1) \<and> no_divisor 2 (?L (n + 1))"
      by (rule LeastI_ex) (use no_divisor_above [of "n + 1"] in blast)
    then show ?thesis ..
  qed
  ultimately show "(n + 1, n) \<in> measure (\<lambda>n. ?L n - n)"
    by simp
qed simp

declare next_prime.simps [simp del]

text \<open>Moving every node of the old table to the front of its new chain.\<close>

fun rehash_chain :: "codes \<Rightarrow> nat \<Rightarrow> addr list \<Rightarrow> addr list list \<Rightarrow> addr list list" where
  "rehash_chain codes new_size [] new_table = new_table"
| "rehash_chain codes new_size (n # chain) new_table =
     (let new_index = unat (codes n) mod new_size
      in rehash_chain codes new_size chain (new_table[new_index := n # new_table ! new_index]))"

fun rehash :: "codes \<Rightarrow> nat \<Rightarrow> addr list list \<Rightarrow> addr list list \<Rightarrow> addr list list" where
  "rehash codes new_size [] new_table = new_table"
| "rehash codes new_size (chain # table) new_table =
     rehash codes new_size table (rehash_chain codes new_size chain new_table)"

definition hash_capacity_hint :: "codes \<Rightarrow> bool \<Rightarrow> hash \<Rightarrow> nat \<Rightarrow> (int \<times> hash) option" where
  "hash_capacity_hint codes mok h hint =
     (if hint < hcount h then Some (0, h)
      else case grow 32 hint of None \<Rightarrow> None | Some doubled \<Rightarrow>
        (let new_size = next_prime doubled in
         if hsize h = new_size then Some (0, h)
         else if \<not> mok then Some (-1, h)
         else Some (0, h\<lparr>htable := rehash codes new_size (htable h) (replicate new_size []),
                         hsize := new_size\<rparr>)))"

fun find_chain :: "('k \<Rightarrow> addr \<Rightarrow> bool) \<Rightarrow> 'k \<Rightarrow> addr list \<Rightarrow> addr option" where
  "find_chain eq key [] = None"
| "find_chain eq key (n # chain) = (if eq key n then Some n else find_chain eq key chain)"

definition hash_find :: "('k \<Rightarrow> u32) \<Rightarrow> ('k \<Rightarrow> addr \<Rightarrow> bool) \<Rightarrow> hash \<Rightarrow> 'k \<Rightarrow> addr option" where
  "hash_find hf eq h key =
     (if hsize h \<noteq> 0 then find_chain eq key (htable h ! (unat (hf key) mod hsize h)) else None)"

text \<open>
  The replacing scan of \<open>hash_insert\<close>: nodes with another key are pushed in front of the new
  chain, a node with the same key is dropped and remembered.
\<close>

fun insert_chain :: "('k \<Rightarrow> addr \<Rightarrow> bool) \<Rightarrow> 'k \<Rightarrow> addr list \<Rightarrow> addr option \<Rightarrow> addr list
    \<Rightarrow> addr list \<times> addr option" where
  "insert_chain eq key ins old [] = (ins, old)"
| "insert_chain eq key ins old (n # chain) =
     (if \<not> eq key n then insert_chain eq key (n # ins) old chain
      else insert_chain eq key ins (Some n) chain)"

definition HASH_INSERT_PREHASHED :: u32 where "HASH_INSERT_PREHASHED = 1"
definition HASH_INSERT_UNIQUE :: u32 where "HASH_INSERT_UNIQUE = 2"

definition hash_insert :: "('k \<Rightarrow> u32) \<Rightarrow> ('k \<Rightarrow> addr \<Rightarrow> bool) \<Rightarrow> bool \<Rightarrow> 'k \<Rightarrow> addr \<Rightarrow> u32
    \<Rightarrow> hash \<Rightarrow> codes \<Rightarrow> (int \<times> addr option \<times> hash \<times> codes) option" where
  "hash_insert hf eq mok key ins flags h codes =
     (case (if hcount h \<ge> hsize h then hash_capacity_hint codes mok h (wrap32 (hcount h + 1))
            else Some (0, h)) of
        None \<Rightarrow> None
      | Some (r, h1) \<Rightarrow>
          if r < 0 then Some (-1, None, h1, codes)
          else
            (let codes1 = (if flags AND HASH_INSERT_PREHASHED = 0
                           then codes(ins := hf key) else codes);
                 index = unat (codes1 ins) mod hsize h1
             in if flags AND HASH_INSERT_UNIQUE \<noteq> 0
                then Some (0, None, h1\<lparr>htable := (htable h1)[index := ins # htable h1 ! index],
                                      hcount := wrap32 (hcount h1 + 1)\<rparr>, codes1)
                else
                  (let (chain, old) = insert_chain eq key [ins] None (htable h1 ! index)
                   in Some (0, old, h1\<lparr>htable := (htable h1)[index := chain],
                              hcount := (if old = None then wrap32 (hcount h1 + 1) else hcount h1)\<rparr>,
                            codes1))))"

text \<open>Unlinking a node from its chain; \<open>None\<close> when it is not there.\<close>

fun unlink :: "addr \<Rightarrow> addr list \<Rightarrow> addr list option" where
  "unlink n [] = None"
| "unlink n (s # chain) = (if s = n then Some chain else map_option ((#) s) (unlink n chain))"

definition hash_remove :: "bool \<Rightarrow> addr \<Rightarrow> hash \<Rightarrow> codes \<Rightarrow> hash option" where
  "hash_remove mok n h codes =
     (let index = unat (codes n) mod hsize h;
          h1 = (case unlink n (htable h ! index) of
                  None \<Rightarrow> h
                | Some chain \<Rightarrow> h\<lparr>htable := (htable h)[index := chain], hcount := hcount h - 1\<rparr>)
      in if wrap32 (hcount h1 * 4) < hsize h1
         then map_option snd (hash_capacity_hint codes mok h1 (hcount h1))
         else Some h1)"

section \<open>Growing and rehashing\<close>

lemma grow_some: "0 < s \<Longrightarrow> hint \<le> 2 ^ 31 \<Longrightarrow> \<exists>r. grow s hint = Some r \<and> hint \<le> r \<and> s \<le> r"
proof (induction "hint - s" arbitrary: s rule: less_induct)
  case less
  show ?case
  proof (cases "s < hint")
    case True
    then have w: "wrap32 (2 * s) = 2 * s"
      using less.prems by simp
    have "\<exists>r. grow (2 * s) hint = Some r \<and> hint \<le> r \<and> 2 * s \<le> r"
      using True less.prems by (intro less.hyps) auto
    then show ?thesis
      using True w by (subst grow.simps) auto
  next
    case False
    then show ?thesis
      by (subst grow.simps) auto
  qed
qed

lemma next_prime_spec: "n \<le> next_prime n \<and> no_divisor 2 (next_prime n)"
  by (induction n rule: next_prime.induct) (subst (1 2) next_prime.simps, auto)

lemma rehash_chain_length [simp]: "length (rehash_chain codes ns chain tbl) = length tbl"
  by (induction chain arbitrary: tbl) (auto simp: Let_def)

lemma rehash_chain_nth:
  "length tbl = ns \<Longrightarrow> i < ns \<Longrightarrow> rehash_chain codes ns chain tbl ! i
    = rev (filter (\<lambda>n. unat (codes n) mod ns = i) chain) @ tbl ! i"
  by (induction chain arbitrary: tbl) (auto simp: Let_def nth_list_update)

lemma rehash_length [simp]: "length (rehash codes ns table tbl) = length tbl"
  by (induction table arbitrary: tbl) auto

lemma rehash_nth:
  "length tbl = ns \<Longrightarrow> i < ns \<Longrightarrow> rehash codes ns table tbl ! i
    = rev (filter (\<lambda>n. unat (codes n) mod ns = i) (concat table)) @ tbl ! i"
  by (induction table arbitrary: tbl) (auto simp: rehash_chain_nth)

section \<open>Invariant\<close>

definition hash_nodes :: "hash \<Rightarrow> addr set" where
  "hash_nodes h = set (concat (htable h))"

text \<open>
  Every chain holds distinct nodes that belong there by their code, codes are the hashes of
  the keys, no two nodes have the same key, and the counter counts the nodes.
\<close>

definition hash_inv :: "('k \<Rightarrow> u32) \<Rightarrow> (addr \<Rightarrow> 'k) \<Rightarrow> hash \<Rightarrow> codes \<Rightarrow> bool" where
  "hash_inv hf key_of h codes \<longleftrightarrow>
     length (htable h) = hsize h \<and>
     (\<forall>i<hsize h. distinct (htable h ! i) \<and> (\<forall>n\<in>set (htable h ! i). unat (codes n) mod hsize h = i)) \<and>
     (\<forall>n\<in>hash_nodes h. codes n = hf (key_of n)) \<and>
     inj_on key_of (hash_nodes h) \<and> hcount h = card (hash_nodes h)"

lemma hash_nodes_iff: "n \<in> hash_nodes h \<longleftrightarrow> (\<exists>i<length (htable h). n \<in> set (htable h ! i))"
  unfolding hash_nodes_def by (rule in_set_concat_nth)

lemma finite_hash_nodes [simp]: "finite (hash_nodes h)"
  by (simp add: hash_nodes_def)

lemma chain_in_nodes:
  "length (htable h) = hsize h \<Longrightarrow> 0 < hsize h \<Longrightarrow> n \<in> set (htable h ! (c mod hsize h)) \<Longrightarrow>
    n \<in> hash_nodes h"
  by (auto simp: hash_nodes_iff intro!: exI [of _ "c mod hsize h"])

lemma hash_nodes_index:
  "hash_inv hf key_of h codes \<Longrightarrow> n \<in> hash_nodes h \<longleftrightarrow>
    0 < hsize h \<and> n \<in> set (htable h ! (unat (codes n) mod hsize h))"
  using chain_in_nodes [of h n "unat (codes n)"] by (auto simp: hash_nodes_iff hash_inv_def)

text \<open>The abstract view of a table: which node a key leads to.\<close>

lemma find_chain_iff:
  assumes "\<And>n. n \<in> set chain \<Longrightarrow> eq k n \<longleftrightarrow> key_of n = k" "inj_on key_of (set chain)"
  shows "find_chain eq k chain = Some n \<longleftrightarrow> n \<in> set chain \<and> key_of n = k"
  using assms by (induction chain) (auto simp: inj_on_def)

definition eq_ok :: "('k \<Rightarrow> addr \<Rightarrow> bool) \<Rightarrow> (addr \<Rightarrow> 'k) \<Rightarrow> bool" where
  "eq_ok eq key_of \<longleftrightarrow> (\<forall>k n. eq k n \<longleftrightarrow> key_of n = k)"

lemma hash_find_iff:
  assumes inv: "hash_inv hf key_of h codes" and eq: "eq_ok eq key_of"
  shows "hash_find hf eq h k = Some n \<longleftrightarrow> n \<in> hash_nodes h \<and> key_of n = k"
proof (cases "hsize h = 0")
  case True
  then show ?thesis
    using inv by (auto simp: hash_find_def hash_nodes_iff hash_inv_def)
next
  case False
  let ?c = "htable h ! (unat (hf k) mod hsize h)"
  have sub: "set ?c \<subseteq> hash_nodes h"
    using inv False chain_in_nodes [of h _ "unat (hf k)"] by (auto simp: hash_inv_def)
  have "hash_find hf eq h k = Some n \<longleftrightarrow> n \<in> set ?c \<and> key_of n = k"
    using False inv eq sub
    by (simp add: hash_find_def)
      (rule find_chain_iff, auto simp: eq_ok_def hash_inv_def intro: inj_on_subset)
  also have "\<dots> \<longleftrightarrow> n \<in> hash_nodes h \<and> key_of n = k"
  proof -
    have "n \<in> set ?c" if "n \<in> hash_nodes h" "key_of n = k"
    proof -
      have "codes n = hf k"
        using inv that by (simp add: hash_inv_def)
      then show ?thesis
        using hash_nodes_index [OF inv, of n] that(1) by simp
    qed
    then show ?thesis
      using sub by blast
  qed
  finally show ?thesis .
qed

lemma hash_find_eqI:
  assumes "hash_inv hf key_of h codes" "hash_inv hf key_of h' codes'" "eq_ok eq key_of"
    and "\<And>n. n \<in> hash_nodes h' \<and> key_of n = k \<longleftrightarrow> n \<in> hash_nodes h \<and> key_of n = k"
  shows "hash_find hf eq h' k = hash_find hf eq h k"
  using assms(4) hash_find_iff [OF assms(1,3), of k] hash_find_iff [OF assms(2,3), of k]
  by (metis not_Some_eq)

lemma hash_init_inv: "hash_inv hf key_of hash_init codes"
  by (simp add: hash_inv_def hash_init_def hash_nodes_def)

lemma rehash_nodes:
  assumes "0 < ns"
  shows "set (concat (rehash codes ns table (replicate ns []))) = set (concat table)"
proof -
  have "n \<in> set (concat (rehash codes ns table (replicate ns []))) \<longleftrightarrow>
      (\<exists>i<ns. n \<in> set (rehash codes ns table (replicate ns []) ! i))" for n
    by (simp only: in_set_concat_nth rehash_length length_replicate)
  moreover have "(\<exists>i<ns. n \<in> set (rehash codes ns table (replicate ns []) ! i)) \<longleftrightarrow>
      n \<in> set (concat table)" for n
    using assms by (auto simp: rehash_nth intro!: exI [of _ "unat (codes n) mod ns"])
  ultimately show ?thesis
    by blast
qed

lemma distinct_concat_by_index:
  assumes "\<And>i. i < length tbl \<Longrightarrow> distinct (tbl ! i) \<and> (\<forall>n\<in>set (tbl ! i). f n = i)"
  shows "distinct (concat tbl)"
  using assms
proof (induction tbl arbitrary: f)
  case (Cons c tbl)
  have "distinct (tbl ! i) \<and> (\<forall>n\<in>set (tbl ! i). f n - 1 = i)" if "i < length tbl" for i
    using Cons.prems [of "Suc i"] that by auto
  then have "distinct (concat tbl)"
    by (intro Cons.IH [of "\<lambda>n. f n - 1"])
  moreover have "set c \<inter> set (concat tbl) = {}"
  proof -
    have "f n = 0" if "n \<in> set c" for n
      using Cons.prems [of 0] that by simp
    moreover have "f n \<noteq> 0" if mem: "n \<in> set (concat tbl)" for n
    proof -
      obtain i where "i < length tbl" "n \<in> set (tbl ! i)"
        using mem unfolding in_set_concat_nth by blast
      then show ?thesis
        using Cons.prems [of "Suc i"] by auto
    qed
    ultimately show ?thesis
      by blast
  qed
  ultimately show ?case
    using Cons.prems [of 0] by simp
qed simp

lemma hash_inv_rehash:
  assumes inv: "hash_inv hf key_of h codes" and ns: "0 < ns"
  shows "hash_inv hf key_of (h\<lparr>htable := rehash codes ns (htable h) (replicate ns []), hsize := ns\<rparr>) codes"
    and "hash_nodes (h\<lparr>htable := rehash codes ns (htable h) (replicate ns []), hsize := ns\<rparr>) = hash_nodes h"
proof -
  have d: "distinct (concat (htable h))"
    using inv by (intro distinct_concat_by_index [of _ "\<lambda>n. unat (codes n) mod hsize h"])
      (auto simp: hash_inv_def)
  show nodes: "hash_nodes (h\<lparr>htable := rehash codes ns (htable h) (replicate ns []), hsize := ns\<rparr>) = hash_nodes h"
    using rehash_nodes [OF ns] by (simp add: hash_nodes_def)
  show "hash_inv hf key_of (h\<lparr>htable := rehash codes ns (htable h) (replicate ns []), hsize := ns\<rparr>) codes"
    using inv d ns unfolding hash_inv_def nodes
    by (auto simp: rehash_nth)
qed

lemma hash_capacity_hint_spec:
  assumes inv: "hash_inv hf key_of h codes" and hint: "hint \<le> 2 ^ 31"
  shows "\<exists>r h'. hash_capacity_hint codes mok h hint = Some (r, h') \<and>
    ((r = -1 \<and> \<not> mok \<and> h' = h) \<or>
     (r = 0 \<and> hash_inv hf key_of h' codes \<and> hash_nodes h' = hash_nodes h \<and> hcount h' = hcount h \<and>
      (hcount h \<le> hint \<longrightarrow> 32 \<le> hsize h' \<and> hint \<le> hsize h' \<and> no_divisor 2 (hsize h'))))"
proof -
  obtain g where g: "grow 32 hint = Some g" "hint \<le> g" "32 \<le> g"
    using grow_some [of 32 hint] hint by auto
  let ?n = "next_prime g"
  have n: "g \<le> ?n" "no_divisor 2 ?n"
    using next_prime_spec by auto
  show ?thesis
    using inv g n hash_inv_rehash [OF inv, of ?n]
    by (auto simp: hash_capacity_hint_def Let_def)
qed

section \<open>Replacing one chain\<close>

lemma hash_update_nodes:
  assumes inv: "hash_inv hf key_of h codes" and i: "i < hsize h"
  shows "hash_nodes (h\<lparr>htable := (htable h)[i := c], hcount := k\<rparr>)
    = (hash_nodes h - set (htable h ! i)) \<union> set c"
proof -
  have len: "length (htable h) = hsize h"
    and idx: "\<And>j n. j < hsize h \<Longrightarrow> n \<in> set (htable h ! j) \<Longrightarrow> unat (codes n) mod hsize h = j"
    using inv by (auto simp: hash_inv_def)
  have "n \<in> hash_nodes (h\<lparr>htable := (htable h)[i := c], hcount := k\<rparr>) \<longleftrightarrow>
      n \<in> set c \<or> (\<exists>j<hsize h. j \<noteq> i \<and> n \<in> set (htable h ! j))" for n
    using i len by (auto simp: hash_nodes_iff nth_list_update split: if_splits)
  moreover have "(\<exists>j<hsize h. j \<noteq> i \<and> n \<in> set (htable h ! j)) \<longleftrightarrow>
      n \<in> hash_nodes h \<and> n \<notin> set (htable h ! i)" for n
    using idx i len by (metis hash_nodes_iff)
  ultimately show ?thesis
    by blast
qed

lemma hash_update_inv:
  assumes inv: "hash_inv hf key_of h codes" and i: "i < hsize h" and d: "distinct c"
    and c: "\<And>n. n \<in> set c \<Longrightarrow> unat (codes' n) mod hsize h = i \<and> codes' n = hf (key_of n)"
    and same: "\<And>n. n \<in> hash_nodes h - set (htable h ! i) \<Longrightarrow> codes' n = codes n"
    and inj: "inj_on key_of ((hash_nodes h - set (htable h ! i)) \<union> set c)"
    and k: "k = card ((hash_nodes h - set (htable h ! i)) \<union> set c)"
  shows "hash_inv hf key_of (h\<lparr>htable := (htable h)[i := c], hcount := k\<rparr>) codes'"
proof -
  let ?h = "h\<lparr>htable := (htable h)[i := c], hcount := k\<rparr>"
  have nodes: "hash_nodes ?h = (hash_nodes h - set (htable h ! i)) \<union> set c"
    by (rule hash_update_nodes [OF inv i])
  have len: "length (htable h) = hsize h"
    and idx: "\<And>j n. j < hsize h \<Longrightarrow> n \<in> set (htable h ! j) \<Longrightarrow> unat (codes n) mod hsize h = j"
    using inv by (auto simp: hash_inv_def)
  have other: "n \<in> hash_nodes h - set (htable h ! i)"
    if "j < hsize h" "j \<noteq> i" "n \<in> set (htable h ! j)" for n j
    using that idx i len by (metis DiffI hash_nodes_iff)
  show ?thesis
    unfolding hash_inv_def nodes
  proof (intro conjI allI impI ballI)
    show "length (htable ?h) = hsize ?h"
      using len by simp
    show "distinct (htable ?h ! j)" if "j < hsize ?h" for j
      using that inv d len by (cases "j = i") (auto simp: hash_inv_def)
    show "unat (codes' n) mod hsize ?h = j" if "j < hsize ?h" "n \<in> set (htable ?h ! j)" for j n
    proof (cases "j = i")
      case True
      then show ?thesis
        using that c [of n] len by auto
    next
      case False
      then show ?thesis
        using that idx [of j n] same [OF other, of j n] by simp
    qed
    show "codes' n = hf (key_of n)" if "n \<in> hash_nodes h - set (htable h ! i) \<union> set c" for n
      using that c same [of n] inv by (auto simp: hash_inv_def)
  qed (use inj k in simp_all)
qed

lemma insert_chain_eq:
  "insert_chain eq k acc old chain =
    (rev (filter (\<lambda>n. \<not> eq k n) chain) @ acc,
     if filter (eq k) chain = [] then old else Some (last (filter (eq k) chain)))"
  by (induction chain arbitrary: acc old) auto

lemma unlink_eq:
  "distinct chain \<Longrightarrow> unlink n chain = (if n \<in> set chain then Some (filter (\<lambda>m. m \<noteq> n) chain) else None)"
proof (induction chain)
  case (Cons m chain)
  then show ?case
    by (cases "m = n") (auto simp: filter_id_conv intro!: sym [of "filter _ _"])
qed simp

text \<open>The node with a given key, if there is one, is in the chain of the key's hash.\<close>

lemma hash_chain_key:
  assumes inv: "hash_inv hf key_of h codes" and pos: "0 < hsize h"
  shows "{n \<in> set (htable h ! (unat (hf k) mod hsize h)). key_of n = k} = {n \<in> hash_nodes h. key_of n = k}"
proof -
  have len: "length (htable h) = hsize h" and codes: "\<And>n. n \<in> hash_nodes h \<Longrightarrow> codes n = hf (key_of n)"
    using inv by (auto simp: hash_inv_def)
  have "n \<in> set (htable h ! (unat (hf k) mod hsize h))" if "n \<in> hash_nodes h" "key_of n = k" for n
    using hash_nodes_index [OF inv, of n] codes [OF that(1)] that by simp
  then show ?thesis
    using chain_in_nodes [OF len pos] by blast
qed

section \<open>Insertion and removal\<close>

lemma hash_insert_replace:
  assumes inv: "hash_inv hf key_of h codes" and eq: "eq_ok eq key_of" and pos: "0 < hsize h"
    and new: "ins \<notin> hash_nodes h" and key: "key_of ins = k"
    and ch: "insert_chain eq k [ins] None (htable h ! (unat (hf k) mod hsize h)) = (chain, old)"
  defines "h' \<equiv> h\<lparr>htable := (htable h)[unat (hf k) mod hsize h := chain],
      hcount := (if old = None then hcount h + 1 else hcount h)\<rparr>"
  shows "hash_inv hf key_of h' (codes(ins := hf k)) \<and> old = hash_find hf eq h k \<and>
    hash_find hf eq h' = (hash_find hf eq h)(k \<mapsto> ins)"
proof -
  let ?i = "unat (hf k) mod hsize h"
  let ?c = "htable h ! ?i"
  have i: "?i < hsize h"
    using pos by simp
  have len: "length (htable h) = hsize h" and injn: "inj_on key_of (hash_nodes h)"
    and card: "hcount h = card (hash_nodes h)" and dc: "distinct ?c"
    and codes: "\<And>n. n \<in> hash_nodes h \<Longrightarrow> codes n = hf (key_of n)"
    and idx: "\<And>n. n \<in> set ?c \<Longrightarrow> unat (codes n) mod hsize h = ?i"
    using inv i by (auto simp: hash_inv_def)
  have sub: "set ?c \<subseteq> hash_nodes h"
    using chain_in_nodes [OF len pos] by blast
  have keyset: "{n \<in> set ?c. key_of n = k} = {n \<in> hash_nodes h. key_of n = k}"
    by (rule hash_chain_key [OF inv pos])
  have chain: "chain = rev (filter (\<lambda>n. key_of n \<noteq> k) ?c) @ [ins]"
    and old: "old = (if filter (eq k) ?c = [] then None else Some (last (filter (eq k) ?c)))"
    using ch eq by (auto simp: insert_chain_eq eq_ok_def)
  have nodes: "(hash_nodes h - set ?c) \<union> set chain = {n \<in> hash_nodes h. key_of n \<noteq> k} \<union> {ins}"
    using keyset sub by (auto simp: chain)
  have old_find: "old = hash_find hf eq h k"
  proof (cases "filter (eq k) ?c = []")
    case True
    then have "\<not> (n \<in> hash_nodes h \<and> key_of n = k)" for n
      using keyset eq by (auto simp: filter_empty_conv eq_ok_def)
    then have "hash_find hf eq h k = None"
      using hash_find_iff [OF inv eq, of k] by (metis not_Some_eq)
    with True old show ?thesis
      by simp
  next
    case False
    then have "last (filter (eq k) ?c) \<in> set (filter (eq k) ?c)"
      by (rule last_in_set)
    then have "last (filter (eq k) ?c) \<in> hash_nodes h \<and> key_of (last (filter (eq k) ?c)) = k"
      using sub eq by (auto simp: eq_ok_def)
    then have "hash_find hf eq h k = Some (last (filter (eq k) ?c))"
      using hash_find_iff [OF inv eq] by blast
    then show ?thesis
      using False old by simp
  qed
  have cnt: "(if old = None then hcount h + 1 else hcount h)
      = card ({n \<in> hash_nodes h. key_of n \<noteq> k} \<union> {ins})"
  proof (cases old)
    case None
    then have "{n \<in> hash_nodes h. key_of n \<noteq> k} = hash_nodes h"
      using old_find hash_find_iff [OF inv eq, of k] by fastforce
    then show ?thesis
      using None new card by simp
  next
    case (Some m)
    then have m: "m \<in> hash_nodes h" "key_of m = k"
      using old_find hash_find_iff [OF inv eq, of k m] by auto
    then have "{n \<in> hash_nodes h. key_of n \<noteq> k} = hash_nodes h - {m}"
      using injn by (auto simp: inj_on_def)
    then show ?thesis
      using Some new card card_Suc_Diff1 [OF finite_hash_nodes m(1)] by simp
  qed
  have inv': "hash_inv hf key_of h' (codes(ins := hf k))"
    unfolding h'_def
  proof (rule hash_update_inv [OF inv i])
    show "distinct chain"
      using dc new sub by (auto simp: chain)
    show "unat ((codes(ins := hf k)) n) mod hsize h = ?i \<and> (codes(ins := hf k)) n = hf (key_of n)"
      if "n \<in> set chain" for n
      using that idx codes sub key by (auto simp: chain)
    show "(codes(ins := hf k)) n = codes n" if "n \<in> hash_nodes h - set ?c" for n
      using that new by auto
    show "inj_on key_of (hash_nodes h - set ?c \<union> set chain)"
      unfolding nodes using injn key by (auto simp: inj_on_def)
    show "(if old = None then hcount h + 1 else hcount h) = card (hash_nodes h - set ?c \<union> set chain)"
      unfolding nodes by (rule cnt)
  qed
  have nodes': "hash_nodes h' = {n \<in> hash_nodes h. key_of n \<noteq> k} \<union> {ins}"
    unfolding h'_def hash_update_nodes [OF inv i] by (rule nodes)
  have "hash_find hf eq h' k' = ((hash_find hf eq h)(k \<mapsto> ins)) k'" for k'
  proof (cases "k' = k")
    case True
    then show ?thesis
      using hash_find_iff [OF inv' eq, of k ins] key by (simp add: nodes')
  next
    case False
    then show ?thesis
      using key by (auto simp: nodes' intro!: hash_find_eqI [OF inv inv' eq])
  qed
  then show ?thesis
    using inv' old_find by blast
qed

lemma hash_insert_unique:
  assumes inv: "hash_inv hf key_of h codes" and eq: "eq_ok eq key_of" and pos: "0 < hsize h"
    and new: "hash_find hf eq h k = None" and key: "key_of ins = k"
  defines "i \<equiv> unat (hf k) mod hsize h"
  defines "h' \<equiv> h\<lparr>htable := (htable h)[i := ins # htable h ! i], hcount := hcount h + 1\<rparr>"
  shows "hash_inv hf key_of h' (codes(ins := hf k)) \<and>
    hash_find hf eq h' = (hash_find hf eq h)(k \<mapsto> ins)"
proof -
  have i: "i < hsize h"
    using pos by (simp add: i_def)
  have len: "length (htable h) = hsize h" and injn: "inj_on key_of (hash_nodes h)"
    and card: "hcount h = card (hash_nodes h)" and dc: "distinct (htable h ! i)"
    and codes: "\<And>n. n \<in> hash_nodes h \<Longrightarrow> codes n = hf (key_of n)"
    and idx: "\<And>n. n \<in> set (htable h ! i) \<Longrightarrow> unat (codes n) mod hsize h = i"
    using inv i by (auto simp: hash_inv_def)
  have sub: "set (htable h ! i) \<subseteq> hash_nodes h"
    using chain_in_nodes [OF len pos] unfolding i_def by blast
  have nokey: "key_of n \<noteq> k" if "n \<in> hash_nodes h" for n
    using hash_find_iff [OF inv eq, of k n] new that by auto
  then have ins: "ins \<notin> hash_nodes h"
    using key by blast
  have nodes: "(hash_nodes h - set (htable h ! i)) \<union> set (ins # htable h ! i) = insert ins (hash_nodes h)"
    using sub by auto
  have inv': "hash_inv hf key_of h' (codes(ins := hf k))"
    unfolding h'_def
  proof (rule hash_update_inv [OF inv i])
    show "distinct (ins # htable h ! i)"
      using dc ins sub by auto
    show "unat ((codes(ins := hf k)) n) mod hsize h = i \<and> (codes(ins := hf k)) n = hf (key_of n)"
      if "n \<in> set (ins # htable h ! i)" for n
      using that idx codes sub key by (auto simp: i_def)
    show "(codes(ins := hf k)) n = codes n" if "n \<in> hash_nodes h - set (htable h ! i)" for n
      using that ins by auto
    show "inj_on key_of (hash_nodes h - set (htable h ! i) \<union> set (ins # htable h ! i))"
    proof -
      have "key_of ins \<notin> key_of ` (hash_nodes h - {ins})"
        unfolding key using nokey by blast
      with injn show ?thesis
        unfolding nodes inj_on_insert by blast
    qed
    show "hcount h + 1 = card (hash_nodes h - set (htable h ! i) \<union> set (ins # htable h ! i))"
      unfolding nodes using ins card by simp
  qed
  have nodes': "hash_nodes h' = insert ins (hash_nodes h)"
    unfolding h'_def hash_update_nodes [OF inv i] by (rule nodes)
  have "hash_find hf eq h' k' = ((hash_find hf eq h)(k \<mapsto> ins)) k'" for k'
  proof (cases "k' = k")
    case True
    then show ?thesis
      using hash_find_iff [OF inv' eq, of k ins] key by (simp add: nodes')
  next
    case False
    then show ?thesis
      using key by (auto simp: nodes' intro!: hash_find_eqI [OF inv inv' eq])
  qed
  then show ?thesis
    using inv' by blast
qed

lemma hash_nodes_bound: "hash_inv hf key_of h codes \<Longrightarrow> hash_find hf eq h k = None \<or> 0 < hsize h"
  by (auto simp: hash_find_def)

lemma hash_insert_spec:
  assumes inv: "hash_inv hf key_of h codes" and eq: "eq_ok eq key_of"
    and new: "hash_find hf eq h k \<noteq> Some ins" and key: "key_of ins = k" and room: "hcount h < 2 ^ 31"
    and unique: "flags AND HASH_INSERT_UNIQUE = 0 \<or> hash_find hf eq h k = None"
    and prehashed: "flags AND HASH_INSERT_PREHASHED = 0 \<or> codes ins = hf k"
  shows "\<exists>r old h' codes'. hash_insert hf eq mok k ins flags h codes = Some (r, old, h', codes') \<and>
    (if r < 0 then \<not> mok \<and> h' = h \<and> codes' = codes
     else old = hash_find hf eq h k \<and> hash_inv hf key_of h' codes' \<and> hcount h' \<le> hcount h + 1 \<and>
       hash_find hf eq h' = (hash_find hf eq h)(k \<mapsto> ins))"
proof -
  obtain r h1 where h1: "(if hcount h \<ge> hsize h then hash_capacity_hint codes mok h (wrap32 (hcount h + 1))
      else Some (0, h)) = Some (r, h1)"
    and r: "(r = -1 \<and> \<not> mok \<and> h1 = h) \<or> (r = 0 \<and> hash_inv hf key_of h1 codes \<and>
      hash_nodes h1 = hash_nodes h \<and> hcount h1 = hcount h \<and> 0 < hsize h1)"
  proof (cases "hcount h \<ge> hsize h")
    case True
    have "wrap32 (hcount h + 1) = hcount h + 1"
      using room by simp
    then show thesis
      using True that hash_capacity_hint_spec [OF inv, of "hcount h + 1" mok] room by fastforce
  next
    case False
    then show thesis
      using that inv by auto
  qed
  show ?thesis
  proof (cases "r = 0")
    case False
    then show ?thesis
      using h1 r unfolding hash_insert_def by simp
  next
    case True
    then have inv1: "hash_inv hf key_of h1 codes" and nodes1: "hash_nodes h1 = hash_nodes h"
      and cnt1: "hcount h1 = hcount h" and pos: "0 < hsize h1"
      using r by auto
    have find1: "hash_find hf eq h1 = hash_find hf eq h"
      using hash_find_eqI [OF inv inv1 eq] nodes1 by auto
    define codes1 where "codes1 = (if flags AND HASH_INSERT_PREHASHED = 0 then codes(ins := hf k) else codes)"
    have c1: "codes1 = codes(ins := hf k)"
      using prehashed by (auto simp: codes1_def)
    have w: "wrap32 (hcount h1 + 1) = hcount h1 + 1"
      using room cnt1 by simp
    have ins: "ins \<notin> hash_nodes h1"
      using new hash_find_iff [OF inv eq, of k ins] key nodes1 by auto
    show ?thesis
    proof (cases "flags AND HASH_INSERT_UNIQUE = 0")
      case False
      then have none: "hash_find hf eq h1 k = None"
        using unique find1 by simp
      show ?thesis
        using hash_insert_unique [OF inv1 eq pos none key] True False h1 none find1 cnt1 w
        unfolding hash_insert_def codes1_def [symmetric] c1
        by (auto simp: Let_def)
    next
      case rep: True
      obtain chain old where ch: "insert_chain eq k [ins] None (htable h1 ! (unat (hf k) mod hsize h1)) = (chain, old)"
        by fastforce
      show ?thesis
        using hash_insert_replace [OF inv1 eq pos ins key ch] True rep h1 ch find1 cnt1 w
        unfolding hash_insert_def codes1_def [symmetric] c1
        by (auto simp: Let_def)
    qed
  qed
qed

text \<open>
  C1: inserting a node makes its key lead to it and leaves every other key alone; a node
  that had the same key is replaced and handed back. The call fails only when memory for a
  larger table is refused, and then nothing has changed.
\<close>

theorem hash_insert_correct:
  assumes "hash_inv hf key_of h codes" "eq_ok eq key_of"
    and "hash_find hf eq h k \<noteq> Some ins" "key_of ins = k" "hcount h < 2 ^ 31"
    and "flags AND HASH_INSERT_UNIQUE = 0 \<or> hash_find hf eq h k = None"
    and "flags AND HASH_INSERT_PREHASHED = 0 \<or> codes ins = hf k"
  shows "\<exists>r old h' codes'. hash_insert hf eq mok k ins flags h codes = Some (r, old, h', codes') \<and>
    (if r < 0 then \<not> mok \<and> h' = h \<and> codes' = codes
     else old = hash_find hf eq h k \<and> hash_inv hf key_of h' codes' \<and>
       hash_find hf eq h' = (hash_find hf eq h)(k \<mapsto> ins))"
  using hash_insert_spec [OF assms, of mok] by (metis (no_types, lifting))

lemma hash_remove_spec:
  assumes inv: "hash_inv hf key_of h codes" and eq: "eq_ok eq key_of"
    and n: "hash_find hf eq h (key_of n) = Some n" and room: "hcount h < 2 ^ 31"
  shows "\<exists>h'. hash_remove mok n h codes = Some h' \<and> hash_inv hf key_of h' codes \<and>
    hcount h' = hcount h - 1 \<and> hash_find hf eq h' = (hash_find hf eq h)(key_of n := None)"
proof -
  define i where "i = unat (codes n) mod hsize h"
  have nin: "n \<in> hash_nodes h"
    using hash_find_iff [OF inv eq, of "key_of n" n] n by simp
  then have pos: "0 < hsize h" and nc: "n \<in> set (htable h ! i)"
    using hash_nodes_index [OF inv, of n] by (auto simp: i_def)
  have i: "i < hsize h"
    using pos by (simp add: i_def)
  have len: "length (htable h) = hsize h" and injn: "inj_on key_of (hash_nodes h)"
    and card: "hcount h = card (hash_nodes h)" and dc: "distinct (htable h ! i)"
    and codes: "\<And>n. n \<in> hash_nodes h \<Longrightarrow> codes n = hf (key_of n)"
    and idx: "\<And>n. n \<in> set (htable h ! i) \<Longrightarrow> unat (codes n) mod hsize h = i"
    using inv i by (auto simp: hash_inv_def)
  have sub: "set (htable h ! i) \<subseteq> hash_nodes h"
    using chain_in_nodes [OF len pos] unfolding i_def by blast
  let ?c = "filter (\<lambda>m. m \<noteq> n) (htable h ! i)"
  define h1 where "h1 = h\<lparr>htable := (htable h)[i := ?c], hcount := hcount h - 1\<rparr>"
  have nodes: "hash_nodes h - set (htable h ! i) \<union> set ?c = hash_nodes h - {n}"
    using sub nc by auto
  have inv1: "hash_inv hf key_of h1 codes"
    unfolding h1_def
  proof (rule hash_update_inv [OF inv i])
    show "unat (codes m) mod hsize h = i \<and> codes m = hf (key_of m)" if "m \<in> set ?c" for m
      using that idx codes sub by auto
    show "inj_on key_of (hash_nodes h - set (htable h ! i) \<union> set ?c)"
      unfolding nodes using injn by (auto simp: inj_on_def)
    show "hcount h - 1 = card (hash_nodes h - set (htable h ! i) \<union> set ?c)"
      unfolding nodes using card nin by simp
  qed (use dc in simp_all)
  have nodes1: "hash_nodes h1 = hash_nodes h - {n}"
    unfolding h1_def hash_update_nodes [OF inv i] by (rule nodes)
  have find1: "hash_find hf eq h1 = (hash_find hf eq h)(key_of n := None)"
  proof
    fix k
    show "hash_find hf eq h1 k = ((hash_find hf eq h)(key_of n := None)) k"
    proof (cases "k = key_of n")
      case True
      have "hash_find hf eq h1 k \<noteq> Some m" for m
        using hash_find_iff [OF inv1 eq, of k m] True injn nin by (auto simp: nodes1 inj_on_def)
      then show ?thesis
        using True by (metis fun_upd_same not_Some_eq)
    next
      case False
      then show ?thesis
        by (auto simp: nodes1 intro!: hash_find_eqI [OF inv inv1 eq])
    qed
  qed
  have step: "hash_remove mok n h codes = (if wrap32 (hcount h1 * 4) < hsize h1
      then map_option snd (hash_capacity_hint codes mok h1 (hcount h1)) else Some h1)"
    using nc dc by (simp add: hash_remove_def Let_def unlink_eq h1_def flip: i_def)
  have "hcount h1 \<le> 2 ^ 31"
    using room by (simp add: h1_def)
  then obtain r h2 where h2: "hash_capacity_hint codes mok h1 (hcount h1) = Some (r, h2)"
    "h2 = h1 \<or> (hash_inv hf key_of h2 codes \<and> hash_nodes h2 = hash_nodes h1 \<and> hcount h2 = hcount h1)"
    using hash_capacity_hint_spec [OF inv1, of "hcount h1" mok] by blast
  have "hash_find hf eq h2 = hash_find hf eq h1"
    using h2(2) hash_find_eqI [OF inv1 _ eq, of h2 codes] by auto
  then show ?thesis
    using step h2 inv1 find1 by (auto simp: h1_def)
qed

text \<open>
  C25: removing a node makes its key lead nowhere and leaves every other key alone, whether or
  not the table is shrunk afterwards and even when memory for the smaller table is refused.
\<close>

theorem hash_remove_correct:
  assumes "hash_inv hf key_of h codes" "eq_ok eq key_of"
    and "hash_find hf eq h (key_of n) = Some n" "hcount h < 2 ^ 31"
  shows "\<exists>h'. hash_remove mok n h codes = Some h' \<and> hash_inv hf key_of h' codes \<and>
    hcount h' = hcount h - 1 \<and> hash_find hf eq h' = (hash_find hf eq h)(key_of n := None)"
  using assms by (rule hash_remove_spec)

text \<open>
  A capacity hint of at most \<open>2 ^ 31\<close> that the table needs leaves at least that many
  slots, a number of slots without proper divisors, and the same answer for every key; it
  fails only when memory is refused, leaving the table as it was.
\<close>

theorem hash_capacity_hint_correct:
  assumes inv: "hash_inv hf key_of h codes" and eq: "eq_ok eq key_of" and hint: "hint \<le> 2 ^ 31"
  shows "\<exists>r h'. hash_capacity_hint codes mok h hint = Some (r, h') \<and>
    (if r < 0 then \<not> mok \<and> h' = h
     else hash_inv hf key_of h' codes \<and> hash_find hf eq h' = hash_find hf eq h \<and>
       (hcount h \<le> hint \<longrightarrow> hint \<le> hsize h' \<and>
          (\<forall>d. 2 \<le> d \<longrightarrow> d * d \<le> hsize h' \<longrightarrow> \<not> d dvd hsize h')))"
proof -
  obtain r h' where h': "hash_capacity_hint codes mok h hint = Some (r, h')"
    and alt: "(r = -1 \<and> \<not> mok \<and> h' = h) \<or>
      (r = 0 \<and> hash_inv hf key_of h' codes \<and> hash_nodes h' = hash_nodes h \<and> hcount h' = hcount h \<and>
       (hcount h \<le> hint \<longrightarrow> 32 \<le> hsize h' \<and> hint \<le> hsize h' \<and> no_divisor 2 (hsize h')))"
    using hash_capacity_hint_spec [OF inv hint] by blast
  have "hash_find hf eq h' = hash_find hf eq h" if "hash_inv hf key_of h' codes" "hash_nodes h' = hash_nodes h"
    using hash_find_eqI [OF inv that(1) eq] that(2) by auto
  with h' alt show ?thesis
    by (auto simp: no_divisor_iff)
qed

section \<open>The table as an indexed set of nodes\<close>

text \<open>
  The client's view when memory is available: a pair of the table and the nodes' codes, with
  the comparison that the keys induce.
\<close>

definition hash_put :: "('k \<Rightarrow> u32) \<Rightarrow> (addr \<Rightarrow> 'k) \<Rightarrow> addr \<Rightarrow> hash \<times> codes \<Rightarrow> hash \<times> codes" where
  "hash_put hf key_of n t = (case t of (h, codes) \<Rightarrow>
     (case hash_insert hf (\<lambda>k m. key_of m = k) True (key_of n) n 0 h codes of
        None \<Rightarrow> t | Some (r, old, h', codes') \<Rightarrow> (h', codes')))"

definition hash_del :: "addr \<Rightarrow> hash \<times> codes \<Rightarrow> hash \<times> codes" where
  "hash_del n t = (case t of (h, codes) \<Rightarrow>
     (case hash_remove True n h codes of None \<Rightarrow> t | Some h' \<Rightarrow> (h', codes)))"

lemma eq_ok_key: "eq_ok (\<lambda>k m. key_of m = k) key_of"
  by (simp add: eq_ok_def)

interpretation hash_map: keyed_nodes "\<lambda>(h, codes). hash_inv hf key_of h codes" key_of
  "\<lambda>(h, codes). hcount h" "2 ^ 31" "\<lambda>(h, codes). hash_find hf (\<lambda>k m. key_of m = k) h"
  "hash_put hf key_of" hash_del for hf :: "'k \<Rightarrow> u32" and key_of
proof unfold_locales
  fix t :: "hash \<times> codes" and n
  obtain h codes where t: "t = (h, codes)"
    by (cases t)
  assume "case t of (h, codes) \<Rightarrow> hash_inv hf key_of h codes" "(case t of (h, codes) \<Rightarrow> hcount h) < 2 ^ 31"
  then have inv: "hash_inv hf key_of h codes" and room: "hcount h < 2 ^ 31"
    by (auto simp: t)
  show "(case t of (h, codes) \<Rightarrow> hash_find hf (\<lambda>k m. key_of m = k) h) (key_of n) \<noteq> Some n \<Longrightarrow>
      (case hash_put hf key_of n t of (h, codes) \<Rightarrow> hash_inv hf key_of h codes) \<and>
      (case hash_put hf key_of n t of (h, codes) \<Rightarrow> hcount h) \<le> (case t of (h, codes) \<Rightarrow> hcount h) + 1 \<and>
      (case hash_put hf key_of n t of (h, codes) \<Rightarrow> hash_find hf (\<lambda>k m. key_of m = k) h)
        = (case t of (h, codes) \<Rightarrow> hash_find hf (\<lambda>k m. key_of m = k) h)(key_of n \<mapsto> n)"
    using hash_insert_spec [OF inv eq_ok_key _ refl room, of n 0 True]
    by (auto simp: t hash_put_def split: if_splits)
  show "(case t of (h, codes) \<Rightarrow> hash_find hf (\<lambda>k m. key_of m = k) h) (key_of n) = Some n \<Longrightarrow>
      (case hash_del n t of (h, codes) \<Rightarrow> hash_inv hf key_of h codes) \<and>
      (case hash_del n t of (h, codes) \<Rightarrow> hash_find hf (\<lambda>k m. key_of m = k) h)
        = (case t of (h, codes) \<Rightarrow> hash_find hf (\<lambda>k m. key_of m = k) h)(key_of n := None)"
    using hash_remove_spec [OF inv eq_ok_key _ room, of n True]
    by (auto simp: t hash_del_def)
qed

text \<open>
  After inserting any nodes with distinct keys into a fresh table, every one of their
  keys leads to its node and every other key leads nowhere, however often the table grew.
\<close>

theorem hash_insert_all_find:
  assumes "distinct (map key_of ns)" "length ns \<le> 2 ^ 31"
  shows "case fold (hash_put hf key_of) ns (hash_init, codes) of (h, codes') \<Rightarrow>
    (\<forall>n\<in>set ns. hash_find hf (\<lambda>k m. key_of m = k) h (key_of n) = Some n) \<and>
    (\<forall>k. k \<notin> key_of ` set ns \<longrightarrow> hash_find hf (\<lambda>k m. key_of m = k) h k = None)"
proof -
  have none: "hash_find hf (\<lambda>k m. key_of m = k) hash_init k = None" for k
    by (simp add: hash_find_def hash_init_def)
  have "hcount hash_init = 0"
    by (simp add: hash_init_def)
  then show ?thesis
    using hash_map.put_all_find [of hf key_of "(hash_init, codes)" ns] assms
      hash_init_inv [of hf key_of codes] none
    by (auto split: prod.splits)
qed

theorem hash_insert_all_find_witness:
  "case fold (hash_put (\<lambda>k. 2 * word_of_nat k) (\<lambda>n. n div 2)) [10, 21, 84] (hash_init, \<lambda>_. 0) of (h, codes') \<Rightarrow>
     hash_find (\<lambda>k. 2 * word_of_nat k) (\<lambda>k m. m div 2 = k) h (42::nat) = Some 84"
proof -
  have "distinct (map (\<lambda>n. n div 2) [10, 21, 84 :: nat])" "length [10, 21, 84 :: nat] \<le> 2 ^ 31"
    by simp_all
  from hash_insert_all_find [OF this, of "\<lambda>k. 2 * word_of_nat k" "\<lambda>_. 0"] show ?thesis
    by (auto split: prod.splits)
qed

text \<open>Concrete tables at which the three operation theorems apply.\<close>

definition demo_table :: hash where
  "demo_table = \<lparr>hsize = 3, hcount = 2, htable = [[6], [], [5]]\<rparr>"

lemma demo_inv: "hash_inv word_of_nat (\<lambda>n. n) demo_table word_of_nat"
proof -
  have nth: "htable demo_table ! i = (if i = 0 then [6] else if i = 1 then [] else [5])" if "i < 3" for i
    using that by (auto simp: demo_table_def nth_Cons')
  have nodes: "hash_nodes demo_table = {6, 5}"
    by (auto simp: demo_table_def hash_nodes_def)
  have "unat (word_of_nat 6 :: u32) mod 3 = 0" "unat (word_of_nat 5 :: u32) mod 3 = 2"
    by simp_all
  moreover have "length (htable demo_table) = hsize demo_table" "hsize demo_table = 3" "hcount demo_table = 2"
    by (simp_all add: demo_table_def)
  ultimately show ?thesis
    unfolding hash_inv_def nodes by (auto simp: nth)
qed

lemma demo_eq: "eq_ok (\<lambda>k m. m = k) (\<lambda>n. n :: nat)"
  by (rule eq_ok_key)

lemma demo_find: "hash_find word_of_nat (\<lambda>k m. m = k) demo_table k
  = (if k = 6 \<or> k = 5 then Some k else None)"
proof -
  have "hash_find word_of_nat (\<lambda>k m. m = k) demo_table k = Some n \<longleftrightarrow> n \<in> {5, 6} \<and> n = k" for n
    using hash_find_iff [OF demo_inv demo_eq, of k n] by (auto simp: demo_table_def hash_nodes_def)
  note iff = this
  show ?thesis
  proof (cases "k \<in> {5, 6}")
    case True
    then show ?thesis
      using iff [of k] by auto
  next
    case False
    then show ?thesis
      using iff by (cases "hash_find word_of_nat (\<lambda>k m. m = k) demo_table k") auto
  qed
qed

theorem hash_insert_correct_witness:
  "\<exists>r old h' codes'. hash_insert word_of_nat (\<lambda>k m. m = k) True 8 8 0 demo_table word_of_nat
     = Some (r, old, h', codes') \<and>
    \<not> r < 0 \<and> hash_find word_of_nat (\<lambda>k m. m = k) h' 8 = Some 8 \<and>
    hash_find word_of_nat (\<lambda>k m. m = k) h' 5 = Some 5"
proof -
  have "hcount demo_table < 2 ^ 31"
    by (simp add: demo_table_def)
  then show ?thesis
    using hash_insert_correct [OF demo_inv demo_eq, of 8 8 0 True]
    by (auto simp: demo_find split: if_splits)
qed

theorem hash_remove_correct_witness:
  "\<exists>h'. hash_remove False 5 demo_table word_of_nat = Some h' \<and>
    hash_find word_of_nat (\<lambda>k m. m = k) h' 5 = None \<and>
    hash_find word_of_nat (\<lambda>k m. m = k) h' 6 = Some 6"
proof -
  have "hcount demo_table < 2 ^ 31"
    by (simp add: demo_table_def)
  then show ?thesis
    using hash_remove_correct [OF demo_inv demo_eq, of 5 False] by (auto simp: demo_find)
qed

theorem hash_capacity_hint_correct_witness:
  "\<exists>h'. hash_capacity_hint word_of_nat True demo_table 100 = Some (0, h') \<and> 100 \<le> hsize h' \<and>
    hash_find word_of_nat (\<lambda>k m. m = k) h' 6 = Some 6"
proof -
  obtain r h' where h: "hash_capacity_hint word_of_nat True demo_table 100 = Some (r, h')" "\<not> r < 0"
    and f: "hash_find word_of_nat (\<lambda>k m. m = k) h' = hash_find word_of_nat (\<lambda>k m. m = k) demo_table"
    and s: "100 \<le> hsize h'"
    using hash_capacity_hint_correct [OF demo_inv demo_eq, of 100 True]
    by (auto simp: demo_table_def split: if_splits)
  have "r = 0 \<or> r = -1"
    using h(1) by (auto simp: hash_capacity_hint_def Let_def split: if_splits option.splits)
  with h f s show ?thesis
    by (auto simp: demo_find)
qed

end
