(* ===== verification/Dlb_Bint.thy ===== *)
theory Dlb_Bint
  imports Dlb_Prelude
begin

unbundle bit_operations_syntax

text \<open>
  Big integers (\<^verbatim>\<open>src/src/bint.c\<close>), first part: the chunk chains, the comparison, addition
  and subtraction of magnitudes, and the operations that only move values around.

  A number is a sign and a non-empty chain of chunks of \<open>BINT_CHUNK_SIZE\<close> 32-bit components,
  least significant first; the first chunk is embedded in the structure (\<open>digits\<close>), the others
  (\<open>chain\<close>) are allocated. A chain is the list of its chunks, \<open>NULL\<close> the empty list. The sign
  flag is a C int that is only ever tested and set to 0 or 1, so it is a boolean here.

  The allocator is the state \<open>alloc\<close>: \<open>verdict n\<close> tells whether the \<open>n\<close>-th call of \<open>malloc\<close>
  succeeds, \<open>tick\<close> counts the calls and \<open>live\<close> the chunks that are allocated. Each operation takes
  and returns the state, so that the lemmas can say that no chunk is lost or freed twice. Bit
  lengths are unsigned ints: sums that can wrap are written with \<open>wrap32\<close>.
\<close>

section \<open>Chunks, chains and the allocator\<close>

type_synonym chunk = "u32 list"

record bint =
  negative :: bool
  digits :: chunk
  chain :: "chunk list"

record alloc =
  verdict :: "nat \<Rightarrow> bool"
  tick :: nat
  live :: int

abbreviation BINT_CHUNK_SIZE :: nat where "BINT_CHUNK_SIZE \<equiv> 4"
abbreviation CHUNK_BITS :: nat where "CHUNK_BITS \<equiv> 128"

definition zero_chunk :: chunk where
  "zero_chunk = [0, 0, 0, 0]"

definition bint_chunk_alloc :: "alloc \<Rightarrow> bool \<times> alloc" where
  "bint_chunk_alloc s =
     (if verdict s (tick s) then (True, s\<lparr>tick := tick s + 1, live := live s + 1\<rparr>)
      else (False, s\<lparr>tick := tick s + 1\<rparr>))"

definition bint_chunk_free :: "alloc \<Rightarrow> alloc" where
  "bint_chunk_free s = s\<lparr>live := live s - 1\<rparr>"

fun destroy_chain :: "chunk list \<Rightarrow> alloc \<Rightarrow> alloc" where
  "destroy_chain [] s = s"
| "destroy_chain (c # next) s = destroy_chain next (bint_chunk_free s)"

text \<open>The loop of \<open>alloc_chain\<close>; a failed allocation gives the empty chain (\<open>NULL\<close>).\<close>

fun alloc_loop :: "nat \<Rightarrow> chunk list \<Rightarrow> alloc \<Rightarrow> chunk list \<times> alloc" where
  "alloc_loop 0 ch s = (ch, s)"
| "alloc_loop (Suc len) ch s = (case bint_chunk_alloc s of (ok, s1) \<Rightarrow>
     if \<not> ok then ([], destroy_chain ch s1) else alloc_loop len (zero_chunk # ch) s1)"

definition alloc_chain :: "nat \<Rightarrow> alloc \<Rightarrow> chunk list \<times> alloc" where
  "alloc_chain len s = alloc_loop len [] s"

fun reverse_onto :: "chunk list \<Rightarrow> chunk list \<Rightarrow> chunk list" where
  "reverse_onto [] d = d"
| "reverse_onto (c # next) d = reverse_onto next (c # d)"

definition reverse_chain :: "chunk list \<Rightarrow> chunk list" where
  "reverse_chain c = reverse_onto c []"

fun chain_length :: "chunk list \<Rightarrow> nat" where
  "chain_length [] = 0"
| "chain_length (c # next) = wrap32 (chain_length next + 1)"

fun chunk_is_zero :: "chunk \<Rightarrow> bool" where
  "chunk_is_zero [] = True"
| "chunk_is_zero (d # ds) = (d = 0 \<and> chunk_is_zero ds)"

definition is_zero :: "bint \<Rightarrow> bool" where
  "is_zero b = (chain b = [] \<and> chunk_is_zero (digits b))"

fun compare_from :: "chunk \<Rightarrow> chunk \<Rightarrow> nat \<Rightarrow> int" where
  "compare_from a b 0 = 0"
| "compare_from a b (Suc i) =
     (if a ! i < b ! i then -1 else if a ! i > b ! i then 1 else compare_from a b i)"

definition compare_chunk :: "chunk \<Rightarrow> chunk \<Rightarrow> int" where
  "compare_chunk a b = compare_from a b BINT_CHUNK_SIZE"

fun drop_zeros :: "chunk list \<Rightarrow> alloc \<Rightarrow> chunk list \<times> alloc" where
  "drop_zeros [] s = ([], s)"
| "drop_zeros (c # next) s =
     (if chunk_is_zero c then drop_zeros next (bint_chunk_free s) else (c # next, s))"

definition trim_chunks :: "bint \<Rightarrow> alloc \<Rightarrow> bint \<times> alloc" where
  "trim_chunks b s = (case drop_zeros (reverse_chain (chain b)) s of (stack, s1) \<Rightarrow>
     (b\<lparr>chain := reverse_chain stack\<rparr>, s1))"

text \<open>
  The walk of \<open>extend_length\<close>: the list is what follows the current chunk, the result
  replaces it.
\<close>

fun extend_walk :: "chunk list \<Rightarrow> nat \<Rightarrow> alloc \<Rightarrow> int \<times> chunk list \<times> alloc" where
  "extend_walk (c # cs) count s =
     (if count \<ge> CHUNK_BITS
      then (case extend_walk cs (count - CHUNK_BITS) s of (r, cs', s1) \<Rightarrow> (r, c # cs', s1))
      else (0, c # cs, s))"
| "extend_walk [] count s =
     (if count < CHUNK_BITS then (0, [], s)
      else (case alloc_chain (count div CHUNK_BITS) s of (next, s1) \<Rightarrow>
        if next = [] then (-1, [], s1) else (0, next, s1)))"

definition extend_length :: "bint \<Rightarrow> nat \<Rightarrow> alloc \<Rightarrow> int \<times> bint \<times> alloc" where
  "extend_length b count s = (case extend_walk (chain b) count s of (r, cs, s1) \<Rightarrow>
     (r, b\<lparr>chain := cs\<rparr>, s1))"

function bit_length :: "u32 \<Rightarrow> nat" where
  "bit_length num = (if num = 0 then 0 else Suc (bit_length (drop_bit 1 num)))"
  by auto
termination
  by (relation "measure unat") (auto simp: drop_bit_Suc unat_div unat_gt_0)

text \<open>\<open>bint_bit_length\<close>: the highest non-zero component of the last chunk, if any.\<close>

fun top_component :: "chunk \<Rightarrow> nat \<Rightarrow> nat option" where
  "top_component c 0 = None"
| "top_component c (Suc i) = (if c ! i \<noteq> 0 then Some i else top_component c i)"

definition last_chunk :: "bint \<Rightarrow> chunk" where
  "last_chunk b = last (digits b # chain b)"

definition bint_bit_length :: "bint \<Rightarrow> nat" where
  "bint_bit_length b = (case top_component (last_chunk b) BINT_CHUNK_SIZE of
     None \<Rightarrow> 0
   | Some i \<Rightarrow> wrap32 (CHUNK_BITS * length (chain b) + i * 32 + bit_length (last_chunk b ! i)))"

section \<open>Magnitude comparison, addition and subtraction\<close>

fun cmp_loop :: "chunk list \<Rightarrow> chunk list \<Rightarrow> int \<Rightarrow> int" where
  "cmp_loop (a # ca) (b # cb) last_diff =
     cmp_loop ca cb (let diff = compare_chunk a b in if diff \<noteq> 0 then diff else last_diff)"
| "cmp_loop (a # ca) [] last_diff = 1"
| "cmp_loop [] (b # cb) last_diff = -1"
| "cmp_loop [] [] last_diff = last_diff"

definition bint_chunks :: "bint \<Rightarrow> chunk list" where
  "bint_chunks b = digits b # chain b"

definition with_chunks :: "bint \<Rightarrow> chunk list \<Rightarrow> bint" where
  "with_chunks b cs = b\<lparr>digits := hd cs, chain := tl cs\<rparr>"

definition mag_cmp :: "bint \<Rightarrow> bint \<Rightarrow> int" where
  "mag_cmp a b = cmp_loop (bint_chunks a) (bint_chunks b) 0"

text \<open>
  The inner loop of the addition. The carry is a C int: the high half of the 64-bit sum in the
  first loop, and in the second the sum masked with bit 32, which the conversion to int drops.
\<close>

fun add_components :: "u32 \<Rightarrow> chunk \<Rightarrow> chunk \<Rightarrow> u32 \<times> chunk" where
  "add_components carry (d # ds) (c # cs) =
     (let r = (ucast d + ucast c :: u64);
          r = (if carry \<noteq> 0 then r + 1 else r);
          (carry', rs) = add_components (ucast (drop_bit 32 r)) ds cs
      in (carry', ucast r # rs))"
| "add_components carry ds cs = (carry, ds)"

fun carry_components :: "u32 \<Rightarrow> chunk \<Rightarrow> u32 \<times> chunk" where
  "carry_components carry (d # ds) =
     (let r = (ucast d :: u64);
          r = (if carry \<noteq> 0 then r + 1 else r);
          (carry', rs) = carry_components (ucast (r AND push_bit 32 1)) ds
      in (carry', ucast r # rs))"
| "carry_components carry [] = (carry, [])"

fun carry_chunks :: "u32 \<Rightarrow> chunk list \<Rightarrow> chunk list" where
  "carry_chunks carry (d # dc) =
     (if carry = 0 then d # dc
      else (case carry_components carry d of (carry', d') \<Rightarrow> d' # carry_chunks carry' dc))"
| "carry_chunks carry [] = []"

fun add_chunks :: "u32 \<Rightarrow> chunk list \<Rightarrow> chunk list \<Rightarrow> chunk list" where
  "add_chunks carry (d # dc) (c # sc) =
     (case add_components carry d c of (carry', d') \<Rightarrow> d' # add_chunks carry' dc sc)"
| "add_chunks carry dc [] = carry_chunks carry dc"
| "add_chunks carry [] (c # sc) = []"

definition mag_add :: "bint \<Rightarrow> bint \<Rightarrow> alloc \<Rightarrow> int \<times> bint \<times> alloc" where
  "mag_add dst src s =
     (let dst_len = bint_bit_length dst; src_len = bint_bit_length src;
          result_len = wrap32 ((if dst_len > src_len then dst_len else src_len) + 1)
      in case extend_length dst result_len s of (r, dst1, s1) \<Rightarrow>
        if r < 0 then (-1, dst1, s1)
        else (case trim_chunks (with_chunks dst1 (add_chunks 0 (bint_chunks dst1) (bint_chunks src))) s1
              of (dst2, s2) \<Rightarrow> (0, dst2, s2)))"

fun sub_components :: "u32 \<Rightarrow> chunk \<Rightarrow> chunk \<Rightarrow> u32 \<times> chunk" where
  "sub_components borrow (d # ds) (c # cs) =
     (let r = (ucast d - ucast c :: u64);
          r = (if borrow \<noteq> 0 then r - 1 else r);
          (borrow', rs) = sub_components (ucast (drop_bit 32 r)) ds cs
      in (borrow', ucast r # rs))"
| "sub_components borrow ds cs = (borrow, ds)"

fun borrow_components :: "u32 \<Rightarrow> chunk \<Rightarrow> u32 \<times> chunk" where
  "borrow_components borrow (d # ds) =
     (let r = (ucast d :: u64);
          r = (if borrow \<noteq> 0 then r - 1 else r);
          (borrow', rs) = borrow_components (ucast (drop_bit 32 r)) ds
      in (borrow', ucast r # rs))"
| "borrow_components borrow [] = (borrow, [])"

text \<open>
  The loops of \<open>mag_sub\<close> over the chains of the destination, of the larger and of the smaller
  number. Each component of the destination is written after the components at the same place
  of the operands have been read, so the result is the same when the destination is one of
  them. \<open>None\<close> is the use of a destination chunk that does not exist.
\<close>

fun borrow_chunks :: "u32 \<Rightarrow> chunk list \<Rightarrow> chunk list \<Rightarrow> chunk list option" where
  "borrow_chunks borrow dc [] = Some dc"
| "borrow_chunks borrow dc (b # bc) =
     (if borrow = 0 then Some dc
      else case dc of [] \<Rightarrow> None
      | d # dc \<Rightarrow> (case borrow_components borrow b of (borrow', d') \<Rightarrow>
          map_option ((#) d') (borrow_chunks borrow' dc bc)))"

fun sub_chunks :: "u32 \<Rightarrow> chunk list \<Rightarrow> chunk list \<Rightarrow> chunk list \<Rightarrow> chunk list option" where
  "sub_chunks borrow dc (b # bc) (c # sc) =
     (case dc of [] \<Rightarrow> None
      | d # dc \<Rightarrow> (case sub_components borrow b c of (borrow', d') \<Rightarrow>
          map_option ((#) d') (sub_chunks borrow' dc bc sc)))"
| "sub_chunks borrow dc bc [] = borrow_chunks borrow dc bc"
| "sub_chunks borrow dc [] (c # sc) = Some dc"

definition mag_sub :: "bint \<Rightarrow> bint \<Rightarrow> bint \<Rightarrow> alloc \<Rightarrow> (bint \<times> alloc) option" where
  "mag_sub dst big small s =
     map_option (\<lambda>cs. trim_chunks (with_chunks dst cs) s)
       (sub_chunks 0 (bint_chunks dst) (bint_chunks big) (bint_chunks small))"

definition do_subtract :: "bint \<Rightarrow> bint \<Rightarrow> alloc \<Rightarrow> (int \<times> bint \<times> alloc) option" where
  "do_subtract dst src s =
     (if mag_cmp dst src < 0
      then (case extend_length dst (bint_bit_length src) s of (r, dst1, s1) \<Rightarrow>
        if r < 0 then Some (-1, dst1, s1)
        else map_option (\<lambda>(dst2, s2). (0, dst2\<lparr>negative := \<not> negative dst2\<rparr>, s2))
               (mag_sub dst1 src dst1 s1))
      else map_option (\<lambda>(dst2, s2). (0, dst2, s2)) (mag_sub dst dst src s))"

section \<open>The public operations that do not multiply\<close>

definition chunk_of :: "u32 \<Rightarrow> chunk" where
  "chunk_of w = [w, 0, 0, 0]"

definition bint_zero :: bint where
  "bint_zero = \<lparr>negative = False, digits = chunk_of 0, chain = []\<rparr>"

definition bint_one :: bint where
  "bint_one = \<lparr>negative = False, digits = chunk_of 1, chain = []\<rparr>"

text \<open>\<open>bint_set\<close> stores \<open>abs(value)\<close>, of which \<open>INT_MIN\<close> keeps its bit pattern.\<close>

definition bint_set :: "bint \<Rightarrow> u32 \<Rightarrow> alloc \<Rightarrow> bint \<times> alloc" where
  "bint_set b val s =
     (\<lparr>negative = (val <s 0), digits = chunk_of (if val <s 0 then - val else val), chain = []\<rparr>,
      destroy_chain (chain b) s)"

definition bint_init :: "u32 \<Rightarrow> alloc \<Rightarrow> bint \<times> alloc" where
  "bint_init val s = bint_set \<lparr>negative = False, digits = zero_chunk, chain = []\<rparr> val s"

definition bint_destroy :: "bint \<Rightarrow> alloc \<Rightarrow> alloc" where
  "bint_destroy b s = destroy_chain (chain b) s"

text \<open>\<open>None\<close>: the destination chain ends before the source chain (a \<open>NULL\<close> is dereferenced).\<close>

fun copy_walk :: "chunk list \<Rightarrow> chunk list \<Rightarrow> alloc \<Rightarrow> (chunk list \<times> alloc) option" where
  "copy_walk dc [] s = Some (dc, s)"
| "copy_walk [] (c # sc) s = None"
| "copy_walk (d # dc) (c # sc) s =
     (if sc = [] then Some ([c], destroy_chain dc s)
      else map_option (\<lambda>(cs, s1). (c # cs, s1)) (copy_walk dc sc s))"

definition bint_copy :: "bint \<Rightarrow> bint \<Rightarrow> alloc \<Rightarrow> (int \<times> bint \<times> alloc) option" where
  "bint_copy dst src s = (case extend_length dst (bint_bit_length src) s of (r, dst1, s1) \<Rightarrow>
     if r < 0 then Some (-1, dst1, s1)
     else map_option (\<lambda>(cs, s2). (0, with_chunks (dst1\<lparr>negative := negative src\<rparr>) cs, s2))
            (copy_walk (bint_chunks dst1) (bint_chunks src) s1))"

definition bint_swap :: "bint \<times> bint \<Rightarrow> bint \<times> bint" where
  "bint_swap p = (case p of (a, b) \<Rightarrow> let tmp = a; a = b; b = tmp in (a, b))"

definition bint_get :: "bint \<Rightarrow> int" where
  "bint_get b = sint (let v = digits b ! 0 in if negative b then - v else v)"

definition bint_get_sign :: "bint \<Rightarrow> int" where
  "bint_get_sign b = (if is_zero b then 0 else if negative b then -1 else 1)"

definition bint_set_sign :: "bint \<Rightarrow> int \<Rightarrow> bint" where
  "bint_set_sign b sign = b\<lparr>negative := sign < 0\<rparr>"

definition bint_compare :: "bint \<Rightarrow> bint \<Rightarrow> int" where
  "bint_compare a b =
     (if negative a \<and> \<not> negative b then -1
      else if negative b \<and> \<not> negative a then 1
      else let cmp = mag_cmp a b in if negative a then - cmp else cmp)"

definition bint_add :: "bint \<Rightarrow> bint \<Rightarrow> alloc \<Rightarrow> (int \<times> bint \<times> alloc) option" where
  "bint_add dst src s =
     (if (negative dst \<and> negative src) \<or> \<not> (negative dst \<or> negative src)
      then Some (mag_add dst src s) else do_subtract dst src s)"

definition bint_sub :: "bint \<Rightarrow> bint \<Rightarrow> alloc \<Rightarrow> (int \<times> bint \<times> alloc) option" where
  "bint_sub dst src s =
     (if (negative dst \<and> \<not> negative src) \<or> (\<not> negative dst \<and> negative src)
      then Some (mag_add dst src s) else do_subtract dst src s)"

section \<open>Values and the invariant\<close>

text \<open>The number that a list of components denotes, least significant component first.\<close>

fun wval :: "u32 list \<Rightarrow> nat" where
  "wval [] = 0"
| "wval (w # ws) = unat w + 2 ^ 32 * wval ws"

definition cval :: "chunk list \<Rightarrow> nat" where
  "cval cs = wval (concat cs)"

definition mag :: "bint \<Rightarrow> nat" where
  "mag b = cval (bint_chunks b)"

definition bint_val :: "bint \<Rightarrow> int" where
  "bint_val b = (if negative b then - int (mag b) else int (mag b))"

abbreviation chunk_ok :: "chunk \<Rightarrow> bool" where
  "chunk_ok c \<equiv> length c = BINT_CHUNK_SIZE"

definition chunks_ok :: "chunk list \<Rightarrow> bool" where
  "chunks_ok cs = (\<forall>c\<in>set cs. chunk_ok c)"

definition bint_shape :: "bint \<Rightarrow> bool" where
  "bint_shape b = chunks_ok (bint_chunks b)"

text \<open>The invariant stated at the top of the source: the last allocated chunk is not zero.\<close>

definition trimmed :: "bint \<Rightarrow> bool" where
  "trimmed b = (chain b \<noteq> [] \<longrightarrow> \<not> chunk_is_zero (last (chain b)))"

definition bint_inv :: "bint \<Rightarrow> bool" where
  "bint_inv b \<longleftrightarrow> bint_shape b \<and> trimmed b"

text \<open>Numbers of at most \<open>2 ^ 30\<close> bits, whose bit lengths and sums of them do not wrap.\<close>

definition bint_small :: "bint \<Rightarrow> bool" where
  "bint_small b = (length (chain b) < 2 ^ 23)"

section \<open>Lemmas on values\<close>

lemma wval_append: "wval (xs @ ys) = wval xs + 2 ^ (32 * length xs) * wval ys"
  by (induction xs) (auto simp: algebra_simps power_add)

lemma wval_less: "wval ws < 2 ^ (32 * length ws)"
proof (induction ws)
  case (Cons w ws)
  have "unat w < 2 ^ 32"
    using unat_lt_exp [of w] by simp
  moreover have "2 ^ 32 * (wval ws + 1) \<le> 2 ^ 32 * (2 ^ (32 * length ws) :: nat)"
    using Cons by (intro mult_le_mono2) simp
  ultimately show ?case
    by (simp add: power_add)
qed simp

lemma wval_zero_iff: "wval ws = 0 \<longleftrightarrow> chunk_is_zero ws"
  by (induction ws) (auto simp: unat_eq_zero)

lemma wval_replicate_0 [simp]: "wval (replicate n 0) = 0"
  by (induction n) auto

lemma zero_chunk_simps [simp]:
  "length zero_chunk = 4" "wval zero_chunk = 0" "chunk_is_zero zero_chunk"
  by (simp_all add: zero_chunk_def)

lemma cval_Nil [simp]: "cval [] = 0"
  by (simp add: cval_def)

lemma cval_Cons [simp]: "chunk_ok c \<Longrightarrow> cval (c # cs) = wval c + 2 ^ 128 * cval cs"
  by (simp add: cval_def wval_append)

lemma chunks_ok_simps [simp]:
  "chunks_ok []" "chunks_ok (c # cs) \<longleftrightarrow> chunk_ok c \<and> chunks_ok cs"
  "chunks_ok (xs @ ys) \<longleftrightarrow> chunks_ok xs \<and> chunks_ok ys" "chunks_ok (rev xs) \<longleftrightarrow> chunks_ok xs"
  "chunks_ok (replicate n c) \<longleftrightarrow> n = 0 \<or> chunk_ok c"
  by (auto simp: chunks_ok_def)

lemma length_concat_chunks: "chunks_ok cs \<Longrightarrow> length (concat cs) = 4 * length cs"
  by (induction cs) auto

lemma cval_append: "chunks_ok xs \<Longrightarrow> cval (xs @ ys) = cval xs + 2 ^ (128 * length xs) * cval ys"
  by (simp add: cval_def wval_append length_concat_chunks mult.assoc)

lemma cval_less: "chunks_ok cs \<Longrightarrow> cval cs < 2 ^ (128 * length cs)"
  using wval_less [of "concat cs"] by (simp add: cval_def length_concat_chunks)

lemma cval_replicate_zero [simp]: "cval (replicate n zero_chunk) = 0"
  by (induction n) auto

lemma cval_zero_iff: "cval cs = 0 \<longleftrightarrow> (\<forall>c\<in>set cs. chunk_is_zero c)"
  by (induction cs) (auto simp: cval_def wval_append wval_zero_iff)

lemma bint_chunks_simps [simp]:
  "bint_chunks (b\<lparr>negative := x\<rparr>) = bint_chunks b"
  "bint_chunks (b\<lparr>chain := cs\<rparr>) = digits b # cs"
  "cs \<noteq> [] \<Longrightarrow> bint_chunks (with_chunks b cs) = cs"
  "negative (with_chunks b cs) = negative b"
  by (auto simp: bint_chunks_def with_chunks_def)

lemma bint_negative_simps [simp]:
  "mag (b\<lparr>negative := x\<rparr>) = mag b" "bint_inv (b\<lparr>negative := x\<rparr>) \<longleftrightarrow> bint_inv b"
  by (simp_all add: mag_def bint_inv_def bint_shape_def trimmed_def)

section \<open>Lemmas on chains\<close>

lemma reverse_onto_rev: "reverse_onto c d = rev c @ d"
  by (induction c arbitrary: d) auto

lemma reverse_chain_rev [simp]: "reverse_chain c = rev c"
  by (simp add: reverse_chain_def reverse_onto_rev)

lemma chain_length_length: "length c < 2 ^ 32 \<Longrightarrow> chain_length c = length c"
  by (induction c) auto

lemma destroy_chain_live [simp]: "live (destroy_chain c s) = live s - int (length c)"
  by (induction c arbitrary: s) (auto simp: bint_chunk_free_def)

lemma destroy_chain_verdict [simp]: "verdict (destroy_chain c s) = verdict s"
  by (induction c arbitrary: s) (auto simp: bint_chunk_free_def)

text \<open>\<open>malloc_fails s\<close>: the allocator refuses some request.\<close>

definition malloc_fails :: "alloc \<Rightarrow> bool" where
  "malloc_fails s = (\<exists>t. \<not> verdict s t)"

lemma alloc_loop_spec:
  "alloc_loop len ch s = (cs, s') \<Longrightarrow> verdict s' = verdict s \<and>
     ((cs = [] \<and> live s' = live s - int (length ch) \<and> 0 < len \<and> malloc_fails s) \<or>
      (cs = replicate len zero_chunk @ ch \<and> live s' = live s + int len))"
proof (induction len arbitrary: ch s)
  case (Suc len)
  show ?case
  proof (cases "verdict s (tick s)")
    case True
    then show ?thesis
      using Suc.IH [of "zero_chunk # ch" "s\<lparr>tick := Suc (tick s), live := live s + 1\<rparr>"] Suc.prems
      by (auto simp: bint_chunk_alloc_def replicate_app_Cons_same malloc_fails_def)
  next
    case False
    then show ?thesis
      using Suc.prems by (auto simp: bint_chunk_alloc_def malloc_fails_def)
  qed
qed auto

lemma alloc_chain_spec:
  "alloc_chain len s = (cs, s') \<Longrightarrow> verdict s' = verdict s \<and>
     ((cs = [] \<and> live s' = live s \<and> 0 < len \<and> malloc_fails s) \<or>
      (cs = replicate len zero_chunk \<and> live s' = live s + int len))"
  using alloc_loop_spec [of len "[]" s cs s'] by (auto simp: alloc_chain_def)

lemma drop_zeros_spec:
  "drop_zeros cs s = (cs', s') \<Longrightarrow>
     \<exists>zs. cs = zs @ cs' \<and> (\<forall>c\<in>set zs. chunk_is_zero c) \<and> (cs' \<noteq> [] \<longrightarrow> \<not> chunk_is_zero (hd cs')) \<and>
       live s' = live s - int (length zs) \<and> verdict s' = verdict s"
proof (induction cs arbitrary: s)
  case (Cons c cs)
  show ?case
  proof (cases "chunk_is_zero c")
    case True
    then obtain zs where zs: "cs = zs @ cs'" "\<forall>c\<in>set zs. chunk_is_zero c"
      "cs' \<noteq> [] \<longrightarrow> \<not> chunk_is_zero (hd cs')" "live s' = live s - 1 - int (length zs)"
      "verdict s' = verdict s"
      using Cons.IH [of "bint_chunk_free s"] Cons.prems by (auto simp: bint_chunk_free_def)
    with True show ?thesis
      by (intro exI [of _ "c # zs"]) auto
  next
    case False
    with Cons.prems show ?thesis
      by auto
  qed
qed auto

text \<open>
  The allocated chunks that do not belong to a number: every operation keeps their number, so
  it neither loses a chunk nor frees one that it does not own.
\<close>

definition others :: "bint \<Rightarrow> alloc \<Rightarrow> int" where
  "others b s = live s - int (length (chain b))"

definition balanced :: "bint \<Rightarrow> alloc \<Rightarrow> bint \<Rightarrow> alloc \<Rightarrow> bool" where
  "balanced b s b' s' \<longleftrightarrow> others b' s' = others b s \<and> verdict s' = verdict s"

lemma balanced_trans: "balanced b1 s1 b2 s2 \<Longrightarrow> balanced b2 s2 b3 s3 \<Longrightarrow> balanced b1 s1 b3 s3"
  by (simp add: balanced_def)

lemma malloc_fails_cong: "verdict s' = verdict s \<Longrightarrow> malloc_fails s' = malloc_fails s"
  by (simp add: malloc_fails_def)

lemma balanced_negative [simp]: "balanced b s (b'\<lparr>negative := x\<rparr>) s' = balanced b s b' s'"
  by (simp add: balanced_def others_def)

text \<open>Trimming keeps the value, establishes the invariant and frees what it drops.\<close>

lemma trim_chunks_spec:
  assumes "trim_chunks b s = (b', s')" "bint_shape b"
  shows "bint_inv b' \<and> mag b' = mag b \<and> negative b' = negative b \<and> digits b' = digits b \<and>
    length (chain b') \<le> length (chain b) \<and> balanced b s b' s'"
proof -
  obtain st where st: "drop_zeros (rev (chain b)) s = (st, s')" and b': "b' = b\<lparr>chain := rev st\<rparr>"
    using assms(1) by (auto simp: trim_chunks_def split: prod.splits)
  obtain zs where zs: "rev (chain b) = zs @ st" "\<forall>c\<in>set zs. chunk_is_zero c"
    "st \<noteq> [] \<longrightarrow> \<not> chunk_is_zero (hd st)" "live s' = live s - int (length zs)"
    "verdict s' = verdict s"
    using drop_zeros_spec [OF st] by blast
  have c: "chain b = rev st @ rev zs"
    using arg_cong [OF zs(1), of rev] by simp
  have "cval (rev zs) = 0"
    using zs(2) by (simp add: cval_zero_iff)
  then have "mag b' = mag b"
    using assms(2) c by (simp add: mag_def b' bint_shape_def bint_chunks_def cval_append)
  then show ?thesis
    using zs assms(2) c
    by (auto simp: b' bint_inv_def bint_shape_def trimmed_def bint_chunks_def last_rev balanced_def others_def)
qed

lemma extend_walk_spec:
  "extend_walk cs count s = (r, cs', s') \<Longrightarrow> verdict s' = verdict s \<and>
     ((r = -1 \<and> cs' = cs \<and> live s' = live s \<and> malloc_fails s) \<or>
      (r = 0 \<and> cs' = cs @ replicate (count div 128 - length cs) zero_chunk \<and>
       live s' = live s + int (count div 128 - length cs)))"
proof (induction cs arbitrary: count r cs')
  case Nil
  then show ?case
    using alloc_chain_spec [of "count div 128" s]
    by (auto split: if_splits prod.splits)
next
  case (Cons c cs)
  show ?case
  proof (cases "128 \<le> count")
    case True
    then obtain cs1 where w: "extend_walk cs (count - 128) s = (r, cs1, s')" "cs' = c # cs1"
      using Cons.prems by (auto split: prod.splits)
    have "(count - 128) div 128 = count div 128 - 1"
      using True by (simp add: le_div_geq)
    with Cons.IH [OF w(1)] w(2) show ?thesis
      by (auto simp: algebra_simps)
  next
    case False
    then show ?thesis
      using Cons.prems by auto
  qed
qed

lemma extend_length_spec:
  assumes "extend_length b count s = (r, b', s')"
  obtains "r = -1" "b' = b" "live s' = live s" "malloc_fails s" "verdict s' = verdict s"
  | k where "verdict s' = verdict s" "r = 0" "b' = b\<lparr>chain := chain b @ replicate k zero_chunk\<rparr>" "k = count div 128 - length (chain b)"
      "live s' = live s + int k"
  using assms extend_walk_spec [of "chain b" count s] that
  by (auto simp: extend_length_def split: prod.splits)

section \<open>Bit lengths\<close>

text \<open>\<open>is_len L m\<close>: the most significant 1 of \<open>m\<close> is at position \<open>L - 1\<close>.\<close>

definition is_len :: "nat \<Rightarrow> nat \<Rightarrow> bool" where
  "is_len L m \<longleftrightarrow> m < 2 ^ L \<and> (0 < L \<longrightarrow> 2 ^ (L - 1) \<le> m)"

lemma is_len_0 [simp]: "is_len L 0 \<longleftrightarrow> L = 0"
  by (auto simp: is_len_def)

lemma is_len_pos: "is_len L m \<Longrightarrow> 0 < L \<longleftrightarrow> 0 < m"
  by (cases "L = 0") (auto simp: is_len_def intro: less_le_trans [of 0 "2 ^ (L - 1)"])

lemma is_len_shift:
  assumes "is_len l w" "x < 2 ^ k" "0 < w"
  shows "is_len (k + l) (x + 2 ^ k * w)"
proof -
  have l: "0 < l" "w < 2 ^ l" "2 ^ (l - 1) \<le> w"
    using assms is_len_pos [OF assms(1)] by (auto simp: is_len_def)
  have "x + 2 ^ k * w < 2 ^ k * (w + 1)"
    using assms(2) by simp
  also have "\<dots> \<le> 2 ^ k * 2 ^ l"
    using l(2) by (intro mult_le_mono2) simp
  finally have "x + 2 ^ k * w < 2 ^ (k + l)"
    by (simp add: power_add)
  moreover have "2 ^ (k + l - 1) \<le> 2 ^ k * w"
    using l mult_le_mono2 [OF l(3), of "2 ^ k"] by (simp add: power_add [symmetric])
  ultimately show ?thesis
    unfolding is_len_def by simp
qed

lemma is_len_unique: "is_len k m \<Longrightarrow> is_len l m \<Longrightarrow> k = l"
proof (induction k l rule: linorder_wlog)
  case (le k l)
  show ?case
  proof (rule ccontr)
    assume "k \<noteq> l"
    then have "(2::nat) ^ k \<le> 2 ^ (l - 1)"
      using le(1) by (intro power_increasing) auto
    then have "m < 2 ^ (l - 1)"
      using le(2) by (auto simp: is_len_def intro: less_le_trans)
    with le \<open>k \<noteq> l\<close> show False
      by (auto simp: is_len_def)
  qed
qed simp

lemma bit_length_is_len: "is_len (bit_length w) (unat w)"
proof (induction w rule: bit_length.induct)
  case (1 w)
  show ?case
  proof (cases "w = 0")
    case False
    let ?h = "drop_bit 1 w"
    have h: "unat ?h = unat w div 2"
      by (simp add: drop_bit_Suc unat_div)
    have IH: "is_len (bit_length ?h) (unat w div 2)"
      using 1 [OF False] by (simp only: h)
    have w: "0 < unat w"
      using False by (simp add: unat_gt_0)
    have eq: "bit_length w = Suc (bit_length ?h)"
      using False by (subst bit_length.simps) simp
    show ?thesis
    proof (cases "unat w div 2 = 0")
      case True
      then have "bit_length ?h = 0" "unat w = 1"
        using IH w by auto
      then show ?thesis
        unfolding eq by (simp add: is_len_def)
    next
      case False
      then have "is_len (1 + bit_length ?h) (unat w mod 2 + 2 ^ 1 * (unat w div 2))"
        using IH by (intro is_len_shift) auto
      then show ?thesis
        unfolding eq by simp
    qed
  qed simp
qed

declare bit_length.simps [simp del]

lemma bit_length_bounds: "bit_length w \<le> 32" "w \<noteq> 0 \<Longrightarrow> 0 < bit_length w"
proof -
  have "\<not> 32 < bit_length w"
  proof
    assume "32 < bit_length w"
    then have "(2::nat) ^ 32 \<le> 2 ^ (bit_length w - 1)"
      by (intro power_increasing) auto
    also have "\<dots> \<le> unat w"
      using bit_length_is_len [of w] \<open>32 < bit_length w\<close> by (simp add: is_len_def)
    finally show False
      using unat_lt_exp [of w] by simp
  qed
  then show "bit_length w \<le> 32"
    by simp
  show "w \<noteq> 0 \<Longrightarrow> 0 < bit_length w"
    using is_len_pos [OF bit_length_is_len [of w]] by (simp add: unat_gt_0)
qed

lemma top_component_None: "top_component c n = None \<Longrightarrow> n \<le> length c \<Longrightarrow> wval (take n c) = 0"
proof (induction n)
  case (Suc n)
  then have "take (Suc n) c = take n c @ [0]" "wval (take n c) = 0"
    by (auto simp: take_Suc_conv_app_nth split: if_splits)
  then show ?case
    by (simp add: wval_append)
qed simp

lemma top_component_Some:
  "top_component c n = Some i \<Longrightarrow> n \<le> length c \<Longrightarrow>
     i < n \<and> c ! i \<noteq> 0 \<and> wval (take n c) = wval (take i c) + 2 ^ (32 * i) * unat (c ! i)"
proof (induction n)
  case (Suc n)
  then show ?case
    by (auto simp: take_Suc_conv_app_nth wval_append split: if_splits)
qed simp

lemma chunk_top_len:
  assumes "chunk_ok c" "top_component c 4 = Some i"
  shows "is_len (i * 32 + bit_length (c ! i)) (wval c)" "i < 4" "c ! i \<noteq> 0"
proof -
  have c: "i < 4" "c ! i \<noteq> 0" "wval c = wval (take i c) + 2 ^ (32 * i) * unat (c ! i)"
    using top_component_Some [OF assms(2)] assms(1) by auto
  have "wval (take i c) < 2 ^ (32 * i)"
    using wval_less [of "take i c"] c(1) assms(1) by (simp add: min_def)
  then have "is_len (32 * i + bit_length (c ! i)) (wval c)"
    unfolding c(3) using c(2) bit_length_is_len by (intro is_len_shift) (auto simp: unat_gt_0)
  then show "is_len (i * 32 + bit_length (c ! i)) (wval c)" "i < 4" "c ! i \<noteq> 0"
    using c by (simp_all add: mult.commute)
qed

lemma bint_chunks_last:
  "bint_chunks b = butlast (bint_chunks b) @ [last_chunk b]" "length (butlast (bint_chunks b)) = length (chain b)"
  by (simp_all add: bint_chunks_def last_chunk_def)

lemma mag_last:
  assumes "bint_shape b"
  shows "chunk_ok (last_chunk b)" "cval (butlast (bint_chunks b)) < 2 ^ (128 * length (chain b))"
    "mag b = cval (butlast (bint_chunks b)) + 2 ^ (128 * length (chain b)) * wval (last_chunk b)"
proof -
  have ok: "chunks_ok (butlast (bint_chunks b))" "chunk_ok (last_chunk b)"
    using assms bint_chunks_last(1) [of b] unfolding bint_shape_def
    by (metis chunks_ok_simps(2,3))+
  show "chunk_ok (last_chunk b)"
    by (rule ok)
  show "cval (butlast (bint_chunks b)) < 2 ^ (128 * length (chain b))"
    using cval_less [OF ok(1)] by (simp only: bint_chunks_last(2))
  show "mag b = cval (butlast (bint_chunks b)) + 2 ^ (128 * length (chain b)) * wval (last_chunk b)"
    using cval_append [OF ok(1), of "[last_chunk b]"] ok(2)
    unfolding mag_def bint_chunks_last(1) [symmetric] bint_chunks_last(2) by simp
qed

lemma trimmed_last: "trimmed b \<Longrightarrow> wval (last_chunk b) = 0 \<Longrightarrow> chain b = []"
  by (auto simp: trimmed_def last_chunk_def wval_zero_iff split: if_splits)

lemma bint_bit_length_spec:
  assumes "bint_inv b" "bint_small b"
  shows "is_len (bint_bit_length b) (mag b) \<and> 128 * length (chain b) \<le> bint_bit_length b \<and>
    (chain b \<noteq> [] \<longrightarrow> 128 * length (chain b) < bint_bit_length b) \<and>
    bint_bit_length b \<le> 128 * length (chain b) + 128"
proof (cases "top_component (last_chunk b) 4")
  case None
  note last = mag_last [of b]
  have "wval (last_chunk b) = 0"
    using top_component_None [OF None] last(1) assms by (simp add: bint_inv_def)
  moreover from this have "chain b = []"
    using assms trimmed_last by (auto simp: bint_inv_def)
  ultimately have "mag b = 0" "bint_bit_length b = 0" "chain b = []"
    using None last assms by (auto simp: bint_bit_length_def bint_inv_def)
  then show ?thesis
    by simp
next
  case (Some i)
  note last = mag_last [of b]
  let ?l = "i * 32 + bit_length (last_chunk b ! i)"
  have shape: "bint_shape b"
    using assms by (simp add: bint_inv_def)
  have c: "is_len ?l (wval (last_chunk b))" "i < 4" "last_chunk b ! i \<noteq> 0"
    using chunk_top_len [OF last(1) [OF shape] Some] .
  have l: "0 < ?l" "?l \<le> 128"
    using c(2) bit_length_bounds [of "last_chunk b ! i"] c(3) by auto
  have len: "bint_bit_length b = 128 * length (chain b) + ?l"
    using Some l assms(2) by (simp add: bint_bit_length_def bint_small_def)
  have "0 < wval (last_chunk b)"
    using is_len_pos [OF c(1)] l by simp
  then have "is_len (128 * length (chain b) + ?l) (mag b)"
    unfolding last(3) [OF shape] using c(1) last(2) [OF shape] by (intro is_len_shift)
  with l len show ?thesis
    by simp
qed

section \<open>Comparison\<close>

lemma sgn_top:
  fixes x y :: nat
  assumes "x < 2 ^ k" "y < 2 ^ k"
  shows "sgn (int (x + 2 ^ k * a) - int (y + 2 ^ k * b)) =
    (if a < b then -1 else if b < a then 1 else sgn (int x - int y))"
proof -
  have *: "x + 2 ^ k * a < y + 2 ^ k * b" if "a < b" "x < 2 ^ k" for x y a b :: nat
  proof -
    have "x + 2 ^ k * a < 2 ^ k * (a + 1)"
      using that by simp
    also have "\<dots> \<le> 2 ^ k * b"
      using that by (intro mult_le_mono2) simp
    finally show ?thesis
      by simp
  qed
  have sgn: "sgn (int m - int n) = (if m < n then -1 else if n < m then 1 else 0)" for m n
    by (auto simp: sgn_if)
  show ?thesis
    unfolding sgn using * [of a b x y] * [of b a y x] assms by (cases a b rule: linorder_cases) auto
qed

lemma compare_from_sgn:
  "n \<le> length a \<Longrightarrow> n \<le> length b \<Longrightarrow>
     compare_from a b n = sgn (int (wval (take n a)) - int (wval (take n b)))"
proof (induction n)
  case (Suc n)
  have "wval (take n a) < 2 ^ (32 * n)" "wval (take n b) < 2 ^ (32 * n)"
    using wval_less [of "take n a"] wval_less [of "take n b"] Suc.prems by (simp_all add: min_def)
  from sgn_top [OF this, of "unat (a ! n)" "unat (b ! n)"] Suc show ?case
    by (simp add: take_Suc_conv_app_nth wval_append word_less_nat_alt)
qed simp

lemma compare_chunk_sgn:
  "chunk_ok a \<Longrightarrow> chunk_ok b \<Longrightarrow> compare_chunk a b = sgn (int (wval a) - int (wval b))"
  using compare_from_sgn [of 4 a b] by (simp add: compare_chunk_def)

lemma cmp_loop_length:
  "length ca < length cb \<Longrightarrow> cmp_loop ca cb d = -1" "length cb < length ca \<Longrightarrow> cmp_loop ca cb d = 1"
  by (induction ca cb d rule: cmp_loop.induct) auto

lemma cmp_loop_same:
  "length ca = length cb \<Longrightarrow> chunks_ok ca \<Longrightarrow> chunks_ok cb \<Longrightarrow>
     cmp_loop ca cb d = (if cval ca = cval cb then d else sgn (int (cval ca) - int (cval cb)))"
proof (induction ca cb d rule: cmp_loop.induct)
  case (1 a ca b cb d)
  have ok: "chunk_ok a" "chunk_ok b"
    using 1 by auto
  have "wval a < 2 ^ 128" "wval b < 2 ^ 128"
    using wval_less [of a] wval_less [of b] ok by simp_all
  from sgn_top [OF this, of "cval ca" "cval cb"] 1 ok show ?case
    by (auto simp: compare_chunk_sgn Let_def sgn_if split: if_splits)
qed auto

lemma mag_lower: "bint_inv b \<Longrightarrow> chain b \<noteq> [] \<Longrightarrow> 2 ^ (128 * length (chain b)) \<le> mag b"
proof -
  assume b: "bint_inv b" "chain b \<noteq> []"
  then have "0 < wval (last_chunk b)"
    using trimmed_last [of b] by (auto simp: bint_inv_def)
  then show ?thesis
    using mag_last(3) [of b] b by (simp add: bint_inv_def trans_le_add2)
qed

lemma mag_upper: "bint_shape b \<Longrightarrow> mag b < 2 ^ (128 * (length (chain b) + 1))"
  using cval_less [of "bint_chunks b"] by (simp add: mag_def bint_shape_def bint_chunks_def)

lemma mag_less_shorter:
  assumes "bint_shape a" "bint_inv b" "length (chain a) < length (chain b)"
  shows "mag a < mag b"
proof -
  have "mag a < 2 ^ (128 * (length (chain a) + 1))"
    by (rule mag_upper) fact
  also have "\<dots> \<le> 2 ^ (128 * length (chain b))"
    using assms(3) by (intro power_increasing) auto
  also have "\<dots> \<le> mag b"
    using assms by (intro mag_lower) auto
  finally show ?thesis .
qed

lemma mag_cmp_sgn:
  assumes "bint_inv a" "bint_inv b"
  shows "mag_cmp a b = sgn (int (mag a) - int (mag b))"
proof (cases "length (chain a)" "length (chain b)" rule: linorder_cases)
  case less
  then have "cmp_loop (bint_chunks a) (bint_chunks b) 0 = -1" "mag a < mag b"
    using mag_less_shorter [of a b] assms
    by (auto simp: bint_inv_def bint_chunks_def intro!: cmp_loop_length)
  then show ?thesis
    by (simp add: mag_cmp_def)
next
  case equal
  then have "length (bint_chunks a) = length (bint_chunks b)"
    by (simp add: bint_chunks_def)
  then show ?thesis
    using assms by (simp add: mag_cmp_def mag_def bint_inv_def bint_shape_def cmp_loop_same)
next
  case greater
  then have "cmp_loop (bint_chunks a) (bint_chunks b) 0 = 1" "mag b < mag a"
    using mag_less_shorter [of b a] assms
    by (auto simp: bint_inv_def bint_chunks_def intro!: cmp_loop_length)
  then show ?thesis
    by (simp add: mag_cmp_def)
qed

lemma is_zero_iff: "bint_inv b \<Longrightarrow> is_zero b \<longleftrightarrow> mag b = 0"
proof -
  assume b: "bint_inv b"
  show "is_zero b \<longleftrightarrow> mag b = 0"
  proof (cases "chain b = []")
    case True
    then show ?thesis
      by (simp add: is_zero_def mag_def bint_chunks_def cval_zero_iff)
  next
    case False
    have "0 < (2::nat) ^ (128 * length (chain b))"
      by (rule zero_less_power) simp
    then have "0 < mag b"
      using mag_lower [OF b False] by (rule less_le_trans)
    with False show ?thesis
      by (simp add: is_zero_def)
  qed
qed

lemma bint_get_sign_sgn: "bint_inv b \<Longrightarrow> bint_get_sign b = sgn (bint_val b)"
  by (auto simp: bint_get_sign_def is_zero_iff bint_val_def)

text \<open>A zero with the sign flag set (a negative zero) is the only value that compares wrongly.\<close>

definition neg_zero :: "bint \<Rightarrow> bool" where
  "neg_zero b \<longleftrightarrow> negative b \<and> is_zero b"

section \<open>Addition\<close>

lemma unat_ucast_u64: "unat (ucast (w :: u32) :: u64) = unat w"
  using unat_lt_exp [of w] by (simp add: unsigned_ucast_eq take_bit_eq_mod)

lemma unat_ucast_u32: "unat (ucast (r :: u64) :: u32) = unat r mod 2 ^ 32"
  by (simp add: unsigned_ucast_eq take_bit_eq_mod)

lemma unat_high_u64: "unat (ucast (drop_bit 32 r :: u64) :: u32) = unat r div 2 ^ 32"
proof -
  have "unat (drop_bit 32 r) = unat r div 2 ^ 32"
    by (simp add: drop_bit_eq_div unat_div)
  moreover have "unat r div 2 ^ 32 < 2 ^ 32"
    using unat_lt_exp [of r] by (simp add: less_mult_imp_div_less)
  ultimately show ?thesis
    by (simp only: unat_ucast_u32 mod_less)
qed

lemma add_step:
  fixes d c cy :: u32
  assumes "unat cy \<le> 1" "r = (if cy \<noteq> 0 then ucast d + ucast c + 1 else ucast d + ucast c :: u64)"
  shows "unat d + unat c + unat cy = unat (ucast r :: u32) + 2 ^ 32 * unat (ucast (drop_bit 32 r) :: u32)"
    "unat (ucast (drop_bit 32 r) :: u32) \<le> 1"
proof -
  have b: "unat d < 2 ^ 32" "unat c < 2 ^ 32"
    using unat_lt_exp [of d] unat_lt_exp [of c] by simp_all
  have dc: "unat (ucast d + ucast c :: u64) = unat d + unat c"
    using b by (subst unat_word_ariths) (simp add: unat_ucast_u64)
  then have dc1: "unat (ucast d + ucast c + 1 :: u64) = unat d + unat c + 1"
    using b by (subst unat_word_ariths) simp
  have "unat cy = (if cy \<noteq> 0 then 1 else 0)"
    using assms(1) unat_gt_0 [of cy] by auto
  then have r: "unat r = unat d + unat c + unat cy"
    using dc dc1 by (simp add: assms(2))
  show "unat d + unat c + unat cy = unat (ucast r :: u32) + 2 ^ 32 * unat (ucast (drop_bit 32 r) :: u32)"
    unfolding unat_high_u64 unfolding unat_ucast_u32 r [symmetric] by (rule mod_mult_div_eq [symmetric])
  show "unat (ucast (drop_bit 32 r) :: u32) \<le> 1"
    unfolding unat_high_u64 r using b assms(1) by simp
qed

lemma add_components_spec:
  "length ds = length cs \<Longrightarrow> unat cy \<le> 1 \<Longrightarrow> add_components cy ds cs = (cy', rs) \<Longrightarrow>
     wval ds + wval cs + unat cy = wval rs + 2 ^ (32 * length ds) * unat cy' \<and>
     unat cy' \<le> 1 \<and> length rs = length ds"
proof (induction ds cs arbitrary: cy rs rule: list_induct2)
  case (Cons d ds c cs)
  define r where "r = (if cy \<noteq> 0 then ucast d + ucast c + 1 else ucast d + ucast c :: u64)"
  obtain rs' where rs': "add_components (ucast (drop_bit 32 r)) ds cs = (cy', rs')" "rs = ucast r # rs'"
    using Cons.prems(2) by (auto simp: Let_def r_def split: prod.splits if_splits)
  note step = add_step [OF Cons.prems(1) r_def]
  from Cons.IH [OF step(2) rs'(1)] step(1) show ?case
    by (simp add: rs'(2) power_add algebra_simps)
qed auto

lemma int_mask_drops_carry: "ucast ((r :: u64) AND 4294967296) = (0 :: u32)"
proof (rule bit_word_eqI)
  fix n
  assume n: "n < LENGTH(32)"
  have "(4294967296 :: u64) = push_bit 32 1"
    by simp
  moreover have "\<not> bit (push_bit 32 (1 :: u64)) n"
    using n by (subst bit_push_bit_iff) simp
  ultimately have "\<not> bit (4294967296 :: u64) n"
    by (simp only: not_False_eq_True)
  then show "bit (ucast (r AND 4294967296) :: u32) n = bit (0 :: u32) n"
    by (simp add: bit_ucast_iff bit_and_iff)
qed

lemma ucast_ucast_u32 [simp]: "ucast (ucast (d :: u32) :: u64) = d"
  using unat_lt_exp [of d] by (intro word_unat_eq_iff [THEN iffD2]) (simp add: unat_ucast_u32 unat_ucast_u64)

lemma carry_components_0: "carry_components 0 ds = (0, ds)"
  by (induction ds) (simp_all add: int_mask_drops_carry Let_def)

text \<open>
  The second loop of \<open>mag_add\<close> increments the first component only: whatever comes of it is
  forgotten.
\<close>

lemma ucast_inc: "ucast (ucast (d :: u32) + 1 :: u64) = d + 1"
proof (rule word_unat_eq_iff [THEN iffD2])
  have "unat (ucast d + 1 :: u64) = unat d + 1"
    using unat_lt_exp [of d] by (subst unat_word_ariths) (simp add: unat_ucast_u64)
  then show "unat (ucast (ucast d + 1 :: u64) :: u32) = unat (d + 1)"
    unfolding unat_ucast_u32 by (subst unat_word_ariths) simp
qed

lemma carry_components_Cons:
  "cy \<noteq> 0 \<Longrightarrow> carry_components cy (d # ds) = (0, (d + 1) # ds)"
  by (simp add: int_mask_drops_carry carry_components_0 Let_def ucast_inc)

lemma unat_inc: "d \<noteq> - 1 \<Longrightarrow> unat (d + 1 :: u32) = unat d + 1"
proof -
  assume d: "d \<noteq> - 1"
  have "unat d + 1 \<noteq> 2 ^ 32"
  proof
    assume "unat d + 1 = 2 ^ 32"
    then have "(of_nat (unat d + 1) :: u32) = of_nat (2 ^ 32)"
      by (simp only:)
    then have "d + 1 = 0"
      by simp
    with d show False
      by (simp add: add_eq_0_iff2)
  qed
  then have "unat d + 1 < 2 ^ 32"
    using unat_lt_exp [of d] by simp
  then show ?thesis
    by (subst unat_word_ariths) simp
qed

lemma carry_chunks_0: "carry_chunks 0 cs = cs"
  by (cases cs) auto

lemma carry_chunks_val:
  assumes "chunks_ok cs" "unat cy \<le> 1" "cs = [] \<Longrightarrow> cy = 0" "\<And>c cs'. cs = c # cs' \<Longrightarrow> hd c \<noteq> - 1"
  shows "cval (carry_chunks cy cs) = cval cs + unat cy \<and> chunks_ok (carry_chunks cy cs) \<and>
    length (carry_chunks cy cs) = length cs"
proof (cases "cy = 0")
  case True
  then show ?thesis
    using assms(1) by (simp add: carry_chunks_0)
next
  case False
  then obtain c cs' where cs: "cs = c # cs'"
    using assms(3) by (cases cs) auto
  obtain d ds where c: "c = d # ds"
    using assms(1) cs by (cases c) auto
  have "unat cy = 1"
    using assms(2) False by (simp add: le_Suc_eq unat_eq_zero)
  then show ?thesis
    using assms(1,4) False
    by (simp add: cs c carry_components_Cons carry_chunks_0 unat_inc del: carry_components.simps)
qed

text \<open>
  The sum is right when the component into which the carry of the common chunks goes does not
  overflow: \<open>carry_safe\<close>. The loop over the common chunks is right without restriction.
\<close>

definition carry_safe :: "chunk list \<Rightarrow> chunk list \<Rightarrow> bool" where
  "carry_safe ds ss = (case drop (length ss) ds of [] \<Rightarrow> True | c # _ \<Rightarrow> hd c \<noteq> - 1)"

lemma add_chunks_val:
  "chunks_ok ds \<Longrightarrow> chunks_ok ss \<Longrightarrow> unat cy \<le> 1 \<Longrightarrow> length ss \<le> length ds \<Longrightarrow> carry_safe ds ss \<Longrightarrow>
     cval ds + cval ss + unat cy < 2 ^ (128 * length ds) \<Longrightarrow>
     cval (add_chunks cy ds ss) = cval ds + cval ss + unat cy \<and> chunks_ok (add_chunks cy ds ss) \<and>
     length (add_chunks cy ds ss) = length ds"
proof (induction cy ds ss rule: add_chunks.induct)
  case (1 cy d dc c sc)
  obtain cy' d' where d': "add_components cy d c = (cy', d')"
    by (cases "add_components cy d c")
  have ok: "chunk_ok d" "chunk_ok c" "chunks_ok dc" "chunks_ok sc"
    using 1 by auto
  have step: "wval d + wval c + unat cy = wval d' + 2 ^ 128 * unat cy'" "unat cy' \<le> 1" "chunk_ok d'"
    using add_components_spec [OF _ 1(4) d'] ok by auto
  have eq: "cval (d # dc) + cval (c # sc) + unat cy = wval d' + 2 ^ 128 * (cval dc + cval sc + unat cy')"
    using ok step(1) by simp
  have "2 ^ 128 * (cval dc + cval sc + unat cy') < 2 ^ 128 * (2 ^ (128 * length dc) :: nat)"
    using 1(7) unfolding eq by (simp add: power_add)
  then have lt: "cval dc + cval sc + unat cy' < 2 ^ (128 * length dc)"
    by (rule nat_mult_less_cancel1 [THEN iffD1, rotated]) simp
  have IH: "cval (add_chunks cy' dc sc) = cval dc + cval sc + unat cy'"
    "chunks_ok (add_chunks cy' dc sc)" "length (add_chunks cy' dc sc) = length dc"
    using 1(1) [OF d'[symmetric] ok(3,4) step(2) _ _ lt] 1 by (auto simp: carry_safe_def)
  then have "cval (add_chunks cy (d # dc) (c # sc)) = wval d' + 2 ^ 128 * (cval dc + cval sc + unat cy')"
    using step(3) by (simp add: d')
  then show ?case
    unfolding eq using IH step(3) by (simp add: d')
next
  case (2 cy ds)
  have "ds = [] \<Longrightarrow> cy = 0"
    using 2(6) by (simp add: unat_eq_zero)
  moreover have "hd c \<noteq> - 1" if "ds = c # cs'" for c cs'
    using 2(5) that by (simp add: carry_safe_def)
  ultimately show ?case
    using carry_chunks_val [OF 2(1,3)] by simp
qed auto

lemma carry_safe_extend:
  assumes "carry_safe ds ss"
  shows "carry_safe (ds @ replicate k zero_chunk) ss"
proof (cases "length ss < length ds")
  case True
  then obtain c cs where "drop (length ss) ds = c # cs"
    by (cases "drop (length ss) ds") auto
  with assms True show ?thesis
    by (simp add: carry_safe_def)
next
  case False
  then have "drop (length ss) (ds @ replicate k zero_chunk) = replicate (k - (length ss - length ds)) zero_chunk"
    by simp
  then show ?thesis
    by (cases "k - (length ss - length ds)") (simp_all add: carry_safe_def zero_chunk_def)
qed

lemma extend_length_cases:
  assumes "extend_length b count s = (r, b', s')" "bint_shape b"
  obtains (fail) "r = -1" "b' = b" "balanced b s b' s'" "malloc_fails s"
  | (ok) k where "r = 0" "chain b' = chain b @ replicate k zero_chunk" "digits b' = digits b"
      "negative b' = negative b" "bint_shape b'" "mag b' = mag b" "balanced b s b' s'"
      "count div 128 \<le> length (chain b')" "length (chain b') = max (length (chain b)) (count div 128)"
proof (rule extend_length_spec [OF assms(1)])
  assume "r = -1" "b' = b" "live s' = live s" "malloc_fails s" "verdict s' = verdict s"
  then show thesis
    by (intro fail) (auto simp: others_def balanced_def)
next
  fix k
  assume v: "verdict s' = verdict s" and k: "r = 0" "b' = b\<lparr>chain := chain b @ replicate k zero_chunk\<rparr>" "k = count div 128 - length (chain b)"
    "live s' = live s + int k"
  have ok': "chunks_ok (bint_chunks b)"
    using assms(2) by (simp add: bint_shape_def)
  have ch: "bint_chunks b' = bint_chunks b @ replicate k zero_chunk"
    by (simp add: k(2) bint_chunks_def)
  have "bint_shape b'" "mag b' = mag b"
    using ok' cval_append [OF ok', of "replicate k zero_chunk"] by (simp_all add: ch bint_shape_def mag_def)
  then show thesis
    using k v by (intro ok [of k]) (auto simp: others_def max_def balanced_def)
qed

lemma mag_add_spec:
  assumes "bint_inv dst" "bint_inv src" "bint_small dst" "bint_small src"
    and safe: "carry_safe (bint_chunks dst) (bint_chunks src)" and res: "mag_add dst src s = (r, dst', s')"
  shows "balanced dst s dst' s' \<and> (r = -1 \<and> dst' = dst \<and> malloc_fails s \<or>
    r = 0 \<and> bint_inv dst' \<and> mag dst' = mag dst + mag src \<and> negative dst' = negative dst)"
proof -
  define n where "n = max (bint_bit_length dst) (bint_bit_length src) + 1"
  note dl = bint_bit_length_spec [OF assms(1,3)]
  note sl = bint_bit_length_spec [OF assms(2,4)]
  have n: "wrap32 ((if bint_bit_length dst > bint_bit_length src then bint_bit_length dst
      else bint_bit_length src) + 1) = n"
    using dl sl assms(3,4) by (auto simp: n_def bint_small_def)
  have eq: "mag_add dst src s = (case extend_length dst n s of (r, dst1, s1) \<Rightarrow>
      if r < 0 then (-1, dst1, s1)
      else (case trim_chunks (with_chunks dst1 (add_chunks 0 (bint_chunks dst1) (bint_chunks src))) s1
            of (dst2, s2) \<Rightarrow> (0, dst2, s2)))"
    unfolding mag_add_def Let_def n ..
  have shape: "bint_shape dst" "bint_shape src"
    using assms(1,2) by (auto simp: bint_inv_def)
  obtain r1 dst1 s1 where e: "extend_length dst n s = (r1, dst1, s1)"
    by (cases "extend_length dst n s")
  from e shape(1) show ?thesis
  proof (cases rule: extend_length_cases)
    case fail
    then show ?thesis
      using res e by (auto simp: eq)
  next
    case (ok k)
    have "mag dst < 2 ^ bint_bit_length dst" "mag src < 2 ^ bint_bit_length src"
      using dl sl by (auto simp: is_len_def)
    moreover have "(2::nat) ^ bint_bit_length dst \<le> 2 ^ (n - 1)" "(2::nat) ^ bint_bit_length src \<le> 2 ^ (n - 1)"
      by (simp_all add: n_def)
    ultimately have "mag dst + mag src < 2 ^ (n - 1) + 2 ^ (n - 1)"
      by linarith
    also have "\<dots> = 2 ^ n"
      by (simp add: n_def)
    also have "\<dots> \<le> 2 ^ (128 * length (bint_chunks dst1))"
      using ok(8) by (intro power_increasing) (auto simp: bint_chunks_def)
    finally have fits: "mag dst + mag src < 2 ^ (128 * length (bint_chunks dst1))" .
    have "128 * length (chain src) < n"
      using sl by (auto simp: n_def)
    then have lens: "length (bint_chunks src) \<le> length (bint_chunks dst1)"
      using ok(8) by (auto simp: bint_chunks_def)
    have safe1: "carry_safe (bint_chunks dst1) (bint_chunks src)"
      using carry_safe_extend [OF safe, of k] ok(2,3) by (simp add: bint_chunks_def)
    let ?cs = "add_chunks 0 (bint_chunks dst1) (bint_chunks src)"
    have cs: "cval ?cs = mag dst + mag src" "chunks_ok ?cs" "length ?cs = length (bint_chunks dst1)"
      using add_chunks_val [OF _ _ _ lens safe1, of 0] ok(5,6) shape(2) fits
      by (auto simp: bint_shape_def mag_def)
    obtain dst2 s2 where t: "trim_chunks (with_chunks dst1 ?cs) s1 = (dst2, s2)"
      by (cases "trim_chunks (with_chunks dst1 ?cs) s1")
    have ne: "?cs \<noteq> []"
      using cs(3) by (auto simp: bint_chunks_def)
    then have c1: "length (chain (with_chunks dst1 ?cs)) = length (chain dst1)"
      using cs(3) by (simp add: with_chunks_def bint_chunks_def)
    have "r = 0" "dst' = dst2" "s' = s2"
      using res e ok(1) t by (auto simp: eq)
    moreover have "bint_shape (with_chunks dst1 ?cs)" "mag (with_chunks dst1 ?cs) = mag dst + mag src"
      using cs ne by (simp_all add: bint_shape_def mag_def)
    ultimately show ?thesis
      using trim_chunks_spec [OF t] c1 ok(4,7) by (auto simp: others_def balanced_def)
  qed
qed

section \<open>Subtraction\<close>

lemma sub_step:
  fixes d c bw :: u32
  assumes "r = (if bw \<noteq> 0 then ucast d - ucast c - 1 else ucast d - ucast c :: u64)"
  shows "unat d + 2 ^ 32 * of_bool (ucast (drop_bit 32 r) \<noteq> (0 :: u32)) =
    unat (ucast r :: u32) + unat c + of_bool (bw \<noteq> 0)"
proof -
  define x :: u64 where "x = ucast c + of_bool (bw \<noteq> 0)"
  have b: "unat d < 2 ^ 32" "unat c < 2 ^ 32"
    using unat_lt_exp [of d] unat_lt_exp [of c] by simp_all
  have x: "unat x = unat c + of_bool (bw \<noteq> 0)"
    unfolding x_def using b by (subst unat_word_ariths) (auto simp: unat_ucast_u64)
  have "r = ucast d - x"
    by (simp add: assms x_def)
  then have r: "unat r = (if unat x \<le> unat d then unat d - unat x else unat d + 2 ^ 64 - unat x)"
    by (simp add: unat_sub_if' unat_ucast_u64)
  have high: "ucast (drop_bit 32 r) \<noteq> (0 :: u32) \<longleftrightarrow> unat r div 2 ^ 32 \<noteq> 0"
    unfolding unat_high_u64 [symmetric] by (simp only: unat_eq_zero)
  have x32: "unat x \<le> 2 ^ 32"
    using b x by (auto simp: of_bool_def)
  show ?thesis
  proof (cases "unat x \<le> unat d")
    case True
    then have "unat r < 2 ^ 32" "unat r + unat x = unat d"
      using r b by auto
    then show ?thesis
      unfolding high unat_ucast_u32 using x by simp
  next
    case False
    then have eq: "unat r = unat d + 2 ^ 32 - unat x + (2 ^ 32 - 1) * 2 ^ 32"
      using r x32 by simp
    have "unat d + 2 ^ 32 - unat x < 2 ^ 32"
      using False by simp
    then have "unat r mod 2 ^ 32 = unat d + 2 ^ 32 - unat x" "unat r div 2 ^ 32 \<noteq> 0"
      unfolding eq by (simp_all only: mod_mult_self1 mod_less div_mult_self1) simp
    then show ?thesis
      unfolding high unat_ucast_u32 using x x32 by simp
  qed
qed

lemma sub_components_spec:
  "length ds = length cs \<Longrightarrow> sub_components bw ds cs = (bw', rs) \<Longrightarrow>
     wval ds + 2 ^ (32 * length ds) * of_bool (bw' \<noteq> 0) = wval rs + wval cs + of_bool (bw \<noteq> 0) \<and>
     length rs = length ds"
proof (induction ds cs arbitrary: bw rs rule: list_induct2)
  case (Cons d ds c cs)
  define r where "r = (if bw \<noteq> 0 then ucast d - ucast c - 1 else ucast d - ucast c :: u64)"
  obtain rs' where rs': "sub_components (ucast (drop_bit 32 r)) ds cs = (bw', rs')" "rs = ucast r # rs'"
    using Cons.prems by (auto simp: Let_def r_def split: prod.splits if_splits)
  let ?h = "of_bool (ucast (drop_bit 32 r) \<noteq> (0 :: u32)) :: nat"
  have IH: "wval ds + 2 ^ (32 * length ds) * of_bool (bw' \<noteq> 0) = wval rs' + wval cs + ?h"
    "length rs' = length ds"
    using Cons.IH [OF rs'(1)] by simp_all
  have "2 ^ 32 * (wval ds + 2 ^ (32 * length ds) * of_bool (bw' \<noteq> 0)) = 2 ^ 32 * (wval rs' + wval cs + ?h)"
    by (simp only: IH)
  with sub_step [OF r_def] IH(2) show ?case
    unfolding rs'(2) by (simp add: power_add)
qed auto

lemma borrow_components_sub: "borrow_components bw ds = sub_components bw ds (replicate (length ds) 0)"
  by (induction ds arbitrary: bw) (simp_all add: Let_def)

text \<open>One chunk of the subtraction, as the induction over the chains uses it.\<close>

lemma sub_chunk_step:
  assumes "wval d + 2 ^ 128 * of_bool p' = wval r + wval c + of_bool p" "wval r < 2 ^ 128"
    and "wval c + 2 ^ 128 * S + of_bool p \<le> wval d + 2 ^ 128 * D"
  shows "S + of_bool p' \<le> D"
proof (rule ccontr)
  assume "\<not> ?thesis"
  then have "2 ^ 128 * (D + 1) \<le> 2 ^ 128 * (S + of_bool p')"
    by (intro mult_le_mono2) simp
  with assms show False
    by simp
qed

lemma borrow_chunks_val:
  "chunks_ok cs \<Longrightarrow> of_bool (bw \<noteq> 0) \<le> cval cs \<Longrightarrow>
     \<exists>rs. borrow_chunks bw cs cs = Some rs \<and> cval rs + of_bool (bw \<noteq> 0) = cval cs \<and>
       chunks_ok rs \<and> length rs = length cs"
proof (induction cs arbitrary: bw)
  case (Cons c cs)
  show ?case
  proof (cases "bw = 0")
    case True
    with Cons.prems show ?thesis
      by simp
  next
    case False
    obtain bw' c' where c': "borrow_components bw c = (bw', c')"
      by (cases "borrow_components bw c")
    have ok: "chunk_ok c" "chunks_ok cs"
      using Cons.prems by auto
    have step: "wval c + 2 ^ 128 * of_bool (bw' \<noteq> 0) = wval c' + wval (replicate 4 0) + of_bool (bw \<noteq> 0)"
      and c'ok: "chunk_ok c'"
      using sub_components_spec [of c "replicate 4 0" bw bw' c'] c' ok by (auto simp: borrow_components_sub)
    have "0 + of_bool (bw' \<noteq> 0) \<le> cval cs"
      using wval_less [of c'] c'ok Cons.prems ok by (intro sub_chunk_step [OF step]) auto
    then obtain rs where rs: "borrow_chunks bw' cs cs = Some rs" "cval rs + of_bool (bw' \<noteq> 0) = cval cs"
      "chunks_ok rs" "length rs = length cs"
      using Cons.IH [OF ok(2), of bw'] by auto
    have "cval (c' # rs) + of_bool (bw \<noteq> 0) = cval (c # cs)"
      using step rs(2) c'ok ok by (simp flip: rs(2))
    with rs c' False c'ok show ?thesis
      by simp
  qed
qed auto

lemma sub_chunks_val:
  "chunks_ok bc \<Longrightarrow> chunks_ok sc \<Longrightarrow> cval sc + of_bool (bw \<noteq> 0) \<le> cval bc \<Longrightarrow>
     dc = bc \<and> length sc \<le> length bc \<or> dc = sc \<and> length bc \<le> length sc \<Longrightarrow>
     \<exists>rs. sub_chunks bw dc bc sc = Some rs \<and> cval rs + cval sc + of_bool (bw \<noteq> 0) = cval bc \<and>
       chunks_ok rs \<and> length rs = length dc"
proof (induction bw dc bc sc rule: sub_chunks.induct)
  case (1 bw dc b bc c sc)
  obtain d dc' where dc: "dc = d # dc'"
    using 1(5) by (cases dc) auto
  obtain bw' r where r: "sub_components bw b c = (bw', r)"
    by (cases "sub_components bw b c")
  have ok: "chunk_ok b" "chunk_ok c" "chunks_ok bc" "chunks_ok sc"
    using 1 by auto
  have step: "wval b + 2 ^ 128 * of_bool (bw' \<noteq> 0) = wval r + wval c + of_bool (bw \<noteq> 0)"
    and rok: "chunk_ok r"
    using sub_components_spec [OF _ r] ok by auto
  have le: "cval sc + of_bool (bw' \<noteq> 0) \<le> cval bc"
    using wval_less [of r] rok 1(4) ok by (intro sub_chunk_step [OF step]) auto
  obtain rs where rs: "sub_chunks bw' dc' bc sc = Some rs" "cval rs + cval sc + of_bool (bw' \<noteq> 0) = cval bc"
    "chunks_ok rs" "length rs = length dc'"
    using 1(1) [OF dc r [symmetric] ok(3,4) le] 1(5) dc by auto
  have "cval (r # rs) + cval (c # sc) + of_bool (bw \<noteq> 0) = cval (b # bc)"
    using step rok ok by (simp flip: rs(2))
  with rs r rok show ?case
    by (simp add: dc)
next
  case (2 bw dc bc)
  then show ?case
    using borrow_chunks_val [of bc bw] by (auto simp: Suc_le_eq)
next
  case (3 bw dc c sc)
  then show ?case
    by auto
qed

lemma mag_sub_spec:
  assumes shape: "bint_shape dst" "bint_shape big" "bint_shape small" and le: "mag small \<le> mag big"
    and dst: "bint_chunks dst = bint_chunks big \<and> length (chain small) \<le> length (chain big) \<or>
      bint_chunks dst = bint_chunks small \<and> length (chain big) \<le> length (chain small)"
  obtains dst' s' where "mag_sub dst big small s = Some (dst', s')" "bint_inv dst'"
    "mag dst' = mag big - mag small" "negative dst' = negative dst" "balanced dst s dst' s'"
    "length (chain dst') \<le> length (chain dst)"
proof -
  obtain cs where cs: "sub_chunks 0 (bint_chunks dst) (bint_chunks big) (bint_chunks small) = Some cs"
    "cval cs + mag small = mag big" "chunks_ok cs" "length cs = length (bint_chunks dst)"
    using sub_chunks_val [of "bint_chunks big" "bint_chunks small" 0 "bint_chunks dst"] assms
    by (auto simp: bint_shape_def mag_def bint_chunks_def)
  have ne: "cs \<noteq> []" "length (chain (with_chunks dst cs)) = length (chain dst)"
    using cs(4) by (auto simp: bint_chunks_def with_chunks_def)
  obtain dst' s' where t: "trim_chunks (with_chunks dst cs) s = (dst', s')"
    by (cases "trim_chunks (with_chunks dst cs) s")
  moreover have "bint_shape (with_chunks dst cs)" "mag (with_chunks dst cs) = mag big - mag small"
    using cs ne by (auto simp: bint_shape_def mag_def)
  ultimately show thesis
    using trim_chunks_spec [OF t] ne cs(1) by (intro that [of dst' s']) (auto simp: mag_sub_def others_def balanced_def)
qed

lemma do_subtract_spec:
  assumes inv: "bint_inv dst" "bint_inv src" and small: "bint_small src"
  obtains r dst' s' where "do_subtract dst src s = Some (r, dst', s')" "balanced dst s dst' s'"
    "r = -1 \<and> dst' = dst \<and> malloc_fails s \<or> r = 0 \<and> bint_inv dst' \<and>
       bint_val dst' = (if negative dst then int (mag src) - int (mag dst) else int (mag dst) - int (mag src))"
proof (cases "mag dst < mag src")
  case True
  then have cmp: "mag_cmp dst src < 0"
    using mag_cmp_sgn [OF inv] by (simp add: sgn_if)
  obtain r1 dst1 s1 where e: "extend_length dst (bint_bit_length src) s = (r1, dst1, s1)"
    by (cases "extend_length dst (bint_bit_length src) s")
  have shape: "bint_shape dst" "bint_shape src"
    using inv by (auto simp: bint_inv_def)
  from e shape(1) show thesis
  proof (cases rule: extend_length_cases)
    case fail
    with e cmp show thesis
      by (intro that [of "-1" dst s1]) (auto simp: do_subtract_def)
  next
    case (ok k)
    have "length (chain src) \<le> length (chain dst1)"
      using bint_bit_length_spec [OF inv(2) small] ok(8) by linarith
    note len = this
    obtain dst2 s2 where m: "mag_sub dst1 src dst1 s1 = Some (dst2, s2)" "bint_inv dst2"
      "mag dst2 = mag src - mag dst1" "negative dst2 = negative dst1" "balanced dst1 s1 dst2 s2"
      by (rule mag_sub_spec [OF ok(5) shape(2) ok(5), of s1]) (use len True ok(6) in auto)
    have "balanced dst s dst2 s2"
      using balanced_trans [OF ok(7) m(5)] .
    then show thesis
      using e cmp ok m True
      by (intro that [of 0 "dst2\<lparr>negative := \<not> negative dst2\<rparr>" s2])
        (auto simp: do_subtract_def bint_val_def)
  qed
next
  case False
  then have cmp: "\<not> mag_cmp dst src < 0"
    using mag_cmp_sgn [OF inv] by (simp add: sgn_if)
  have "length (chain src) \<le> length (chain dst)"
    using mag_less_shorter [of dst src] inv False
    by (cases "length (chain dst) < length (chain src)") (auto simp: bint_inv_def)
  note len = this
  obtain dst2 s2 where "mag_sub dst dst src s = Some (dst2, s2)" "bint_inv dst2"
    "mag dst2 = mag dst - mag src" "negative dst2 = negative dst" "balanced dst s dst2 s2"
    by (rule mag_sub_spec [of dst dst src s]) (use len inv False in \<open>auto simp: bint_inv_def\<close>)
  with cmp False show thesis
    by (intro that [of 0 dst2 s2]) (auto simp: do_subtract_def bint_val_def)
qed

section \<open>Copying\<close>

lemma copy_walk_spec:
  "sc \<noteq> [] \<Longrightarrow> length sc \<le> length dc \<Longrightarrow>
     \<exists>s'. copy_walk dc sc s = Some (sc, s') \<and> live s' = live s - int (length dc - length sc) \<and>
       verdict s' = verdict s"
proof (induction dc sc s rule: copy_walk.induct)
  case (3 d dc c sc s)
  then show ?case
    by (cases "sc = []") auto
qed auto

lemma with_chunks_bint_chunks: "with_chunks (b\<lparr>negative := negative a\<rparr>) (bint_chunks a) = a"
  by (simp add: with_chunks_def bint_chunks_def)

lemma bint_copy_spec:
  assumes inv: "bint_inv src" and small: "bint_small src" and dst: "bint_shape dst"
  obtains r dst' s' where "bint_copy dst src s = Some (r, dst', s')" "balanced dst s dst' s'"
    "r = -1 \<and> dst' = dst \<and> malloc_fails s \<or> r = 0 \<and> dst' = src"
proof -
  obtain r1 dst1 s1 where e: "extend_length dst (bint_bit_length src) s = (r1, dst1, s1)"
    by (cases "extend_length dst (bint_bit_length src) s")
  from e dst show thesis
  proof (cases rule: extend_length_cases)
    case fail
    with e show thesis
      by (intro that [of "-1" dst s1]) (auto simp: bint_copy_def)
  next
    case (ok k)
    have le: "length (bint_chunks src) \<le> length (bint_chunks dst1)"
      using bint_bit_length_spec [OF inv small] ok(8) by (auto simp: bint_chunks_def)
    then obtain s2 where "copy_walk (bint_chunks dst1) (bint_chunks src) s1 = Some (bint_chunks src, s2)"
      "live s2 = live s1 - int (length (bint_chunks dst1) - length (bint_chunks src))"
      "verdict s2 = verdict s1"
      using copy_walk_spec [of "bint_chunks src" "bint_chunks dst1" s1] by (auto simp: bint_chunks_def)
    note walk = this
    have "bint_copy dst src s = Some (0, src, s2)"
      using e ok(1) walk(1) by (simp add: bint_copy_def with_chunks_bint_chunks)
    moreover have "balanced dst s src s2"
      using walk(2,3) le ok(7) by (simp add: others_def balanced_def bint_chunks_def of_nat_diff)
    ultimately show thesis
      by (intro that [of 0 src s2]) auto
  qed
qed
section \<open>Properties\<close>

text \<open>
  Comparison is the order of the integers, for all numbers in normal form whose zero is not
  negative.
\<close>

theorem bint_compare_correct:
  assumes "bint_inv a" "bint_inv b" "\<not> neg_zero a" "\<not> neg_zero b"
  shows "bint_compare a b = sgn (bint_val a - bint_val b)"
proof -
  have "negative a \<Longrightarrow> 0 < mag a" "negative b \<Longrightarrow> 0 < mag b"
    using assms by (auto simp: neg_zero_def is_zero_iff)
  then show ?thesis
    using mag_cmp_sgn [OF assms(1,2)] by (auto simp: bint_compare_def bint_val_def sgn_if)
qed

theorem bint_compare_correct_witness:
  "bint_compare \<lparr>negative = True, digits = [7, 1, 0, 0], chain = [[0, 2, 0, 0]]\<rparr>
     \<lparr>negative = True, digits = [9, 1, 0, 0], chain = []\<rparr> =
   sgn (bint_val \<lparr>negative = True, digits = [7, 1, 0, 0], chain = [[0, 2, 0, 0]]\<rparr> -
     bint_val \<lparr>negative = True, digits = [9, 1, 0, 0], chain = []\<rparr>)"
  by (rule bint_compare_correct)
    (simp_all add: bint_inv_def bint_shape_def trimmed_def neg_zero_def is_zero_def bint_chunks_def)

text \<open>
  A zero whose sign has been set to negative compares as smaller than zero, although
  \<^verbatim>\<open>bint.h\<close> says that setting the sign of zero has no effect.
\<close>

lemma negative_zero_compares_less:
  "bint_compare (bint_set_sign bint_zero (- 1)) bint_zero = -1 \<and>
   bint_val (bint_set_sign bint_zero (- 1)) = bint_val bint_zero"
  by (simp add: bint_compare_def bint_set_sign_def bint_zero_def bint_val_def mag_def bint_chunks_def chunk_of_def)

text \<open>
  C4: \<open>bint_add\<close> adds numbers in normal form, provided that their signs differ, or the destination has
  no chunk beyond the chunks of the source, or its first component there is not all ones
  (\<open>carry_safe\<close>; otherwise the code loses the carry, see \<open>bint_add_loses_carry\<close>). It returns -1, with the
  destination unchanged, only when the allocator refuses a chunk; otherwise the destination is in
  normal form and holds the sum. No chunk is lost either way.
\<close>

theorem bint_add_correct:
  assumes "bint_inv dst" "bint_inv src" "bint_small dst" "bint_small src"
    and "negative dst = negative src \<Longrightarrow> carry_safe (bint_chunks dst) (bint_chunks src)"
  shows "\<exists>r dst' s'. bint_add dst src s = Some (r, dst', s') \<and> balanced dst s dst' s' \<and>
    (if r < 0 then dst' = dst \<and> malloc_fails s
     else bint_inv dst' \<and> bint_val dst' = bint_val dst + bint_val src)"
proof (cases "negative dst = negative src")
  case True
  obtain r dst' s' where m: "mag_add dst src s = (r, dst', s')"
    by (cases "mag_add dst src s")
  with mag_add_spec [OF assms(1-4) assms(5) [OF True] m] True show ?thesis
    by (auto simp: bint_add_def bint_val_def)
next
  case False
  obtain r dst' s' where "do_subtract dst src s = Some (r, dst', s')" "balanced dst s dst' s'"
    "r = -1 \<and> dst' = dst \<and> malloc_fails s \<or> r = 0 \<and> bint_inv dst' \<and>
       bint_val dst' = (if negative dst then int (mag src) - int (mag dst) else int (mag dst) - int (mag src))"
    using do_subtract_spec [OF assms(1,2,4), of s] by metis
  with False show ?thesis
    by (auto simp: bint_add_def bint_val_def)
qed

theorem bint_add_correct_witness:
  "\<exists>r dst' s'. bint_add \<lparr>negative = True, digits = [5, 0xFFFFFFFF, 0xFFFFFFFF, 0xFFFFFFFF], chain = []\<rparr>
      \<lparr>negative = True, digits = [0, 1, 0, 0], chain = []\<rparr> \<lparr>verdict = (\<lambda>_. True), tick = 0, live = 0\<rparr>
      = Some (r, dst', s') \<and> \<not> r < 0 \<and> live s' = int (length (chain dst')) \<and>
    bint_val dst' = - 5 - 2 ^ 128"
proof -
  let ?a = "\<lparr>negative = True, digits = [5, 0xFFFFFFFF, 0xFFFFFFFF, 0xFFFFFFFF], chain = []\<rparr>"
  let ?b = "\<lparr>negative = True, digits = [0, 1, 0, 0], chain = []\<rparr>"
  let ?s = "\<lparr>verdict = (\<lambda>_. True), tick = 0, live = 0\<rparr>"
  have "bint_inv ?a" "bint_inv ?b" "bint_small ?a" "bint_small ?b"
    by (simp_all add: bint_inv_def bint_shape_def trimmed_def bint_small_def bint_chunks_def)
  moreover have "carry_safe (bint_chunks ?a) (bint_chunks ?b)"
    by (simp add: carry_safe_def bint_chunks_def)
  moreover have "\<not> malloc_fails ?s"
    by (simp add: malloc_fails_def)
  moreover have "bint_val ?a + bint_val ?b = - 5 - 2 ^ 128"
    by (simp add: bint_val_def mag_def bint_chunks_def)
  ultimately show ?thesis
    using bint_add_correct [of ?a ?b ?s] by (auto simp: balanced_def others_def split: if_splits)
qed

text \<open>
  C5: \<open>bint_sub\<close> subtracts numbers in normal form, provided that their signs agree, or the destination
  has no chunk beyond the chunks of the source, or its first component there is not all ones
  (\<open>carry_safe\<close>, as for \<open>bint_add\<close>). It returns -1, with the destination unchanged, only when the
  allocator refuses a chunk; otherwise the destination is in normal form and holds the difference.
  No chunk is lost either way.
\<close>

theorem bint_sub_correct:
  assumes "bint_inv dst" "bint_inv src" "bint_small dst" "bint_small src"
    and "negative dst \<noteq> negative src \<Longrightarrow> carry_safe (bint_chunks dst) (bint_chunks src)"
  shows "\<exists>r dst' s'. bint_sub dst src s = Some (r, dst', s') \<and> balanced dst s dst' s' \<and>
    (if r < 0 then dst' = dst \<and> malloc_fails s
     else bint_inv dst' \<and> bint_val dst' = bint_val dst - bint_val src)"
proof (cases "negative dst \<noteq> negative src")
  case True
  obtain r dst' s' where m: "mag_add dst src s = (r, dst', s')"
    by (cases "mag_add dst src s")
  with mag_add_spec [OF assms(1-4) assms(5) [OF True] m] True show ?thesis
    by (auto simp: bint_sub_def bint_val_def)
next
  case False
  obtain r dst' s' where "do_subtract dst src s = Some (r, dst', s')" "balanced dst s dst' s'"
    "r = -1 \<and> dst' = dst \<and> malloc_fails s \<or> r = 0 \<and> bint_inv dst' \<and>
       bint_val dst' = (if negative dst then int (mag src) - int (mag dst) else int (mag dst) - int (mag src))"
    using do_subtract_spec [OF assms(1,2,4), of s] by metis
  with False show ?thesis
    by (auto simp: bint_sub_def bint_val_def)
qed

theorem bint_sub_correct_witness:
  "\<exists>r dst' s'. bint_sub \<lparr>negative = False, digits = [5, 0, 0, 0], chain = []\<rparr>
      \<lparr>negative = False, digits = [6, 0, 0, 0], chain = [[1, 0, 0, 0]]\<rparr>
      \<lparr>verdict = (\<lambda>_. True), tick = 0, live = 1\<rparr> = Some (r, dst', s') \<and> \<not> r < 0 \<and>
    live s' = 1 + int (length (chain dst')) \<and> bint_val dst' = - 1 - 2 ^ 128"
proof -
  let ?a = "\<lparr>negative = False, digits = [5, 0, 0, 0], chain = []\<rparr>"
  let ?b = "\<lparr>negative = False, digits = [6, 0, 0, 0], chain = [[1, 0, 0, 0]]\<rparr>"
  let ?s = "\<lparr>verdict = (\<lambda>_. True), tick = 0, live = 1\<rparr>"
  have "bint_inv ?a" "bint_inv ?b" "bint_small ?a" "bint_small ?b"
    by (simp_all add: bint_inv_def bint_shape_def trimmed_def bint_small_def bint_chunks_def)
  moreover have "\<not> malloc_fails ?s"
    by (simp add: malloc_fails_def)
  moreover have "bint_val ?a - bint_val ?b = - 1 - 2 ^ 128"
    by (simp add: bint_val_def mag_def bint_chunks_def)
  ultimately show ?thesis
    using bint_sub_correct [of ?a ?b ?s] by (auto simp: balanced_def others_def split: if_splits)
qed

text \<open>
  \<open>bint_copy\<close> makes the destination equal to the source, or leaves it unchanged when the
  allocator fails; chunks that the destination no longer needs are freed.
\<close>

theorem bint_copy_correct:
  assumes "bint_inv src" "bint_small src" "bint_shape dst"
  shows "\<exists>r dst' s'. bint_copy dst src s = Some (r, dst', s') \<and> balanced dst s dst' s' \<and>
    (if r < 0 then dst' = dst \<and> malloc_fails s else dst' = src)"
  by (rule bint_copy_spec [OF assms, of s]) auto

theorem bint_copy_correct_witness:
  "\<exists>r s'. bint_copy \<lparr>negative = True, digits = [1, 0, 0, 0], chain = [[1, 0, 0, 0]]\<rparr> bint_one
     \<lparr>verdict = (\<lambda>_. True), tick = 0, live = 1\<rparr> = Some (r, bint_one, s') \<and> live s' = 0"
  using bint_copy_correct [of bint_one "\<lparr>negative = True, digits = [1, 0, 0, 0], chain = [[1, 0, 0, 0]]\<rparr>"
      "\<lparr>verdict = (\<lambda>_. True), tick = 0, live = 1\<rparr>"]
  by (auto simp: bint_inv_def bint_shape_def trimmed_def bint_small_def bint_chunks_def bint_one_def
      chunk_of_def malloc_fails_def balanced_def others_def split: if_splits)

text \<open>Every 32-bit value survives \<open>bint_set\<close> followed by \<open>bint_get\<close>, and nothing leaks.\<close>

theorem bint_set_get:
  "bint_get (fst (bint_set b v s)) = sint v \<and> bint_inv (fst (bint_set b v s)) \<and>
   bint_val (fst (bint_set b v s)) = sint v \<and>
   others (fst (bint_set b v s)) (snd (bint_set b v s)) = others b s"
proof -
  have a: "bint_get (fst (bint_set b v s)) = sint v" "bint_inv (fst (bint_set b v s))"
    by (simp_all add: bint_get_def bint_set_def chunk_of_def bint_inv_def bint_shape_def trimmed_def bint_chunks_def)
  have b: "bint_val (fst (bint_set b v s)) = (if v <s 0 then - uint (- v) else uint v)"
    by (simp add: bint_val_def mag_def bint_set_def chunk_of_def bint_chunks_def)
  have range: "- (2 ^ 31) \<le> sint v" "sint v < 2 ^ 31"
    using sint_greater_eq [of v] sint_less [of v] by simp_all
  have "uint (- v) = - sint v" if "v <s 0"
  proof -
    have "- v = word_of_int (- sint v)"
      by simp
    then have "uint (- v) = (- sint v) mod 2 ^ 32"
      by (simp only: uint_word_of_int) simp
    then show ?thesis
      using that range by (simp add: word_sless_alt)
  qed
  moreover have "uint v = sint v" if "\<not> v <s 0"
    using that range by (simp add: uint_sint take_bit_eq_mod word_sless_alt)
  ultimately show ?thesis
    using a b by (auto simp: others_def bint_set_def)
qed

section \<open>Evaluation on concrete numbers\<close>

lemma top_component_4: "top_component [a, b, c, d] 4 =
  (if d \<noteq> 0 then Some 3 else if c \<noteq> 0 then Some 2 else if b \<noteq> 0 then Some 1
   else if a \<noteq> 0 then Some 0 else None)"
  by (simp add: numeral_eq_Suc)

lemmas bint_eval = bint_one_def bint_zero_def chunk_of_def zero_chunk_def bint_bit_length_def
  last_chunk_def top_component_4 extend_length_def alloc_chain_def bint_chunk_alloc_def bint_chunk_free_def
  bint_chunks_def with_chunks_def trim_chunks_def bit_length.simps Let_def

text \<open>
  The carry that the addition loses: the sum of \<open>2 ^ 160 - 1\<close> and 1 is computed as 0.
\<close>

theorem bint_add_loses_carry:
  "let a = \<lparr>negative = False, digits = [0xFFFFFFFF, 0xFFFFFFFF, 0xFFFFFFFF, 0xFFFFFFFF],
           chain = [[0xFFFFFFFF, 0, 0, 0]]\<rparr>;
       s = \<lparr>verdict = (\<lambda>_. True), tick = 0, live = 1\<rparr>
   in bint_inv a \<and> bint_val a = 2 ^ 160 - 1 \<and> bint_val bint_one = 1 \<and>
      (\<exists>s'. bint_add a bint_one s = Some (0, bint_zero, s')) \<and> bint_val bint_zero = 0"
  by (simp add: bint_add_def mag_add_def bint_eval bint_val_def mag_def bint_inv_def bint_shape_def
      trimmed_def)

end
