(* ===== verification/Dlb_Bint_Bits.thy ===== *)
theory Dlb_Bint_Bits
  imports Dlb_Bint
begin

unbundle bit_operations_syntax

text \<open>
  Big integers (\<^verbatim>\<open>src/src/bint.c\<close>), second part: single bits, the bitwise operations, the shifts
  and the conversion to and from digits. The loops over chunks walk the list of chunks, the
  loops over the components of a chunk walk the chunk; a loop that runs from the top reverses
  the list first, as the code does with \<open>reverse_chain\<close>.
\<close>

section \<open>Single bits\<close>

fun get_walk :: "chunk list \<Rightarrow> nat \<Rightarrow> bool" where
  "get_walk [] pos = False"
| "get_walk (c # next) pos =
     (if pos \<ge> CHUNK_BITS then get_walk next (pos - CHUNK_BITS)
      else c ! (pos div 32) AND push_bit (pos mod 32) 1 \<noteq> 0)"

definition bint_bit_get :: "bint \<Rightarrow> nat \<Rightarrow> bool" where
  "bint_bit_get b pos = get_walk (bint_chunks b) pos"

definition chunk_bit_set :: "chunk \<Rightarrow> nat \<Rightarrow> chunk" where
  "chunk_bit_set c pos = c[pos div 32 := c ! (pos div 32) OR push_bit (pos mod 32) 1]"

definition chunk_bit_clear :: "chunk \<Rightarrow> nat \<Rightarrow> chunk" where
  "chunk_bit_clear c pos = c[pos div 32 := c ! (pos div 32) AND NOT (push_bit (pos mod 32) 1)]"

text \<open>The first argument is the current chunk, the second what follows it.\<close>

fun set_walk :: "chunk \<Rightarrow> chunk list \<Rightarrow> nat \<Rightarrow> alloc \<Rightarrow> int \<times> chunk list \<times> alloc" where
  "set_walk c (d # next) pos s =
     (if pos \<ge> CHUNK_BITS
      then (case set_walk d next (pos - CHUNK_BITS) s of (r, cs, s1) \<Rightarrow> (r, c # cs, s1))
      else (0, chunk_bit_set c pos # d # next, s))"
| "set_walk c [] pos s =
     (if pos \<ge> CHUNK_BITS
      then (case alloc_chain (pos div CHUNK_BITS) s of (next, s1) \<Rightarrow>
        if next = [] then (-1, [c], s1)
        else (0, c # butlast next @ [chunk_bit_set (last next) (pos mod CHUNK_BITS)], s1))
      else (0, [chunk_bit_set c pos], s))"

definition bint_bit_set :: "bint \<Rightarrow> nat \<Rightarrow> alloc \<Rightarrow> int \<times> bint \<times> alloc" where
  "bint_bit_set b pos s = (case set_walk (digits b) (chain b) pos s of (r, cs, s1) \<Rightarrow>
     (r, with_chunks b cs, s1))"

text \<open>
  \<open>clear_walk\<close> gives the changed chain and whether the changed chunk is the last; \<open>None\<close> when
  the position lies beyond the chain.
\<close>

fun clear_walk :: "chunk list \<Rightarrow> nat \<Rightarrow> (chunk list \<times> bool) option" where
  "clear_walk [] pos = None"
| "clear_walk (c # next) pos =
     (if pos \<ge> CHUNK_BITS
      then map_option (\<lambda>(cs, is_last). (c # cs, is_last)) (clear_walk next (pos - CHUNK_BITS))
      else Some (chunk_bit_clear c pos # next, next = []))"

definition bint_bit_clear :: "bint \<Rightarrow> nat \<Rightarrow> alloc \<Rightarrow> bint \<times> alloc" where
  "bint_bit_clear b pos s = (case clear_walk (bint_chunks b) pos of
     None \<Rightarrow> (b, s)
   | Some (cs, is_last) \<Rightarrow> if is_last then trim_chunks (with_chunks b cs) s else (with_chunks b cs, s))"

section \<open>Bitwise operations\<close>

text \<open>Making the destination chain as long as the source chain, for \<open>bint_or\<close> and \<open>bint_xor\<close>.\<close>

fun match_walk :: "chunk list \<Rightarrow> chunk list \<Rightarrow> alloc \<Rightarrow> int \<times> chunk list \<times> alloc" where
  "match_walk (d # dc) (c # sc) s = (case match_walk dc sc s of (r, cs, s1) \<Rightarrow> (r, d # cs, s1))"
| "match_walk dc [] s = (0, dc, s)"
| "match_walk [] (c # sc) s = (case alloc_chain (chain_length (c # sc)) s of (next, s1) \<Rightarrow>
     if next = [] then (-1, [], s1) else (0, next, s1))"

fun or_chunks :: "chunk list \<Rightarrow> chunk list \<Rightarrow> chunk list option" where
  "or_chunks dc [] = Some dc"
| "or_chunks [] (c # sc) = None"
| "or_chunks (d # dc) (c # sc) = map_option ((#) (map2 (OR) d c)) (or_chunks dc sc)"

definition bint_or :: "bint \<Rightarrow> bint \<Rightarrow> alloc \<Rightarrow> (int \<times> bint \<times> alloc) option" where
  "bint_or dst src s = (case match_walk (chain dst) (chain src) s of (r, next, s1) \<Rightarrow>
     let dst1 = dst\<lparr>chain := next\<rparr> in
     if r < 0 then Some (-1, dst1, s1)
     else map_option (\<lambda>cs. (0, with_chunks dst1 cs, s1)) (or_chunks (bint_chunks dst1) (bint_chunks src)))"

fun and_chunks :: "bool \<Rightarrow> chunk list \<Rightarrow> chunk list \<Rightarrow> alloc \<Rightarrow> chunk list \<times> bool \<times> alloc" where
  "and_chunks need_trim (d # dc) (c # sc) s =
     (let d' = map2 (AND) d c; need_trim = chunk_is_zero d' in
      if sc = [] then ([d'], need_trim, destroy_chain dc s)
      else (case and_chunks need_trim dc sc s of (cs, nt, s1) \<Rightarrow> (d' # cs, nt, s1)))"
| "and_chunks need_trim dc sc s = (dc, need_trim, s)"

definition bint_and :: "bint \<Rightarrow> bint \<Rightarrow> alloc \<Rightarrow> bint \<times> alloc" where
  "bint_and dst src s = (case and_chunks False (bint_chunks dst) (bint_chunks src) s of (cs, nt, s1) \<Rightarrow>
     if nt then trim_chunks (with_chunks dst cs) s1 else (with_chunks dst cs, s1))"

fun bic_chunks :: "bool \<Rightarrow> chunk list \<Rightarrow> chunk list \<Rightarrow> chunk list \<times> bool" where
  "bic_chunks need_trim (d # dc) (c # sc) =
     (let d' = map2 (\<lambda>x y. x AND NOT y) d c in
      case bic_chunks (chunk_is_zero d') dc sc of (cs, nt) \<Rightarrow> (d' # cs, nt))"
| "bic_chunks need_trim dc sc = (dc, need_trim)"

definition bint_bic :: "bint \<Rightarrow> bint \<Rightarrow> alloc \<Rightarrow> bint \<times> alloc" where
  "bint_bic dst src s = (case bic_chunks False (bint_chunks dst) (bint_chunks src) of (cs, nt) \<Rightarrow>
     if nt then trim_chunks (with_chunks dst cs) s else (with_chunks dst cs, s))"

fun xor_chunks :: "bool \<Rightarrow> chunk list \<Rightarrow> chunk list \<Rightarrow> (chunk list \<times> bool) option" where
  "xor_chunks need_trim dc [] = Some (dc, need_trim)"
| "xor_chunks need_trim [] (c # sc) = None"
| "xor_chunks need_trim (d # dc) (c # sc) =
     (let d' = map2 (XOR) d c in
      map_option (\<lambda>(cs, nt). (d' # cs, nt)) (xor_chunks (chunk_is_zero d') dc sc))"

definition bint_xor :: "bint \<Rightarrow> bint \<Rightarrow> alloc \<Rightarrow> (int \<times> bint \<times> alloc) option" where
  "bint_xor dst src s = (case match_walk (chain dst) (chain src) s of (r, next, s1) \<Rightarrow>
     let dst1 = dst\<lparr>chain := next\<rparr> in
     if r < 0 then Some (-1, dst1, s1)
     else map_option (\<lambda>(cs, nt).
            case (if nt then trim_chunks (with_chunks dst1 cs) s1 else (with_chunks dst1 cs, s1)) of
              (dst2, s2) \<Rightarrow> (0, dst2, s2))
          (xor_chunks False (bint_chunks dst1) (bint_chunks src)))"

section \<open>Shifts\<close>

text \<open>
  The chunk-wise part of the left shift works on the reversed chain: \<open>src\<close> runs ahead of \<open>dst\<close>,
  so what it reads has not been written yet. \<open>None\<close> is the dereference of \<open>NULL\<close>.
\<close>

fun skip_left :: "chunk list \<Rightarrow> nat \<Rightarrow> (chunk list \<times> nat) option" where
  "skip_left [] count = (if count \<ge> CHUNK_BITS then None else Some ([], count))"
| "skip_left (c # next) count =
     (if count \<ge> CHUNK_BITS then skip_left next (count - CHUNK_BITS) else Some (c # next, count))"

fun copy_down :: "chunk list \<Rightarrow> chunk list \<Rightarrow> chunk list option" where
  "copy_down dst [] = Some (map (\<lambda>_. zero_chunk) dst)"
| "copy_down [] (c # src) = None"
| "copy_down (d # dst) (c # src) = map_option ((#) c) (copy_down dst src)"

definition shift_chunks_left :: "chunk list \<Rightarrow> nat \<Rightarrow> (chunk list \<times> nat) option" where
  "shift_chunks_left cs count =
     (if count \<ge> CHUNK_BITS
      then (let top = reverse_chain cs in
        case skip_left top count of None \<Rightarrow> None
        | Some (src, count') \<Rightarrow> map_option (\<lambda>cs'. (reverse_chain cs', count')) (copy_down top src))
      else Some (cs, count))"

fun shift_bits_left :: "nat \<Rightarrow> u32 \<Rightarrow> u32 list \<Rightarrow> u32 \<times> u32 list" where
  "shift_bits_left bs carry [] = (carry, [])"
| "shift_bits_left bs carry (d # ds) =
     (case shift_bits_left bs (drop_bit (32 - bs) d) ds of (carry', ds') \<Rightarrow>
       (carry', (push_bit bs d OR carry) # ds'))"

definition move_up :: "nat \<Rightarrow> u32 list \<Rightarrow> chunk \<Rightarrow> chunk" where
  "move_up n tmp d = map (\<lambda>i. if i < n then tmp ! i else d ! (i - n)) [0..<BINT_CHUNK_SIZE]"

definition next_up :: "nat \<Rightarrow> chunk \<Rightarrow> chunk" where
  "next_up n d = map (\<lambda>i. if i < n then d ! (BINT_CHUNK_SIZE - n + i) else 0) [0..<BINT_CHUNK_SIZE]"

fun shift_words_left :: "nat \<Rightarrow> nat \<Rightarrow> chunk \<Rightarrow> u32 \<Rightarrow> chunk list \<Rightarrow> chunk list" where
  "shift_words_left n bs tmp carry [] = []"
| "shift_words_left n bs tmp carry (d # dst) =
     (case (if bs \<noteq> 0 then shift_bits_left bs carry (move_up n tmp d) else (carry, move_up n tmp d)) of
        (carry', d') \<Rightarrow> d' # shift_words_left n bs (next_up n d) carry' dst)"

definition bint_shift_left :: "bint \<Rightarrow> nat \<Rightarrow> alloc \<Rightarrow> (int \<times> bint \<times> alloc) option" where
  "bint_shift_left b count s =
     (let cur_len = bint_bit_length b in
      if is_zero b then Some (0, b, s)
      else case extend_length b (wrap32 (cur_len + count)) s of (r, b1, s1) \<Rightarrow>
        if r < 0 then Some (-1, b1, s1)
        else map_option (\<lambda>(cs, count').
            (0, with_chunks b1 (shift_words_left (count' div 32) (count' mod 32) zero_chunk 0 cs), s1))
          (shift_chunks_left (bint_chunks b1) count))"

fun skip_right :: "chunk list \<Rightarrow> nat \<Rightarrow> chunk list \<times> nat" where
  "skip_right [] count = ([], count)"
| "skip_right (c # next) count =
     (if count \<ge> CHUNK_BITS then skip_right next (count - CHUNK_BITS) else (c # next, count))"

fun copy_front :: "chunk list \<Rightarrow> chunk list \<Rightarrow> alloc \<Rightarrow> (chunk list \<times> alloc) option" where
  "copy_front [] [] s = Some ([], s)"
| "copy_front (d # dst) [] s = Some ([zero_chunk], destroy_chain dst s)"
| "copy_front [] (c # src) s = None"
| "copy_front (d # dst) (c # src) s = map_option (\<lambda>(cs, s1). (c # cs, s1)) (copy_front dst src s)"

definition shift_chunks_right :: "chunk list \<Rightarrow> nat \<Rightarrow> alloc \<Rightarrow> (chunk list \<times> nat \<times> alloc) option" where
  "shift_chunks_right cs count s =
     (if count \<ge> CHUNK_BITS
      then (case skip_right cs count of (src, count') \<Rightarrow>
        map_option (\<lambda>(cs', s1). (cs', count', s1)) (copy_front cs src s))
      else Some (cs, count, s))"

text \<open>The bits of a chunk, from its top component down.\<close>

fun shift_bits_right :: "nat \<Rightarrow> u32 \<Rightarrow> u32 list \<Rightarrow> u32 \<times> u32 list" where
  "shift_bits_right bs carry [] = (carry, [])"
| "shift_bits_right bs carry (d # ds) =
     (case shift_bits_right bs (push_bit (32 - bs) (d AND (push_bit bs 1 - 1))) ds of (carry', ds') \<Rightarrow>
       (carry', (drop_bit bs d OR carry) # ds'))"

definition move_down :: "nat \<Rightarrow> u32 list \<Rightarrow> chunk \<Rightarrow> chunk" where
  "move_down n tmp d =
     map (\<lambda>i. if i < BINT_CHUNK_SIZE - n then d ! (i + n) else tmp ! i) [0..<BINT_CHUNK_SIZE]"

definition next_down :: "nat \<Rightarrow> chunk \<Rightarrow> chunk" where
  "next_down n d =
     map (\<lambda>i. if i < BINT_CHUNK_SIZE - n then 0 else d ! (i - (BINT_CHUNK_SIZE - n))) [0..<BINT_CHUNK_SIZE]"

fun shift_words_right :: "nat \<Rightarrow> nat \<Rightarrow> chunk \<Rightarrow> u32 \<Rightarrow> chunk list \<Rightarrow> chunk list" where
  "shift_words_right n bs tmp carry [] = []"
| "shift_words_right n bs tmp carry (d # dst) =
     (case (if bs \<noteq> 0 then shift_bits_right bs carry (rev (move_down n tmp d))
            else (carry, rev (move_down n tmp d))) of
        (carry', d') \<Rightarrow> rev d' # shift_words_right n bs (next_down n d) carry' dst)"

definition bint_shift_right :: "bint \<Rightarrow> nat \<Rightarrow> alloc \<Rightarrow> (bint \<times> alloc) option" where
  "bint_shift_right b count s =
     map_option (\<lambda>(cs, count', s1).
       if count' \<ge> CHUNK_BITS then (with_chunks b cs, s1)
       else (let top = reverse_chain cs;
                 top' = shift_words_right (count' div 32) (count' mod 32) zero_chunk 0 top
             in trim_chunks (with_chunks b (reverse_chain top')) s1))
     (shift_chunks_right (bint_chunks b) count s)"

section \<open>Digits\<close>

fun mul_words :: "u32 \<Rightarrow> u32 \<Rightarrow> u32 list \<Rightarrow> u32 \<times> u32 list" where
  "mul_words base carry [] = (carry, [])"
| "mul_words base carry (w # ws) =
     (let d = (ucast w * ucast base + ucast carry :: u64) in
      case mul_words base (ucast (drop_bit 32 d)) ws of (carry', ws') \<Rightarrow> (carry', ucast d # ws'))"

fun mul_chunks :: "u32 \<Rightarrow> u32 \<Rightarrow> chunk list \<Rightarrow> chunk list" where
  "mul_chunks base carry [] = []"
| "mul_chunks base carry (c # cs) =
     (case mul_words base carry c of (carry', c') \<Rightarrow> c' # mul_chunks base carry' cs)"

fun inc_words :: "u32 \<Rightarrow> u32 list \<Rightarrow> u32 \<times> u32 list" where
  "inc_words carry [] = (carry, [])"
| "inc_words carry (w # ws) =
     (let d = (ucast w + ucast carry :: u64) in
      case inc_words (ucast (drop_bit 32 d)) ws of (carry', ws') \<Rightarrow> (carry', ucast d # ws'))"

fun inc_chunks :: "u32 \<Rightarrow> chunk list \<Rightarrow> chunk list" where
  "inc_chunks carry [] = []"
| "inc_chunks carry (c # cs) =
     (if carry = 0 then c # cs
      else case inc_words carry c of (carry', c') \<Rightarrow> c' # inc_chunks carry' cs)"

definition bint_digit_push :: "bint \<Rightarrow> u32 \<Rightarrow> u32 \<Rightarrow> alloc \<Rightarrow> int \<times> bint \<times> alloc" where
  "bint_digit_push b base digit s =
     (if digit \<ge> base then (-1, b, s)
      else case extend_length b (wrap32 (bint_bit_length b + bit_length base + 1)) s of (r, b1, s1) \<Rightarrow>
        if r < 0 then (-1, b1, s1)
        else (let cs = inc_chunks digit (mul_chunks base 0 (bint_chunks b1)) in
          case trim_chunks (with_chunks b1 cs) s1 of (b2, s2) \<Rightarrow> (0, b2, s2)))"

text \<open>Short division from the top component down; the remainder is a 64-bit variable.\<close>

fun div_words :: "u32 \<Rightarrow> u64 \<Rightarrow> u32 list \<Rightarrow> u64 \<times> u32 list" where
  "div_words base rem [] = (rem, [])"
| "div_words base rem (w # ws) =
     (let d = ucast w + push_bit 32 rem in
      case div_words base (d mod ucast base) ws of (rem', ws') \<Rightarrow> (rem', ucast (d div ucast base) # ws'))"

fun div_chunks :: "u32 \<Rightarrow> u64 \<Rightarrow> chunk list \<Rightarrow> u64 \<times> chunk list" where
  "div_chunks base rem [] = (rem, [])"
| "div_chunks base rem (c # cs) =
     (case div_words base rem (rev c) of (rem1, ws) \<Rightarrow>
       case div_chunks base rem1 cs of (rem', cs') \<Rightarrow> (rem', rev ws # cs'))"

definition bint_digit_pop :: "bint \<Rightarrow> u32 \<Rightarrow> alloc \<Rightarrow> u32 \<times> bint \<times> alloc" where
  "bint_digit_pop b base s =
     (if base = 0 then (0, b, s)
      else case div_chunks base 0 (reverse_chain (bint_chunks b)) of (rem, top1) \<Rightarrow>
        case trim_chunks (with_chunks b (reverse_chain top1)) s of (b2, s2) \<Rightarrow> (ucast rem, b2, s2))"

section \<open>Bits of values\<close>

lemma bit_add_shift:
  fixes x y :: nat
  assumes "x < 2 ^ k"
  shows "bit (x + 2 ^ k * y) n = (if n < k then bit x n else bit y (n - k))"
proof (cases "n < k")
  case True
  have "take_bit k (x + 2 ^ k * y) = x"
    using assms by (simp add: take_bit_eq_mod)
  then have "bit (take_bit k (x + 2 ^ k * y)) n = bit x n"
    by simp
  with True show ?thesis
    by (simp add: bit_take_bit_iff)
next
  case False
  have "drop_bit k (x + 2 ^ k * y) = y"
    using assms by (simp add: drop_bit_eq_div)
  then have "bit (drop_bit k (x + 2 ^ k * y)) (n - k) = bit y (n - k)"
    by simp
  with False show ?thesis
    by (simp add: bit_drop_bit_eq)
qed

lemma bit_wval: "bit (wval ws) n \<longleftrightarrow> n div 32 < length ws \<and> bit (ws ! (n div 32)) (n mod 32)"
proof (induction ws arbitrary: n)
  case (Cons w ws)
  have "unat w < 2 ^ 32"
    using unat_lt_exp [of w] by simp
  note split = bit_add_shift [OF this, of "wval ws" n]
  show ?case
  proof (cases "n < 32")
    case True
    then show ?thesis
      using split by (simp add: bit_unsigned_iff)
  next
    case False
    then obtain m where m: "n = 32 + m"
      by (metis le_Suc_ex not_less)
    have "n div 32 = Suc (m div 32)"
      unfolding m by (subst div_add_self1) simp_all
    then show ?thesis
      using split Cons.IH [of m] by (simp add: m)
  qed
qed simp

lemma bit_cval_Cons:
  "chunk_ok c \<Longrightarrow> bit (cval (c # cs)) n = (if n < 128 then bit (wval c) n else bit (cval cs) (n - 128))"
  using bit_add_shift [of "wval c" 128 "cval cs" n] wval_less [of c] by simp

lemma test_bit_word: "(w AND 2 ^ m \<noteq> 0) = bit (w :: u32) m"
  by (simp add: and_exp_eq_0_iff_not_bit)

lemma get_walk_bit: "chunks_ok cs \<Longrightarrow> get_walk cs pos = bit (cval cs) pos"
proof (induction cs pos rule: get_walk.induct)
  case (2 c cs pos)
  have "pos < 128 \<Longrightarrow> pos div 32 < 4"
    by simp
  with 2 show ?case
    by (simp add: bit_cval_Cons bit_wval test_bit_word del: cval_Cons)
qed simp

lemma bint_bit_get_bit: "bint_shape b \<Longrightarrow> bint_bit_get b pos = bit (mag b) pos"
  by (simp add: bint_bit_get_def bint_shape_def mag_def get_walk_bit)

text \<open>A chunk-wise function that combines the bits of two chains combines the bits of the values.\<close>

lemma bit_wval_map2:
  assumes "length xs = length ys"
  shows "bit (wval (map2 f xs ys)) n \<longleftrightarrow> n div 32 < length xs \<and> bit (f (xs ! (n div 32)) (ys ! (n div 32))) (n mod 32)"
  using assms by (auto simp: bit_wval)

lemma wval_update:
  assumes "pos < 32 * length c"
  shows "wval (c[pos div 32 := c ! (pos div 32) OR push_bit (pos mod 32) 1]) = set_bit pos (wval c)"
    "wval (c[pos div 32 := c ! (pos div 32) AND NOT (push_bit (pos mod 32) 1)]) = unset_bit pos (wval c)"
proof -
  have i: "pos div 32 < length c"
    using assms by (simp add: less_mult_imp_div_less mult.commute)
  have eq: "pos = n \<longleftrightarrow> pos div 32 = n div 32 \<and> pos mod 32 = n mod 32" for n
    by (metis div_mult_mod_eq)
  show "wval (c[pos div 32 := c ! (pos div 32) OR push_bit (pos mod 32) 1]) = set_bit pos (wval c)"
    using i by (intro bit_eqI) (auto simp: bit_wval bit_set_bit_iff bit_or_iff nth_list_update eq
      bit_exp_iff)
  show "wval (c[pos div 32 := c ! (pos div 32) AND NOT (push_bit (pos mod 32) 1)]) = unset_bit pos (wval c)"
    using i by (intro bit_eqI) (auto simp: bit_wval bit_unset_bit_iff bit_and_iff bit_not_iff nth_list_update eq
      bit_exp_iff)
qed

lemma chunk_bit_set_val:
  assumes "chunk_ok c" "pos < 128"
  shows "chunk_ok (chunk_bit_set c pos) \<and> wval (chunk_bit_set c pos) = set_bit pos (wval c)"
  using assms wval_update(1) [of pos c] by (simp add: chunk_bit_set_def)

lemma chunk_bit_clear_val:
  assumes "chunk_ok c" "pos < 128"
  shows "chunk_ok (chunk_bit_clear c pos) \<and> wval (chunk_bit_clear c pos) = unset_bit pos (wval c)"
  using assms wval_update(2) [of pos c] by (simp add: chunk_bit_clear_def)

lemma cval_set_bit_head:
  "chunk_ok c \<Longrightarrow> pos < 128 \<Longrightarrow> chunk_ok c' \<Longrightarrow> wval c' = set_bit pos (wval c) \<Longrightarrow>
     cval (c' # cs) = set_bit pos (cval (c # cs))"
  by (intro bit_eqI) (auto simp: bit_cval_Cons bit_set_bit_iff simp del: cval_Cons)

lemma cval_set_bit_tail:
  "chunk_ok c \<Longrightarrow> 128 \<le> pos \<Longrightarrow> cval cs' = set_bit (pos - 128) (cval cs) \<Longrightarrow>
     cval (c # cs') = set_bit pos (cval (c # cs))"
  by (intro bit_eqI) (auto simp: bit_cval_Cons bit_set_bit_iff simp del: cval_Cons)

lemma cval_unset_bit_head:
  "chunk_ok c \<Longrightarrow> pos < 128 \<Longrightarrow> chunk_ok c' \<Longrightarrow> wval c' = unset_bit pos (wval c) \<Longrightarrow>
     cval (c' # cs) = unset_bit pos (cval (c # cs))"
  by (intro bit_eqI) (auto simp: bit_cval_Cons bit_unset_bit_iff simp del: cval_Cons)

lemma cval_unset_bit_tail:
  "chunk_ok c \<Longrightarrow> 128 \<le> pos \<Longrightarrow> cval cs' = unset_bit (pos - 128) (cval cs) \<Longrightarrow>
     cval (c # cs') = unset_bit pos (cval (c # cs))"
  by (intro bit_eqI) (auto simp: bit_cval_Cons bit_unset_bit_iff simp del: cval_Cons)

lemma chunk_bit_set_nonzero: "chunk_ok c \<Longrightarrow> pos < 128 \<Longrightarrow> \<not> chunk_is_zero (chunk_bit_set c pos)"
proof -
  assume a: "chunk_ok c" "pos < 128"
  have "bit (wval (chunk_bit_set c pos)) pos"
    using chunk_bit_set_val [OF a] by (simp add: bit_set_bit_iff)
  then show ?thesis
    by (auto simp: wval_zero_iff [symmetric] intro: gr0I)
qed

lemma set_new_chain:
  "0 < k \<Longrightarrow> pos < 128 \<Longrightarrow> pos' = 128 * (k - 1) + pos \<Longrightarrow>
     cval (replicate (k - 1) zero_chunk @ [chunk_bit_set zero_chunk pos]) = set_bit pos' 0"
proof (induction k arbitrary: pos')
  case (Suc k)
  show ?case
  proof (cases k)
    case 0
    with Suc.prems show ?thesis
      using chunk_bit_set_val [of zero_chunk pos] by simp
  next
    case (Suc j)
    have "cval (zero_chunk # replicate j zero_chunk @ [chunk_bit_set zero_chunk pos])
        = set_bit pos' (cval [zero_chunk])"
      using Suc.IH [of "pos' - 128"] Suc.prems Suc by (intro cval_set_bit_tail) auto
    then show ?thesis
      by (simp add: Suc)
  qed
qed simp

section \<open>Setting and clearing bits\<close>

lemma trimmed_iff:
  assumes "bint_shape b"
  shows "trimmed b \<longleftrightarrow> (chain b \<noteq> [] \<longrightarrow> 2 ^ (128 * length (chain b)) \<le> mag b)"
proof (cases "chunk_is_zero (last_chunk b)")
  case True
  then have "mag b < 2 ^ (128 * length (chain b))"
    using mag_last [OF assms] by (simp add: wval_zero_iff [symmetric])
  then show ?thesis
    using True by (auto simp: trimmed_def last_chunk_def split: if_splits)
next
  case False
  then have "trimmed b"
    by (auto simp: trimmed_def last_chunk_def)
  then show ?thesis
    using mag_lower [of b] assms by (simp add: bint_inv_def)
qed

lemma inv_with_chunks:
  assumes "chunks_ok cs" "cs \<noteq> []" "1 < length cs \<Longrightarrow> 2 ^ (128 * (length cs - 1)) \<le> cval cs"
  shows "bint_inv (with_chunks b cs) \<and> mag (with_chunks b cs) = cval cs"
proof -
  have ch: "bint_chunks (with_chunks b cs) = cs" "chain (with_chunks b cs) = tl cs"
    using assms(2) by (simp_all add: with_chunks_def)
  then have "bint_shape (with_chunks b cs)" "mag (with_chunks b cs) = cval cs"
    using assms(1) by (simp_all add: bint_shape_def mag_def)
  moreover have "1 < length cs" if "tl cs \<noteq> []"
    using that by (cases cs) auto
  ultimately show ?thesis
    using assms by (auto simp: bint_inv_def trimmed_iff ch)
qed

lemma set_walk_spec:
  "chunks_ok (c # cs) \<Longrightarrow> set_walk c cs pos s = (r, cs', s') \<Longrightarrow> verdict s' = verdict s \<and>
     (r = -1 \<and> cs' = c # cs \<and> live s' = live s \<and> malloc_fails s \<or>
      r = 0 \<and> chunks_ok cs' \<and> cval cs' = set_bit pos (cval (c # cs)) \<and>
      length cs' = max (length (c # cs)) (pos div 128 + 1) \<and>
      live s' = live s + int (length cs') - int (length (c # cs)))"
proof (induction c cs pos s arbitrary: r cs' rule: set_walk.induct)
  case (1 c d cs pos s)
  show ?case
  proof (cases "128 \<le> pos")
    case True
    then obtain cs1 where w: "set_walk d cs (pos - 128) s = (r, cs1, s')" "cs' = c # cs1"
      using 1(3) by (auto split: prod.splits)
    have "(pos - 128) div 128 + 1 = pos div 128"
      using True by (simp add: le_div_geq)
    with 1(1) [OF True _ w(1)] 1(2) w(2) True show ?thesis
      by (auto simp: max_def intro!: cval_set_bit_tail simp del: cval_Cons)
  next
    case False
    then show ?thesis
      using 1(2,3) chunk_bit_set_val [of c pos]
      by (auto simp: max_def intro!: cval_set_bit_head simp del: cval_Cons)
  qed
next
  case (2 c pos s)
  show ?case
  proof (cases "128 \<le> pos")
    case True
    define k where "k = pos div 128"
    have k: "0 < k" "pos mod 128 < 128" "pos - 128 = 128 * (k - 1) + pos mod 128"
      using True by (auto simp: k_def div_greater_zero_iff le_div_geq modulo_nat_def)
    obtain nx s1 where a: "alloc_chain k s = (nx, s1)"
      by (cases "alloc_chain k s")
    show ?thesis
    proof (cases "nx = []")
      case True
      then show ?thesis
        using alloc_chain_spec [OF a] k(1) 2 a \<open>128 \<le> pos\<close> by (auto simp: k_def)
    next
      case False
      then have n: "nx = replicate k zero_chunk" "live s1 = live s + int k" "verdict s1 = verdict s"
        using alloc_chain_spec [OF a] by auto
      have bl: "butlast nx = replicate (k - 1) zero_chunk" "last nx = zero_chunk"
        using k(1) by (simp_all add: n(1) last_replicate butlast_conv_take min_def)
      let ?new = "replicate (k - 1) zero_chunk @ [chunk_bit_set zero_chunk (pos mod 128)]"
      have "cs' = c # ?new" "r = 0" "s' = s1"
        using 2(2) a True False by (auto simp: bl k_def)
      moreover have "cval (c # ?new) = set_bit pos (cval [c])"
        using set_new_chain [OF k] 2(1) True by (intro cval_set_bit_tail) auto
      ultimately show ?thesis
        using 2(1) n k chunk_bit_set_val [of zero_chunk "pos mod 128"] by (auto simp: k_def [symmetric] max_def)
    qed
  next
    case False
    then show ?thesis
      using 2 chunk_bit_set_val [of c pos] by (auto simp: max_def)
  qed
qed

lemma bit_ge: "bit (m::nat) n \<Longrightarrow> 2 ^ n \<le> m"
  by (rule ccontr) (simp add: bit_iff_odd)

lemma set_bit_ge: "m \<le> set_bit n (m::nat)" "2 ^ n \<le> set_bit n (m::nat)"
  by (simp add: set_bit_eq) (simp add: bit_ge bit_set_bit_iff)

lemma bint_bit_set_spec:
  assumes inv: "bint_inv b" and res: "bint_bit_set b pos s = (r, b', s')"
  shows "balanced b s b' s' \<and> negative b' = negative b \<and> (r = -1 \<and> b' = b \<and> malloc_fails s \<or>
    r = 0 \<and> bint_inv b' \<and> mag b' = set_bit pos (mag b))"
proof -
  obtain cs where w: "set_walk (digits b) (chain b) pos s = (r, cs, s')" and b': "b' = with_chunks b cs"
    using res by (auto simp: bint_bit_set_def split: prod.splits)
  have ok: "chunks_ok (digits b # chain b)" "digits b # chain b = bint_chunks b"
    using inv by (simp_all add: bint_inv_def bint_shape_def bint_chunks_def)
  note spec = set_walk_spec [OF ok(1) w]
  show ?thesis
  proof (cases "r = 0")
    case True
    then have cs: "chunks_ok cs" "cval cs = set_bit pos (mag b)"
      "length cs = max (length (chain b) + 1) (pos div 128 + 1)"
      "live s' = live s + int (length cs) - int (length (chain b) + 1)"
      using spec by (auto simp: mag_def bint_chunks_def)
    have ne: "cs \<noteq> []"
      using cs(3) by auto
    have top: "2 ^ (128 * (length cs - 1)) \<le> cval cs" if "1 < length cs"
    proof (cases "pos div 128 < length (chain b)")
      case True
      then have "length cs - 1 = length (chain b)" "chain b \<noteq> []"
        using cs(3) by auto
      then show ?thesis
        using mag_lower [OF inv] set_bit_ge(1) [of "mag b" pos] cs(2) by simp
    next
      case False
      then have "128 * (length cs - 1) \<le> pos"
        using cs(3) by (simp add: max_def)
      then have "(2::nat) ^ (128 * (length cs - 1)) \<le> 2 ^ pos"
        by (intro power_increasing) auto
      also have "\<dots> \<le> cval cs"
        using set_bit_ge(2) [of pos "mag b"] cs(2) by simp
      finally show ?thesis .
    qed
    show ?thesis
      using inv_with_chunks [OF cs(1) ne top, of b] cs(2-4) ne True spec
      by (simp add: b' balanced_def others_def with_chunks_def of_nat_diff Suc_le_eq)
  next
    case False
    then show ?thesis
      using spec by (auto simp: b' with_chunks_def balanced_def others_def)
  qed
qed


lemma clear_walk_spec:
  "chunks_ok cs \<Longrightarrow> (case clear_walk cs pos of
     None \<Rightarrow> unset_bit pos (cval cs) = cval cs
   | Some (cs', l) \<Rightarrow> chunks_ok cs' \<and> cval cs' = unset_bit pos (cval cs) \<and> length cs' = length cs \<and> cs' \<noteq> [] \<and>
       (\<not> l \<longrightarrow> last cs' = last cs))"
proof (induction cs pos rule: clear_walk.induct)
  case (1 pos)
  then show ?case
    by simp
next
  case (2 c cs pos)
  show ?case
  proof (cases "128 \<le> pos")
    case True
    then have IH: "case clear_walk cs (pos - 128) of
       None \<Rightarrow> unset_bit (pos - 128) (cval cs) = cval cs
     | Some (cs', l) \<Rightarrow> chunks_ok cs' \<and> cval cs' = unset_bit (pos - 128) (cval cs) \<and>
         length cs' = length cs \<and> cs' \<noteq> [] \<and> (\<not> l \<longrightarrow> last cs' = last cs)"
      using 2 by simp
    show ?thesis
    proof (cases "clear_walk cs (pos - 128)")
      case None
      then have "cval (c # cs) = unset_bit pos (cval (c # cs))"
        using IH 2(2) True by (intro cval_unset_bit_tail) auto
      then show ?thesis
        using None True by simp
    next
      case (Some p)
      obtain cs' l where p: "p = (cs', l)"
        by (cases p)
      have "cval (c # cs') = unset_bit pos (cval (c # cs))"
        using IH Some p 2(2) True by (intro cval_unset_bit_tail) auto
      then show ?thesis
        using IH Some p True 2(2) by (auto simp del: cval_Cons)
    qed
  next
    case False
    then show ?thesis
      using 2(2) chunk_bit_clear_val [of c pos]
      by (auto intro!: cval_unset_bit_head simp del: cval_Cons)
  qed
qed

lemma with_chunks_self: "with_chunks b (bint_chunks b) = b"
  by (simp add: with_chunks_def bint_chunks_def)

text \<open>
  The end of the bitwise operations: a chain of the same length as before or shorter, trimmed
  when its last changed chunk became zero.
\<close>

lemma finish_trim:
  assumes res: "(if nt then trim_chunks (with_chunks b cs) s else (with_chunks b cs, s)) = (b', s')"
    and cs: "chunks_ok cs" "cs \<noteq> []" and last: "\<not> nt \<Longrightarrow> tl cs \<noteq> [] \<Longrightarrow> \<not> chunk_is_zero (last cs)"
  shows "bint_inv b' \<and> mag b' = cval cs \<and> negative b' = negative b \<and>
    balanced (with_chunks b cs) s b' s'"
proof -
  have shape: "bint_shape (with_chunks b cs)" "mag (with_chunks b cs) = cval cs"
    using cs by (simp_all add: bint_shape_def mag_def)
  show ?thesis
  proof (cases nt)
    case True
    then show ?thesis
      using res shape trim_chunks_spec [of "with_chunks b cs" s b' s'] by simp
  next
    case False
    then have "trimmed (with_chunks b cs)"
      using last cs(2) by (auto simp: trimmed_def with_chunks_def last_tl)
    with False res shape show ?thesis
      by (auto simp: bint_inv_def balanced_def)
  qed
qed

lemma last_chunk_nonzero: "bint_inv b \<Longrightarrow> tl (bint_chunks b) \<noteq> [] \<Longrightarrow> \<not> chunk_is_zero (last (bint_chunks b))"
  by (simp add: bint_inv_def trimmed_def bint_chunks_def)

lemma bint_bit_clear_spec:
  assumes inv: "bint_inv b" and res: "bint_bit_clear b pos s = (b', s')"
  shows "bint_inv b' \<and> mag b' = unset_bit pos (mag b) \<and> negative b' = negative b \<and> balanced b s b' s'"
proof -
  have ok: "chunks_ok (bint_chunks b)"
    using inv by (simp add: bint_inv_def bint_shape_def)
  note spec = clear_walk_spec [OF ok, of pos]
  show ?thesis
  proof (cases "clear_walk (bint_chunks b) pos")
    case None
    then show ?thesis
      using spec res inv by (simp add: bint_bit_clear_def mag_def balanced_def)
  next
    case (Some p)
    obtain cs l where p: "p = (cs, l)"
      by (cases p)
    have cs: "chunks_ok cs" "cval cs = unset_bit pos (mag b)" "length cs = length (bint_chunks b)" "cs \<noteq> []"
      "\<not> l \<Longrightarrow> last cs = last (bint_chunks b)"
      using spec Some p by (auto simp: mag_def)
    have f: "(if l then trim_chunks (with_chunks b cs) s else (with_chunks b cs, s)) = (b', s')"
      using res Some p by (simp add: bint_bit_clear_def)
    have "tl cs \<noteq> [] \<Longrightarrow> tl (bint_chunks b) \<noteq> []"
      using cs(3) by (metis length_tl length_0_conv)
    then have "bint_inv b' \<and> mag b' = cval cs \<and> negative b' = negative b \<and> balanced (with_chunks b cs) s b' s'"
      using finish_trim [OF f cs(1,4)] cs(5) last_chunk_nonzero [OF inv] by auto
    then show ?thesis
      using cs(2,3) by (simp add: balanced_def others_def with_chunks_def bint_chunks_def)
  qed
qed

section \<open>Bitwise operations on values\<close>

lemma match_walk_spec:
  "match_walk ds ss s = (r, cs, s') \<Longrightarrow> length ss < 2 ^ 32 \<Longrightarrow> verdict s' = verdict s \<and>
     (r = -1 \<and> cs = ds \<and> live s' = live s \<and> malloc_fails s \<or>
      r = 0 \<and> cs = ds @ replicate (length ss - length ds) zero_chunk \<and>
      live s' = live s + int (length ss - length ds))"
proof (induction ds ss s arbitrary: cs rule: match_walk.induct)
  case (1 d ds c ss s)
  obtain cs1 where w: "match_walk ds ss s = (r, cs1, s')" "cs = d # cs1"
    using 1(2) by (auto split: prod.splits)
  with 1(1) [OF w(1)] 1(3) show ?case
    by auto
next
  case (3 c ss s)
  obtain nx s1 where a: "alloc_chain (length (c # ss)) s = (nx, s1)"
    by (cases "alloc_chain (length (c # ss)) s")
  then show ?case
    using 3 alloc_chain_spec [OF a] chain_length_length [OF 3(2)]
    by (auto split: if_splits simp del: chain_length.simps)
qed auto

text \<open>An operation on components that acts on each bit, lifted to chunks and to chains.\<close>

definition bitwise :: "(u32 \<Rightarrow> u32 \<Rightarrow> u32) \<Rightarrow> (bool \<Rightarrow> bool \<Rightarrow> bool) \<Rightarrow> bool" where
  "bitwise f g \<longleftrightarrow> \<not> g False False \<and> (\<forall>w v m. m < 32 \<longrightarrow> bit (f w v) m = g (bit w m) (bit v m))"

lemma bitwise_ops:
  "bitwise (OR) (\<lambda>x y. x \<or> y)" "bitwise (AND) (\<lambda>x y. x \<and> y)"
  "bitwise (XOR) (\<lambda>x y. x \<noteq> y)" "bitwise (\<lambda>x y. x AND NOT y) (\<lambda>x y. x \<and> \<not> y)"
  by (auto simp: bitwise_def bit_or_iff bit_and_iff bit_xor_iff bit_not_iff)

lemma bitwise_chunk:
  assumes "bitwise f g" "chunk_ok d" "chunk_ok c"
  shows "bit (wval (map2 f d c)) n = g (bit (wval d) n) (bit (wval c) n)" "chunk_ok (map2 f d c)"
  using assms by (cases "n div 32 < 4"; simp add: bit_wval bitwise_def)+

lemma bitwise_Cons:
  assumes "bitwise f g" "chunk_ok d" "chunk_ok c" "bit (cval cs) (n - 128) = g (bit (cval ds) (n - 128)) (bit (cval ss) (n - 128))"
  shows "bit (cval (map2 f d c # cs)) n = g (bit (cval (d # ds)) n) (bit (cval (c # ss)) n)"
  using assms bitwise_chunk [OF assms(1-3)] by (simp add: bit_cval_Cons del: cval_Cons)

lemma or_chunks_spec:
  "chunks_ok ds \<Longrightarrow> chunks_ok ss \<Longrightarrow> length ss \<le> length ds \<Longrightarrow>
     \<exists>cs. or_chunks ds ss = Some cs \<and> chunks_ok cs \<and> length cs = length ds \<and>
       (\<forall>n. bit (cval cs) n \<longleftrightarrow> bit (cval ds) n \<or> bit (cval ss) n)"
proof (induction ds ss rule: or_chunks.induct)
  case (3 d ds c ss)
  then obtain cs where cs: "or_chunks ds ss = Some cs" "chunks_ok cs" "length cs = length ds"
    "\<forall>n. bit (cval cs) n \<longleftrightarrow> bit (cval ds) n \<or> bit (cval ss) n"
    by auto
  then show ?case
    using 3 bitwise_Cons [OF bitwise_ops(1), of d c cs _ ds ss] bitwise_chunk(2) [OF bitwise_ops(1)]
    by (auto simp del: cval_Cons)
qed auto

lemma xor_chunks_spec:
  "chunks_ok ds \<Longrightarrow> chunks_ok ss \<Longrightarrow> length ss \<le> length ds \<Longrightarrow>
     \<exists>cs nt'. xor_chunks nt ds ss = Some (cs, nt') \<and> chunks_ok cs \<and> length cs = length ds \<and>
       (\<forall>n. bit (cval cs) n \<longleftrightarrow> (bit (cval ds) n \<noteq> bit (cval ss) n)) \<and>
       (length ss < length ds \<longrightarrow> last cs = last ds) \<and>
       (ss \<noteq> [] \<and> length ss = length ds \<longrightarrow> nt' = chunk_is_zero (last cs))"
proof (induction nt ds ss rule: xor_chunks.induct)
  case (3 nt d ds c ss)
  let ?d = "map2 (XOR) d c"
  obtain cs nt' where cs: "xor_chunks (chunk_is_zero ?d) ds ss = Some (cs, nt')" "chunks_ok cs" "length cs = length ds"
    "\<forall>n. bit (cval cs) n \<longleftrightarrow> (bit (cval ds) n \<noteq> bit (cval ss) n)"
    "length ss < length ds \<longrightarrow> last cs = last ds"
    "ss \<noteq> [] \<and> length ss = length ds \<longrightarrow> nt' = chunk_is_zero (last cs)"
    using 3(1) [OF refl] 3(2-4) by auto
  have ok: "chunk_ok d" "chunk_ok c"
    using 3 by auto
  have bits: "\<forall>n. bit (cval (?d # cs)) n \<longleftrightarrow> (bit (cval (d # ds)) n \<noteq> bit (cval (c # ss)) n)"
    using cs(4) ok by (intro allI bitwise_Cons [OF bitwise_ops(3)]) auto
  have "nt' = chunk_is_zero ?d" if "ss = []"
    using cs(1) that by simp
  then show ?case
    using cs bits bitwise_chunk(2) [OF bitwise_ops(3) ok] 3(4) by (auto simp: Let_def simp del: cval_Cons)
qed auto

lemma and_chunks_spec:
  "chunks_ok ds \<Longrightarrow> chunks_ok ss \<Longrightarrow> ss \<noteq> [] \<Longrightarrow> ds \<noteq> [] \<Longrightarrow> and_chunks nt ds ss s = (cs, nt', s') \<Longrightarrow>
     chunks_ok cs \<and> length cs = min (length ds) (length ss) \<and> nt' = chunk_is_zero (last cs) \<and>
     (\<forall>n. bit (cval cs) n \<longleftrightarrow> bit (cval ds) n \<and> bit (cval ss) n) \<and>
     live s' = live s - int (length ds - length cs) \<and> verdict s' = verdict s"
proof (induction nt ds ss s arbitrary: cs rule: and_chunks.induct)
  case (1 nt d ds c ss s)
  let ?d = "map2 (AND) d c"
  have ok: "chunk_ok d" "chunk_ok c" "chunks_ok ds" "chunks_ok ss" "chunk_ok ?d"
    using 1 by auto
  show ?case
  proof (cases "ss = [] \<or> ds = []")
    case True
    then have cs: "cs = [?d]" "nt' = chunk_is_zero ?d" "s' = (if ss = [] then destroy_chain ds s else s)"
      using 1(6) by (cases ss; auto simp: Let_def)+
    have "bit (cval [?d]) n \<longleftrightarrow> bit (cval (d # ds)) n \<and> bit (cval (c # ss)) n" for n
      using True ok by (intro bitwise_Cons [OF bitwise_ops(2)]) auto
    with True cs ok show ?thesis
      by (auto simp del: cval_Cons)
  next
    case False
    then obtain cs1 where w: "and_chunks (chunk_is_zero ?d) ds ss s = (cs1, nt', s')" "cs = ?d # cs1"
      using 1(6) by (auto simp: Let_def split: prod.splits)
    have IH: "chunks_ok cs1" "length cs1 = min (length ds) (length ss)" "nt' = chunk_is_zero (last cs1)"
      "\<forall>n. bit (cval cs1) n \<longleftrightarrow> bit (cval ds) n \<and> bit (cval ss) n"
      "live s' = live s - int (length ds - length cs1)" "verdict s' = verdict s"
      using 1(1) [OF refl refl _ _ _ _ _ w(1)] False ok by auto
    have "bit (cval cs) n \<longleftrightarrow> bit (cval (d # ds)) n \<and> bit (cval (c # ss)) n" for n
      unfolding w(2) using IH(4) ok by (intro bitwise_Cons [OF bitwise_ops(2)]) auto
    moreover have "cs1 \<noteq> []"
      using IH(2) False by (cases cs1) (auto simp: min_def split: if_splits)
    ultimately show ?thesis
      using IH ok w(2) False by (auto simp del: cval_Cons)
  qed
qed auto

lemma bic_chunks_spec:
  "chunks_ok ds \<Longrightarrow> chunks_ok ss \<Longrightarrow> bic_chunks nt ds ss = (cs, nt') \<Longrightarrow>
     chunks_ok cs \<and> length cs = length ds \<and>
     (\<forall>n. bit (cval cs) n \<longleftrightarrow> bit (cval ds) n \<and> \<not> bit (cval ss) n) \<and>
     (length ss < length ds \<longrightarrow> last cs = last ds) \<and>
     (ds \<noteq> [] \<and> length ds \<le> length ss \<longrightarrow> nt' = chunk_is_zero (last cs))"
proof (induction nt ds ss arbitrary: cs rule: bic_chunks.induct)
  case (1 nt d ds c ss)
  let ?d = "map2 (\<lambda>x y. x AND NOT y) d c"
  have ok: "chunk_ok d" "chunk_ok c" "chunks_ok ds" "chunks_ok ss" "chunk_ok ?d"
    using 1 by auto
  obtain cs1 where w: "bic_chunks (chunk_is_zero ?d) ds ss = (cs1, nt')" "cs = ?d # cs1"
    using 1(4) by (auto simp: Let_def split: prod.splits)
  have IH: "chunks_ok cs1" "length cs1 = length ds"
    "\<forall>n. bit (cval cs1) n \<longleftrightarrow> bit (cval ds) n \<and> \<not> bit (cval ss) n"
    "length ss < length ds \<longrightarrow> last cs1 = last ds"
    "ds \<noteq> [] \<and> length ds \<le> length ss \<longrightarrow> nt' = chunk_is_zero (last cs1)"
    using 1(1) [OF refl ok(3,4) w(1)] by auto
  have "bit (cval cs) n \<longleftrightarrow> bit (cval (d # ds)) n \<and> \<not> bit (cval (c # ss)) n" for n
    unfolding w(2) using IH(3) ok by (intro bitwise_Cons [OF bitwise_ops(4)]) auto
  moreover have "nt' = chunk_is_zero ?d" if "ds = []"
    using w(1) that by simp
  ultimately show ?case
    using IH ok w(2) by (cases "ds = []") (auto simp del: cval_Cons)
qed auto

text \<open>The extension that \<open>bint_or\<close> and \<open>bint_xor\<close> share.\<close>

lemma match_cases:
  assumes m: "match_walk (chain dst) (chain src) s = (r, cs, s')"
    and inv: "bint_inv dst" "bint_inv src" and small: "bint_small src"
  obtains (fail) "r = -1" "dst\<lparr>chain := cs\<rparr> = dst" "balanced dst s dst s'" "malloc_fails s"
  | (ok) k where "r = 0" "bint_chunks (dst\<lparr>chain := cs\<rparr>) = bint_chunks dst @ replicate k zero_chunk"
      "k = length (chain src) - length (chain dst)"
      "chunks_ok (bint_chunks (dst\<lparr>chain := cs\<rparr>))" "cval (bint_chunks (dst\<lparr>chain := cs\<rparr>)) = mag dst"
      "length (bint_chunks src) \<le> length (bint_chunks (dst\<lparr>chain := cs\<rparr>))"
      "balanced dst s (dst\<lparr>chain := cs\<rparr>) s'"
proof -
  have len: "length (chain src) < 2 ^ 32"
    using small by (simp add: bint_small_def)
  have ok': "chunks_ok (bint_chunks dst)"
    using inv by (simp add: bint_inv_def bint_shape_def)
  from match_walk_spec [OF m len] show thesis
  proof (elim conjE disjE)
    assume "verdict s' = verdict s" "r = -1" "cs = chain dst" "live s' = live s" "malloc_fails s"
    then show thesis
      by (intro fail) (auto simp: balanced_def others_def)
  next
    let ?k = "length (chain src) - length (chain dst)"
    assume v: "verdict s' = verdict s" "r = 0" "cs = chain dst @ replicate ?k zero_chunk" "live s' = live s + int ?k"
    have ch: "bint_chunks (dst\<lparr>chain := cs\<rparr>) = bint_chunks dst @ replicate ?k zero_chunk"
      by (simp add: v(3) bint_chunks_def)
    show thesis
    proof (rule ok [OF v(2) ch refl])
      show "chunks_ok (bint_chunks (dst\<lparr>chain := cs\<rparr>))" "cval (bint_chunks (dst\<lparr>chain := cs\<rparr>)) = mag dst"
        unfolding ch using ok' cval_append [OF ok', of "replicate ?k zero_chunk"] by (simp_all add: mag_def)
      show "length (bint_chunks src) \<le> length (bint_chunks (dst\<lparr>chain := cs\<rparr>))"
        unfolding ch by (simp add: bint_chunks_def)
      show "balanced dst s (dst\<lparr>chain := cs\<rparr>) s'"
        using v by (simp add: balanced_def others_def)
    qed
  qed
qed

lemma balanced_with_chunks:
  "length cs = length (bint_chunks b) \<Longrightarrow> balanced a s0 (with_chunks b cs) s = balanced a s0 b s"
  "length cs = length (bint_chunks b) \<Longrightarrow> balanced (with_chunks b cs) s a s0 = balanced b s a s0"
  by (simp_all add: balanced_def others_def with_chunks_def bint_chunks_def)

lemma bint_or_spec:
  assumes inv: "bint_inv dst" "bint_inv src" and small: "bint_small src"
  obtains r dst' s' where "bint_or dst src s = Some (r, dst', s')" "balanced dst s dst' s'"
    "negative dst' = negative dst"
    "r = -1 \<and> dst' = dst \<and> malloc_fails s \<or> r = 0 \<and> bint_inv dst' \<and> mag dst' = mag dst OR mag src"
proof -
  obtain r1 cs s1 where m: "match_walk (chain dst) (chain src) s = (r1, cs, s1)"
    by (cases "match_walk (chain dst) (chain src) s")
  from m inv small show thesis
  proof (cases rule: match_cases)
    case fail
    then show thesis
      using m by (intro that [of "-1" dst s1]) (auto simp: bint_or_def Let_def)
  next
    case (ok k)
    let ?d = "dst\<lparr>chain := cs\<rparr>"
    have src: "chunks_ok (bint_chunks src)"
      using inv by (simp add: bint_inv_def bint_shape_def)
    obtain ds where ds: "or_chunks (bint_chunks ?d) (bint_chunks src) = Some ds" "chunks_ok ds"
      "length ds = length (bint_chunks ?d)" "\<forall>n. bit (cval ds) n \<longleftrightarrow> bit (mag dst) n \<or> bit (mag src) n"
      using or_chunks_spec [OF ok(4) src ok(6)] ok(5) by (auto simp: mag_def)
    have val: "cval ds = mag dst OR mag src"
      using ds(4) by (intro bit_eqI) (simp add: bit_or_iff)
    have len: "length ds - 1 = max (length (chain dst)) (length (chain src))" "ds \<noteq> []"
      using ds(3) unfolding ok(2,3) by (auto simp: bint_chunks_def)
    have ge: "mag dst \<le> cval ds" "mag src \<le> cval ds"
      unfolding val using or_greater_eq [of "int (mag src)" "int (mag dst)"]
        or_greater_eq [of "int (mag dst)" "int (mag src)"]
      by (simp_all add: or_nat_def le_nat_iff or.commute)
    have "2 ^ (128 * (length ds - 1)) \<le> cval ds" if "1 < length ds"
    proof (cases "length (chain dst) \<le> length (chain src)")
      case True
      then have "length ds - 1 = length (chain src)" "chain src \<noteq> []"
        using len(1) that by auto
      then show ?thesis
        using mag_lower [OF inv(2)] ge(2) by simp
    next
      case False
      then have "length ds - 1 = length (chain dst)" "chain dst \<noteq> []"
        using len(1) that by auto
      then show ?thesis
        using mag_lower [OF inv(1)] ge(1) by simp
    qed
    then have "bint_inv (with_chunks ?d ds)" "mag (with_chunks ?d ds) = mag dst OR mag src"
      using inv_with_chunks [OF ds(2) len(2), of ?d] val by auto
    moreover have "bint_or dst src s = Some (0, with_chunks ?d ds, s1)"
      using m ok(1) ds(1) by (simp add: bint_or_def Let_def)
    moreover have "balanced dst s (with_chunks ?d ds) s1"
      using ok(7) ds(3) balanced_with_chunks(1) by blast
    ultimately show thesis
      by (intro that [of 0 "with_chunks ?d ds" s1]) auto
  qed
qed

lemma bint_xor_spec:
  assumes inv: "bint_inv dst" "bint_inv src" and small: "bint_small src"
  obtains r dst' s' where "bint_xor dst src s = Some (r, dst', s')" "balanced dst s dst' s'"
    "negative dst' = negative dst"
    "r = -1 \<and> dst' = dst \<and> malloc_fails s \<or> r = 0 \<and> bint_inv dst' \<and> mag dst' = mag dst XOR mag src"
proof -
  obtain r1 cs s1 where m: "match_walk (chain dst) (chain src) s = (r1, cs, s1)"
    by (cases "match_walk (chain dst) (chain src) s")
  from m inv small show thesis
  proof (cases rule: match_cases)
    case fail
    then show thesis
      using m by (intro that [of "-1" dst s1]) (auto simp: bint_xor_def Let_def)
  next
    case (ok k)
    let ?d = "dst\<lparr>chain := cs\<rparr>"
    have src: "chunks_ok (bint_chunks src)"
      using inv by (simp add: bint_inv_def bint_shape_def)
    obtain ds nt where ds: "xor_chunks False (bint_chunks ?d) (bint_chunks src) = Some (ds, nt)" "chunks_ok ds"
      "length ds = length (bint_chunks ?d)" "\<forall>n. bit (cval ds) n \<longleftrightarrow> (bit (mag dst) n \<noteq> bit (mag src) n)"
      "length (bint_chunks src) < length (bint_chunks ?d) \<longrightarrow> last ds = last (bint_chunks ?d)"
      "length (bint_chunks src) = length (bint_chunks ?d) \<longrightarrow> nt = chunk_is_zero (last ds)"
      using xor_chunks_spec [OF ok(4) src ok(6), of False] ok(5) by (auto simp: mag_def bint_chunks_def)
    have val: "cval ds = mag dst XOR mag src"
      using ds(4) by (intro bit_eqI) (simp add: bit_xor_iff)
    have ne: "ds \<noteq> []"
      using ds(3) by (auto simp: bint_chunks_def)
    have last: "\<not> chunk_is_zero (last ds)" if "\<not> nt" "tl ds \<noteq> []"
    proof (cases "length (bint_chunks src) < length (bint_chunks ?d)")
      case True
      then have "k = 0"
        using ok(2,3) by (auto simp: bint_chunks_def)
      moreover from this have "tl (bint_chunks dst) \<noteq> []"
        using ds(3) that(2) unfolding ok(2) by (metis append_Nil2 length_0_conv length_tl replicate_0)
      moreover have "last ds = last (bint_chunks dst)"
        using ds(5) True \<open>k = 0\<close> ok(2) by (metis append_Nil2 replicate_0)
      ultimately show ?thesis
        using last_chunk_nonzero [OF inv(1)] by simp
    next
      case False
      then show ?thesis
        using ds(6) ok(6) that by simp
    qed
    obtain dst' s' where f: "(if nt then trim_chunks (with_chunks ?d ds) s1 else (with_chunks ?d ds, s1)) = (dst', s')"
      by (cases "if nt then trim_chunks (with_chunks ?d ds) s1 else (with_chunks ?d ds, s1)")
    have fin: "bint_inv dst'" "mag dst' = mag dst XOR mag src" "negative dst' = negative dst"
      "balanced (with_chunks ?d ds) s1 dst' s'"
      using finish_trim [OF f ds(2) ne last] val by auto
    have "bint_xor dst src s = Some (0, dst', s')"
      using m ok(1) ds(1) f by (simp add: bint_xor_def Let_def)
    moreover have "balanced dst s dst' s'"
      using balanced_trans [OF ok(7)] fin(4) ds(3) balanced_with_chunks(2) by blast
    ultimately show thesis
      using fin by (intro that [of 0 dst' s']) auto
  qed
qed

lemma bint_and_spec:
  assumes inv: "bint_inv dst" "bint_inv src" and res: "bint_and dst src s = (dst', s')"
  shows "bint_inv dst' \<and> mag dst' = mag dst AND mag src \<and> negative dst' = negative dst \<and> balanced dst s dst' s'"
proof -
  have ok: "chunks_ok (bint_chunks dst)" "chunks_ok (bint_chunks src)" "bint_chunks dst \<noteq> []" "bint_chunks src \<noteq> []"
    using inv by (auto simp: bint_inv_def bint_shape_def bint_chunks_def)
  obtain cs nt s1 where a: "and_chunks False (bint_chunks dst) (bint_chunks src) s = (cs, nt, s1)"
    by (cases "and_chunks False (bint_chunks dst) (bint_chunks src) s")
  have cs: "chunks_ok cs" "length cs = min (length (bint_chunks dst)) (length (bint_chunks src))"
    "nt = chunk_is_zero (last cs)" "\<forall>n. bit (cval cs) n \<longleftrightarrow> bit (mag dst) n \<and> bit (mag src) n"
    "live s1 = live s - int (length (bint_chunks dst) - length cs)" "verdict s1 = verdict s"
    using and_chunks_spec [OF ok(1,2,4,3) a] by (auto simp: mag_def)
  have val: "cval cs = mag dst AND mag src"
    using cs(4) by (intro bit_eqI) (simp add: bit_and_iff)
  have ne: "cs \<noteq> []"
    using cs(2) ok(3,4) by (cases cs) (auto simp: min_def split: if_splits)
  have f: "(if nt then trim_chunks (with_chunks dst cs) s1 else (with_chunks dst cs, s1)) = (dst', s')"
    using res a by (simp add: bint_and_def)
  have "balanced dst s (with_chunks dst cs) s1"
    using cs(2,5,6) ne by (auto simp: balanced_def others_def with_chunks_def bint_chunks_def of_nat_diff Suc_le_eq)
  then show ?thesis
    using finish_trim [OF f cs(1) ne] cs(3) val balanced_trans by auto
qed

lemma bint_bic_spec:
  assumes inv: "bint_inv dst" "bint_inv src" and res: "bint_bic dst src s = (dst', s')"
  shows "bint_inv dst' \<and> (\<forall>n. bit (mag dst') n \<longleftrightarrow> bit (mag dst) n \<and> \<not> bit (mag src) n) \<and>
    negative dst' = negative dst \<and> balanced dst s dst' s'"
proof -
  have ok: "chunks_ok (bint_chunks dst)" "chunks_ok (bint_chunks src)" "bint_chunks dst \<noteq> []"
    using inv by (auto simp: bint_inv_def bint_shape_def bint_chunks_def)
  obtain cs nt where a: "bic_chunks False (bint_chunks dst) (bint_chunks src) = (cs, nt)"
    by (cases "bic_chunks False (bint_chunks dst) (bint_chunks src)")
  have cs: "chunks_ok cs" "length cs = length (bint_chunks dst)"
    "\<forall>n. bit (cval cs) n \<longleftrightarrow> bit (mag dst) n \<and> \<not> bit (mag src) n"
    "length (bint_chunks src) < length (bint_chunks dst) \<longrightarrow> last cs = last (bint_chunks dst)"
    "length (bint_chunks dst) \<le> length (bint_chunks src) \<longrightarrow> nt = chunk_is_zero (last cs)"
    using bic_chunks_spec [OF ok(1,2) a] ok(3) by (auto simp: mag_def)
  have ne: "cs \<noteq> []"
    using cs(2) ok(3) by auto
  have last: "\<not> chunk_is_zero (last cs)" if "\<not> nt" "tl cs \<noteq> []"
  proof (cases "length (bint_chunks src) < length (bint_chunks dst)")
    case True
    have "tl (bint_chunks dst) \<noteq> []"
      using cs(2) that(2) by (metis length_0_conv length_tl)
    then show ?thesis
      using cs(4) True last_chunk_nonzero [OF inv(1)] by simp
  qed (use cs(5) that in simp)
  have f: "(if nt then trim_chunks (with_chunks dst cs) s else (with_chunks dst cs, s)) = (dst', s')"
    using res a by (simp add: bint_bic_def)
  show ?thesis
    using finish_trim [OF f cs(1) ne last] cs(2,3) balanced_with_chunks(2) [OF cs(2)] by auto
qed

lemma or_disjoint_nat:
  fixes x y :: nat
  assumes "x < 2 ^ k"
  shows "(2 ^ k * y) OR x = x + 2 ^ k * y"
proof (rule bit_eqI)
  fix n
  have "bit (2 ^ k * y) n = (if n < k then False else bit y (n - k))"
    using bit_add_shift [of 0 k y n] by simp
  moreover have "n < k" if "bit x n"
  proof -
    have "(2::nat) ^ n < 2 ^ k"
      using bit_ge [OF that] assms by (rule le_less_trans)
    then show ?thesis
      by simp
  qed
  ultimately show "bit ((2 ^ k * y) OR x) n = bit (x + 2 ^ k * y) n"
    unfolding bit_add_shift [OF assms] bit_or_iff by auto
qed

lemma unat_push_bit:
  assumes "bs \<le> 32"
  shows "unat (push_bit bs (d :: u32)) = 2 ^ bs * (unat d mod 2 ^ (32 - bs))"
proof -
  have "unat (push_bit bs d) = (2 ^ bs * unat d) mod 2 ^ 32"
    unfolding unsigned_push_bit_eq by (simp add: push_bit_eq_mult take_bit_eq_mod mult.commute)
  also have "(2::nat) ^ 32 = 2 ^ bs * 2 ^ (32 - bs)"
    using assms by (simp flip: power_add)
  finally show ?thesis
    by (simp only: mult_mod_right)
qed

lemma unat_drop_bit_u32: "unat (drop_bit n (d :: u32)) = unat d div 2 ^ n"
  unfolding unat_drop_bit_eq by (simp add: drop_bit_eq_div)

section \<open>The left shift\<close>

lemma shift_left_step:
  assumes "0 < bs" "bs < 32" "unat carry < 2 ^ bs"
  shows "unat d * 2 ^ bs + unat carry = unat (push_bit bs d OR carry :: u32) + 2 ^ 32 * unat (drop_bit (32 - bs) d)"
    "unat (drop_bit (32 - bs) d :: u32) < 2 ^ bs"
proof -
  have p: "(2::nat) ^ 32 = 2 ^ bs * 2 ^ (32 - bs)"
    using assms by (simp flip: power_add)
  have "unat (push_bit bs d OR carry) = unat carry + 2 ^ bs * (unat d mod 2 ^ (32 - bs))"
    using or_disjoint_nat [OF assms(3)] assms(2) by (simp add: unsigned_or_eq unat_push_bit)
  moreover have "unat d * 2 ^ bs =
      (2 ^ (32 - bs) * (unat d div 2 ^ (32 - bs)) + unat d mod 2 ^ (32 - bs)) * 2 ^ bs"
    by (simp only: mult_div_mod_eq)
  ultimately show "unat d * 2 ^ bs + unat carry = unat (push_bit bs d OR carry :: u32) + 2 ^ 32 * unat (drop_bit (32 - bs) d)"
    unfolding unat_drop_bit_u32 p by (simp only: distrib_left distrib_right ac_simps)
  have "unat d < 2 ^ bs * 2 ^ (32 - bs)"
    using unat_lt_exp [of d] unfolding p [symmetric] by simp
  then show "unat (drop_bit (32 - bs) d :: u32) < 2 ^ bs"
    unfolding unat_drop_bit_u32 by (rule less_mult_imp_div_less)
qed

lemma shift_bits_left_val:
  "0 < bs \<Longrightarrow> bs < 32 \<Longrightarrow> unat carry < 2 ^ bs \<Longrightarrow> shift_bits_left bs carry ws = (carry', ws') \<Longrightarrow>
     wval ws * 2 ^ bs + unat carry = wval ws' + 2 ^ (32 * length ws) * unat carry' \<and>
     unat carry' < 2 ^ bs \<and> length ws' = length ws"
proof (induction ws arbitrary: carry ws')
  case (Cons d ds)
  obtain ds' where w: "shift_bits_left bs (drop_bit (32 - bs) d) ds = (carry', ds')"
    "ws' = (push_bit bs d OR carry) # ds'"
    using Cons.prems(4) by (auto split: prod.splits)
  note step = shift_left_step [OF Cons.prems(1-3), of d]
  have IH: "wval ds * 2 ^ bs + unat (drop_bit (32 - bs) d) = wval ds' + 2 ^ (32 * length ds) * unat carry'"
    "unat carry' < 2 ^ bs" "length ds' = length ds"
    using Cons.IH [OF Cons.prems(1,2) step(2) w(1)] by auto
  have "wval (d # ds) * 2 ^ bs + unat carry =
      unat (push_bit bs d OR carry) + 2 ^ 32 * (wval ds * 2 ^ bs + unat (drop_bit (32 - bs) d))"
    using step(1) by (simp add: algebra_simps)
  also have "\<dots> = wval ws' + 2 ^ (32 * length (d # ds)) * unat carry'"
    unfolding IH(1) by (simp add: w(2) power_add algebra_simps)
  finally show ?case
    using IH by (simp add: w(2))
qed auto

lemma move_up_take: "n \<le> 4 \<Longrightarrow> length tmp = 4 \<Longrightarrow> chunk_ok d \<Longrightarrow> move_up n tmp d = take n tmp @ take (4 - n) d"
  by (rule nth_equalityI) (auto simp: move_up_def nth_append min_def)

lemma next_up_take: "n \<le> 4 \<Longrightarrow> chunk_ok d \<Longrightarrow> take n (next_up n d) = drop (4 - n) d" "length (next_up n d) = 4"
  by (rule nth_equalityI) (auto simp: next_up_def)

lemma mod_chunk:
  fixes x y m :: nat
  assumes "x < 2 ^ 128"
  shows "(x + 2 ^ 128 * y) mod (2 ^ 128 * m) = x + 2 ^ 128 * (y mod m)"
  using assms by (simp only: mod_mult2_eq) simp

lemma shift_words_left_val:
  "chunks_ok cs \<Longrightarrow> length tmp = 4 \<Longrightarrow> n < 4 \<Longrightarrow> bs < 32 \<Longrightarrow> unat carry < 2 ^ bs \<Longrightarrow>
     cval (shift_words_left n bs tmp carry cs) =
       ((wval (take n tmp) + 2 ^ (32 * n) * cval cs) * 2 ^ bs + unat carry) mod 2 ^ (128 * length cs) \<and>
     chunks_ok (shift_words_left n bs tmp carry cs) \<and> length (shift_words_left n bs tmp carry cs) = length cs"
proof (induction cs arbitrary: tmp carry)
  case (Cons d ds)
  have d: "chunk_ok d" "chunks_ok ds"
    using Cons.prems by auto
  let ?m = "move_up n tmp d" and ?t = "next_up n d"
  obtain carry' d' where b: "(if bs \<noteq> 0 then shift_bits_left bs carry ?m else (carry, ?m)) = (carry', d')"
    by (cases "if bs \<noteq> 0 then shift_bits_left bs carry ?m else (carry, ?m)")
  have m: "?m = take n tmp @ take (4 - n) d" "length ?m = 4"
    using move_up_take [of n tmp d] Cons.prems d by (auto simp: move_up_def)
  have bits: "wval ?m * 2 ^ bs + unat carry = wval d' + 2 ^ 128 * unat carry'" "unat carry' < 2 ^ bs" "chunk_ok d'"
    using shift_bits_left_val [of bs carry ?m carry' d'] b Cons.prems(4,5) m(2) by (auto split: if_splits)
  have "wval d = wval (take (4 - n) d) + 2 ^ (32 * (4 - n)) * wval (drop (4 - n) d)"
    using wval_append [of "take (4 - n) d" "drop (4 - n) d"] d(1) by simp
  moreover have "32 * n + 32 * (4 - n) = 128"
    using Cons.prems(3) by simp
  then have "(2::nat) ^ (32 * n) * 2 ^ (32 * (4 - n)) = 2 ^ 128"
    by (simp only: power_add [symmetric])
  ultimately have words: "wval (take n tmp) + 2 ^ (32 * n) * wval d = wval ?m + 2 ^ 128 * wval (take n ?t)"
    using next_up_take(1) [of n d] Cons.prems(2,3) d(1)
    by (simp add: m(1) wval_append distrib_left flip: mult.assoc)
  let ?T = "(wval (take n ?t) + 2 ^ (32 * n) * cval ds) * 2 ^ bs + unat carry'"
  have "(wval (take n tmp) + 2 ^ (32 * n) * cval (d # ds)) * 2 ^ bs + unat carry =
      (wval (take n tmp) + 2 ^ (32 * n) * wval d) * 2 ^ bs + unat carry + 2 ^ 128 * (2 ^ (32 * n) * cval ds * 2 ^ bs)"
    using d(1) by (simp add: algebra_simps)
  also have "\<dots> = wval ?m * 2 ^ bs + unat carry + 2 ^ 128 * (wval (take n ?t) * 2 ^ bs + 2 ^ (32 * n) * cval ds * 2 ^ bs)"
    unfolding words by (simp add: algebra_simps)
  also have "\<dots> = wval d' + 2 ^ 128 * ?T"
    unfolding bits(1) by (simp add: algebra_simps)
  finally have T: "(wval (take n tmp) + 2 ^ (32 * n) * cval (d # ds)) * 2 ^ bs + unat carry = wval d' + 2 ^ 128 * ?T" .
  have IH: "cval (shift_words_left n bs ?t carry' ds) = ?T mod 2 ^ (128 * length ds)"
    "chunks_ok (shift_words_left n bs ?t carry' ds)" "length (shift_words_left n bs ?t carry' ds) = length ds"
    using Cons.IH [OF d(2) next_up_take(2) Cons.prems(3,4) bits(2)] by auto
  have "wval d' < 2 ^ 128"
    using wval_less [of d'] bits(3) by simp
  from mod_chunk [OF this, of ?T "2 ^ (128 * length ds)"] show ?case
    unfolding T using IH bits(3) b by (simp add: power_add)
qed auto

lemma skip_left_drop: "count div 128 \<le> length cs \<Longrightarrow> skip_left cs count = Some (drop (count div 128) cs, count mod 128)"
proof (induction cs count rule: skip_left.induct)
  case (2 c cs count)
  show ?case
  proof (cases "128 \<le> count")
    case True
    then have "count div 128 = Suc ((count - 128) div 128)" "count mod 128 = (count - 128) mod 128"
      by (simp_all add: le_div_geq le_mod_geq)
    with 2 True show ?thesis
      by simp
  qed simp
qed auto

lemma copy_down_append: "length src \<le> length dst \<Longrightarrow>
  copy_down dst src = Some (src @ replicate (length dst - length src) zero_chunk)"
  by (induction dst src rule: copy_down.induct) (auto simp: map_replicate_const)

lemma shift_chunks_left_val:
  assumes "count div 128 \<le> length cs"
  shows "shift_chunks_left cs count =
    Some (replicate (count div 128) zero_chunk @ take (length cs - count div 128) cs, count mod 128)"
proof (cases "128 \<le> count")
  case True
  then show ?thesis
    using assms skip_left_drop [of count "rev cs"] copy_down_append [of "drop (count div 128) (rev cs)" "rev cs"]
    by (simp add: shift_chunks_left_def Let_def rev_drop)
qed (simp add: shift_chunks_left_def)

lemma cval_take: "chunks_ok cs \<Longrightarrow> cval (take n cs) = cval cs mod 2 ^ (128 * min n (length cs))"
proof -
  assume ok: "chunks_ok cs"
  have okt: "chunks_ok (take n cs)"
    using ok by (auto simp: chunks_ok_def dest: in_set_takeD)
  have "cval cs = cval (take n cs) + 2 ^ (128 * min n (length cs)) * cval (drop n cs)"
    using cval_append [OF okt, of "drop n cs"] by (simp add: min.commute)
  then show ?thesis
    using cval_less [OF okt] by (simp add: min.commute)
qed

lemma cval_shift_chunks:
  assumes ok: "chunks_ok cs" and k: "k \<le> length cs"
  shows "cval (replicate k zero_chunk @ take (length cs - k) cs) = 2 ^ (128 * k) * cval cs mod 2 ^ (128 * length cs)"
    "chunks_ok (replicate k zero_chunk @ take (length cs - k) cs)"
proof -
  have "cval (replicate k zero_chunk @ take (length cs - k) cs) = 2 ^ (128 * k) * (cval cs mod 2 ^ (128 * (length cs - k)))"
    using cval_take [OF ok, of "length cs - k"] by (subst cval_append) simp_all
  also have "\<dots> = 2 ^ (128 * k) * cval cs mod 2 ^ (128 * length cs)"
  proof -
    have "128 * length cs = 128 * k + 128 * (length cs - k)"
      using k by simp
    then have "(2::nat) ^ (128 * length cs) = 2 ^ (128 * k) * 2 ^ (128 * (length cs - k))"
      by (simp only: power_add [symmetric])
    then show ?thesis
      by (simp only: mult_mod_right)
  qed
  finally show "cval (replicate k zero_chunk @ take (length cs - k) cs) = 2 ^ (128 * k) * cval cs mod 2 ^ (128 * length cs)" .
  show "chunks_ok (replicate k zero_chunk @ take (length cs - k) cs)"
    using ok by (auto simp: chunks_ok_def dest: in_set_takeD)
qed

lemma wval_take_zero_chunk [simp]: "wval (take n zero_chunk) = 0"
  by (simp add: zero_chunk_def take_Cons')

lemma shift_left_chunks_words:
  assumes ok: "chunks_ok cs" and k: "count div 128 \<le> length cs"
    and sh: "shift_chunks_left cs count = Some (cs1, count1)"
  defines "cs2 \<equiv> shift_words_left (count1 div 32) (count1 mod 32) zero_chunk 0 cs1"
  shows "cval cs2 = cval cs * 2 ^ count mod 2 ^ (128 * length cs) \<and> chunks_ok cs2 \<and> length cs2 = length cs"
proof -
  have c1: "cs1 = replicate (count div 128) zero_chunk @ take (length cs - count div 128) cs" "count1 = count mod 128"
    using sh shift_chunks_left_val [OF k] by auto
  have cs1: "cval cs1 = 2 ^ (128 * (count div 128)) * cval cs mod 2 ^ (128 * length cs)" "chunks_ok cs1" "length cs1 = length cs"
    using cval_shift_chunks [OF ok k] k by (simp_all add: c1)
  have "cval cs2 = (2 ^ (32 * (count1 div 32)) * cval cs1) * 2 ^ (count1 mod 32) mod 2 ^ (128 * length cs)"
    "chunks_ok cs2" "length cs2 = length cs"
    using shift_words_left_val [OF cs1(2), of zero_chunk "count1 div 32" "count1 mod 32" 0] cs1(3)
      less_mult_imp_div_less [of count1 4 32]
    by (auto simp: cs2_def c1(2))
  moreover have "(2 ^ (32 * (count1 div 32)) * cval cs1) * 2 ^ (count1 mod 32) = 2 ^ count1 * cval cs1"
    by (simp add: mult.commute mult.left_commute flip: power_add)
  moreover have "2 ^ count1 * cval cs1 mod 2 ^ (128 * length cs) = 2 ^ count1 * (2 ^ (128 * (count div 128)) * cval cs) mod 2 ^ (128 * length cs)"
    unfolding cs1(1) by (simp only: mod_mult_right_eq)
  moreover have "2 ^ count1 * (2 ^ (128 * (count div 128)) * cval cs) = cval cs * 2 ^ count"
    unfolding c1(2) by (simp add: mult.commute mult.left_commute flip: power_add)
  ultimately show ?thesis
    by simp
qed

lemma chunk_top_reached:
  assumes L: "is_len n m" and n: "0 < n"
  shows "(0 < n div 128 \<longrightarrow> 2 ^ (128 * (n div 128)) \<le> m) \<longleftrightarrow> n mod 128 \<noteq> 0"
proof (cases "n mod 128 = 0")
  case True
  then have "128 * (n div 128) = n" "0 < n div 128"
    using n by auto
  then show ?thesis
    using L True by (auto simp: is_len_def)
next
  case False
  then have "128 * (n div 128) \<le> n - 1"
    by (simp add: minus_mod_eq_mult_div [symmetric])
  then have "(2::nat) ^ (128 * (n div 128)) \<le> 2 ^ (n - 1)"
    by (intro power_increasing) auto
  also have "\<dots> \<le> m"
    using L n by (simp add: is_len_def)
  finally show ?thesis
    using False by simp
qed

lemma bint_shift_left_spec:
  assumes inv: "bint_inv b" and small: "bint_small b" and count: "count < 2 ^ 31"
  obtains r b' s' where "bint_shift_left b count s = Some (r, b', s')" "balanced b s b' s'"
    "negative b' = negative b"
    "r = -1 \<and> b' = b \<and> malloc_fails s \<or> r = 0 \<and> bint_shape b' \<and> mag b' = mag b * 2 ^ count \<and>
       (bint_inv b' \<longleftrightarrow> mag b = 0 \<or> (bint_bit_length b + count) mod 128 \<noteq> 0) \<and>
       (mag b \<noteq> 0 \<longrightarrow> length (chain b') = (bint_bit_length b + count) div 128)"
proof (cases "is_zero b")
  case True
  then show thesis
    using inv by (intro that [of 0 b s]) (auto simp: bint_shift_left_def balanced_def is_zero_iff bint_inv_def)
next
  case False
  define n where "n = bint_bit_length b + count"
  note len = bint_bit_length_spec [OF inv small]
  have nz: "0 < mag b" and shape: "bint_shape b"
    using False is_zero_iff [OF inv] inv by (auto simp: bint_inv_def)
  have blen: "0 < bint_bit_length b"
    using len nz is_len_pos by blast
  have wrap: "wrap32 (bint_bit_length b + count) = n"
    using len small count by (auto simp: n_def bint_small_def)
  obtain r1 b1 s1 where e: "extend_length b n s = (r1, b1, s1)"
    by (cases "extend_length b n s")
  have eq: "bint_shift_left b count s = (if r1 < 0 then Some (-1, b1, s1)
      else map_option (\<lambda>(cs, count').
          (0, with_chunks b1 (shift_words_left (count' div 32) (count' mod 32) zero_chunk 0 cs), s1))
        (shift_chunks_left (bint_chunks b1) count))"
    using False unfolding bint_shift_left_def Let_def wrap by (simp add: e)
  from e shape show thesis
  proof (cases rule: extend_length_cases)
    case fail
    then show thesis
      by (intro that [of "-1" b s1]) (auto simp: eq)
  next
    case (ok j)
    have chain: "length (chain b1) = n div 128"
      using ok(9) len by (auto simp: n_def max_def)
    have ok1: "chunks_ok (bint_chunks b1)" "length (bint_chunks b1) = n div 128 + 1"
      using ok(5) chain by (simp_all add: bint_shape_def bint_chunks_def)
    have k: "count div 128 \<le> length (bint_chunks b1)"
      unfolding ok1(2) n_def by (simp add: div_le_mono le_SucI)
    obtain cs1 c1 where sh: "shift_chunks_left (bint_chunks b1) count = Some (cs1, c1)"
      using shift_chunks_left_val [OF k] by blast
    let ?cs = "shift_words_left (c1 div 32) (c1 mod 32) zero_chunk 0 cs1"
    have mb1: "cval (bint_chunks b1) = mag b"
      using ok(6) by (simp add: mag_def)
    have cs: "cval ?cs = mag b * 2 ^ count mod 2 ^ (128 * (n div 128 + 1))" "chunks_ok ?cs" "length ?cs = n div 128 + 1"
      using shift_left_chunks_words [OF ok1(1) k sh] ok1(2) mb1 by auto
    have L: "is_len n (mag b * 2 ^ count)"
      using is_len_shift [of "bint_bit_length b" "mag b" 0 count] len nz by (simp add: n_def ac_simps)
    have "n < 128 * (n div 128 + 1)"
      by simp
    then have up: "(2::nat) ^ n \<le> 2 ^ (128 * (n div 128 + 1))"
      by (intro power_increasing) auto
    have "mag b * 2 ^ count < 2 ^ n"
      using L by (simp add: is_len_def)
    then have val: "cval ?cs = mag b * 2 ^ count"
      unfolding cs(1) using up by (intro mod_less) (rule less_le_trans)
    let ?b = "with_chunks b1 ?cs"
    have ne: "?cs \<noteq> []" "length (chain ?b) = n div 128"
      using cs(3) by (auto simp: with_chunks_def)
    have sm: "bint_shape ?b" "mag ?b = mag b * 2 ^ count"
      using cs(2) val ne(1) by (simp_all add: bint_shape_def mag_def)
    have "trimmed ?b \<longleftrightarrow> (0 < n div 128 \<longrightarrow> 2 ^ (128 * (n div 128)) \<le> mag b * 2 ^ count)"
      using trimmed_iff [OF sm(1)] ne sm(2) by auto
    also have "\<dots> \<longleftrightarrow> n mod 128 \<noteq> 0"
      using blen by (intro chunk_top_reached [OF L]) (simp add: n_def)
    finally have "bint_inv ?b \<longleftrightarrow> n mod 128 \<noteq> 0"
      using sm by (simp add: bint_inv_def)
    then show thesis
      using ok sm nz ne cs(3) sh ok1(2) balanced_with_chunks(1) [of ?cs b1 b s s1]
      by (intro that [of 0 ?b s1]) (auto simp: eq n_def)
  qed
qed

section \<open>The right shift\<close>

lemma skip_right_drop:
  "skip_right cs count = (drop (count div 128) cs,
     if count div 128 \<le> length cs then count mod 128 else count - 128 * length cs)"
proof (induction cs count rule: skip_right.induct)
  case (2 c cs count)
  show ?case
  proof (cases "128 \<le> count")
    case True
    then have "count div 128 = Suc ((count - 128) div 128)" "count mod 128 = (count - 128) mod 128"
      by (simp_all add: le_div_geq le_mod_geq)
    with 2 True show ?thesis
      by simp
  qed simp
qed auto

lemma copy_front_append: "length src < length dst \<Longrightarrow>
  \<exists>s'. copy_front dst src s = Some (src @ [zero_chunk], s') \<and>
    live s' = live s - int (length dst - length src - 1) \<and> verdict s' = verdict s"
  by (induction dst src s rule: copy_front.induct) auto

lemma cval_drop: "chunks_ok cs \<Longrightarrow> cval (drop n cs) = cval cs div 2 ^ (128 * n)"
proof (cases "n \<le> length cs")
  case True
  assume ok: "chunks_ok cs"
  have okt: "chunks_ok (take n cs)"
    using ok by (auto simp: chunks_ok_def dest: in_set_takeD)
  have "cval cs = cval (take n cs) + 2 ^ (128 * n) * cval (drop n cs)"
    using cval_append [OF okt, of "drop n cs"] True by (simp add: min_def)
  then show ?thesis
    using cval_less [OF okt] True by (simp add: min_def split: if_splits)
next
  case False
  assume ok: "chunks_ok cs"
  have "(2::nat) ^ (128 * length cs) \<le> 2 ^ (128 * n)"
    using False by (intro power_increasing) auto
  with cval_less [OF ok] have "cval cs < 2 ^ (128 * n)"
    by (rule less_le_trans)
  with False show ?thesis
    by simp
qed

lemma shift_chunks_right_val:
  assumes ok: "chunks_ok cs" "cs \<noteq> []"
  shows "\<exists>cs' count' s'. shift_chunks_right cs count s = Some (cs', count', s') \<and>
    chunks_ok cs' \<and> cs' \<noteq> [] \<and> length cs' \<le> length cs \<and> live s' = live s - int (length cs - length cs') \<and>
    verdict s' = verdict s \<and>
    (count' < 128 \<and> cval cs' div 2 ^ count' = cval cs div 2 ^ count \<or>
     128 \<le> count' \<and> cs' = [zero_chunk] \<and> cval cs div 2 ^ count = 0)"
proof (cases "128 \<le> count")
  case False
  then show ?thesis
    using assms by (simp add: shift_chunks_right_def)
next
  case True
  define k where "k = count div 128"
  have k: "0 < k"
    using True by (simp add: k_def div_greater_zero_iff)
  have lt: "length (drop k cs) < length cs"
    using k ok(2) by (cases cs) auto
  obtain s' where c: "copy_front cs (drop k cs) s = Some (drop k cs @ [zero_chunk], s')"
    "live s' = live s - int (length cs - length (drop k cs) - 1)" "verdict s' = verdict s"
    using copy_front_append [OF lt, of s] by auto
  let ?cs = "drop k cs @ [zero_chunk]"
  have okd: "chunks_ok (drop k cs)"
    using ok(1) by (auto simp: chunks_ok_def dest: in_set_dropD)
  have cv: "cval ?cs = cval cs div 2 ^ (128 * k)"
    using okd cval_drop [OF ok(1), of k] by (simp add: cval_append)
  have pw: "(2::nat) ^ count = 2 ^ (128 * k) * 2 ^ (count mod 128)"
    unfolding k_def by (simp flip: power_add)
  define count' where "count' = (if k \<le> length cs then count mod 128 else count - 128 * length cs)"
  have sh: "shift_chunks_right cs count s = Some (?cs, count', s')"
    using True c(1) by (simp add: shift_chunks_right_def skip_right_drop k_def count'_def)
  have val: "count' < 128 \<and> cval ?cs div 2 ^ count' = cval cs div 2 ^ count \<or>
     128 \<le> count' \<and> ?cs = [zero_chunk] \<and> cval cs div 2 ^ count = 0"
  proof (cases "k \<le> length cs")
    case True
    then show ?thesis
      using cv by (simp add: count'_def pw div_mult2_eq)
  next
    case False
    then have "length cs + 1 \<le> count div 128"
      by (simp add: k_def)
    then have "128 * (length cs + 1) \<le> 128 * (count div 128)"
      by (rule mult_le_mono2)
    also have "\<dots> \<le> count"
      by simp
    finally have "128 * (length cs + 1) \<le> count" .
    then have "(2::nat) ^ (128 * length cs) \<le> 2 ^ count" "128 \<le> count - 128 * length cs"
      by (auto intro: power_increasing)
    moreover from this(1) have "cval cs < 2 ^ count"
      using cval_less [OF ok(1)] by (rule less_le_trans [rotated])
    ultimately show ?thesis
      using False by (simp add: count'_def)
  qed
  show ?thesis
    using sh val okd lt c(2,3) by (intro exI [of _ ?cs] exI [of _ count'] exI [of _ s']) auto
qed

lemma shift_right_step:
  assumes "0 < bs" "bs < 32" "unat carry = C * 2 ^ (32 - bs)" "C < 2 ^ bs"
  shows "unat (drop_bit bs d OR carry :: u32) = unat d div 2 ^ bs + C * 2 ^ (32 - bs)"
    "unat (push_bit (32 - bs) (d AND (push_bit bs 1 - 1)) :: u32) = (unat d mod 2 ^ bs) * 2 ^ (32 - bs)"
proof -
  have p: "(2::nat) ^ 32 = 2 ^ bs * 2 ^ (32 - bs)"
    using assms by (simp flip: power_add)
  have "unat d < 2 ^ (32 - bs) * 2 ^ bs"
    using unat_lt_exp [of d] p by (simp add: mult.commute)
  then have "unat d div 2 ^ bs < 2 ^ (32 - bs)"
    by (rule less_mult_imp_div_less)
  from or_disjoint_nat [OF this, of C] assms(3)
  show "unat (drop_bit bs d OR carry :: u32) = unat d div 2 ^ bs + C * 2 ^ (32 - bs)"
    by (simp add: unsigned_or_eq unat_drop_bit_u32 or.commute mult.commute)
  have "d AND (push_bit bs 1 - 1) = take_bit bs d"
    by (simp add: take_bit_eq_mask mask_eq_exp_minus_1)
  then have "unat (d AND (push_bit bs 1 - 1)) = unat d mod 2 ^ bs"
    by (simp only: unsigned_take_bit_eq) (simp add: take_bit_eq_mod)
  then show "unat (push_bit (32 - bs) (d AND (push_bit bs 1 - 1)) :: u32) = (unat d mod 2 ^ bs) * 2 ^ (32 - bs)"
    using assms(1,2) by (subst unat_push_bit) simp_all
qed

lemma shift_bits_right_val:
  "0 < bs \<Longrightarrow> bs < 32 \<Longrightarrow> unat carry = C * 2 ^ (32 - bs) \<Longrightarrow> C < 2 ^ bs \<Longrightarrow>
     shift_bits_right bs carry us = (carry', us') \<Longrightarrow>
     \<exists>C'. unat carry' = C' * 2 ^ (32 - bs) \<and> C' < 2 ^ bs \<and> length us' = length us \<and>
       wval (rev us') * 2 ^ bs + C' = wval (rev us) + 2 ^ (32 * length us) * C"
proof (induction us arbitrary: carry C us')
  case (Cons d ds)
  let ?c = "push_bit (32 - bs) (d AND (push_bit bs 1 - 1))"
  obtain ds' where w: "shift_bits_right bs ?c ds = (carry', ds')" "us' = (drop_bit bs d OR carry) # ds'"
    using Cons.prems(5) by (auto split: prod.splits)
  note step = shift_right_step [OF Cons.prems(1-4), of d]
  have lt: "unat d mod 2 ^ bs < 2 ^ bs"
    by simp
  obtain C' where C': "unat carry' = C' * 2 ^ (32 - bs)" "C' < 2 ^ bs" "length ds' = length ds"
    "wval (rev ds') * 2 ^ bs + C' = wval (rev ds) + 2 ^ (32 * length ds) * (unat d mod 2 ^ bs)"
    using Cons.IH [OF Cons.prems(1,2) step(2) lt w(1)] by auto
  let ?L = "2 ^ (32 * length ds) :: nat"
  have p: "(2::nat) ^ 32 = 2 ^ (32 - bs) * 2 ^ bs"
    using Cons.prems(2) by (simp flip: power_add)
  have "wval (rev us') * 2 ^ bs + C' = wval (rev ds') * 2 ^ bs + C' + ?L * (unat d div 2 ^ bs + C * 2 ^ (32 - bs)) * 2 ^ bs"
    unfolding w(2) by (simp add: wval_append C'(3) step(1) distrib_right)
  also have "\<dots> = wval (rev ds) + ?L * (unat d mod 2 ^ bs + unat d div 2 ^ bs * 2 ^ bs + C * (2 ^ (32 - bs) * 2 ^ bs))"
    unfolding C'(4) by (simp only: distrib_left distrib_right ac_simps)
  also have "unat d mod 2 ^ bs + unat d div 2 ^ bs * 2 ^ bs = unat d"
    by (rule mod_div_mult_eq)
  finally have "wval (rev us') * 2 ^ bs + C' = wval (rev (d # ds)) + 2 ^ (32 * length (d # ds)) * C"
    unfolding p [symmetric] by (simp add: wval_append power_add distrib_left ac_simps)
  with C' show ?case
    by (auto simp: w(2))
qed auto

lemma move_down_take: "n \<le> 4 \<Longrightarrow> length tmp = 4 \<Longrightarrow> chunk_ok d \<Longrightarrow> move_down n tmp d = drop n d @ drop (4 - n) tmp"
  by (rule nth_equalityI) (auto simp: move_down_def nth_append add.commute)

lemma next_down_drop: "n \<le> 4 \<Longrightarrow> chunk_ok d \<Longrightarrow> drop (4 - n) (next_down n d) = take n d" "length (next_down n d) = 4"
  by (rule nth_equalityI) (auto simp: next_down_def)

text \<open>
  The loop over the chunks from the top: \<open>t\<close> is the value of the components that move in, \<open>C\<close>
  the bits that move in.
\<close>

lemma shift_words_right_val:
  "chunks_ok top1 \<Longrightarrow> length tmp = 4 \<Longrightarrow> n < 4 \<Longrightarrow> bs < 32 \<Longrightarrow> unat carry = C * 2 ^ (32 - bs) \<Longrightarrow> C < 2 ^ bs \<Longrightarrow>
     (\<exists>e < 2 ^ (32 * n + bs). cval (rev (shift_words_right n bs tmp carry top1)) * 2 ^ (32 * n + bs) + e =
       (C * 2 ^ (32 * n) + wval (drop (4 - n) tmp)) * 2 ^ (128 * length top1) + cval (rev top1)) \<and>
     chunks_ok (shift_words_right n bs tmp carry top1) \<and>
     length (shift_words_right n bs tmp carry top1) = length top1"
proof (induction top1 arbitrary: tmp carry C)
  case Nil
  let ?e = "C * 2 ^ (32 * n) + wval (drop (4 - n) tmp)"
  have "wval (drop (4 - n) tmp) < 2 ^ (32 * n)"
    using wval_less [of "drop (4 - n) tmp"] Nil.prems by simp
  then have "?e < 2 ^ (32 * n) * (C + 1)"
    by (simp add: algebra_simps)
  also have "\<dots> \<le> 2 ^ (32 * n) * 2 ^ bs"
    using Nil.prems(6) by (intro mult_le_mono2) simp
  finally have "?e < 2 ^ (32 * n + bs)"
    by (simp add: power_add)
  then show ?case
    by auto
next
  case (Cons d ds)
  let ?m = "move_down n tmp d" and ?t = "next_down n d" and ?s = "2 ^ (32 * n + bs) :: nat"
  have d: "chunk_ok d" "chunks_ok ds"
    using Cons.prems by auto
  obtain carry' w where b: "(if bs \<noteq> 0 then shift_bits_right bs carry (rev ?m) else (carry, rev ?m)) = (carry', w)"
    by (cases "if bs \<noteq> 0 then shift_bits_right bs carry (rev ?m) else (carry, rev ?m)")
  have m: "?m = drop n d @ drop (4 - n) tmp" "length ?m = 4"
    using move_down_take [of n tmp d] Cons.prems d by (auto simp: move_down_def)
  obtain C' where C': "unat carry' = C' * 2 ^ (32 - bs)" "C' < 2 ^ bs" "chunk_ok w"
    "wval (rev w) * 2 ^ bs + C' = wval ?m + 2 ^ 128 * C"
    using shift_bits_right_val [of bs carry C "rev ?m" carry' w] b Cons.prems(4-6) m(2) by (auto split: if_splits)
  let ?t1 = "wval (drop (4 - n) ?t)"
  have words: "wval ?m * 2 ^ (32 * n) + ?t1 = wval (drop (4 - n) tmp) * 2 ^ 128 + wval d"
  proof -
    have "32 * n + 32 * (4 - n) = 128"
      using Cons.prems(3) by simp
    then have "(2::nat) ^ (32 * n) * 2 ^ (32 * (4 - n)) = 2 ^ 128"
      by (simp only: power_add [symmetric])
    moreover have "wval d = wval (take n d) + 2 ^ (32 * n) * wval (drop n d)"
      using wval_append [of "take n d" "drop n d"] d(1) Cons.prems(3) by simp
    moreover have "wval ?m = wval (drop n d) + 2 ^ (32 * (4 - n)) * wval (drop (4 - n) tmp)"
      using d(1) by (simp add: m(1) wval_append)
    moreover have "?t1 = wval (take n d)"
      using next_down_drop(1) [of n d] Cons.prems(3) d(1) by simp
    ultimately show ?thesis
      by (simp only: distrib_right distrib_left ac_simps)
  qed
  let ?X = "C * 2 ^ (32 * n) + wval (drop (4 - n) tmp)" and ?X1 = "C' * 2 ^ (32 * n) + ?t1"
  have step: "wval (rev w) * ?s + ?X1 = ?X * 2 ^ 128 + wval d"
  proof -
    have "wval (rev w) * ?s + ?X1 = (wval (rev w) * 2 ^ bs + C') * 2 ^ (32 * n) + ?t1"
      by (simp add: power_add distrib_right ac_simps)
    also have "\<dots> = C * 2 ^ (32 * n) * 2 ^ 128 + (wval ?m * 2 ^ (32 * n) + ?t1)"
      unfolding C'(4) by (simp add: algebra_simps)
    finally show ?thesis
      unfolding words by (simp add: distrib_right ac_simps)
  qed
  obtain e where e: "e < ?s" "cval (rev (shift_words_right n bs ?t carry' ds)) * ?s + e =
      ?X1 * 2 ^ (128 * length ds) + cval (rev ds)"
    and IH: "chunks_ok (shift_words_right n bs ?t carry' ds)"
      "length (shift_words_right n bs ?t carry' ds) = length ds"
    using Cons.IH [OF d(2) next_down_drop(2) Cons.prems(3,4) C'(1,2)] by auto
  let ?R = "shift_words_right n bs ?t carry' ds"
  have r: "shift_words_right n bs tmp carry (d # ds) = rev w # ?R"
    using b by simp
  let ?P = "2 ^ (128 * length ds) :: nat"
  have "cval (rev (rev w # ?R)) * ?s + e = cval (rev ?R) * ?s + e + ?P * (wval (rev w) * ?s)"
    using IH C'(3) by (simp add: cval_append distrib_right)
  also have "\<dots> = ?P * (wval (rev w) * ?s + ?X1) + cval (rev ds)"
    unfolding e(2) by (simp only: distrib_left ac_simps)
  also have "\<dots> = ?X * 2 ^ (128 * length (d # ds)) + cval (rev (d # ds))"
    unfolding step using d by (simp add: cval_append distrib_left power_add ac_simps)
  finally show ?case
    unfolding r using e(1) IH C'(3) by auto
qed

lemma wval_all_zero: "set ws \<subseteq> {0} \<Longrightarrow> wval ws = 0"
  by (induction ws) auto

lemma wval_drop_zero_chunk [simp]: "wval (drop n zero_chunk) = 0"
  by (rule wval_all_zero) (auto simp: zero_chunk_def dest: in_set_dropD)

lemma bint_shift_right_spec:
  assumes inv: "bint_inv b"
  obtains b' s' where "bint_shift_right b count s = Some (b', s')" "bint_inv b'" "mag b' = mag b div 2 ^ count"
    "negative b' = negative b" "balanced b s b' s'" "length (chain b') \<le> length (chain b)"
proof -
  have ok: "chunks_ok (bint_chunks b)" "bint_chunks b \<noteq> []"
    using inv by (auto simp: bint_inv_def bint_shape_def bint_chunks_def)
  obtain cs count1 s1 where sh: "shift_chunks_right (bint_chunks b) count s = Some (cs, count1, s1)"
    and cs: "chunks_ok cs" "cs \<noteq> []" "length cs \<le> length (bint_chunks b)"
      "live s1 = live s - int (length (bint_chunks b) - length cs)" "verdict s1 = verdict s"
    and alt: "count1 < 128 \<and> cval cs div 2 ^ count1 = mag b div 2 ^ count \<or>
      128 \<le> count1 \<and> cs = [zero_chunk] \<and> mag b div 2 ^ count = 0"
    using shift_chunks_right_val [OF ok, of count s] unfolding mag_def by blast
  have bal: "balanced b s (with_chunks b cs') s1" if "length cs' = length cs" for cs'
    using that cs(2-5) by (auto simp: balanced_def others_def with_chunks_def bint_chunks_def of_nat_diff Suc_le_eq)
  show thesis
  proof (cases "count1 < 128")
    case True
    let ?n = "count1 div 32" and ?bs = "count1 mod 32"
    let ?top = "shift_words_right ?n ?bs zero_chunk 0 (rev cs)"
    have n: "?n < 4" "32 * ?n + ?bs = count1"
      using True by auto
    obtain e where e: "e < 2 ^ count1" "cval (rev ?top) * 2 ^ count1 + e = cval cs"
      and top: "chunks_ok ?top" "length ?top = length cs"
      using shift_words_right_val [of "rev cs" zero_chunk ?n ?bs 0 0] cs(1) n
      by auto
    have val: "cval (rev ?top) = mag b div 2 ^ count"
      using e alt True by (auto simp flip: e(2))
    obtain b' s' where t: "trim_chunks (with_chunks b (rev ?top)) s1 = (b', s')"
      by (cases "trim_chunks (with_chunks b (rev ?top)) s1")
    have ne: "rev ?top \<noteq> []"
      using top(2) cs(2) by auto
    have shape: "bint_shape (with_chunks b (rev ?top))" "mag (with_chunks b (rev ?top)) = mag b div 2 ^ count"
      using top val ne by (simp_all add: bint_shape_def mag_def)
    have "bint_shift_right b count s = Some (b', s')"
      using sh True t by (simp add: bint_shift_right_def Let_def)
    moreover have "balanced b s b' s'"
      using trim_chunks_spec [OF t shape(1)] balanced_trans [OF bal [of "rev ?top"]] top(2) by auto
    moreover have "length (chain (with_chunks b (rev ?top))) \<le> length (chain b)"
      using top(2) cs(3) by (simp add: with_chunks_def bint_chunks_def)
    ultimately show thesis
      using trim_chunks_spec [OF t shape(1)] shape(2) by (intro that [of b' s']) auto
  next
    case False
    then have c: "cs = [zero_chunk]" "mag b div 2 ^ count = 0"
      using alt by auto
    have "bint_inv (with_chunks b cs)" "mag (with_chunks b cs) = 0"
      using inv_with_chunks [OF cs(1,2), of b] by (auto simp: c(1))
    then show thesis
      using sh False bal [of cs] c by (intro that [of "with_chunks b cs" s1]) (auto simp: bint_shift_right_def with_chunks_def)
  qed
qed

section \<open>Digit conversion\<close>

lemma mul_step:
  fixes w base carry :: u32
  assumes "d = (ucast w * ucast base + ucast carry :: u64)"
  shows "unat w * unat base + unat carry = unat (ucast d :: u32) + 2 ^ 32 * unat (ucast (drop_bit 32 d) :: u32)"
proof -
  have b: "unat w \<le> 2 ^ 32 - 1" "unat base \<le> 2 ^ 32 - 1" "unat carry \<le> 2 ^ 32 - 1"
    using unat_lt_exp [of w] unat_lt_exp [of base] unat_lt_exp [of carry] by simp_all
  have "unat w * unat base \<le> (2 ^ 32 - 1) * (2 ^ 32 - 1)"
    using b by (intro mult_mono) simp_all
  then have le: "unat w * unat base + unat carry < 2 ^ 64"
    using b by simp
  have p: "unat (ucast w * ucast base :: u64) = unat w * unat base"
    using le by (subst unat_word_ariths) (simp add: unat_ucast_u64)
  have "unat d = unat w * unat base + unat carry"
    unfolding assms using le p by (subst unat_word_ariths) (simp add: unat_ucast_u64)
  then show ?thesis
    unfolding unat_high_u64 unfolding unat_ucast_u32 by (simp only: mod_mult_div_eq)
qed

lemma mul_words_val:
  "mul_words base carry ws = (carry', ws') \<Longrightarrow>
     wval ws * unat base + unat carry = wval ws' + 2 ^ (32 * length ws) * unat carry' \<and> length ws' = length ws"
proof (induction ws arbitrary: carry ws')
  case (Cons w ws)
  define d where "d = (ucast w * ucast base + ucast carry :: u64)"
  obtain ws1 where w: "mul_words base (ucast (drop_bit 32 d)) ws = (carry', ws1)" "ws' = ucast d # ws1"
    using Cons.prems by (auto simp: Let_def d_def split: prod.splits)
  have IH: "wval ws * unat base + unat (ucast (drop_bit 32 d) :: u32) = wval ws1 + 2 ^ (32 * length ws) * unat carry'"
    "length ws1 = length ws"
    using Cons.IH [OF w(1)] by auto
  have "wval (w # ws) * unat base + unat carry =
      unat (ucast d :: u32) + 2 ^ 32 * (wval ws * unat base + unat (ucast (drop_bit 32 d) :: u32))"
    using mul_step [OF d_def] by (simp add: distrib_right distrib_left)
  also have "\<dots> = wval ws' + 2 ^ (32 * length (w # ws)) * unat carry'"
    unfolding IH(1) by (simp add: w(2) power_add distrib_left)
  finally show ?case
    using IH by (simp add: w(2))
qed auto

lemma mul_chunks_val:
  "chunks_ok cs \<Longrightarrow> cval (mul_chunks base carry cs) = (cval cs * unat base + unat carry) mod 2 ^ (128 * length cs) \<and>
     chunks_ok (mul_chunks base carry cs) \<and> length (mul_chunks base carry cs) = length cs"
proof (induction cs arbitrary: carry)
  case (Cons c cs)
  obtain carry' c' where m: "mul_words base carry c = (carry', c')"
    by (cases "mul_words base carry c")
  have c: "wval c * unat base + unat carry = wval c' + 2 ^ 128 * unat carry'" "chunk_ok c'"
    using mul_words_val [OF m] Cons.prems by auto
  have eq: "cval (c # cs) * unat base + unat carry = wval c' + 2 ^ 128 * (cval cs * unat base + unat carry')"
    using c(1) Cons.prems by (simp add: distrib_right)
  have "wval c' < 2 ^ 128"
    using wval_less [of c'] c(2) by simp
  from mod_chunk [OF this, of "cval cs * unat base + unat carry'" "2 ^ (128 * length cs)"] show ?case
    unfolding eq using Cons.IH [of carry'] Cons.prems c(2) m by (simp add: power_add)
qed auto

lemma inc_words_mul: "inc_words carry ws = mul_words 1 carry ws"
  by (induction ws arbitrary: carry) simp_all

lemma inc_chunks_val:
  "chunks_ok cs \<Longrightarrow> cval (inc_chunks carry cs) = (cval cs + unat carry) mod 2 ^ (128 * length cs) \<and>
     chunks_ok (inc_chunks carry cs) \<and> length (inc_chunks carry cs) = length cs"
proof (induction cs arbitrary: carry)
  case (Cons c cs)
  show ?case
  proof (cases "carry = 0")
    case True
    then show ?thesis
      using cval_less [OF Cons.prems] Cons.prems by simp
  next
    case False
    obtain carry' c' where m: "mul_words 1 carry c = (carry', c')"
      by (cases "mul_words 1 carry c")
    have c: "wval c + unat carry = wval c' + 2 ^ 128 * unat carry'" "chunk_ok c'"
      using mul_words_val [OF m] Cons.prems by auto
    have eq: "cval (c # cs) + unat carry = wval c' + 2 ^ 128 * (cval cs + unat carry')"
      using c(1) Cons.prems by (simp add: distrib_right)
    have "wval c' < 2 ^ 128"
      using wval_less [of c'] c(2) by simp
    from mod_chunk [OF this, of "cval cs + unat carry'" "2 ^ (128 * length cs)"] show ?thesis
      unfolding eq using Cons.IH [of carry'] Cons.prems c(2) m False by (simp add: power_add inc_words_mul)
  qed
qed auto

lemma bint_digit_push_spec:
  assumes inv: "bint_inv b" and small: "bint_small b" and digit: "digit < base"
    and res: "bint_digit_push b base digit s = (r, b', s')"
  shows "balanced b s b' s' \<and> negative b' = negative b \<and> (r = -1 \<and> b' = b \<and> malloc_fails s \<or>
    r = 0 \<and> bint_inv b' \<and> mag b' = mag b * unat base + unat digit)"
proof -
  define n where "n = bint_bit_length b + bit_length base + 1"
  note len = bint_bit_length_spec [OF inv small]
  have shape: "bint_shape b"
    using inv by (simp add: bint_inv_def)
  have wrap: "wrap32 (bint_bit_length b + bit_length base + 1) = n"
    using len small bit_length_bounds(1) [of base] by (auto simp: n_def bint_small_def)
  obtain r1 b1 s1 where e: "extend_length b n s = (r1, b1, s1)"
    by (cases "extend_length b n s")
  let ?cs = "inc_chunks digit (mul_chunks base 0 (bint_chunks b1))"
  have eq: "bint_digit_push b base digit s = (if r1 < 0 then (-1, b1, s1)
      else case trim_chunks (with_chunks b1 ?cs) s1 of (b2, s2) \<Rightarrow> (0, b2, s2))"
    using digit unfolding bint_digit_push_def wrap by (simp add: e Let_def not_le [symmetric])
  from e shape show ?thesis
  proof (cases rule: extend_length_cases)
    case fail
    then show ?thesis
      using res by (auto simp: eq)
  next
    case (ok k)
    let ?P = "2 ^ (128 * length (bint_chunks b1)) :: nat"
    have "mag b < 2 ^ bint_bit_length b" "unat base < 2 ^ bit_length base"
      using len bit_length_is_len [of base] by (auto simp: is_len_def)
    then have le: "mag b * unat base \<le> 2 ^ bint_bit_length b * 2 ^ bit_length base"
      and lt: "unat digit < 1 * 2 ^ bit_length base"
      using digit by (auto intro!: mult_mono simp: word_less_nat_alt)
    have "1 * 2 ^ bit_length base \<le> (2::nat) ^ bint_bit_length b * 2 ^ bit_length base"
      by (rule mult_le_mono1) simp
    with lt have "unat digit < 2 ^ bint_bit_length b * 2 ^ bit_length base"
      by (rule less_le_trans)
    with le have "mag b * unat base + unat digit < 2 ^ n"
      by (simp add: n_def power_add)
    also have "\<dots> \<le> ?P"
      using ok(8) by (intro power_increasing) (auto simp: bint_chunks_def)
    finally have fits: "mag b * unat base + unat digit < ?P" .
    have ch: "chunks_ok (bint_chunks b1)" "cval (bint_chunks b1) = mag b"
      using ok(5,6) by (auto simp: bint_shape_def mag_def)
    have m: "cval (mul_chunks base 0 (bint_chunks b1)) = mag b * unat base"
      "chunks_ok (mul_chunks base 0 (bint_chunks b1))"
      "length (mul_chunks base 0 (bint_chunks b1)) = length (bint_chunks b1)"
      using mul_chunks_val [OF ch(1), of base 0] fits ch(2) by auto
    have cs: "cval ?cs = mag b * unat base + unat digit" "chunks_ok ?cs" "length ?cs = length (bint_chunks b1)"
      using inc_chunks_val [OF m(2), of digit] m fits by auto
    have ne: "?cs \<noteq> []"
      using cs(3) by (auto simp: bint_chunks_def)
    have sm: "bint_shape (with_chunks b1 ?cs)" "mag (with_chunks b1 ?cs) = mag b * unat base + unat digit"
      using cs ne by (simp_all add: bint_shape_def mag_def)
    obtain b2 s2 where t: "trim_chunks (with_chunks b1 ?cs) s1 = (b2, s2)"
      by (cases "trim_chunks (with_chunks b1 ?cs) s1")
    have "r = 0" "b' = b2" "s' = s2"
      using res t ok(1) by (auto simp: eq)
    moreover have "balanced b s b2 s2"
      using trim_chunks_spec [OF t sm(1)] ok(7) balanced_with_chunks(2) [OF cs(3)] balanced_trans by blast
    ultimately show ?thesis
      using trim_chunks_spec [OF t sm(1)] sm(2) ok(4) by auto
  qed
qed


lemma div_step:
  fixes w base :: u32 and rem :: u64
  assumes "unat rem < unat base" "d = ucast w + push_bit 32 rem"
  shows "unat w + 2 ^ 32 * unat rem = unat (ucast (d div ucast base) :: u32) * unat base + unat (d mod ucast base)"
    "unat (d mod ucast base) < unat base"
proof -
  have b: "unat w < 2 ^ 32" "unat base < 2 ^ 32"
    using unat_lt_exp [of w] unat_lt_exp [of base] by simp_all
  then have rem: "unat rem + 1 < 2 ^ 32" "2 ^ 32 * (unat rem + 1) \<le> 2 ^ 32 * unat base"
    using assms(1) by simp_all
  have "unat (push_bit 32 rem) = 2 ^ 32 * unat rem mod 2 ^ 64"
    by (simp only: unsigned_push_bit_eq) (simp add: push_bit_eq_mult take_bit_eq_mod mult.commute)
  then have p: "unat (push_bit 32 rem) = 2 ^ 32 * unat rem"
    using rem by simp
  have d: "unat d = unat w + 2 ^ 32 * unat rem"
    unfolding assms(2) using p b rem by (subst unat_word_ariths) (simp add: unat_ucast_u64)
  have q: "unat (d div ucast base) = unat d div unat base" "unat (d mod ucast base) = unat d mod unat base"
    by (simp_all add: unat_div unat_mod unat_ucast_u64)
  have "unat d < 2 ^ 32 * unat base"
    using d b rem by simp
  then have "unat d div unat base < 2 ^ 32"
    by (rule less_mult_imp_div_less)
  then have "unat (ucast (d div ucast base) :: u32) = unat d div unat base"
    unfolding unat_ucast_u32 q by simp
  then show "unat w + 2 ^ 32 * unat rem = unat (ucast (d div ucast base) :: u32) * unat base + unat (d mod ucast base)"
    unfolding q d [symmetric] by simp
  show "unat (d mod ucast base) < unat base"
    unfolding q using assms(1) by simp
qed

lemma div_words_val:
  "unat rem < unat base \<Longrightarrow> div_words base rem us = (rem', us') \<Longrightarrow>
     wval (rev us) + 2 ^ (32 * length us) * unat rem = wval (rev us') * unat base + unat rem' \<and>
     unat rem' < unat base \<and> length us' = length us"
proof (induction us arbitrary: rem us')
  case (Cons w us)
  define d where "d = ucast w + push_bit 32 rem"
  obtain us1 where w: "div_words base (d mod ucast base) us = (rem', us1)" "us' = ucast (d div ucast base) # us1"
    using Cons.prems(2) by (auto simp: Let_def d_def split: prod.splits)
  note step = div_step [OF Cons.prems(1) d_def]
  have IH: "wval (rev us) + 2 ^ (32 * length us) * unat (d mod ucast base) = wval (rev us1) * unat base + unat rem'"
    "unat rem' < unat base" "length us1 = length us"
    using Cons.IH [OF step(2) w(1)] by auto
  let ?L = "2 ^ (32 * length us) :: nat"
  have "wval (rev (w # us)) + 2 ^ (32 * length (w # us)) * unat rem = wval (rev us) + ?L * (unat w + 2 ^ 32 * unat rem)"
    by (simp add: wval_append power_add distrib_left ac_simps)
  also have "\<dots> = wval (rev us) + ?L * unat (d mod ucast base) + ?L * unat (ucast (d div ucast base) :: u32) * unat base"
    unfolding step(1) by (simp add: distrib_left)
  also have "\<dots> = wval (rev us') * unat base + unat rem'"
    unfolding IH(1) by (simp add: w(2) wval_append IH(3) distrib_right)
  finally show ?case
    using IH by (simp add: w(2))
qed auto

lemma div_chunks_val:
  "chunks_ok cs \<Longrightarrow> unat rem < unat base \<Longrightarrow> div_chunks base rem cs = (rem', cs') \<Longrightarrow>
     cval (rev cs) + 2 ^ (128 * length cs) * unat rem = cval (rev cs') * unat base + unat rem' \<and>
     unat rem' < unat base \<and> length cs' = length cs \<and> chunks_ok cs'"
proof (induction cs arbitrary: rem cs')
  case (Cons c cs)
  obtain rem1 ws where w: "div_words base rem (rev c) = (rem1, ws)"
    by (cases "div_words base rem (rev c)")
  obtain cs1 where c1: "div_chunks base rem1 cs = (rem', cs1)" "cs' = rev ws # cs1"
    using Cons.prems(3) w by (auto split: prod.splits)
  have ok: "chunk_ok c" "chunks_ok cs"
    using Cons.prems by auto
  have ws: "wval c + 2 ^ 128 * unat rem = wval (rev ws) * unat base + unat rem1" "unat rem1 < unat base" "chunk_ok ws"
    using div_words_val [OF Cons.prems(2) w] ok by auto
  have IH: "cval (rev cs) + 2 ^ (128 * length cs) * unat rem1 = cval (rev cs1) * unat base + unat rem'"
    "unat rem' < unat base" "length cs1 = length cs" "chunks_ok cs1"
    using Cons.IH [OF ok(2) ws(2) c1(1)] by auto
  let ?L = "2 ^ (128 * length cs) :: nat"
  have "cval (rev (c # cs)) + 2 ^ (128 * length (c # cs)) * unat rem = cval (rev cs) + ?L * (wval c + 2 ^ 128 * unat rem)"
    using ok by (simp add: cval_append power_add distrib_left ac_simps)
  also have "\<dots> = cval (rev cs) + ?L * unat rem1 + ?L * wval (rev ws) * unat base"
    unfolding ws(1) by (simp add: distrib_left)
  also have "\<dots> = cval (rev cs') * unat base + unat rem'"
    unfolding IH(1) using IH(3,4) ws(3) by (simp add: c1(2) cval_append distrib_right)
  finally show ?case
    using IH ws(3) by (simp add: c1(2))
qed auto

lemma bint_digit_pop_spec:
  assumes inv: "bint_inv b" and base: "base \<noteq> 0" and res: "bint_digit_pop b base s = (r, b', s')"
  shows "unat r = mag b mod unat base \<and> bint_inv b' \<and> mag b' = mag b div unat base \<and>
    negative b' = negative b \<and> balanced b s b' s'"
proof -
  have ok: "chunks_ok (bint_chunks b)"
    using inv by (simp add: bint_inv_def bint_shape_def)
  obtain rem cs where d: "div_chunks base 0 (rev (bint_chunks b)) = (rem, cs)"
    by (cases "div_chunks base 0 (rev (bint_chunks b))")
  have b0: "unat (0 :: u64) < unat base"
    using base by (simp add: unat_gt_0)
  have cs: "mag b = cval (rev cs) * unat base + unat rem" "unat rem < unat base"
    "length cs = length (bint_chunks b)" "chunks_ok cs"
    using div_chunks_val [OF _ b0 d] ok by (auto simp: mag_def)
  obtain b2 s2 where t: "trim_chunks (with_chunks b (rev cs)) s = (b2, s2)"
    by (cases "trim_chunks (with_chunks b (rev cs)) s")
  have ne: "rev cs \<noteq> []"
    using cs(3) by (auto simp: bint_chunks_def)
  have val: "cval (rev cs) = mag b div unat base" "unat rem = mag b mod unat base"
    unfolding cs(1) using cs(2) by simp_all
  have sm: "bint_shape (with_chunks b (rev cs))" "mag (with_chunks b (rev cs)) = mag b div unat base"
    using cs ne val by (simp_all add: bint_shape_def mag_def)
  have "r = ucast rem" "b' = b2" "s' = s2"
    using res d t base by (auto simp: bint_digit_pop_def)
  moreover have "unat (ucast rem :: u32) = unat rem"
    using cs(2) unat_lt_exp [of base] by (simp add: unat_ucast_u32)
  moreover have "balanced b s b2 s2"
    using trim_chunks_spec [OF t sm(1)] balanced_with_chunks(2) [of "rev cs" b] cs(3) by auto
  ultimately show ?thesis
    using trim_chunks_spec [OF t sm(1)] sm(2) val by auto
qed

section \<open>Properties\<close>

text \<open>
  \<open>bint_bit_set\<close> sets exactly the addressed bit, extending the number if necessary, and
  \<open>bint_bit_clear\<close> clears exactly the addressed bit, both as seen by \<open>bint_bit_get\<close>; the
  invariant, the sign and the balance of chunks are kept, and a failing \<open>bint_bit_set\<close> changes
  nothing.
\<close>

theorem bint_bit_set_clear_correct:
  assumes "bint_inv b"
  shows "(case bint_bit_set b pos s of (r, b', s') \<Rightarrow> balanced b s b' s' \<and> negative b' = negative b \<and>
      (if r < 0 then b' = b \<and> malloc_fails s
       else bint_inv b' \<and> (\<forall>q. bint_bit_get b' q \<longleftrightarrow> q = pos \<or> bint_bit_get b q))) \<and>
    (case bint_bit_clear b pos s of (b', s') \<Rightarrow> balanced b s b' s' \<and> negative b' = negative b \<and>
      bint_inv b' \<and> (\<forall>q. bint_bit_get b' q \<longleftrightarrow> q \<noteq> pos \<and> bint_bit_get b q))"
proof -
  have get: "bint_bit_get a q = bit (mag a) q" if "bint_inv a" for a q
    using that by (simp add: bint_inv_def bint_bit_get_bit)
  obtain r b' s' where 1: "bint_bit_set b pos s = (r, b', s')"
    by (cases "bint_bit_set b pos s")
  obtain b'' s'' where 2: "bint_bit_clear b pos s = (b'', s'')"
    by (cases "bint_bit_clear b pos s")
  show ?thesis
    using bint_bit_set_spec [OF assms 1] bint_bit_clear_spec [OF assms 2] assms 1 2
    by (auto simp: get bit_set_bit_iff bit_unset_bit_iff)
qed

theorem bint_bit_set_clear_correct_witness:
  "(case bint_bit_set bint_one 300 \<lparr>verdict = (\<lambda>_. True), tick = 0, live = 0\<rparr> of (r, b', s') \<Rightarrow>
     live s' = int (length (chain b')) \<and> \<not> r < 0 \<and> bint_bit_get b' 300)"
proof -
  have "bint_inv bint_one"
    by (simp add: bint_inv_def bint_shape_def trimmed_def bint_one_def bint_chunks_def chunk_of_def)
  from bint_bit_set_clear_correct [OF this, where pos = 300 and s = "\<lparr>verdict = (\<lambda>_. True), tick = 0, live = 0\<rparr>"] show ?thesis
    by (auto simp: malloc_fails_def balanced_def others_def bint_one_def split: if_splits prod.splits)
qed

text \<open>
  \<open>bint_or\<close> and \<open>bint_xor\<close> compute the bitwise operation of the magnitudes, keep the invariant
  and the sign, and change nothing when they fail.
\<close>

theorem bint_or_xor_correct:
  assumes "bint_inv dst" "bint_inv src" "bint_small src"
  shows "(\<exists>r dst' s'. bint_or dst src s = Some (r, dst', s') \<and> balanced dst s dst' s' \<and>
      (if r < 0 then dst' = dst \<and> malloc_fails s
       else bint_inv dst' \<and> negative dst' = negative dst \<and> mag dst' = mag dst OR mag src)) \<and>
    (\<exists>r dst' s'. bint_xor dst src s = Some (r, dst', s') \<and> balanced dst s dst' s' \<and>
      (if r < 0 then dst' = dst \<and> malloc_fails s
       else bint_inv dst' \<and> negative dst' = negative dst \<and> mag dst' = mag dst XOR mag src))"
  by (rule bint_or_spec [OF assms, of s], rule bint_xor_spec [OF assms, of s]) auto

theorem bint_or_xor_correct_witness:
  "\<exists>r dst' s'. bint_xor \<lparr>negative = True, digits = [5, 0, 0, 0], chain = [[7, 0, 0, 1]]\<rparr>
      \<lparr>negative = False, digits = [4, 0, 0, 0], chain = [[7, 0, 0, 1]]\<rparr>
      \<lparr>verdict = (\<lambda>_. True), tick = 0, live = 2\<rparr> = Some (r, dst', s') \<and> \<not> r < 0 \<and>
    live s' = 1 + int (length (chain dst')) \<and> mag dst' = 1"
proof -
  let ?a = "\<lparr>negative = True, digits = [5, 0, 0, 0], chain = [[7, 0, 0, 1]]\<rparr>"
  let ?b = "\<lparr>negative = False, digits = [4, 0, 0, 0], chain = [[7, 0, 0, 1]]\<rparr>"
  let ?s = "\<lparr>verdict = (\<lambda>_. True), tick = 0, live = 2\<rparr>"
  have "bint_inv ?a" "bint_inv ?b" "bint_small ?b"
    by (simp_all add: bint_inv_def bint_shape_def trimmed_def bint_small_def bint_chunks_def)
  moreover have "mag ?a XOR mag ?b = 1"
    by (simp add: mag_def bint_chunks_def)
  moreover have "\<not> malloc_fails ?s"
    by (simp add: malloc_fails_def)
  ultimately show ?thesis
    using bint_or_xor_correct [of ?a ?b ?s] by (auto simp: balanced_def others_def split: if_splits)
qed

text \<open>
  \<open>bint_and\<close> and \<open>bint_bic\<close> never fail; they compute the bitwise operation of the magnitudes,
  keep the invariant and the sign and free the chunks that are no longer needed.
\<close>

theorem bint_and_bic_correct:
  assumes "bint_inv dst" "bint_inv src"
  shows "(case bint_and dst src s of (dst', s') \<Rightarrow> bint_inv dst' \<and> negative dst' = negative dst \<and>
      balanced dst s dst' s' \<and> mag dst' = mag dst AND mag src) \<and>
    (case bint_bic dst src s of (dst', s') \<Rightarrow> bint_inv dst' \<and> negative dst' = negative dst \<and>
      balanced dst s dst' s' \<and> (\<forall>n. bint_bit_get dst' n \<longleftrightarrow> bint_bit_get dst n \<and> \<not> bint_bit_get src n))"
proof -
  obtain a1 s1 where 1: "bint_and dst src s = (a1, s1)"
    by (cases "bint_and dst src s")
  obtain a2 s2 where 2: "bint_bic dst src s = (a2, s2)"
    by (cases "bint_bic dst src s")
  have get: "bint_bit_get a q = bit (mag a) q" if "bint_inv a" for a q
    using that by (simp add: bint_inv_def bint_bit_get_bit)
  show ?thesis
    using bint_and_spec [OF assms 1] bint_bic_spec [OF assms 2] assms 1 2 by (auto simp: get)
qed

theorem bint_and_bic_correct_witness:
  "case bint_and \<lparr>negative = True, digits = [5, 0, 0, 0], chain = [[6, 0, 0, 1]]\<rparr>
      \<lparr>negative = False, digits = [4, 0, 0, 0], chain = [[1, 0, 0, 0]]\<rparr>
      \<lparr>verdict = (\<lambda>_. False), tick = 0, live = 2\<rparr> of (dst', s') \<Rightarrow>
    live s' = 1 + int (length (chain dst')) \<and> mag dst' = 4"
proof -
  let ?a = "\<lparr>negative = True, digits = [5, 0, 0, 0], chain = [[6, 0, 0, 1]]\<rparr>"
  let ?b = "\<lparr>negative = False, digits = [4, 0, 0, 0], chain = [[1, 0, 0, 0]]\<rparr>"
  let ?s = "\<lparr>verdict = (\<lambda>_. False), tick = 0, live = 2\<rparr>"
  have "bint_inv ?a" "bint_inv ?b"
    by (simp_all add: bint_inv_def bint_shape_def trimmed_def bint_chunks_def)
  moreover have "mag ?a AND mag ?b = 4"
    by (simp add: mag_def bint_chunks_def)
  ultimately show ?thesis
    using bint_and_bic_correct [of ?a ?b ?s] by (auto simp: balanced_def others_def split: prod.splits)
qed

text \<open>
  C32: when the number is zero or its length after the shift is not a multiple of the chunk size, \<open>bint_shift_left\<close> multiplies the
  magnitude by a power of two, keeps the sign and the normal form and loses no chunk, or it fails because the allocator did and
  changes nothing. (In the excluded case a zero chunk is left on top, see \<open>bint_shift_left_untrimmed\<close>.)
\<close>

theorem bint_shift_left_correct:
  assumes "bint_inv b" "bint_small b" "count < 2 ^ 31" "mag b = 0 \<or> (bint_bit_length b + count) mod CHUNK_BITS \<noteq> 0"
  shows "\<exists>r b' s'. bint_shift_left b count s = Some (r, b', s') \<and> balanced b s b' s' \<and>
    negative b' = negative b \<and>
    (if r < 0 then b' = b \<and> malloc_fails s else bint_inv b' \<and> mag b' = mag b * 2 ^ count)"
  using assms(4) by (rule_tac bint_shift_left_spec [OF assms(1-3), of s]) auto

theorem bint_shift_left_correct_witness:
  "\<exists>r b' s'. bint_shift_left bint_one 200 \<lparr>verdict = (\<lambda>_. True), tick = 0, live = 0\<rparr> = Some (r, b', s') \<and>
    \<not> r < 0 \<and> mag b' = 2 ^ 200 \<and> bint_inv b' \<and> live s' = int (length (chain b'))"
proof -
  let ?s = "\<lparr>verdict = (\<lambda>_. True), tick = 0, live = 0\<rparr>"
  have "bint_inv bint_one" "bint_small bint_one" "mag bint_one = 1" "chain bint_one = []"
    by (simp_all add: bint_inv_def bint_shape_def trimmed_def bint_one_def bint_chunks_def chunk_of_def
        bint_small_def mag_def)
  moreover have "bint_bit_length bint_one = 1"
    by (simp add: bint_eval)
  moreover have "\<not> malloc_fails ?s"
    by (simp add: malloc_fails_def)
  ultimately show ?thesis
    using bint_shift_left_correct [of bint_one 200 ?s] by (auto simp: balanced_def others_def split: if_splits)
qed

text \<open>Otherwise a shift that succeeds leaves a zero chunk at the top, against the invariant that \<^verbatim>\<open>bint.c\<close> states.\<close>

lemma bint_shift_left_untrimmed:
  assumes "bint_inv b" "bint_small b" "count < 2 ^ 31" "mag b \<noteq> 0" "(bint_bit_length b + count) mod CHUNK_BITS = 0"
    "bint_shift_left b count s = Some (r, b', s')" "\<not> r < 0"
  shows "\<not> bint_inv b'"
  by (rule bint_shift_left_spec [OF assms(1-3), of s]) (use assms(4-) in auto)

text \<open>
  C31: \<open>bint_shift_right\<close> always succeeds: it divides the magnitude by a power of two, keeps the
  invariant and the sign and frees the chunks that become empty.
\<close>

theorem bint_shift_right_correct:
  assumes "bint_inv b"
  shows "\<exists>b' s'. bint_shift_right b count s = Some (b', s') \<and> balanced b s b' s' \<and> bint_inv b' \<and>
    negative b' = negative b \<and> mag b' = mag b div 2 ^ count"
  by (rule bint_shift_right_spec [OF assms, of count s]) auto

theorem bint_shift_right_correct_witness:
  "\<exists>b' s'. bint_shift_right \<lparr>negative = True, digits = [5, 0, 0, 0], chain = [[6, 0, 0, 0]]\<rparr> 129
     \<lparr>verdict = (\<lambda>_. False), tick = 0, live = 1\<rparr> = Some (b', s') \<and> live s' = int (length (chain b')) \<and> mag b' = 3"
proof -
  let ?a = "\<lparr>negative = True, digits = [5, 0, 0, 0], chain = [[6, 0, 0, 0]]\<rparr>"
  have "bint_inv ?a" "mag ?a div 2 ^ 129 = 3"
    by (simp_all add: bint_inv_def bint_shape_def trimmed_def bint_chunks_def mag_def)
  then show ?thesis
    using bint_shift_right_correct [of ?a 129 "\<lparr>verdict = (\<lambda>_. False), tick = 0, live = 1\<rparr>"]
    by (auto simp: balanced_def others_def)
qed

text \<open>
  \<open>bint_digit_pop\<close> divides the magnitude by the base and returns the remainder.
\<close>

theorem bint_digit_pop_correct:
  assumes "bint_inv b" "base \<noteq> 0"
  shows "case bint_digit_pop b base s of (r, b', s') \<Rightarrow> unat r = mag b mod unat base \<and>
    mag b' = mag b div unat base \<and> bint_inv b' \<and> negative b' = negative b \<and> balanced b s b' s'"
proof -
  obtain r b' s' where "bint_digit_pop b base s = (r, b', s')"
    by (cases "bint_digit_pop b base s")
  with bint_digit_pop_spec [OF assms this] show ?thesis
    by simp
qed

theorem bint_digit_pop_correct_witness:
  "case bint_digit_pop \<lparr>negative = False, digits = [123, 0, 0, 0], chain = []\<rparr> 10
     \<lparr>verdict = (\<lambda>_. False), tick = 0, live = 0\<rparr> of (r, b', s') \<Rightarrow> unat r = 3 \<and> mag b' = 12"
  using bint_digit_pop_correct [of "\<lparr>negative = False, digits = [123, 0, 0, 0], chain = []\<rparr>" 10
      "\<lparr>verdict = (\<lambda>_. False), tick = 0, live = 0\<rparr>"]
  by (auto simp: bint_inv_def bint_shape_def trimmed_def bint_chunks_def mag_def split: prod.splits)

text \<open>
  C33: \<open>bint_digit_push\<close> computes \<open>b * base + digit\<close> or fails without effect, and a following
  \<open>bint_digit_pop\<close> with the same base gives back the digit and the number.
\<close>

theorem bint_digit_push_pop:
  assumes "bint_inv b" "bint_small b" "digit < base"
  shows "case bint_digit_push b base digit s of (r, b', s') \<Rightarrow> balanced b s b' s' \<and>
    (if r < 0 then b' = b \<and> malloc_fails s
     else bint_inv b' \<and> negative b' = negative b \<and> mag b' = mag b * unat base + unat digit \<and>
       (case bint_digit_pop b' base s' of (d, b'', s'') \<Rightarrow>
          d = digit \<and> bint_inv b'' \<and> bint_val b'' = bint_val b \<and> balanced b s b'' s''))"
proof -
  obtain r b' s' where p: "bint_digit_push b base digit s = (r, b', s')"
    by (cases "bint_digit_push b base digit s")
  obtain d b'' s'' where q: "bint_digit_pop b' base s' = (d, b'', s'')"
    by (cases "bint_digit_pop b' base s'")
  have base: "base \<noteq> 0"
    using assms(3) by auto
  have d: "unat digit < unat base"
    using assms(3) by (simp add: word_less_nat_alt)
  note push = bint_digit_push_spec [OF assms p]
  show ?thesis
  proof (cases "r < 0")
    case True
    then show ?thesis
      using push p by auto
  next
    case False
    then have inv': "bint_inv b'" "mag b' = mag b * unat base + unat digit"
      using push by auto
    have pop: "unat d = unat digit" "mag b'' = mag b" "bint_inv b''" "negative b'' = negative b'"
      "balanced b' s' b'' s''"
      using bint_digit_pop_spec [OF inv'(1) base q] d by (auto simp: inv'(2))
    have "d = digit"
      using pop(1) by (simp add: word_unat_eq_iff)
    then show ?thesis
      using False push pop p q balanced_trans by (auto simp: bint_val_def)
  qed
qed

theorem bint_digit_push_pop_witness:
  "case bint_digit_push \<lparr>negative = False, digits = [12, 0, 0, 0], chain = []\<rparr> 10 3
     \<lparr>verdict = (\<lambda>_. True), tick = 0, live = 0\<rparr> of (r, b', s') \<Rightarrow> \<not> r < 0 \<and> mag b' = 123"
  using bint_digit_push_pop [of "\<lparr>negative = False, digits = [12, 0, 0, 0], chain = []\<rparr>" 3 10
      "\<lparr>verdict = (\<lambda>_. True), tick = 0, live = 0\<rparr>"]
  by (auto simp: bint_inv_def bint_shape_def trimmed_def bint_chunks_def mag_def bint_small_def malloc_fails_def
      split: prod.splits if_splits)

end
