(* ===== verification/Dlb_Bint_Mul.thy ===== *)
theory Dlb_Bint_Mul
  imports Dlb_Bint_Bits
begin

unbundle bit_operations_syntax

text \<open>
  Big integers (\<^verbatim>\<open>src/src/bint.c\<close>), third part: multiplication, division and exponentiation.
  The local numbers of \<open>bint_div\<close> and \<open>bint_expt\<close> are values of the model; what they own is freed
  through the allocator state at the same places as in the code.
\<close>

section \<open>Multiply and accumulate\<close>

fun mac_add :: "u32 \<Rightarrow> u32 list \<Rightarrow> u32 list \<Rightarrow> u32 list" where
  "mac_add carry (r # rs) (c # cs) =
     (let rd = (ucast r + ucast c + ucast carry :: u64) in ucast rd # mac_add (ucast (drop_bit 32 rd)) rs cs)"
| "mac_add carry rs cs = []"

fun mac_carry :: "u32 \<Rightarrow> u32 list \<Rightarrow> u32 list" where
  "mac_carry carry [] = []"
| "mac_carry carry (m # mm) =
     (if carry = 0 then m # mm
      else let r = (ucast m + ucast carry :: u64) in ucast r # mac_carry (ucast (drop_bit 32 r)) mm)"

text \<open>The inner loop for one component of the first factor; the list is \<open>mm\<close> from position \<open>i + j\<close>.\<close>

fun mac_inner :: "u32 \<Rightarrow> u32 \<Rightarrow> u32 list \<Rightarrow> u32 list \<Rightarrow> u32 list" where
  "mac_inner ad carry (bd # bs) (m # mm) =
     (let r = (ucast ad * ucast bd + ucast m + ucast carry :: u64)
      in ucast r # mac_inner ad (ucast (drop_bit 32 r)) bs mm)"
| "mac_inner ad carry [] mm = mac_carry carry mm"
| "mac_inner ad carry (bd # bs) [] = []"

fun mac_outer :: "u32 list \<Rightarrow> u32 list \<Rightarrow> u32 list \<Rightarrow> u32 list" where
  "mac_outer [] b mm = mm"
| "mac_outer (ad # as) b mm = (case mac_inner ad 0 b mm of [] \<Rightarrow> [] | m # mm' \<Rightarrow> m # mac_outer as b mm')"

text \<open>
  \<open>chunk_mac\<close> with the two factors (\<open>None\<close> for the \<open>NULL\<close> arguments): the new chunk and the new
  carry. The carry that is left after adding the old chunk and the incoming carry is not used.
\<close>

definition chunk_mac :: "(chunk \<times> chunk) option \<Rightarrow> chunk \<Rightarrow> chunk \<Rightarrow> chunk \<times> chunk" where
  "chunk_mac ab r carry =
     (let mm = mac_add 0 r carry @ replicate BINT_CHUNK_SIZE 0;
          mm = (case ab of None \<Rightarrow> mm | Some (a, b) \<Rightarrow> mac_outer a b mm)
      in (take BINT_CHUNK_SIZE mm, drop BINT_CHUNK_SIZE mm))"

section \<open>Multiplication\<close>

fun mac_row :: "chunk \<Rightarrow> chunk list \<Rightarrow> chunk list \<Rightarrow> chunk \<Rightarrow> chunk list option" where
  "mac_row a (b # bc) (r # rcs) carry =
     (case chunk_mac (Some (a, b)) r carry of (r', carry') \<Rightarrow>
       map_option ((#) r') (mac_row a bc rcs carry'))"
| "mac_row a (b # bc) [] carry = None"
| "mac_row a [] (r # rcs) carry =
     (case chunk_mac None r carry of (r', carry') \<Rightarrow> map_option ((#) r') (mac_row a [] rcs carry'))"
| "mac_row a [] [] carry = Some []"

fun mul_rows :: "chunk list \<Rightarrow> chunk list \<Rightarrow> chunk list \<Rightarrow> chunk list option" where
  "mul_rows [] bc rc = Some rc"
| "mul_rows (a # ac) bc rc = (case mac_row a bc rc zero_chunk of
     None \<Rightarrow> None
   | Some [] \<Rightarrow> None
   | Some (r # rc') \<Rightarrow> map_option ((#) r) (mul_rows ac bc rc'))"

definition bint_mul :: "bint \<Rightarrow> bint \<Rightarrow> bint \<Rightarrow> alloc \<Rightarrow> (int \<times> bint \<times> alloc) option" where
  "bint_mul result a b s =
     (case extend_length result (wrap32 (bint_bit_length a + bint_bit_length b)) s of (r, result1, s1) \<Rightarrow>
       if r < 0 then Some (-1, result1, s1)
       else map_option
         (\<lambda>cs. (0, bint_set_sign (with_chunks result1 cs) (bint_get_sign a * bint_get_sign b), s1))
         (mul_rows (bint_chunks a) (bint_chunks b) (map (\<lambda>_. zero_chunk) (bint_chunks result1))))"

section \<open>Division\<close>

text \<open>
  The test-and-subtract loop; the argument is \<open>pos + 1\<close>. The result is the error code and the
  three local numbers.
\<close>

fun div_loop :: "nat \<Rightarrow> bint \<Rightarrow> bint \<Rightarrow> bint \<Rightarrow> alloc \<Rightarrow> (int \<times> bint \<times> bint \<times> bint \<times> alloc) option" where
  "div_loop 0 sdiv rem quot s = Some (0, sdiv, rem, quot, s)"
| "div_loop (Suc pos) sdiv rem quot s =
     (if mag_cmp sdiv rem \<le> 0
      then (case bint_bit_set quot pos s of (r, quot1, s1) \<Rightarrow>
        if r < 0 then Some (-1, sdiv, rem, quot1, s1)
        else case mag_sub rem rem sdiv s1 of None \<Rightarrow> None
        | Some (rem1, s2) \<Rightarrow> (case bint_shift_right sdiv 1 s2 of None \<Rightarrow> None
          | Some (sdiv1, s3) \<Rightarrow> div_loop pos sdiv1 rem1 quot1 s3))
      else case bint_shift_right sdiv 1 s of None \<Rightarrow> None
        | Some (sdiv1, s1) \<Rightarrow> div_loop pos sdiv1 rem quot s1)"

text \<open>The part after the loop: signs and the borrow from the remainder.\<close>

definition div_signs :: "bint \<Rightarrow> bint \<Rightarrow> bint \<Rightarrow> bint \<Rightarrow> alloc \<Rightarrow> (int \<times> bint \<times> bint \<times> alloc) option" where
  "div_signs dividend divisor rem quot s =
     (let rem = rem\<lparr>negative := negative divisor\<rparr> in
      if (negative divisor \<and> \<not> negative dividend) \<or> (\<not> negative divisor \<and> negative dividend)
      then (case bint_add quot bint_one s of None \<Rightarrow> None
        | Some (r, quot1, s1) \<Rightarrow> if r < 0 then Some (-1, rem, quot1, s1)
          else case bint_sub rem divisor s1 of None \<Rightarrow> None
          | Some (r, rem1, s2) \<Rightarrow> if r < 0 then Some (-1, rem1, quot1, s2)
            else Some (0, rem1\<lparr>negative := negative divisor\<rparr>, quot1\<lparr>negative := True\<rparr>, s2))
      else Some (0, rem, quot, s))"

definition div_fail :: "bint option \<Rightarrow> bint option \<Rightarrow> bint \<Rightarrow> bint \<Rightarrow> bint \<Rightarrow> alloc
    \<Rightarrow> (int \<times> bint option \<times> bint option \<times> alloc) option" where
  "div_fail quotientp remainderp rem sdiv quot s =
     Some (-1, quotientp, remainderp, bint_destroy quot (bint_destroy sdiv (bint_destroy rem s)))"

text \<open>\<open>bint_swap\<close> with a pointer that may be \<open>NULL\<close>: the new caller's number and the new local one.\<close>

definition swap_out :: "bint option \<Rightarrow> bint \<Rightarrow> bint option \<times> bint" where
  "swap_out p local = (case p of None \<Rightarrow> (None, local)
     | Some x \<Rightarrow> (case bint_swap (x, local) of (x', local') \<Rightarrow> (Some x', local')))"

text \<open>Setting up the shifted divisor and the remainder.\<close>

definition div_setup :: "bint \<Rightarrow> bint \<Rightarrow> bint \<Rightarrow> bint \<Rightarrow> alloc \<Rightarrow> (int \<times> bint \<times> bint \<times> alloc) option" where
  "div_setup dividend divisor sdiv rem s =
     (let num_len = bint_bit_length dividend; den_len = bint_bit_length divisor in
      case bint_copy sdiv divisor s of None \<Rightarrow> None
      | Some (r, sdiv1, s1) \<Rightarrow> if r < 0 then Some (-1, sdiv1, rem, s1)
      else case (if den_len < num_len then bint_shift_left sdiv1 (num_len - den_len) s1
                 else Some (0, sdiv1, s1)) of None \<Rightarrow> None
      | Some (r, sdiv2, s2) \<Rightarrow> if r < 0 then Some (-1, sdiv2, rem, s2)
      else case bint_copy rem dividend s2 of None \<Rightarrow> None
      | Some (r, rem1, s3) \<Rightarrow> if r < 0 then Some (-1, sdiv2, rem1, s3)
      else Some (0, sdiv2\<lparr>negative := False\<rparr>, rem1\<lparr>negative := False\<rparr>, s3))"

text \<open>Signs, copying out and freeing the local numbers.\<close>

definition div_finish :: "bint option \<Rightarrow> bint \<Rightarrow> bint \<Rightarrow> bint option \<Rightarrow> bint \<Rightarrow> bint \<Rightarrow> bint \<Rightarrow> alloc
    \<Rightarrow> (int \<times> bint option \<times> bint option \<times> alloc) option" where
  "div_finish quotientp dividend divisor remainderp sdiv rem quot s =
     (case div_signs dividend divisor rem quot s of None \<Rightarrow> None
      | Some (r, rem1, quot1, s1) \<Rightarrow> if r < 0 then div_fail quotientp remainderp rem1 sdiv quot1 s1
      else case swap_out remainderp rem1 of (remainder', rem2) \<Rightarrow>
        case swap_out quotientp quot1 of (quotient', quot2) \<Rightarrow>
          Some (0, quotient', remainder', bint_destroy quot2 (bint_destroy sdiv (bint_destroy rem2 s1))))"

definition bint_div :: "bint option \<Rightarrow> bint \<Rightarrow> bint \<Rightarrow> bint option \<Rightarrow> alloc
    \<Rightarrow> (int \<times> bint option \<times> bint option \<times> alloc) option" where
  "bint_div quotientp dividend divisor remainderp s =
     (let num_len = bint_bit_length dividend; den_len = bint_bit_length divisor in
      if den_len = 0 then Some (1, quotientp, remainderp, s)
      else case bint_init 0 s of (rem, s1) \<Rightarrow> case bint_init 0 s1 of (sdiv, s2) \<Rightarrow>
      case bint_init 0 s2 of (quot, s3) \<Rightarrow> case div_setup dividend divisor sdiv rem s3 of None \<Rightarrow> None
      | Some (r, sdiv1, rem1, s4) \<Rightarrow> if r < 0 then div_fail quotientp remainderp rem1 sdiv1 quot s4
      else case div_loop (if den_len < num_len then num_len - den_len + 1 else 1) sdiv1 rem1 quot s4 of None \<Rightarrow> None
      | Some (r, sdiv2, rem2, quot1, s5) \<Rightarrow> if r < 0 then div_fail quotientp remainderp rem2 sdiv2 quot1 s5
      else div_finish quotientp dividend divisor remainderp sdiv2 rem2 quot1 s5)"

section \<open>Exponentiation\<close>

text \<open>The loop over the bits of the exponent: \<open>n\<close> iterations are left, \<open>i\<close> is the next position.\<close>

fun expt_loop :: "nat \<Rightarrow> nat \<Rightarrow> bint \<Rightarrow> bint \<Rightarrow> bint \<Rightarrow> bint \<Rightarrow> alloc
    \<Rightarrow> (int \<times> bint \<times> bint \<times> bint \<times> alloc) option" where
  "expt_loop 0 i exponent r b p s = Some (0, r, b, p, s)"
| "expt_loop (Suc n) i exponent r b p s =
     (case (if bint_bit_get exponent i
            then (case bint_mul p r b s of None \<Rightarrow> None
              | Some (e, p1, s1) \<Rightarrow> if e < 0 then Some (-1 :: int, r, p1, s1)
                else (case bint_swap (p1, r) of (p2, r1) \<Rightarrow> Some (0, r1, p2, s1)))
            else Some (0, r, p, s)) of None \<Rightarrow> None
      | Some (e, r1, p1, s1) \<Rightarrow> if e < 0 then Some (-1, r1, b, p1, s1)
      else case bint_mul p1 b b s1 of None \<Rightarrow> None
      | Some (e, p2, s2) \<Rightarrow> if e < 0 then Some (-1, r1, b, p2, s2)
        else (case bint_swap (p2, b) of (p3, b1) \<Rightarrow> expt_loop n (Suc i) exponent r1 b1 p3 s2))"

definition bint_expt :: "bint \<Rightarrow> bint \<Rightarrow> bint \<Rightarrow> alloc \<Rightarrow> (int \<times> bint \<times> alloc) option" where
  "bint_expt result base exponent s =
     (let len = bint_bit_length exponent in
      case bint_init 1 s of (r, s1) \<Rightarrow> case bint_init 0 s1 of (p, s2) \<Rightarrow> case bint_init 0 s2 of (b, s3) \<Rightarrow>
      case bint_copy b base s3 of None \<Rightarrow> None
      | Some (e, b1, s4) \<Rightarrow> if e < 0 then Some (-1, result, bint_destroy p (bint_destroy b1 (bint_destroy r s4)))
      else case expt_loop len 0 exponent r b1 p s4 of None \<Rightarrow> None
      | Some (e, r1, b2, p1, s5) \<Rightarrow> if e < 0 then Some (-1, result, bint_destroy p1 (bint_destroy b2 (bint_destroy r1 s5)))
      else (case bint_swap (result, r1) of (result', r2) \<Rightarrow>
        Some (0, result', bint_destroy p1 (bint_destroy b2 (bint_destroy r2 s5)))))"

section \<open>Values of the accumulation\<close>

lemma mac_step:
  fixes ad bd m carry :: u32
  assumes "r = (ucast ad * ucast bd + ucast m + ucast carry :: u64)"
  shows "unat ad * unat bd + unat m + unat carry =
    unat (ucast r :: u32) + 2 ^ 32 * unat (ucast (drop_bit 32 r) :: u32)"
proof -
  have b: "unat ad \<le> 2 ^ 32 - 1" "unat bd \<le> 2 ^ 32 - 1" "unat m \<le> 2 ^ 32 - 1" "unat carry \<le> 2 ^ 32 - 1"
    using unat_lt_exp [of ad] unat_lt_exp [of bd] unat_lt_exp [of m] unat_lt_exp [of carry] by simp_all
  have "unat ad * unat bd \<le> (2 ^ 32 - 1) * (2 ^ 32 - 1)"
    using b by (intro mult_mono) simp_all
  then have le: "unat ad * unat bd + unat m + unat carry < 2 ^ 64"
    using b by simp
  have p: "unat (ucast ad * ucast bd :: u64) = unat ad * unat bd"
    using le by (subst unat_word_ariths) (simp add: unat_ucast_u64)
  have q: "unat (ucast ad * ucast bd + ucast m :: u64) = unat ad * unat bd + unat m"
    using le p by (subst unat_word_ariths) (simp add: unat_ucast_u64)
  have "unat r = unat ad * unat bd + unat m + unat carry"
    unfolding assms using le q by (subst unat_word_ariths) (simp add: unat_ucast_u64)
  then show ?thesis
    unfolding unat_high_u64 unfolding unat_ucast_u32 by (simp only: mod_mult_div_eq)
qed

lemma mod_word:
  fixes x y m :: nat
  assumes "x < 2 ^ 32"
  shows "(x + 2 ^ 32 * y) mod (2 ^ 32 * m) = x + 2 ^ 32 * (y mod m)"
  using assms by (simp only: mod_mult2_eq) simp

lemma mod_word_unat: "(unat (w :: u32) + 2 ^ 32 * y) mod (2 ^ 32 * m) = unat w + 2 ^ 32 * (y mod m)"
  using unat_lt_exp [of w] by (intro mod_word) simp

lemma mac_add_val:
  "length rs = length cs \<Longrightarrow> wval (mac_add carry rs cs) = (wval rs + wval cs + unat carry) mod 2 ^ (32 * length rs) \<and>
     length (mac_add carry rs cs) = length rs"
proof (induction rs cs arbitrary: carry rule: list_induct2)
  case (Cons r rs c cs)
  define rd where "rd = (ucast r + ucast c + ucast carry :: u64)"
  let ?k = "ucast (drop_bit 32 rd) :: u32"
  have "rd = ucast (1 :: u32) * ucast r + ucast c + ucast carry"
    by (simp add: rd_def)
  from mac_step [OF this] have
    eq: "wval (r # rs) + wval (c # cs) + unat carry = unat (ucast rd :: u32) + 2 ^ 32 * (wval rs + wval cs + unat ?k)"
    by (simp add: distrib_left)
  show ?case
    unfolding eq using Cons.IH [of ?k] mod_word_unat [of "ucast rd" "wval rs + wval cs + unat ?k" "2 ^ (32 * length rs)"]
    by (simp add: Let_def rd_def [symmetric] power_add)
qed auto

lemma mac_carry_val:
  "wval (mac_carry carry mm) = (wval mm + unat carry) mod 2 ^ (32 * length mm) \<and>
     length (mac_carry carry mm) = length mm"
proof (induction mm arbitrary: carry)
  case (Cons m mm)
  show ?case
  proof (cases "carry = 0")
    case True
    then show ?thesis
      using wval_less [of "m # mm"] by simp
  next
    case False
    define r where "r = (ucast m + ucast carry :: u64)"
    let ?k = "ucast (drop_bit 32 r) :: u32"
    have "r = ucast (0 :: u32) * ucast (0 :: u32) + ucast m + ucast carry"
      by (simp add: r_def)
    from mac_step [OF this] have
      eq: "wval (m # mm) + unat carry = unat (ucast r :: u32) + 2 ^ 32 * (wval mm + unat ?k)"
      by (simp add: distrib_left)
    show ?thesis
      unfolding eq using False Cons.IH [of ?k] mod_word_unat [of "ucast r" "wval mm + unat ?k" "2 ^ (32 * length mm)"]
      by (simp add: Let_def r_def [symmetric] power_add)
  qed
qed auto

lemma mac_inner_val:
  "length bs \<le> length mm \<Longrightarrow>
     wval (mac_inner ad carry bs mm) = (unat ad * wval bs + wval mm + unat carry) mod 2 ^ (32 * length mm) \<and>
     length (mac_inner ad carry bs mm) = length mm"
proof (induction ad carry bs mm rule: mac_inner.induct)
  case (1 ad carry bd bs m mm)
  define r where "r = (ucast ad * ucast bd + ucast m + ucast carry :: u64)"
  let ?k = "ucast (drop_bit 32 r) :: u32"
  have eq: "unat ad * wval (bd # bs) + wval (m # mm) + unat carry =
      unat (ucast r :: u32) + 2 ^ 32 * (unat ad * wval bs + wval mm + unat ?k)"
    using mac_step [OF r_def] by (simp add: distrib_left)
  have IH: "wval (mac_inner ad ?k bs mm) = (unat ad * wval bs + wval mm + unat ?k) mod 2 ^ (32 * length mm) \<and>
      length (mac_inner ad ?k bs mm) = length mm"
    using 1(1) [OF r_def] 1(2) by simp
  show ?case
    unfolding eq using IH mod_word_unat [of "ucast r" "unat ad * wval bs + wval mm + unat ?k" "2 ^ (32 * length mm)"]
    by (simp add: Let_def r_def [symmetric] power_add)
qed (auto simp: mac_carry_val)

lemma mac_outer_val:
  "length as + length b \<le> length mm \<Longrightarrow> b \<noteq> [] \<Longrightarrow>
     wval (mac_outer as b mm) = (wval as * wval b + wval mm) mod 2 ^ (32 * length mm) \<and>
     length (mac_outer as b mm) = length mm"
proof (induction as arbitrary: mm)
  case Nil
  then show ?case
    using wval_less [of mm] by simp
next
  case (Cons ad as)
  have inner: "wval (mac_inner ad 0 b mm) = (unat ad * wval b + wval mm) mod 2 ^ (32 * length mm)"
    "length (mac_inner ad 0 b mm) = length mm"
    using mac_inner_val [of b mm ad 0] Cons.prems by auto
  then obtain m mm' where m: "mac_inner ad 0 b mm = m # mm'" "length mm = Suc (length mm')"
    using Cons.prems by (cases "mac_inner ad 0 b mm") auto
  have IH: "wval (mac_outer as b mm') = (wval as * wval b + wval mm') mod 2 ^ (32 * length mm')"
    "length (mac_outer as b mm') = length mm'"
    using Cons.IH [of mm'] Cons.prems m(2) by auto
  have P: "2 ^ (32 * length mm) = 2 ^ 32 * (2 ^ (32 * length mm') :: nat)"
    by (simp add: m(2) power_add)
  have "wval (mac_outer (ad # as) b mm) = unat m + 2 ^ 32 * ((wval as * wval b + wval mm') mod 2 ^ (32 * length mm'))"
    using IH m(1) by simp
  also have "\<dots> = (unat m + 2 ^ 32 * (wval as * wval b + wval mm')) mod 2 ^ (32 * length mm)"
    unfolding P by (rule mod_word_unat [symmetric])
  also have "unat m + 2 ^ 32 * (wval as * wval b + wval mm') = wval (mac_inner ad 0 b mm) + 2 ^ 32 * (wval as * wval b)"
    by (simp add: m(1) distrib_left)
  also have "\<dots> mod 2 ^ (32 * length mm) = (unat ad * wval b + wval mm + 2 ^ 32 * (wval as * wval b)) mod 2 ^ (32 * length mm)"
    unfolding inner(1) by (simp only: mod_add_left_eq)
  also have "unat ad * wval b + wval mm + 2 ^ 32 * (wval as * wval b) = wval (ad # as) * wval b + wval mm"
    by (simp add: distrib_right)
  finally show ?case
    using IH m by simp
qed

lemma chunk_mac_val:
  assumes r: "chunk_ok r" and carry: "chunk_ok carry" and ab: "\<And>a b. ab = Some (a, b) \<Longrightarrow> chunk_ok a \<and> chunk_ok b"
    and res: "chunk_mac ab r carry = (r', carry')"
  shows "wval r' + 2 ^ 128 * wval carry' =
      (case ab of None \<Rightarrow> 0 | Some (a, b) \<Rightarrow> wval a * wval b) + (wval r + wval carry) mod 2 ^ 128"
    "chunk_ok r'" "chunk_ok carry'"
proof -
  let ?m0 = "mac_add 0 r carry @ replicate 4 0"
  define mm where "mm = (case ab of None \<Rightarrow> ?m0 | Some (a, b) \<Rightarrow> mac_outer a b ?m0)"
  have m0: "wval ?m0 = (wval r + wval carry) mod 2 ^ 128" "length ?m0 = 8"
    using mac_add_val [of r carry 0] r carry by (simp_all add: wval_append)
  have mm: "wval mm = (case ab of None \<Rightarrow> 0 | Some (a, b) \<Rightarrow> wval a * wval b) + (wval r + wval carry) mod 2 ^ 128 \<and>
      length mm = 8"
  proof (cases ab)
    case None
    then show ?thesis
      using m0 by (simp add: mm_def)
  next
    case (Some p)
    obtain a b where p: "p = (a, b)"
      by (cases p)
    have ok: "chunk_ok a" "chunk_ok b" "b \<noteq> []"
      using ab [of a b] Some p by auto
    have "wval a \<le> 2 ^ 128 - 1" "wval b \<le> 2 ^ 128 - 1"
      using wval_less [of a] wval_less [of b] ok by simp_all
    then have "wval a * wval b \<le> (2 ^ 128 - 1) * (2 ^ 128 - 1)"
      by (intro mult_mono) simp_all
    moreover have "wval ?m0 < 2 ^ 128"
      unfolding m0(1) by simp
    ultimately have "wval a * wval b + wval ?m0 < 2 ^ 256"
      by simp
    then show ?thesis
      using mac_outer_val [of a b ?m0] ok m0 by (simp add: mm_def Some p)
  qed
  have r': "r' = take 4 mm" "carry' = drop 4 mm"
    using res by (auto simp: chunk_mac_def Let_def mm_def)
  then show ok: "chunk_ok r'" "chunk_ok carry'"
    using mm by simp_all
  have "wval mm = wval r' + 2 ^ 128 * wval carry'"
    using wval_append [of r' carry'] ok(1) by (simp add: r')
  then show "wval r' + 2 ^ 128 * wval carry' =
      (case ab of None \<Rightarrow> 0 | Some (a, b) \<Rightarrow> wval a * wval b) + (wval r + wval carry) mod 2 ^ 128"
    using mm by simp
qed

text \<open>Rows over chunks that are still zero: nothing is lost.\<close>

lemma wval_inj: "length xs = length ys \<Longrightarrow> wval xs = wval ys \<Longrightarrow> xs = ys"
proof (induction xs ys rule: list_induct2)
  case (Cons x xs y ys)
  have "wval (x # xs) mod 2 ^ 32 = unat x" "wval (y # ys) mod 2 ^ 32 = unat y"
    using unat_lt_exp [of x] unat_lt_exp [of y] by simp_all
  then have "unat x = unat y"
    using Cons.prems by metis
  with Cons show ?case
    by (simp add: word_unat_eq_iff)
qed simp

lemma chunk_mac_None_zero:
  assumes "chunk_ok carry"
  shows "chunk_mac None zero_chunk carry = (carry, zero_chunk)"
proof -
  obtain r' carry' where m: "chunk_mac None zero_chunk carry = (r', carry')"
    by (cases "chunk_mac None zero_chunk carry")
  have c: "wval carry < 2 ^ 128"
    using wval_less [of carry] assms(1) by simp
  have v: "wval r' + 2 ^ 128 * wval carry' = (wval zero_chunk + wval carry) mod 2 ^ 128" "chunk_ok r'" "chunk_ok carry'"
    using chunk_mac_val [of zero_chunk carry None r' carry'] m assms by auto
  then have "wval carry' = 0" "wval r' = wval carry"
    using c by (cases "wval carry'"; auto)+
  then have "carry' = zero_chunk" "r' = carry"
    using v(2,3) assms by (auto intro: wval_inj)
  with m show ?thesis
    by simp
qed

lemma mac_row_zero:
  "chunk_ok a \<Longrightarrow> chunks_ok bs \<Longrightarrow> chunk_ok carry \<Longrightarrow> length bs \<le> k \<Longrightarrow>
     \<exists>rs. mac_row a bs (replicate k zero_chunk) carry = Some rs \<and> chunks_ok rs \<and> length rs = k \<and>
       cval rs = (wval a * cval bs + wval carry) mod 2 ^ (128 * k)"
proof (induction k arbitrary: bs carry)
  case (Suc k)
  define ab where "ab = (case bs of [] \<Rightarrow> None | b # _ \<Rightarrow> Some (a, b))"
  have abok: "chunk_ok x \<and> chunk_ok y" if "ab = Some (x, y)" for x y
    using that Suc.prems by (auto simp: ab_def split: list.splits)
  obtain r' carry' where m: "chunk_mac ab zero_chunk carry = (r', carry')"
    by (cases "chunk_mac ab zero_chunk carry")
  have lt: "wval carry < 2 ^ 128"
    using wval_less [of carry] Suc.prems(3) by simp
  have v: "wval r' + 2 ^ 128 * wval carry' = (case ab of None \<Rightarrow> 0 | Some (a, b) \<Rightarrow> wval a * wval b) + wval carry"
    "chunk_ok r'" "chunk_ok carry'"
    using chunk_mac_val [OF _ Suc.prems(3) abok m] lt by auto
  have tlb: "chunks_ok (tl bs)" "length (tl bs) \<le> k"
    using Suc.prems by (cases bs; simp)+
  obtain rs where rs: "mac_row a (tl bs) (replicate k zero_chunk) carry' = Some rs" "chunks_ok rs" "length rs = k"
    "cval rs = (wval a * cval (tl bs) + wval carry') mod 2 ^ (128 * k)"
    using Suc.IH [OF Suc.prems(1) tlb(1) v(3) tlb(2)] by auto
  have row: "mac_row a bs (replicate (Suc k) zero_chunk) carry = Some (r' # rs)"
    using m rs(1) by (cases bs) (auto simp: ab_def)
  have "wval a * cval bs + wval carry = wval r' + 2 ^ 128 * (wval a * cval (tl bs) + wval carry')"
    using v(1) Suc.prems(2) by (cases bs) (auto simp: ab_def distrib_left)
  moreover have "wval r' < 2 ^ 128"
    using wval_less [of r'] v(2) by simp
  note mod_chunk [OF this, of "wval a * cval (tl bs) + wval carry'" "2 ^ (128 * k)"]
  ultimately have "cval (r' # rs) = (wval a * cval bs + wval carry) mod 2 ^ (128 * Suc k)"
    using rs(4) v(2) by (simp add: power_add)
  then show ?case
    using row rs v(2) by (auto simp del: cval_Cons replicate.simps)
qed auto


lemma mac_row_carry:
  "mac_row a [] (replicate k zero_chunk) zero_chunk = Some (replicate k zero_chunk)"
  "chunk_ok carry \<Longrightarrow> mac_row a [] (zero_chunk # replicate k zero_chunk) carry = Some (carry # replicate k zero_chunk)"
proof -
  show z: "mac_row a [] (replicate k zero_chunk) zero_chunk = Some (replicate k zero_chunk)" for k
    by (induction k) (simp_all add: chunk_mac_None_zero)
  show "chunk_ok carry \<Longrightarrow> mac_row a [] (zero_chunk # replicate k zero_chunk) carry = Some (carry # replicate k zero_chunk)"
    by (simp add: chunk_mac_None_zero z)
qed

text \<open>A second factor of one chunk: each row touches one new chunk, so nothing is lost either.\<close>

lemma mul_rows_single:
  "chunks_ok as \<Longrightarrow> chunk_ok b \<Longrightarrow> chunk_ok r \<Longrightarrow> length as \<le> Suc k \<Longrightarrow>
     \<exists>rs. mul_rows as [b] (r # replicate k zero_chunk) = Some rs \<and> chunks_ok rs \<and> length rs = Suc k \<and>
       cval rs = (cval as * wval b + wval r) mod 2 ^ (128 * Suc k)"
proof (induction as arbitrary: r k)
  case Nil
  have "chunks_ok (r # replicate k zero_chunk)"
    using Nil by simp
  from cval_less [OF this] Nil show ?case
    by simp
next
  case (Cons a as)
  obtain r' carry' where m: "chunk_mac (Some (a, b)) r zero_chunk = (r', carry')"
    by (cases "chunk_mac (Some (a, b)) r zero_chunk")
  have "wval r < 2 ^ 128"
    using wval_less [of r] Cons.prems(3) by simp
  then have v: "wval r' + 2 ^ 128 * wval carry' = wval a * wval b + wval r" "chunk_ok r'" "chunk_ok carry'"
    using chunk_mac_val [of r zero_chunk "Some (a, b)" r' carry'] m Cons.prems by auto
  have r': "wval r' < 2 ^ 128"
    using wval_less [of r'] v(2) by simp
  have eq: "cval (a # as) * wval b + wval r = wval r' + 2 ^ 128 * (cval as * wval b + wval carry')"
    using v(1) Cons.prems(1) by (simp add: distrib_right)
  show ?case
  proof (cases k)
    case 0
    then have "mul_rows (a # as) [b] (r # replicate k zero_chunk) = Some [r']"
      using m Cons.prems(4) by simp
    moreover have "cval [r'] = (cval (a # as) * wval b + wval r) mod 2 ^ (128 * Suc k)"
      unfolding eq using 0 r' v(2) by (simp del: distrib_left_numeral)
    ultimately show ?thesis
      using 0 v(2) by (auto simp del: cval_Cons mul_rows.simps)
  next
    case (Suc j)
    obtain rs where rs: "mul_rows as [b] (carry' # replicate j zero_chunk) = Some rs" "chunks_ok rs" "length rs = Suc j"
      "cval rs = (cval as * wval b + wval carry') mod 2 ^ (128 * Suc j)"
      using Cons.IH [of carry' j] Cons.prems v(3) Suc by auto
    have "mul_rows (a # as) [b] (r # replicate k zero_chunk) = Some (r' # rs)"
      using m rs(1) v(3) Suc by (simp add: mac_row_carry(1) chunk_mac_None_zero)
    moreover have "cval (r' # rs) = (cval (a # as) * wval b + wval r) mod 2 ^ (128 * Suc k)"
      unfolding eq using mod_chunk [OF r', of "cval as * wval b + wval carry'" "2 ^ (128 * Suc j)"] rs(4) v(2) Suc
      by (simp add: power_add)
    ultimately show ?thesis
      using rs v(2) Suc by (auto simp del: cval_Cons mul_rows.simps)
  qed
qed


text \<open>
  One of the factors fits into a single chunk. (When neither does, \<open>chunk_mac\<close> can lose a carry,
  see \<open>bint_mul_loses_carry\<close> below.)
\<close>

lemma mul_rows_val:
  assumes ok: "chunks_ok as" "chunks_ok bs" and ne: "as \<noteq> []" "bs \<noteq> []" and single: "tl as = [] \<or> tl bs = []"
    and len: "length as + length bs \<le> Suc k" and fits: "cval as * cval bs < 2 ^ (128 * k)"
  shows "\<exists>rs. mul_rows as bs (replicate k zero_chunk) = Some rs \<and> chunks_ok rs \<and> length rs = k \<and>
    cval rs = cval as * cval bs"
proof (cases "tl as = []")
  case True
  then obtain a where a: "as = [a]"
    using ne by (cases as) auto
  obtain rs where rs: "mac_row a bs (replicate k zero_chunk) zero_chunk = Some rs" "chunks_ok rs" "length rs = k"
    "cval rs = wval a * cval bs mod 2 ^ (128 * k)"
    using mac_row_zero [of a bs zero_chunk k] ok a len by auto
  have "rs \<noteq> []"
    using rs(3) len a ne by (cases bs) auto
  then have "mul_rows as bs (replicate k zero_chunk) = Some rs"
    using rs(1) by (cases rs) (auto simp: a)
  then show ?thesis
    using rs fits ok by (simp add: a)
next
  case False
  then obtain b where b: "bs = [b]"
    using single ne by (cases bs) auto
  obtain j where j: "k = Suc j"
    using len ne b by (cases k) auto
  then show ?thesis
    using mul_rows_single [of as b zero_chunk j] ok len fits by (auto simp: b)
qed

lemma bint_mul_spec:
  assumes inv: "bint_inv a" "bint_inv b" and small: "bint_small a" "bint_small b" and shape: "bint_shape result"
    and single: "chain a = [] \<or> chain b = []"
  obtains r res' s' where "bint_mul result a b s = Some (r, res', s')" "balanced result s res' s'"
    "r = -1 \<and> res' = result \<and> malloc_fails s \<or>
     r = 0 \<and> bint_shape res' \<and> bint_val res' = bint_val a * bint_val b \<and> mag res' = mag a * mag b \<and>
       (negative res' \<longleftrightarrow> bint_val a * bint_val b < 0) \<and>
       length (chain res') = max (length (chain result)) ((bint_bit_length a + bint_bit_length b) div 128)"
proof -
  define n where "n = bint_bit_length a + bint_bit_length b"
  note la = bint_bit_length_spec [OF inv(1) small(1)]
  note lb = bint_bit_length_spec [OF inv(2) small(2)]
  have wrap: "wrap32 (bint_bit_length a + bint_bit_length b) = n"
    using la lb small by (auto simp: n_def bint_small_def)
  obtain r1 res1 s1 where e: "extend_length result n s = (r1, res1, s1)"
    by (cases "extend_length result n s")
  from e shape show thesis
  proof (cases rule: extend_length_cases)
    case fail
    then have "bint_mul result a b s = Some (-1, result, s1)"
      unfolding bint_mul_def wrap using e by simp
    then show thesis
      using fail by (intro that [of "-1" result s1]) auto
  next
    case (ok j)
    define k where "k = length (bint_chunks res1)"
    have zeros: "map (\<lambda>_. zero_chunk) (bint_chunks res1) = replicate k zero_chunk"
      by (simp add: k_def map_replicate_const)
    have cab: "chunks_ok (bint_chunks a)" "chunks_ok (bint_chunks b)" "bint_chunks a \<noteq> []" "bint_chunks b \<noteq> []"
      "tl (bint_chunks a) = [] \<or> tl (bint_chunks b) = []"
      using inv single by (auto simp: bint_inv_def bint_shape_def bint_chunks_def)
    have kn: "n < 128 * k" "k = Suc (length (chain res1))"
      using ok(8) by (auto simp: k_def bint_chunks_def)
    have "mag a < 2 ^ bint_bit_length a" "mag b < 2 ^ bint_bit_length b"
      using la lb by (auto simp: is_len_def)
    then have "mag a * mag b < 2 ^ n"
      unfolding n_def power_add by (intro mult_strict_mono) auto
    also have "\<dots> \<le> 2 ^ (128 * k)"
      using kn(1) by (intro power_increasing) auto
    finally have fits: "cval (bint_chunks a) * cval (bint_chunks b) < 2 ^ (128 * k)"
      by (simp add: mag_def)
    have "length (bint_chunks a) + length (bint_chunks b) \<le> Suc k"
      using la lb ok(8) kn(2) by (auto simp: n_def bint_chunks_def)
    then obtain rs where rs: "mul_rows (bint_chunks a) (bint_chunks b) (replicate k zero_chunk) = Some rs"
      "chunks_ok rs" "length rs = k" "cval rs = mag a * mag b"
      using mul_rows_val [OF cab _ fits] by (auto simp: mag_def)
    let ?res = "bint_set_sign (with_chunks res1 rs) (bint_get_sign a * bint_get_sign b)"
    have ne: "rs \<noteq> []"
      using rs(3) kn(2) by auto
    have ch: "bint_chunks ?res = rs" "chain ?res = tl rs"
      using ne by (simp_all add: bint_set_sign_def with_chunks_def)
    have neg: "negative ?res \<longleftrightarrow> bint_val a * bint_val b < 0"
      using inv by (simp add: bint_set_sign_def bint_get_sign_sgn flip: sgn_mult)
    have m: "mag ?res = mag a * mag b" "bint_shape ?res"
      using rs by (simp_all add: mag_def bint_shape_def ch)
    have "bint_val ?res = bint_val a * bint_val b"
      using neg m(1) by (auto simp: bint_val_def mult_less_0_iff split: if_splits)
    moreover have "bint_mul result a b s = Some (0, ?res, s1)"
      unfolding bint_mul_def wrap using e ok(1) rs(1) by (simp add: zeros)
    moreover have "balanced result s ?res s1"
      using ok(7) rs(3) kn(2) by (simp add: balanced_def others_def ch)
    ultimately show thesis
      using m neg rs(3) kn(2) ok(9) ch by (intro that [of 0 ?res s1]) (auto simp: n_def)
  qed
qed

section \<open>Correctness of multiplication\<close>

text \<open>
  C7: \<open>bint_mul\<close> multiplies, for numbers in normal form of which one is below \<open>2 ^ 128\<close>: the value
  and the sign are right whatever the result held before, or nothing changes because the
  allocator failed.
\<close>

theorem bint_mul_correct:
  assumes "bint_inv a" "bint_inv b" "bint_small a" "bint_small b" "bint_shape result"
    "chain a = [] \<or> chain b = []"
  shows "\<exists>r res' s'. bint_mul result a b s = Some (r, res', s') \<and> balanced result s res' s' \<and>
    (if r < 0 then res' = result \<and> malloc_fails s
     else bint_shape res' \<and> bint_val res' = bint_val a * bint_val b)"
  by (rule bint_mul_spec [OF assms, of s]) auto

theorem bint_mul_correct_witness:
  "\<exists>r res' s'. bint_mul bint_zero \<lparr>negative = True, digits = [0, 0, 0, 5], chain = []\<rparr>
      \<lparr>negative = False, digits = [7, 0, 0, 0], chain = [[1, 0, 0, 0]]\<rparr>
      \<lparr>verdict = (\<lambda>_. True), tick = 0, live = 1\<rparr> = Some (r, res', s') \<and> \<not> r < 0 \<and>
    live s' = 1 + int (length (chain res')) \<and> bint_val res' = - (5 * 2 ^ 96) * (7 + 2 ^ 128)"
proof -
  let ?a = "\<lparr>negative = True, digits = [0, 0, 0, 5], chain = []\<rparr>"
  let ?b = "\<lparr>negative = False, digits = [7, 0, 0, 0], chain = [[1, 0, 0, 0]]\<rparr>"
  let ?s = "\<lparr>verdict = (\<lambda>_. True), tick = 0, live = 1\<rparr>"
  have "bint_inv ?a" "bint_inv ?b" "bint_small ?a" "bint_small ?b" "bint_shape bint_zero" "chain bint_zero = []"
    by (simp_all add: bint_inv_def bint_shape_def trimmed_def bint_small_def bint_chunks_def bint_zero_def chunk_of_def)
  moreover have "bint_val ?a * bint_val ?b = - (5 * 2 ^ 96) * (7 + 2 ^ 128)"
    by (simp add: bint_val_def mag_def bint_chunks_def)
  moreover have "\<not> malloc_fails ?s"
    by (simp add: malloc_fails_def)
  ultimately show ?thesis
    using bint_mul_correct [of ?a ?b bint_zero ?s] by (auto simp: balanced_def others_def split: if_splits)
qed

lemma replicate_4: "replicate 4 x = [x, x, x, x]"
  by (simp add: eval_nat_numeral)

lemmas mul_eval = bint_mul_def chunk_mac_def replicate_4 bint_set_sign_def bint_get_sign_def is_zero_def bint_eval

text \<open>
  With two factors of two chunks the product can lose a carry: the code adds the old chunk
  and the incoming carry and forgets that this sum can overflow.
\<close>

theorem bint_mul_loses_carry:
  "let a = \<lparr>negative = False, digits = [0, 0, 0, 0xFFFFFFFF], chain = [[0, 0, 0, 0xFFFFFFFF]]\<rparr>;
       res = \<lparr>negative = False, digits = [0, 0, 0, 0],
         chain = [[0, 0, 0, 0], [0, 0, 0, 0], [0, 0, 0, 0], [1, 0, 0, 0]]\<rparr>;
       s = \<lparr>verdict = (\<lambda>_. True), tick = 0, live = 5\<rparr>
   in bint_inv a \<and> bint_inv res \<and>
      (case bint_mul res a a s of Some (r, res', s') \<Rightarrow> r = 0 \<and> mag res' + 2 ^ 384 = mag a * mag a | None \<Rightarrow> False)"
  by (simp add: mul_eval bint_inv_def bint_shape_def trimmed_def mag_def)

section \<open>Correctness of division\<close>

lemma chain_le_of_mag_le:
  assumes "bint_inv a" "bint_shape b" "mag a \<le> mag b"
  shows "length (chain a) \<le> length (chain b)"
  using mag_less_shorter [of b a] assms by (cases "length (chain b) < length (chain a)") auto

lemma set_bit_free: "2 ^ Suc n dvd q \<Longrightarrow> set_bit n q = q + 2 ^ n" for q :: nat
proof -
  assume "2 ^ Suc n dvd q"
  then obtain m where "q = 2 ^ n * (2 * m)"
    by (auto simp: dvd_def)
  then have "\<not> bit q n"
    by (simp add: bit_iff_odd)
  then show ?thesis
    by (simp add: set_bit_eq)
qed

definition owned3 :: "bint \<Rightarrow> bint \<Rightarrow> bint \<Rightarrow> alloc \<Rightarrow> int" where
  "owned3 a b c s = live s - int (length (chain a)) - int (length (chain b)) - int (length (chain c))"

lemma balanced_live: "balanced b s b' s' \<Longrightarrow> live s' = live s - int (length (chain b)) + int (length (chain b')) \<and> verdict s' = verdict s"
  by (auto simp: balanced_def others_def)

text \<open>
  The loop keeps \<open>quot * d + rem\<close> and leaves a remainder below \<open>d\<close>.
\<close>

lemma div_loop_spec:
  "bint_inv sdiv \<Longrightarrow> bint_inv rem \<Longrightarrow> bint_inv quot \<Longrightarrow>
     (0 < n \<Longrightarrow> mag sdiv = d * 2 ^ (n - 1)) \<Longrightarrow> mag rem < d * 2 ^ n \<Longrightarrow> 2 ^ n dvd mag quot \<Longrightarrow>
     \<exists>r sdiv' rem' quot' s'. div_loop n sdiv rem quot s = Some (r, sdiv', rem', quot', s') \<and>
       owned3 sdiv' rem' quot' s' = owned3 sdiv rem quot s \<and> verdict s' = verdict s \<and>
       (r = -1 \<and> malloc_fails s \<or>
        r = 0 \<and> bint_inv sdiv' \<and> bint_inv rem' \<and> bint_inv quot' \<and> negative quot' = negative quot \<and>
        mag rem' < d \<and> mag quot' * d + mag rem' = mag quot * d + mag rem)"
proof (induction n arbitrary: sdiv rem quot s)
  case 0
  then show ?case
    by simp
next
  case (Suc pos)
  note inv = Suc.prems(1-3)
  have sd: "mag sdiv = d * 2 ^ pos"
    using Suc.prems(4) by simp
  show ?case
  proof (cases "mag sdiv \<le> mag rem")
    case True
    then have cmp: "mag_cmp sdiv rem \<le> 0"
      using mag_cmp_sgn [OF inv(1,2)] by (simp add: sgn_if)
    obtain r1 quot1 s1 where q: "bint_bit_set quot pos s = (r1, quot1, s1)"
      by (cases "bint_bit_set quot pos s")
    note qs = bint_bit_set_spec [OF inv(3) q]
    show ?thesis
    proof (cases "r1 < 0")
      case True
      then show ?thesis
        using cmp q qs by (auto simp: owned3_def balanced_def others_def)
    next
      case False
      then have q1: "bint_inv quot1" "mag quot1 = mag quot + 2 ^ pos" "negative quot1 = negative quot"
        using qs set_bit_free [OF Suc.prems(6)] by auto
      have len: "length (chain sdiv) \<le> length (chain rem)"
        using chain_le_of_mag_le [of sdiv rem] inv True by (auto simp: bint_inv_def)
      obtain rem1 s2 where m: "mag_sub rem rem sdiv s1 = Some (rem1, s2)" "bint_inv rem1"
        "mag rem1 = mag rem - mag sdiv" "balanced rem s1 rem1 s2"
        by (rule mag_sub_spec [of rem rem sdiv s1]) (use len inv True in \<open>auto simp: bint_inv_def\<close>)
      obtain sdiv1 s3 where sh: "bint_shift_right sdiv 1 s2 = Some (sdiv1, s3)" "bint_inv sdiv1"
        "mag sdiv1 = mag sdiv div 2" "balanced sdiv s2 sdiv1 s3"
        by (rule bint_shift_right_spec [OF inv(1), of 1 s2]) simp
      have v: "verdict s3 = verdict s" "owned3 sdiv1 rem1 quot1 s3 = owned3 sdiv rem quot s"
        using qs m(4) sh(4) by (auto simp: owned3_def balanced_def others_def)
      have "2 ^ pos dvd mag quot"
        using Suc.prems(6) by (rule dvd_trans [rotated]) simp
      then have dv: "2 ^ pos dvd mag quot1"
        unfolding q1(2) by simp
      have sd1: "mag sdiv1 = d * 2 ^ (pos - 1)" if "0 < pos"
        using that unfolding sh(3) sd by (cases pos) auto
      have lt: "mag rem1 < d * 2 ^ pos"
        unfolding m(3) sd using Suc.prems(5) by simp
      have eq: "mag quot1 * d + mag rem1 = mag quot * d + mag rem"
        using True unfolding q1(2) m(3) sd by (simp add: distrib_left distrib_right mult.commute)
      have "div_loop (Suc pos) sdiv rem quot s = div_loop pos sdiv1 rem1 quot1 s3"
        using cmp q False m(1) sh(1) by simp
      then show ?thesis
        using Suc.IH [OF sh(2) m(2) q1(1) sd1 lt dv, of s3] v q1(3) malloc_fails_cong [OF v(1)]
        unfolding eq by simp
    qed
  next
    case False
    then have cmp: "\<not> mag_cmp sdiv rem \<le> 0"
      using mag_cmp_sgn [OF inv(1,2)] by (simp add: sgn_if)
    obtain sdiv1 s3 where sh: "bint_shift_right sdiv 1 s = Some (sdiv1, s3)" "bint_inv sdiv1"
      "mag sdiv1 = mag sdiv div 2" "balanced sdiv s sdiv1 s3"
      by (rule bint_shift_right_spec [OF inv(1), of 1 s]) simp
    have v: "verdict s3 = verdict s" "owned3 sdiv1 rem quot s3 = owned3 sdiv rem quot s"
      using sh(4) by (auto simp: owned3_def balanced_def others_def)
    have dv: "2 ^ pos dvd mag quot"
      using Suc.prems(6) by (rule dvd_trans [rotated]) simp
    have sd1: "mag sdiv1 = d * 2 ^ (pos - 1)" if "0 < pos"
      using that unfolding sh(3) sd by (cases pos) auto
    have lt: "mag rem < d * 2 ^ pos"
      using False sd by simp
    have "div_loop (Suc pos) sdiv rem quot s = div_loop pos sdiv1 rem quot s3"
      using cmp sh(1) by simp
    then show ?thesis
      using Suc.IH [OF sh(2) inv(2,3) sd1 lt dv, of s3] v malloc_fails_cong [OF v(1)] by simp
  qed
qed

text \<open>
  Adding one to a number keeps the carry unless its component above the first chunk is all ones.
\<close>

lemma carry_safe_one:
  assumes shape: "bint_shape q" and ones: "mag q div 2 ^ 128 mod 2 ^ 32 \<noteq> 2 ^ 32 - 1"
  shows "carry_safe (bint_chunks q) (bint_chunks bint_one)"
proof (cases "chain q")
  case Nil
  then show ?thesis
    by (simp add: carry_safe_def bint_chunks_def bint_one_def)
next
  case (Cons c cs)
  have ok: "chunk_ok (digits q)" "chunk_ok c"
    using shape Cons by (auto simp: bint_shape_def bint_chunks_def)
  then obtain w ws where c: "c = w # ws"
    by (cases c) auto
  have "wval (digits q) < 2 ^ 128"
    using wval_less [of "digits q"] ok by simp
  then have "mag q div 2 ^ 128 = cval (chain q)"
    using ok by (simp add: mag_def bint_chunks_def)
  also have "\<dots> = unat w + 2 ^ 32 * (wval ws + 2 ^ 96 * cval cs)"
    using ok by (simp add: Cons c)
  finally have "mag q div 2 ^ 128 mod 2 ^ 32 = unat w"
    using unat_lt_exp [of w] by (simp del: distrib_left_numeral)
  moreover have "unat (- 1 :: u32) = 2 ^ 32 - 1"
    by (simp add: unsigned_minus_1_eq_mask mask_eq_exp_minus_1)
  ultimately have "w \<noteq> - 1"
    using ones by auto
  then show ?thesis
    by (simp add: carry_safe_def bint_chunks_def bint_one_def Cons c)
qed

definition owned2 :: "bint \<Rightarrow> bint \<Rightarrow> alloc \<Rightarrow> int" where
  "owned2 a b s = live s - int (length (chain a)) - int (length (chain b))"

lemma bint_one_facts: "bint_inv bint_one" "bint_small bint_one" "bint_val bint_one = 1" "\<not> negative bint_one"
  by (simp_all add: bint_inv_def bint_shape_def trimmed_def bint_one_def bint_chunks_def chunk_of_def
      bint_small_def bint_val_def mag_def)

lemma small_of_mag_le: "bint_inv a \<Longrightarrow> bint_shape b \<Longrightarrow> mag a \<le> mag b \<Longrightarrow> bint_small b \<Longrightarrow> bint_small a"
  using chain_le_of_mag_le [of a b] by (simp add: bint_small_def)

lemma div_signs_spec:
  assumes inv: "bint_inv dividend" "bint_inv divisor" "bint_inv rem" "bint_inv quot"
    and small: "bint_small dividend" "bint_small divisor" and quot: "\<not> negative quot"
    and lt: "mag rem < mag divisor" and eq: "mag quot * mag divisor + mag rem = mag dividend"
    and ones: "negative dividend \<noteq> negative divisor \<Longrightarrow> mag quot div 2 ^ 128 mod 2 ^ 32 \<noteq> 2 ^ 32 - 1"
  shows "\<exists>r rem' quot' s'. div_signs dividend divisor rem quot s = Some (r, rem', quot', s') \<and>
    owned2 rem' quot' s' = owned2 rem quot s \<and> verdict s' = verdict s \<and>
    (r = -1 \<and> malloc_fails s \<or> r = 0 \<and> bint_inv rem' \<and> bint_inv quot' \<and>
     bint_val dividend = bint_val divisor * bint_val quot' + bint_val rem' \<and>
     negative rem' = negative divisor \<and> mag rem' \<le> mag divisor \<and>
     (negative dividend = negative divisor \<longrightarrow> mag rem' < mag divisor))"
proof -
  let ?rem = "rem\<lparr>negative := negative divisor\<rparr>"
  have eqi: "int (mag dividend) = int (mag quot) * int (mag divisor) + int (mag rem)"
    using eq by (metis of_nat_add of_nat_mult)
  show ?thesis
  proof (cases "negative dividend = negative divisor")
    case True
    then have "div_signs dividend divisor rem quot s = Some (0, ?rem, quot, s)"
      by (auto simp: div_signs_def)
    moreover have "bint_val dividend = bint_val divisor * bint_val quot + bint_val ?rem"
      using True quot eqi by (auto simp: bint_val_def algebra_simps)
    ultimately show ?thesis
      using inv lt by (auto simp: owned2_def)
  next
    case False
    have "mag quot * 1 \<le> mag quot * mag divisor"
      using lt by (intro mult_le_mono2) simp
    then have "mag quot \<le> mag dividend"
      using eq by linarith
    then have sq: "bint_small quot" and sr: "bint_small ?rem"
      using small_of_mag_le [of quot dividend] small_of_mag_le [of rem divisor] inv small lt
      by (auto simp: bint_inv_def bint_small_def)
    have safe: "carry_safe (bint_chunks quot) (bint_chunks bint_one)"
      using carry_safe_one ones [OF False] inv(4) by (simp add: bint_inv_def)
    obtain r1 quot1 s1 where a: "bint_add quot bint_one s = Some (r1, quot1, s1)" "balanced quot s quot1 s1"
      "if r1 < 0 then quot1 = quot \<and> malloc_fails s else bint_inv quot1 \<and> bint_val quot1 = bint_val quot + 1"
      using bint_add_correct [OF inv(4) bint_one_facts(1) sq bint_one_facts(2) safe, of s] bint_one_facts(3) by auto
    show ?thesis
    proof (cases "r1 < 0")
      case True
      then have "div_signs dividend divisor rem quot s = Some (-1, ?rem, quot1, s1)"
        using False a(1) by (auto simp: div_signs_def)
      then show ?thesis
        using a(2,3) True by (auto simp: owned2_def balanced_def others_def)
    next
      case r1: False
      obtain r2 rem1 s2 where b: "bint_sub ?rem divisor s1 = Some (r2, rem1, s2)" "balanced ?rem s1 rem1 s2"
        "if r2 < 0 then rem1 = ?rem \<and> malloc_fails s1 else bint_inv rem1 \<and> bint_val rem1 = bint_val ?rem - bint_val divisor"
        using bint_sub_correct [of ?rem divisor s1] inv small sr by auto
      have v: "verdict s1 = verdict s" "verdict s2 = verdict s"
        using a(2) b(2) by (auto simp: balanced_def)
      have own: "owned2 rem1 quot1 s2 = owned2 rem quot s"
        using a(2) b(2) by (auto simp: owned2_def balanced_def others_def)
      show ?thesis
      proof (cases "r2 < 0")
        case True
        then have "div_signs dividend divisor rem quot s = Some (-1, rem1, quot1, s2)"
          using False a(1) r1 b(1) by (auto simp: div_signs_def)
        then show ?thesis
          using own v b(3) True malloc_fails_cong [OF v(1)] by auto
      next
        case r2: False
        let ?r = "rem1\<lparr>negative := negative divisor\<rparr>" and ?q = "quot1\<lparr>negative := True\<rparr>"
        have res: "div_signs dividend divisor rem quot s = Some (0, ?r, ?q, s2)"
          using False a(1) r1 b(1) r2 by (auto simp: div_signs_def)
        have vr: "bint_val rem1 = bint_val ?rem - bint_val divisor" and vq: "bint_val quot1 = bint_val quot + 1"
          and i: "bint_inv rem1" "bint_inv quot1"
          using a(3) b(3) r1 r2 by auto
        have m1: "mag quot1 = mag quot + 1"
          using vq quot by (auto simp: bint_val_def split: if_splits)
        have m2: "int (mag rem1) = int (mag divisor) - int (mag rem)"
          using vr lt by (auto simp: bint_val_def split: if_splits)
        have "bint_val dividend = bint_val divisor * bint_val ?q + bint_val ?r"
          using False m1 m2 eqi by (auto simp: bint_val_def algebra_simps)
        moreover have "mag ?r \<le> mag divisor"
          using m2 by simp
        ultimately show ?thesis
          using res own v i False by (auto simp: owned2_def)
      qed
    qed
  qed
qed

lemma bint_init_0: "bint_init 0 s = (bint_zero, s)"
  by (simp add: bint_init_def bint_set_def bint_zero_def)

lemma bint_zero_facts: "bint_inv bint_zero" "bint_shape bint_zero" "mag bint_zero = 0" "chain bint_zero = []" "\<not> negative bint_zero"
  by (simp_all add: bint_inv_def bint_shape_def trimmed_def bint_zero_def bint_chunks_def chunk_of_def mag_def)

text \<open>The chunks that an output argument owns; the argument may be \<open>NULL\<close>.\<close>

definition owned :: "bint option \<Rightarrow> int" where
  "owned p = (case p of None \<Rightarrow> 0 | Some x \<Rightarrow> int (length (chain x)))"

definition div_result :: "bint option \<Rightarrow> bint \<Rightarrow> bint \<Rightarrow> bint option \<Rightarrow> alloc
    \<Rightarrow> int \<Rightarrow> bint option \<Rightarrow> bint option \<Rightarrow> alloc \<Rightarrow> bool" where
  "div_result quotientp dividend divisor remainderp s r q' m' s' \<longleftrightarrow>
     live s' - owned q' - owned m' = live s - owned quotientp - owned remainderp \<and>
     (if r < 0 then q' = quotientp \<and> m' = remainderp \<and> malloc_fails s
      else r = 0 \<and> (\<exists>q m. q' = map_option (\<lambda>_. q) quotientp \<and> m' = map_option (\<lambda>_. m) remainderp \<and>
        bint_inv q \<and> bint_inv m \<and> bint_val dividend = bint_val divisor * bint_val q + bint_val m \<and>
        negative m = negative divisor \<and> mag m \<le> mag divisor \<and>
        (negative dividend = negative divisor \<longrightarrow> mag m < mag divisor)))"

lemma div_fail_result:
  assumes "owned3 rem sdiv quot s' = live s" "malloc_fails s"
  shows "\<exists>r q' m' s2. div_fail quotientp remainderp rem sdiv quot s' = Some (r, q', m', s2) \<and>
    div_result quotientp dividend divisor remainderp s r q' m' s2"
  using assms by (simp add: div_fail_def div_result_def owned3_def bint_destroy_def)

lemma swap_out_owned:
  "swap_out p x = (p', y) \<Longrightarrow> p' = map_option (\<lambda>_. x) p \<and> owned p' + int (length (chain y)) = owned p + int (length (chain x))"
  by (auto simp: swap_out_def owned_def bint_swap_def split: option.splits)

lemma div_setup_spec:
  assumes inv: "bint_inv dividend" "bint_inv divisor" and small: "bint_small dividend" "bint_small divisor"
    and top: "bint_bit_length dividend \<le> bint_bit_length divisor \<or> bint_bit_length dividend mod 128 \<noteq> 0"
    and nz: "mag divisor \<noteq> 0"
  shows "\<exists>r sdiv rem s'. div_setup dividend divisor bint_zero bint_zero s = Some (r, sdiv, rem, s') \<and>
    owned2 sdiv rem s' = live s \<and> verdict s' = verdict s \<and>
    (r = -1 \<and> malloc_fails s \<or> r = 0 \<and> bint_inv sdiv \<and> bint_inv rem \<and> mag rem = mag dividend \<and>
     mag sdiv = mag divisor * 2 ^ (bint_bit_length dividend - bint_bit_length divisor))"
proof -
  let ?n = "bint_bit_length dividend" and ?d = "bint_bit_length divisor"
  note ln = bint_bit_length_spec [OF inv(1) small(1)]
  obtain r1 sdiv1 s1 where c: "bint_copy bint_zero divisor s = Some (r1, sdiv1, s1)" "balanced bint_zero s sdiv1 s1"
    "r1 = -1 \<and> sdiv1 = bint_zero \<and> malloc_fails s \<or> r1 = 0 \<and> sdiv1 = divisor"
    using bint_copy_spec [OF inv(2) small(2) bint_zero_facts(2), of s] by metis
  show ?thesis
  proof (cases "r1 < 0")
    case True
    then show ?thesis
      using c by (auto simp: div_setup_def owned2_def balanced_def others_def bint_zero_facts)
  next
    case r1: False
    then have s1: "sdiv1 = divisor"
      using c(3) by auto
    have cnt: "?n - ?d < 2 ^ 31"
      using ln small(1) by (auto simp: bint_small_def)
    obtain r2 sdiv2 s2 where sh: "(if ?d < ?n then bint_shift_left divisor (?n - ?d) s1 else Some (0, divisor, s1))
        = Some (r2, sdiv2, s2)" "balanced divisor s1 sdiv2 s2"
      "r2 = -1 \<and> malloc_fails s1 \<or> r2 = 0 \<and> bint_inv sdiv2 \<and> mag sdiv2 = mag divisor * 2 ^ (?n - ?d)"
    proof (cases "?d < ?n")
      case True
      obtain r b' s' where "bint_shift_left divisor (?n - ?d) s1 = Some (r, b', s')" "balanced divisor s1 b' s'"
        "r = -1 \<and> b' = divisor \<and> malloc_fails s1 \<or> r = 0 \<and> mag b' = mag divisor * 2 ^ (?n - ?d) \<and>
          (bint_inv b' \<longleftrightarrow> mag divisor = 0 \<or> (?d + (?n - ?d)) mod 128 \<noteq> 0)"
        using bint_shift_left_spec [OF inv(2) small(2) cnt, of s1] by metis
      then show thesis
        using True top that by auto
    next
      case False
      then show thesis
        using inv(2) that by (auto simp: balanced_def)
    qed
    have v2: "verdict s2 = verdict s" "owned2 sdiv2 bint_zero s2 = live s"
      using c(2) sh(2) s1 by (auto simp: balanced_def others_def owned2_def bint_zero_facts)
    show ?thesis
    proof (cases "r2 < 0")
      case True
      then show ?thesis
        using c(1) r1 s1 sh(1,3) v2 malloc_fails_cong [of s1 s] c(2)
        by (auto simp: div_setup_def Let_def balanced_def)
    next
      case r2: False
      obtain r3 rem s3 where m: "bint_copy bint_zero dividend s2 = Some (r3, rem, s3)" "balanced bint_zero s2 rem s3"
        "r3 = -1 \<and> rem = bint_zero \<and> malloc_fails s2 \<or> r3 = 0 \<and> rem = dividend"
        using bint_copy_spec [OF inv(1) small(1) bint_zero_facts(2), of s2] by metis
      have "div_setup dividend divisor bint_zero bint_zero s = (if r3 < 0 then Some (-1, sdiv2, rem, s3)
          else Some (0, sdiv2\<lparr>negative := False\<rparr>, rem\<lparr>negative := False\<rparr>, s3))"
        using c(1) r1 s1 sh(1) r2 m(1) by (simp add: div_setup_def Let_def)
      moreover have "verdict s3 = verdict s" "owned2 sdiv2 rem s3 = live s"
        using v2 m(2) by (auto simp: balanced_def others_def owned2_def bint_zero_facts)
      ultimately show ?thesis
        using m(3) sh(3) r2 inv(1) malloc_fails_cong [OF v2(1)] by (auto simp: owned2_def)
    qed
  qed
qed

lemma div_finish_spec:
  assumes own: "owned3 sdiv rem quot s1 = live s" "verdict s1 = verdict s"
    and inv: "bint_inv dividend" "bint_inv divisor" "bint_inv rem" "bint_inv quot"
    and small: "bint_small dividend" "bint_small divisor" and quot: "\<not> negative quot"
    and lt: "mag rem < mag divisor" and eq: "mag quot * mag divisor + mag rem = mag dividend"
    and ones: "negative dividend \<noteq> negative divisor \<Longrightarrow> mag quot div 2 ^ 128 mod 2 ^ 32 \<noteq> 2 ^ 32 - 1"
  shows "\<exists>r q' m' s'. div_finish quotientp dividend divisor remainderp sdiv rem quot s1 = Some (r, q', m', s') \<and>
    div_result quotientp dividend divisor remainderp s r q' m' s'"
proof -
  obtain r rem1 quot1 s2 where d: "div_signs dividend divisor rem quot s1 = Some (r, rem1, quot1, s2)"
    "owned2 rem1 quot1 s2 = owned2 rem quot s1"
    "r = -1 \<and> malloc_fails s1 \<or> r = 0 \<and> bint_inv rem1 \<and> bint_inv quot1 \<and>
     bint_val dividend = bint_val divisor * bint_val quot1 + bint_val rem1 \<and>
     negative rem1 = negative divisor \<and> mag rem1 \<le> mag divisor \<and>
     (negative dividend = negative divisor \<longrightarrow> mag rem1 < mag divisor)"
    using div_signs_spec [OF inv small quot lt eq ones, of s1] by blast
  show ?thesis
  proof (cases "r < 0")
    case True
    then have "malloc_fails s" "owned3 rem1 sdiv quot1 s2 = live s"
      using d(2,3) own malloc_fails_cong [OF own(2)] by (auto simp: owned2_def owned3_def)
    from div_fail_result [OF this(2,1)] show ?thesis
      using d(1) True by (simp add: div_finish_def)
  next
    case False
    obtain m' rem2 where s1: "swap_out remainderp rem1 = (m', rem2)"
      by (cases "swap_out remainderp rem1")
    obtain q' quot2 where s2: "swap_out quotientp quot1 = (q', quot2)"
      by (cases "swap_out quotientp quot1")
    have "live (bint_destroy quot2 (bint_destroy sdiv (bint_destroy rem2 s2))) - owned q' - owned m'
        = live s - owned quotientp - owned remainderp"
      using swap_out_owned [OF s1, THEN conjunct2] swap_out_owned [OF s2, THEN conjunct2] d(2) own(1)
      by (simp add: bint_destroy_def owned2_def owned3_def)
    then show ?thesis
      using d(1,3) False s1 s2 swap_out_owned [OF s1] swap_out_owned [OF s2]
      by (auto simp: div_result_def div_finish_def)
  qed
qed

lemma bint_div_spec:
  assumes inv: "bint_inv dividend" "bint_inv divisor" and small: "bint_small dividend" "bint_small divisor"
    and nz: "mag divisor \<noteq> 0"
    and top: "bint_bit_length dividend \<le> bint_bit_length divisor \<or> bint_bit_length dividend mod 128 \<noteq> 0"
    and ones: "negative dividend \<noteq> negative divisor \<Longrightarrow>
      (mag dividend div mag divisor) div 2 ^ 128 mod 2 ^ 32 \<noteq> 2 ^ 32 - 1"
  shows "\<exists>r q' m' s'. bint_div quotientp dividend divisor remainderp s = Some (r, q', m', s') \<and>
    div_result quotientp dividend divisor remainderp s r q' m' s'"
proof -
  define N where "N = bint_bit_length dividend"
  define D where "D = bint_bit_length divisor"
  note ln = bint_bit_length_spec [OF inv(1) small(1), folded N_def]
  note ld = bint_bit_length_spec [OF inv(2) small(2), folded D_def]
  have D0: "0 < D"
    using ld nz by (auto simp: is_len_def)
  define k where "k = (if D < N then N - D + 1 else 1)"
  obtain r1 sdiv rem s1 where st: "div_setup dividend divisor bint_zero bint_zero s = Some (r1, sdiv, rem, s1)"
    "owned2 sdiv rem s1 = live s" "verdict s1 = verdict s"
    "r1 = -1 \<and> malloc_fails s \<or> r1 = 0 \<and> bint_inv sdiv \<and> bint_inv rem \<and> mag rem = mag dividend \<and>
     mag sdiv = mag divisor * 2 ^ (k - 1)"
    using div_setup_spec [OF inv small top nz, of s] by (auto simp: k_def N_def D_def)
  show ?thesis
  proof (cases "r1 < 0")
    case True
    then have "owned3 rem sdiv bint_zero s1 = live s" "malloc_fails s"
      using st(2,4) by (auto simp: owned2_def owned3_def bint_zero_facts)
    from div_fail_result [OF this] show ?thesis
      using st(1) True D0 by (simp add: bint_div_def Let_def bint_init_0 D_def)
  next
    case r1: False
    have "mag dividend < 2 ^ N" "2 ^ (D - 1) \<le> mag divisor"
      using ln ld D0 by (auto simp: is_len_def)
    moreover have "(2::nat) ^ N \<le> 2 ^ (D - 1) * 2 ^ k"
      using D0 by (auto simp: k_def intro: power_increasing simp flip: power_add)
    moreover have "2 ^ (D - 1) * 2 ^ k \<le> mag divisor * 2 ^ k"
      using calculation(2) by (rule mult_le_mono1)
    ultimately have lt: "mag rem < mag divisor * 2 ^ k"
      using st(4) r1 by linarith
    have z: "2 ^ k dvd mag bint_zero" "bint_inv bint_zero"
      by (simp_all add: bint_zero_facts)
    obtain r2 sdiv2 rem2 quot s2 where lp: "div_loop k sdiv rem bint_zero s1 = Some (r2, sdiv2, rem2, quot, s2)"
      "owned3 sdiv2 rem2 quot s2 = owned3 sdiv rem bint_zero s1" "verdict s2 = verdict s1"
      "r2 = -1 \<and> malloc_fails s1 \<or> r2 = 0 \<and> bint_inv sdiv2 \<and> bint_inv rem2 \<and> bint_inv quot \<and>
        \<not> negative quot \<and> mag rem2 < mag divisor \<and> mag quot * mag divisor + mag rem2 = mag dividend"
      using div_loop_spec [of sdiv rem bint_zero k "mag divisor" s1] st(4) r1 lt z by (auto simp: bint_zero_facts)
    have own: "owned3 sdiv2 rem2 quot s2 = live s" "verdict s2 = verdict s"
      using lp(2,3) st(2,3) by (auto simp: owned2_def owned3_def bint_zero_facts)
    have eq: "bint_div quotientp dividend divisor remainderp s =
        (if r2 < 0 then div_fail quotientp remainderp rem2 sdiv2 quot s2
         else div_finish quotientp dividend divisor remainderp sdiv2 rem2 quot s2)"
      unfolding bint_div_def Let_def N_def [symmetric] D_def [symmetric] k_def [symmetric]
      using st(1) r1 D0 lp(1) by (simp add: bint_init_0 del: div_loop.simps)
    show ?thesis
    proof (cases "r2 < 0")
      case True
      then have "malloc_fails s" "owned3 rem2 sdiv2 quot s2 = live s"
        using lp(4) own malloc_fails_cong [OF st(3)] by (auto simp: owned3_def)
      from div_fail_result [OF this(2,1)] show ?thesis
        using True by (simp add: eq)
    next
      case r2: False
      then have q: "bint_inv rem2" "bint_inv quot" "\<not> negative quot" "mag rem2 < mag divisor"
        "mag quot * mag divisor + mag rem2 = mag dividend"
        using lp(4) by auto
      have "mag quot = mag dividend div mag divisor"
        unfolding q(5) [symmetric] using q(4) by simp
      from div_finish_spec [OF own inv q(1,2) small q(3-5)] ones this r2 show ?thesis
        by (simp add: eq)
    qed
  qed
qed

text \<open>
  A division whose remainder is smaller than the divisor, and of its sign, is the division that rounds down.
\<close>

lemma div_result_floor:
  assumes "bint_val a = bint_val b * bint_val q + bint_val m" "negative m = negative b" "mag m \<le> mag b" "mag b \<noteq> 0"
    and "negative a = negative b \<longrightarrow> mag m < mag b" "negative a \<noteq> negative b \<Longrightarrow> \<not> mag b dvd mag a"
  shows "bint_val q = bint_val a div bint_val b \<and> bint_val m = bint_val a mod bint_val b"
proof -
  have "mag m \<noteq> mag b"
  proof
    assume eq: "mag m = mag b"
    then have "bint_val m = bint_val b"
      using assms(2) by (simp add: bint_val_def)
    then have "bint_val b dvd bint_val a"
      using assms(1) by simp
    then have "mag b dvd mag a"
      by (auto simp: bint_val_def split: if_splits)
    with eq assms(5,6) show False by auto
  qed
  with assms(3) have lt: "mag m < mag b" by simp
  show ?thesis
  proof (cases "negative b")
    case True
    then have "bint_val m \<le> 0" "bint_val b < bint_val m"
      using assms(2) lt by (simp_all add: bint_val_def)
    then show ?thesis
      using int_div_neg_eq [OF assms(1)] int_mod_neg_eq [OF assms(1)] by simp
  next
    case False
    then have "0 \<le> bint_val m" "bint_val m < bint_val b"
      using assms(2) lt by (simp_all add: bint_val_def)
    then show ?thesis
      using int_div_pos_eq [OF assms(1)] int_mod_pos_eq [OF assms(1)] by simp
  qed
qed

text \<open>
  C6: \<open>bint_div\<close> refuses a zero divisor and changes nothing; otherwise it fails because the allocator did and changes nothing, or it
  delivers the quotient rounded down and the remainder of the sign of the divisor,
  \<open>dividend = divisor * quotient + remainder\<close>, to those of the two results that are wanted. No chunk is lost in any
  case. Three hypotheses keep clear of defects: the length of a dividend longer than the divisor is not a
  multiple of the chunk size (see \<open>bint_div_short_quotient\<close>), and for operands of different sign the division is not exact
  (see \<open>bint_div_exact_borrows\<close>) and the quotient can be incremented without losing a carry.
\<close>

theorem bint_div_correct:
  assumes "bint_inv dividend" "bint_inv divisor" "bint_small dividend" "bint_small divisor"
    and "bint_bit_length dividend \<le> bint_bit_length divisor \<or> bint_bit_length dividend mod CHUNK_BITS \<noteq> 0"
    and "negative dividend \<noteq> negative divisor \<Longrightarrow>
      (mag dividend div mag divisor) div 2 ^ 128 mod 2 ^ 32 \<noteq> 2 ^ 32 - 1"
    and "negative dividend \<noteq> negative divisor \<Longrightarrow> \<not> mag divisor dvd mag dividend"
  shows "\<exists>r q' m' s'. bint_div quotientp dividend divisor remainderp s = Some (r, q', m', s') \<and>
    live s' - owned q' - owned m' = live s - owned quotientp - owned remainderp \<and>
    (if mag divisor = 0 then r = 1 \<and> q' = quotientp \<and> m' = remainderp
     else if r < 0 then q' = quotientp \<and> m' = remainderp \<and> malloc_fails s
     else r = 0 \<and> (\<exists>q m. q' = map_option (\<lambda>_. q) quotientp \<and> m' = map_option (\<lambda>_. m) remainderp \<and> bint_inv q \<and> bint_inv m \<and>
       bint_val q = bint_val dividend div bint_val divisor \<and> bint_val m = bint_val dividend mod bint_val divisor))"
proof (cases "mag divisor = 0")
  case True
  then have "bint_bit_length divisor = 0"
    using bint_bit_length_spec [OF assms(2,4)] by (simp add: is_len_def)
  with True show ?thesis
    by (simp add: bint_div_def)
next
  case False
  obtain r q' m' s' where d: "bint_div quotientp dividend divisor remainderp s = Some (r, q', m', s')"
      "div_result quotientp dividend divisor remainderp s r q' m' s'"
    using bint_div_spec [OF assms(1-4) False assms(5,6)] by blast
  show ?thesis
  proof (cases "r < 0")
    case True
    with d False show ?thesis by (auto simp: div_result_def)
  next
    case nonneg: False
    then obtain q m where q: "r = 0" "q' = map_option (\<lambda>_. q) quotientp" "m' = map_option (\<lambda>_. m) remainderp" "bint_inv q" "bint_inv m"
        "bint_val dividend = bint_val divisor * bint_val q + bint_val m" "negative m = negative divisor" "mag m \<le> mag divisor"
        "negative dividend = negative divisor \<longrightarrow> mag m < mag divisor"
      using d(2) unfolding div_result_def by auto
    from div_result_floor [OF q(6-8) False q(9) assms(7)] q(1-5) d nonneg False show ?thesis
      by (auto simp: div_result_def)
  qed
qed

theorem bint_div_correct_witness:
  "\<exists>q m s'. bint_div (Some bint_zero) \<lparr>negative = True, digits = [7, 0, 0, 0], chain = []\<rparr>
      \<lparr>negative = False, digits = [2, 0, 0, 0], chain = []\<rparr> (Some bint_zero)
      \<lparr>verdict = (\<lambda>_. True), tick = 0, live = 0\<rparr> = Some (0, Some q, Some m, s') \<and>
    bint_val q = - 4 \<and> bint_val m = 1"
proof -
  let ?a = "\<lparr>negative = True, digits = [7, 0, 0, 0], chain = []\<rparr>"
  let ?b = "\<lparr>negative = False, digits = [2, 0, 0, 0], chain = []\<rparr>"
  let ?s = "\<lparr>verdict = (\<lambda>_. True), tick = 0, live = 0\<rparr>"
  have "bint_inv ?a" "bint_inv ?b" "bint_small ?a" "bint_small ?b"
    by (simp_all add: bint_inv_def bint_shape_def trimmed_def bint_small_def bint_chunks_def)
  moreover have "bint_bit_length ?a = 3" "mag ?a = 7" "mag ?b = 2"
    by (simp_all add: bint_eval mag_def)
  moreover have "bint_val ?a = - 7" "bint_val ?b = 2"
    by (simp_all add: bint_val_def mag_def bint_chunks_def)
  moreover have "\<not> malloc_fails ?s"
    by (simp add: malloc_fails_def)
  ultimately show ?thesis
    using bint_div_correct [of ?a ?b "Some bint_zero" "Some bint_zero" ?s]
    by (auto split: if_splits)
qed

section \<open>Correctness of exponentiation\<close>

lemma bint_init_1: "bint_init 1 s = (bint_one, s)"
  by (simp add: bint_init_def bint_set_def bint_one_def word_sless_alt)

text \<open>
  As long as every intermediate number has fewer than 128 bits, no product needs a second chunk,
  so every number stays in normal form and the allocator is not used.
\<close>

lemma bint_mul_small:
  assumes inv: "bint_inv a" "bint_inv b" and single: "chain a = []" "chain b = []" "chain p = []" "bint_shape p"
    and small: "bint_bit_length a + bint_bit_length b < 128"
  shows "\<exists>p'. bint_mul p a b s = Some (0, p', s) \<and> bint_inv p' \<and> chain p' = [] \<and>
    bint_val p' = bint_val a * bint_val b \<and> mag p' = mag a * mag b"
proof -
  have sm: "bint_small a" "bint_small b"
    using single by (simp_all add: bint_small_def)
  have nf: "bint_mul p a b s = Some (r, res', s') \<Longrightarrow> r = 0 \<and> s' = s" for r res' s'
    using small single by (auto simp: bint_mul_def extend_length_def split: if_splits)
  obtain r res' s' where m: "bint_mul p a b s = Some (r, res', s')"
    "r = -1 \<or> r = 0 \<and> bint_shape res' \<and> bint_val res' = bint_val a * bint_val b \<and> mag res' = mag a * mag b \<and>
       length (chain res') = max (length (chain p)) ((bint_bit_length a + bint_bit_length b) div 128)"
    using bint_mul_spec [OF inv sm single(4), of s] single by metis
  then have "chain res' = []" "r = 0" "s' = s"
    using nf [OF m(1)] small single by auto
  with m show ?thesis
    by (auto simp: bint_inv_def trimmed_def)
qed


lemma is_len_le: "is_len L m \<Longrightarrow> m < 2 ^ j \<Longrightarrow> L \<le> j"
proof (rule ccontr)
  assume a: "is_len L m" "m < 2 ^ j" "\<not> L \<le> j"
  then have "(2::nat) ^ j \<le> 2 ^ (L - 1)"
    by (intro power_increasing) auto
  with a(2) have "m < 2 ^ (L - 1)"
    by (rule less_le_trans)
  with a show False
    by (auto simp: is_len_def)
qed

lemma bit_length_le: "bint_inv b \<Longrightarrow> chain b = [] \<Longrightarrow> mag b < 2 ^ j \<Longrightarrow> bint_bit_length b \<le> j"
  using bint_bit_length_spec [of b] is_len_le [of "bint_bit_length b" "mag b" j] by (simp add: bint_small_def)

lemma mod_pow_Suc: "E mod 2 ^ Suc i = E mod 2 ^ i + (if bit E i then 2 ^ i else 0)" for E :: nat
proof -
  have "E mod 2 ^ Suc i = 2 ^ i * (E div 2 ^ i mod 2) + E mod 2 ^ i"
    by (simp only: power_Suc2 mod_mult2_eq)
  also have "E div 2 ^ i mod 2 = (if bit E i then 1 else 0)"
    by (simp add: bit_iff_odd odd_iff_mod_2_eq_one)
  finally show ?thesis
    by simp
qed

lemma pow_below:
  fixes x :: nat
  assumes "x < 2 ^ k" "0 < k" "e < e'"
  shows "x ^ e < 2 ^ (k * e')"
proof -
  have "x ^ e \<le> (2 ^ k) ^ e"
    using assms(1) by (intro power_mono) auto
  also have "\<dots> = 2 ^ (k * e)"
    by (simp add: power_mult)
  also have "\<dots> < 2 ^ (k * e')"
    using assms(2,3) by (intro power_strict_increasing) auto
  finally show ?thesis .
qed

lemma expt_loop_spec:
  assumes k: "mag base < 2 ^ k" "0 < k" and exp: "bint_shape exponent"
  defines "E \<equiv> mag exponent"
  shows "k * 2 ^ (n + i) < 128 \<Longrightarrow>
    bint_inv r \<Longrightarrow> bint_inv b \<Longrightarrow> bint_shape p \<Longrightarrow> chain r = [] \<Longrightarrow> chain b = [] \<Longrightarrow> chain p = [] \<Longrightarrow>
    bint_val r = bint_val base ^ (E mod 2 ^ i) \<Longrightarrow> mag r = mag base ^ (E mod 2 ^ i) \<Longrightarrow>
    bint_val b = bint_val base ^ (2 ^ i) \<Longrightarrow> mag b = mag base ^ (2 ^ i) \<Longrightarrow>
    \<exists>r' b' p'. expt_loop n i exponent r b p s = Some (0, r', b', p', s) \<and> bint_inv r' \<and>
      chain r' = [] \<and> chain b' = [] \<and> chain p' = [] \<and> bint_val r' = bint_val base ^ (E mod 2 ^ (n + i))"
proof (induction n arbitrary: i r b p)
  case 0
  then show ?case
    by simp
next
  case (Suc n)
  note inv = Suc.prems(2-4) and ch = Suc.prems(5-7) and vr = Suc.prems(8,9) and vb = Suc.prems(10,11)
  have "k * 2 ^ i + k * 2 ^ i = k * 2 ^ Suc i"
    by simp
  also have "\<dots> \<le> k * 2 ^ (Suc n + i)"
    by (intro mult_le_mono2 power_increasing) auto
  also note Suc.prems(1)
  finally have k1: "k * 2 ^ i + k * 2 ^ i < 128" .
  have "mag r < 2 ^ (k * 2 ^ i)"
    unfolding vr(2) using k by (intro pow_below) auto
  then have lr: "bint_bit_length r \<le> k * 2 ^ i"
    using bit_length_le inv ch by blast
  have "mag b < (2 ^ k) ^ (2 ^ i)"
    unfolding vb(2) using k by (intro power_strict_mono) auto
  then have lb: "bint_bit_length b \<le> k * 2 ^ i"
    using bit_length_le [of b "k * 2 ^ i"] inv ch by (simp add: power_mult)
  have shape: "bint_shape r" "bint_shape b"
    using inv by (auto simp: bint_inv_def)
  have get: "bint_bit_get exponent i = bit E i"
    unfolding E_def by (rule bint_bit_get_bit [OF exp])
  obtain r1 p1 where step: "(if bint_bit_get exponent i
        then (case bint_mul p r b s of None \<Rightarrow> None
          | Some (e, p1, s1) \<Rightarrow> if e < 0 then Some (-1 :: int, r, p1, s1)
            else (case bint_swap (p1, r) of (p2, r1) \<Rightarrow> Some (0, r1, p2, s1)))
        else Some (0, r, p, s)) = Some (0, r1, p1, s)"
    and r1: "bint_inv r1" "bint_shape p1" "chain r1 = []" "chain p1 = []"
      "bint_val r1 = bint_val base ^ (E mod 2 ^ Suc i)" "mag r1 = mag base ^ (E mod 2 ^ Suc i)"
  proof (cases "bit E i")
    case True
    obtain p' where p': "bint_mul p r b s = Some (0, p', s)" "bint_inv p'" "chain p' = []"
      "bint_val p' = bint_val r * bint_val b" "mag p' = mag r * mag b"
      using bint_mul_small [OF inv(1,2) ch inv(3), of s] lr lb k1 by auto
    have pm: "x ^ (E mod 2 ^ Suc i) = x ^ (E mod 2 ^ i) * x ^ 2 ^ i" for x :: "'a::monoid_mult"
      by (simp only: mod_pow_Suc True if_True power_add)
    show thesis
      using True p' get shape ch vr vb by (intro that [of p' r]) (simp_all add: bint_swap_def pm del: power_Suc)
  next
    case False
    have pm: "E mod 2 ^ Suc i = E mod 2 ^ i"
      by (simp only: mod_pow_Suc False if_False add_0_right)
    show thesis
      using False get inv ch vr by (intro that [of r p]) (simp_all add: pm del: power_Suc)
  qed
  obtain b1 where b1: "bint_mul p1 b b s = Some (0, b1, s)" "bint_inv b1" "chain b1 = []"
    "bint_val b1 = bint_val b * bint_val b" "mag b1 = mag b * mag b"
    using bint_mul_small [OF inv(2,2) ch(2,2) r1(4,2), of s] lb k1 by auto
  have sq: "x ^ 2 ^ i * x ^ 2 ^ i = x ^ 2 ^ Suc i" for x :: "'a::monoid_mult"
    by (simp flip: power_add add: mult_2)
  have "expt_loop (Suc n) i exponent r b p s = expt_loop n (Suc i) exponent r1 b1 b s"
    unfolding expt_loop.simps step using b1(1) by (simp add: bint_swap_def)
  then show ?case
    using Suc.IH [of "Suc i" r1 b1 b] Suc.prems(1) r1 b1 shape ch vb by (simp add: sq)
qed

text \<open>
  \<open>bint_expt\<close> raises to a power (the sign of the exponent is ignored), for results whose
  squarings stay below 128 bits; the old value of the result is freed and nothing is allocated.
\<close>

theorem bint_expt_small:
  assumes "bint_inv base" "bint_inv exponent" "bint_small base" "bint_small exponent"
    and "max 1 (bint_bit_length base) * 2 ^ bint_bit_length exponent < 128"
  shows "\<exists>res' s'. bint_expt result base exponent s = Some (0, res', s') \<and> balanced result s res' s' \<and>
    bint_inv res' \<and> bint_val res' = bint_val base ^ mag exponent"
proof -
  define k where "k = max 1 (bint_bit_length base)"
  note lb = bint_bit_length_spec [OF assms(1,3)]
  note le = bint_bit_length_spec [OF assms(2,4)]
  have "k * 1 \<le> k * 2 ^ bint_bit_length exponent"
    by (intro mult_le_mono2) simp
  then have "k < 128"
    using assms(5) unfolding k_def by linarith
  then have single: "chain base = []"
    using lb by (cases "chain base") (auto simp: k_def)
  have "mag base < 2 ^ bint_bit_length base" "(2::nat) ^ bint_bit_length base \<le> 2 ^ k"
    using lb by (auto simp: is_len_def k_def)
  then have kb: "mag base < 2 ^ k" "0 < k"
    by (rule less_le_trans) (simp add: k_def)
  have "copy_walk (bint_chunks bint_zero) (bint_chunks base) s = Some (bint_chunks base, s)"
    by (simp add: bint_chunks_def single bint_zero_facts)
  moreover have "extend_length bint_zero (bint_bit_length base) s = (0, bint_zero, s)"
    using \<open>k < 128\<close> by (simp add: extend_length_def bint_zero_facts k_def bint_zero_def)
  ultimately have cp: "bint_copy bint_zero base s = Some (0, base, s)"
    by (simp add: bint_copy_def with_chunks_bint_chunks)
  have ex: "bint_shape exponent" "mag exponent < 2 ^ bint_bit_length exponent"
    using assms(2) le by (auto simp: bint_inv_def is_len_def)
  have one: "mag bint_one = 1" "chain bint_one = []"
    by (simp_all add: bint_one_def mag_def bint_chunks_def chunk_of_def)
  obtain r' b' p' where l: "expt_loop (bint_bit_length exponent) 0 exponent bint_one base bint_zero s = Some (0, r', b', p', s)"
    "bint_inv r'" "chain r' = []" "chain b' = []" "chain p' = []" "bint_val r' = bint_val base ^ mag exponent"
    using expt_loop_spec [OF kb ex(1), of "bint_bit_length exponent" 0 bint_one base bint_zero s] assms(1,5) ex(2)
      single one bint_one_facts bint_zero_facts by (auto simp: k_def)
  have "bint_expt result base exponent s = Some (0, r', bint_destroy result s)"
    using cp l by (simp add: bint_expt_def bint_init_0 bint_init_1 bint_swap_def bint_destroy_def)
  then show ?thesis
    using l by (auto simp: balanced_def others_def bint_destroy_def)
qed


theorem bint_expt_small_witness:
  "\<exists>res' s'. bint_expt bint_zero \<lparr>negative = True, digits = [3, 0, 0, 0], chain = []\<rparr>
     \<lparr>negative = False, digits = [5, 0, 0, 0], chain = []\<rparr> \<lparr>verdict = (\<lambda>_. False), tick = 0, live = 0\<rparr>
     = Some (0, res', s') \<and> bint_val res' = - 243"
proof -
  let ?a = "\<lparr>negative = True, digits = [3, 0, 0, 0], chain = []\<rparr>"
  let ?b = "\<lparr>negative = False, digits = [5, 0, 0, 0], chain = []\<rparr>"
  have "bint_inv ?a" "bint_inv ?b" "bint_small ?a" "bint_small ?b"
    by (simp_all add: bint_inv_def bint_shape_def trimmed_def bint_small_def bint_chunks_def)
  moreover have "bint_bit_length ?a = 2" "bint_bit_length ?b = 3" "mag ?b = 5"
    by (simp_all add: bint_eval mag_def)
  moreover have "bint_val ?a = - 3"
    by (simp add: bint_val_def mag_def bint_chunks_def)
  ultimately show ?thesis
    using bint_expt_small [of ?a ?b bint_zero "\<lparr>verdict = (\<lambda>_. False), tick = 0, live = 0\<rparr>"] by auto
qed

text \<open>
  Beyond that, untrimmed products break the exponentiation: raising \<open>2 ^ 63\<close> to the power 2
  dereferences \<open>NULL\<close>.
\<close>

lemma expt_loop_2: "expt_loop 2 i e r b p s = expt_loop (Suc (Suc 0)) i e r b p s"
  by (simp only: numeral_2_eq_2)

lemma bint_expt_null_dereference:
  "bint_expt bint_zero \<lparr>negative = False, digits = [0, 0x80000000, 0, 0], chain = []\<rparr>
     \<lparr>negative = False, digits = [2, 0, 0, 0], chain = []\<rparr> \<lparr>verdict = (\<lambda>_. True), tick = 0, live = 0\<rparr> = None"
  by (simp add: bint_expt_def bint_init_0 bint_init_1 bint_copy_def expt_loop_2 bint_swap_def bint_bit_get_def mul_eval)

section \<open>A wrong quotient\<close>

lemma compare_chunk_4: "compare_chunk [a, b, c, d] [a', b', c', d'] =
  (if d < d' then -1 else if d' < d then 1 else if c < c' then -1 else if c' < c then 1
   else if b < b' then -1 else if b' < b then 1 else if a < a' then -1 else if a' < a then 1 else 0)"
  by (simp add: compare_chunk_def eval_nat_numeral)

lemma upt_4: "[0..<4] = [0, 1, 2, 3 :: nat]"
  by (simp add: upt_conv_Cons)

lemma div_loop_2: "div_loop 2 a b c s = div_loop (Suc (Suc 0)) a b c s"
  by (simp only: numeral_2_eq_2)

lemmas div_eval = bint_div_def div_setup_def div_finish_def div_signs_def div_loop_2 bint_init_0 bint_copy_def
  bint_shift_left_def shift_chunks_left_def move_up_def next_up_def bint_shift_right_def shift_chunks_right_def
  move_down_def next_down_def mag_cmp_def compare_chunk_4 mag_sub_def bint_bit_set_def chunk_bit_set_def
  swap_out_def bint_swap_def bint_destroy_def is_zero_def bint_eval upt_4

text \<open>
  When the length of the dividend is a multiple of the chunk size, the untrimmed shifted
  divisor makes the loop skip its first step: \<open>2 ^ 128 - 1\<close> divided by \<open>2 ^ 126\<close> gives 1, with a
  remainder that is larger than the divisor.
\<close>

lemma bint_div_short_quotient:
  "\<exists>s'. bint_div (Some bint_zero)
     \<lparr>negative = False, digits = [0xFFFFFFFF, 0xFFFFFFFF, 0xFFFFFFFF, 0xFFFFFFFF], chain = []\<rparr>
     \<lparr>negative = False, digits = [0, 0, 0, 0x40000000], chain = []\<rparr> (Some bint_zero)
     \<lparr>verdict = (\<lambda>_. True), tick = 0, live = 0\<rparr> =
   Some (0, Some bint_one, Some \<lparr>negative = False,
     digits = [0xFFFFFFFF, 0xFFFFFFFF, 0xFFFFFFFF, 0xBFFFFFFF], chain = []\<rparr>, s')"
  by (simp add: div_eval)

text \<open>For operands of different sign the quotient is decremented also when the division is exact.\<close>

lemma bint_div_exact_borrows:
  "\<exists>q m s'. bint_div (Some bint_zero) \<lparr>negative = True, digits = [4, 0, 0, 0], chain = []\<rparr>
     \<lparr>negative = False, digits = [2, 0, 0, 0], chain = []\<rparr> (Some bint_zero)
     \<lparr>verdict = (\<lambda>_. True), tick = 0, live = 0\<rparr> = Some (0, Some q, Some m, s') \<and> bint_val q = -3 \<and> bint_val m = 2"
  by (simp add: div_eval bint_add_def bint_sub_def do_subtract_def mag_add_def add_chunks.simps carry_chunks.simps bint_one_def
    bint_val_def mag_def)

end
