(* ===== verification/Dlb_Runq.thy ===== *)
theory Dlb_Runq
  imports Dlb_Slist
begin

text \<open>
  The run queue (\<^verbatim>\<open>src/io/runq.c\<close>): tasks wait in a singly-linked list that the lock of the queue
  protects; worker threads sleep on an event each and drain the list when they are woken. Every
  critical section is one step of the model. What happens between them is modelled by program
  counters: a worker is somewhere in \<open>worker_func\<close>, and a thread that has appended to an empty
  list still has events to raise. Task functions are not under this source: they run between two
  steps of a worker, and whatever they submit is a step of the submitting thread.
\<close>

section \<open>State and operations\<close>

datatype wpc = Waiting | Clearing | Looping | Running addr | Finished | Unstarted

record worker =
  wakeup :: bool  \<comment> \<open>the event variable\<close>
  pc :: wpc

record runq =
  job_list :: slist_state
  quit_request :: bool
  workers :: "worker list"
  hook :: bool  \<comment> \<open>the \<open>wakeup\<close> hook is set\<close>
  hook_calls :: nat
  funcs :: "addr \<Rightarrow> nat"  \<comment> \<open>the \<open>func\<close> field of every task\<close>

text \<open>
  \<open>run_one\<close> up to the call of the task function: -1 when the queue is told to quit, 0 when it is
  empty, 1 with the task whose function is to run.
\<close>

definition run_one :: "'a runq_scheme \<Rightarrow> int \<times> addr \<times> 'a runq_scheme" where
  "run_one r =
     (if quit_request r then (-1, NULL, r)
      else case slist_pop (job_list r) of (n, q) \<Rightarrow>
        if n = NULL then (0, NULL, r\<lparr>job_list := q\<rparr>) else (1, n, r\<lparr>job_list := q\<rparr>))"

definition request_quit :: "'a runq_scheme \<Rightarrow> 'a runq_scheme" where
  "request_quit r = r\<lparr>quit_request := True\<rparr>"

definition raise_event :: "nat \<Rightarrow> 'a runq_scheme \<Rightarrow> 'a runq_scheme" where
  "raise_event i r = r\<lparr>workers := (workers r)[i := (workers r ! i)\<lparr>wakeup := True\<rparr>]\<rparr>"

definition call_hook :: "'a runq_scheme \<Rightarrow> 'a runq_scheme" where
  "call_hook r = (if hook r then r\<lparr>hook_calls := hook_calls r + 1\<rparr> else r)"

text \<open>The critical section of \<open>runq_task_exec\<close>, and the loop that raises the events.\<close>

definition exec_locked :: "addr \<Rightarrow> nat \<Rightarrow> 'a runq_scheme \<Rightarrow> bool \<times> 'a runq_scheme" where
  "exec_locked t f r =
     (slist_is_empty (snd (job_list r)),
      r\<lparr>funcs := (funcs r)(t := f), job_list := slist_append t (job_list r)\<rparr>)"

fun raise_from :: "nat \<Rightarrow> nat \<Rightarrow> 'a runq_scheme \<Rightarrow> 'a runq_scheme" where
  "raise_from i 0 r = r"
| "raise_from i (Suc n) r = raise_from (Suc i) n (raise_event i r)"

definition runq_task_exec :: "addr \<Rightarrow> nat \<Rightarrow> 'a runq_scheme \<Rightarrow> 'a runq_scheme" where
  "runq_task_exec t f r = (case exec_locked t f r of (was_empty, r1) \<Rightarrow>
     if was_empty then call_hook (raise_from 0 (length (workers r1)) r1) else r1)"

text \<open>
  One step of \<open>worker_func\<close> of worker \<open>i\<close>; \<open>None\<close> when the thread is blocked or has returned. The
  step out of \<open>Running\<close> is the return of the task function.
\<close>

definition set_pc :: "nat \<Rightarrow> wpc \<Rightarrow> 'a runq_scheme \<Rightarrow> 'a runq_scheme" where
  "set_pc i p r = r\<lparr>workers := (workers r)[i := (workers r ! i)\<lparr>pc := p\<rparr>]\<rparr>"

definition clear_event :: "nat \<Rightarrow> 'a runq_scheme \<Rightarrow> 'a runq_scheme" where
  "clear_event i r = r\<lparr>workers := (workers r)[i := (workers r ! i)\<lparr>wakeup := False\<rparr>]\<rparr>"

definition worker_func :: "nat \<Rightarrow> 'a runq_scheme \<Rightarrow> 'a runq_scheme option" where
  "worker_func i r = (case pc (workers r ! i) of
     Waiting \<Rightarrow> if wakeup (workers r ! i) then Some (set_pc i Clearing r) else None
   | Clearing \<Rightarrow> Some (set_pc i Looping (clear_event i r))
   | Looping \<Rightarrow> (case run_one r of (result, n, r1) \<Rightarrow>
       Some (set_pc i (if result < 0 then Finished else if result = 0 then Waiting else Running n) r1))
   | Running t \<Rightarrow> Some (set_pc i Looping r)
   | Finished \<Rightarrow> None
   | Unstarted \<Rightarrow> None)"

text \<open>
  \<open>init_worker\<close> and the loop of \<open>runq_init\<close>. The return values of \<open>thr_event_init\<close> and
  \<open>thr_start\<close> for each worker are parameters; a thread exists only when \<open>thr_start\<close> returned 0,
  but only negative values count as failures.
\<close>

definition init_worker :: "int \<Rightarrow> int \<Rightarrow> int \<times> worker" where
  "init_worker event_ret start_ret =
     (if event_ret < 0 then (-1, \<lparr>wakeup = False, pc = Unstarted\<rparr>)
      else if start_ret < 0 then (-1, \<lparr>wakeup = False, pc = Unstarted\<rparr>)
      else (0, \<lparr>wakeup = False, pc = (if start_ret = 0 then Waiting else Unstarted)\<rparr>))"

fun init_workers :: "(int \<times> int) list \<Rightarrow> worker list \<Rightarrow> int \<times> worker list" where
  "init_workers [] ws = (0, ws)"
| "init_workers ((e, t) # rets) ws = (case init_worker e t of (r, w) \<Rightarrow>
     if r < 0 then (-1, ws) else init_workers rets (ws @ [w]))"

text \<open>\<open>join_worker\<close> wakes the thread and waits until it has returned.\<close>

definition join_worker :: "worker \<Rightarrow> worker" where
  "join_worker w = w\<lparr>wakeup := True, pc := (if pc w = Unstarted then Unstarted else Finished)\<rparr>"

definition runq_init :: "slist_heap \<Rightarrow> (addr \<Rightarrow> nat) \<Rightarrow> bool \<Rightarrow> (int \<times> int) list \<Rightarrow> int \<times> runq" where
  "runq_init h fs malloc_ok rets =
     (let r = \<lparr>job_list = (h, slist_init), quit_request = False, workers = [], hook = False, hook_calls = 0, funcs = fs\<rparr> in
      if rets = [] then (0, r)
      else if \<not> malloc_ok then (-1, r)
      else case init_workers rets [] of (ret, ws) \<Rightarrow>
        if ret < 0 then (-1, (request_quit r)\<lparr>workers := map join_worker ws\<rparr>)
        else (0, r\<lparr>workers := ws\<rparr>))"

definition runq_destroy :: "'a runq_scheme \<Rightarrow> 'a runq_scheme" where
  "runq_destroy r =
     (if workers r \<noteq> [] then (request_quit r)\<lparr>workers := map join_worker (workers r)\<rparr> else r)"

text \<open>
  \<open>runq_dispatch\<close>; the argument \<open>run\<close> is the effect of a task function on the queue. Without a
  limit the loop need not end, since tasks may submit tasks.
\<close>

partial_function (option) dispatch_loop
  :: "(addr \<Rightarrow> 'a runq_scheme \<Rightarrow> 'a runq_scheme) \<Rightarrow> nat \<Rightarrow> nat \<Rightarrow> 'a runq_scheme \<Rightarrow> (nat \<times> 'a runq_scheme) option" where
  "dispatch_loop run limit count r =
     (if limit = 0 \<or> count < limit
      then (case run_one r of (result, n, r1) \<Rightarrow>
        if result \<le> 0 then Some (count, r1) else dispatch_loop run limit (count + 1) (run n r1))
      else Some (count, r))"

declare dispatch_loop.simps [code]

definition runq_dispatch :: "(addr \<Rightarrow> 'a runq_scheme \<Rightarrow> 'a runq_scheme) \<Rightarrow> nat \<Rightarrow> 'a runq_scheme
    \<Rightarrow> (nat \<times> 'a runq_scheme) option" where
  "runq_dispatch run limit r = dispatch_loop run limit 0 r"

section \<open>Dispatching in the calling thread\<close>

text \<open>A queue whose tasks only record that they ran.\<close>

record logged_runq = runq +
  log :: "addr list"

definition run_log :: "addr \<Rightarrow> logged_runq \<Rightarrow> logged_runq" where
  "run_log t r = r\<lparr>log := log r @ [t]\<rparr>"

lemma run_log_simps [simp]:
  "log (run_log t r) = log r @ [t]" "job_list (run_log t r) = job_list r"
  "quit_request (run_log t r) = quit_request r"
  by (simp_all add: run_log_def)

lemma run_one_cases:
  assumes "slist_rep (job_list r) xs" "\<not> quit_request r"
  shows "xs = [] \<Longrightarrow> run_one r = (0, NULL, r)"
    "xs = x # ys \<Longrightarrow> \<exists>q. run_one r = (1, x, r\<lparr>job_list := q\<rparr>) \<and> slist_rep q ys"
proof -
  show "xs = [] \<Longrightarrow> run_one r = (0, NULL, r)"
    using assms slist_fifo.get_empty_law [of "job_list r"] by (simp add: run_one_def)
  assume xs: "xs = x # ys"
  have "x \<noteq> NULL"
    using slist_fifo.rep_distinct [OF assms(1)] xs by auto
  obtain q where "slist_pop (job_list r) = (x, q)" "slist_rep q ys"
    using slist_fifo.get_law assms(1) xs by blast
  with \<open>x \<noteq> NULL\<close> assms(2) show "\<exists>q. run_one r = (1, x, r\<lparr>job_list := q\<rparr>) \<and> slist_rep q ys"
    by (intro exI [of _ q]) (simp add: run_one_def)
qed

lemma dispatch_loop_fifo:
  "slist_rep (job_list r) xs \<Longrightarrow> \<not> quit_request r \<Longrightarrow> limit = 0 \<or> count \<le> limit \<Longrightarrow>
     k = (if limit = 0 then length xs else min (limit - count) (length xs)) \<Longrightarrow>
     \<exists>r'. dispatch_loop run_log limit count r = Some (count + k, r') \<and>
       log r' = log r @ take k xs \<and> slist_rep (job_list r') (drop k xs) \<and> \<not> quit_request r'"
proof (induction xs arbitrary: r count k)
  case Nil
  then show ?case
    using run_one_cases(1) [OF Nil.prems(1,2)] by (subst dispatch_loop.simps) simp
next
  case (Cons x xs)
  show ?case
  proof (cases "limit = 0 \<or> count < limit")
    case True
    obtain q where q: "run_one r = (1, x, r\<lparr>job_list := q\<rparr>)" "slist_rep q xs"
      using run_one_cases(2) [OF Cons.prems(1,2)] by blast
    define r1 where "r1 = run_log x (r\<lparr>job_list := q\<rparr>)"
    define j where "j = (if limit = 0 then length xs else min (limit - (count + 1)) (length xs))"
    have k: "k = Suc j"
      using True Cons.prems(4) by (auto simp: j_def)
    obtain r' where "dispatch_loop run_log limit (count + 1) r1 = Some (count + 1 + j, r')"
      "log r' = log r1 @ take j xs" "slist_rep (job_list r') (drop j xs)" "\<not> quit_request r'"
      using Cons.IH [of r1 "count + 1" j] True Cons.prems(2) q(2) by (auto simp: r1_def j_def)
    with q True k show ?thesis
      by (subst dispatch_loop.simps) (auto simp: r1_def)
  next
    case False
    then have "k = 0"
      using Cons.prems(3,4) by auto
    with False Cons.prems show ?thesis
      by (subst dispatch_loop.simps) simp
  qed
qed

text \<open>
  \<open>runq_dispatch\<close> runs the waiting tasks in the order of their submission, stops at the limit
  or when the queue is empty, returns the number of tasks it ran and leaves the others queued.
\<close>

theorem runq_dispatch_fifo:
  assumes "slist_rep (job_list r) xs" "\<not> quit_request r"
    and "k = (if limit = 0 then length xs else min limit (length xs))"
  shows "\<exists>r'. runq_dispatch run_log limit r = Some (k, r') \<and> log r' = log r @ take k xs \<and>
    slist_rep (job_list r') (drop k xs)"
  using dispatch_loop_fifo [OF assms(1,2), of limit 0 k] assms(3) by (auto simp: runq_dispatch_def)

text \<open>A queue without workers to which three tasks are submitted.\<close>

definition three_tasks :: logged_runq where
  "three_tasks = fold (\<lambda>t. runq_task_exec t 0) [8, 3, 5]
     \<lparr>job_list = (\<lambda>_. 0, slist_init), quit_request = False, workers = [], hook = False,
      hook_calls = 0, funcs = \<lambda>_. 0, log = []\<rparr>"

lemma three_tasks_rep: "slist_rep (job_list three_tasks) [8, 3, 5]" "\<not> quit_request three_tasks"
    "log three_tasks = []"
  by (simp_all add: three_tasks_def runq_task_exec_def exec_locked_def call_hook_def slist_rep_def
      slist_append_def slist_init_def slist_is_empty_def Let_def)

theorem runq_dispatch_fifo_witness:
  "\<exists>r'. runq_dispatch run_log 2 three_tasks = Some (2, r') \<and> log r' = [8, 3]"
  using runq_dispatch_fifo [OF three_tasks_rep(1,2), of 2 2] by (auto simp: three_tasks_rep)

section \<open>Submitters and workers interleaved\<close>

text \<open>
  The state of all threads: the queue; for every submitter that found the list empty, the index of
  the next event it raises; and, as a history, the tasks submitted and the tasks taken for running.
\<close>

record sys =
  rq :: runq
  raising :: "nat list"
  submitted :: "addr list"
  taken :: "addr list"

text \<open>The task that a step of worker \<open>i\<close> from \<open>r\<close> to \<open>r'\<close> starts to run.\<close>

definition task_started :: "nat \<Rightarrow> runq \<Rightarrow> runq \<Rightarrow> addr list" where
  "task_started i r r' = (case (pc (workers r ! i), pc (workers r' ! i)) of
     (Looping, Running t) \<Rightarrow> [t] | _ \<Rightarrow> [])"

text \<open>
  A task that is still pending may not be submitted again (\<^verbatim>\<open>src/io/runq.h\<close>); nothing else restricts
  the submitters.
\<close>

inductive sys_step :: "sys \<Rightarrow> sys \<Rightarrow> bool" where
  submit: "slist_rep (job_list (rq s)) xs \<Longrightarrow> t \<notin> set xs \<Longrightarrow> t \<noteq> NULL \<Longrightarrow>
     exec_locked t f (rq s) = (was_empty, r) \<Longrightarrow>
     sys_step s (s\<lparr>rq := r, raising := raising s @ (if was_empty then [0] else []),
       submitted := submitted s @ [t]\<rparr>)"
| raise_one: "j < length (raising s) \<Longrightarrow> raising s ! j < length (workers (rq s)) \<Longrightarrow>
     sys_step s (s\<lparr>rq := raise_event (raising s ! j) (rq s), raising := (raising s)[j := Suc (raising s ! j)]\<rparr>)"
| raised_all: "raising s = ks @ length (workers (rq s)) # ls \<Longrightarrow>
     sys_step s (s\<lparr>rq := call_hook (rq s), raising := ks @ ls\<rparr>)"
| work: "i < length (workers (rq s)) \<Longrightarrow> worker_func i (rq s) = Some r \<Longrightarrow>
     sys_step s (s\<lparr>rq := r, taken := taken s @ task_started i (rq s) r\<rparr>)"
| dispatch: "run_one (rq s) = (1, t, r) \<Longrightarrow> sys_step s (s\<lparr>rq := r, taken := taken s @ [t]\<rparr>)"
| quit: "sys_step s (s\<lparr>rq := request_quit (rq s)\<rparr>)"
| join_raise: "quit_request (rq s) \<Longrightarrow> i < length (workers (rq s)) \<Longrightarrow>
     sys_step s (s\<lparr>rq := raise_event i (rq s)\<rparr>)"

inductive sys_reach :: "sys \<Rightarrow> bool" where
  start: "runq_init h fs True rets = (0, r) \<Longrightarrow>
     sys_reach \<lparr>rq = r\<lparr>hook := hk\<rparr>, raising = [], submitted = [], taken = []\<rparr>"
| step: "sys_reach s \<Longrightarrow> sys_step s s' \<Longrightarrow> sys_reach s'"

text \<open>Worker \<open>i\<close> is awake, has been woken, or is about to be.\<close>

definition alerted :: "sys \<Rightarrow> nat \<Rightarrow> bool" where
  "alerted s i \<longleftrightarrow> pc (workers (rq s) ! i) = Waiting \<longrightarrow>
     wakeup (workers (rq s) ! i) \<or> (\<exists>k \<in> set (raising s). k \<le> i)"

definition sys_inv :: "sys \<Rightarrow> addr list \<Rightarrow> bool" where
  "sys_inv s xs \<longleftrightarrow> slist_rep (job_list (rq s)) xs \<and> submitted s = taken s @ xs \<and>
     (xs \<noteq> [] \<longrightarrow> (\<forall>i < length (workers (rq s)). alerted s i)) \<and>
     (\<forall>w \<in> set (workers (rq s)). pc w = Finished \<longrightarrow> quit_request (rq s))"

lemma init_workers_pcs:
  "init_workers rets ws = (ret, ws') \<Longrightarrow> \<forall>w \<in> set ws. pc w \<noteq> Finished \<Longrightarrow>
     \<forall>w \<in> set ws'. pc w \<noteq> Finished"
  by (induction rets ws rule: init_workers.induct)
    (auto simp: init_worker_def split: if_splits)

lemma runq_init_inv:
  assumes "runq_init h fs True rets = (0, r)"
  shows "sys_inv \<lparr>rq = r\<lparr>hook := hk\<rparr>, raising = [], submitted = [], taken = []\<rparr> []"
  using assms init_workers_pcs [of rets "[]"]
  by (auto simp: sys_inv_def runq_init_def slist_init_rep Let_def split: if_splits prod.splits)

lemma workers_unchanged [simp]:
  "workers (request_quit r) = workers r" "workers (call_hook r) = workers r"
  "job_list (request_quit r) = job_list r" "job_list (call_hook r) = job_list r"
  "job_list (raise_event i r) = job_list r" "job_list (set_pc i p r) = job_list r"
  "job_list (clear_event i r) = job_list r"
  "quit_request (request_quit r)" "quit_request (call_hook r) = quit_request r"
  "quit_request (raise_event i r) = quit_request r" "quit_request (set_pc i p r) = quit_request r"
  "quit_request (clear_event i r) = quit_request r"
  by (simp_all add: request_quit_def call_hook_def raise_event_def set_pc_def clear_event_def)

lemma worker_updates [simp]:
  "length (workers (raise_event i r)) = length (workers r)"
  "length (workers (set_pc i p r)) = length (workers r)"
  "length (workers (clear_event i r)) = length (workers r)"
  "j < length (workers r) \<Longrightarrow>
     wakeup (workers (raise_event i r) ! j) = (j = i \<or> wakeup (workers r ! j))"
  "j < length (workers r) \<Longrightarrow> pc (workers (raise_event i r) ! j) = pc (workers r ! j)"
  "j < length (workers r) \<Longrightarrow> wakeup (workers (set_pc i p r) ! j) = wakeup (workers r ! j)"
  "j < length (workers r) \<Longrightarrow>
     pc (workers (set_pc i p r) ! j) = (if j = i then p else pc (workers r ! j))"
  "j < length (workers r) \<Longrightarrow>
     wakeup (workers (clear_event i r) ! j) = (j \<noteq> i \<and> wakeup (workers r ! j))"
  "j < length (workers r) \<Longrightarrow> pc (workers (clear_event i r) ! j) = pc (workers r ! j)"
  by (cases "i = j"; simp add: raise_event_def set_pc_def clear_event_def)+

text \<open>The invariant of one worker, and what a step of a worker may do to it.\<close>

definition worker_ok :: "sys \<Rightarrow> bool \<Rightarrow> nat \<Rightarrow> bool" where
  "worker_ok s busy i \<longleftrightarrow> (busy \<longrightarrow> alerted s i) \<and> (pc (workers (rq s) ! i) = Finished \<longrightarrow> quit_request (rq s))"

lemma sys_invI:
  assumes "slist_rep (job_list (rq s)) xs" "submitted s = taken s @ xs"
    and "\<And>i. i < length (workers (rq s)) \<Longrightarrow> worker_ok s (xs \<noteq> []) i"
  shows "sys_inv s xs"
  using assms by (auto simp: sys_inv_def worker_ok_def in_set_conv_nth)

lemma sys_invD:
  assumes "sys_inv s xs"
  shows "slist_rep (job_list (rq s)) xs" "submitted s = taken s @ xs"
    "i < length (workers (rq s)) \<Longrightarrow> worker_ok s (xs \<noteq> []) i"
  using assms by (auto simp: sys_inv_def worker_ok_def)

lemma run_one_result:
  assumes "slist_rep (job_list r) xs"
  obtains (quit) "quit_request r" "run_one r = (-1, NULL, r)"
  | (empty) "\<not> quit_request r" "xs = []" "run_one r = (0, NULL, r)"
  | (task) x ys q where "\<not> quit_request r" "xs = x # ys" "run_one r = (1, x, r\<lparr>job_list := q\<rparr>)" "slist_rep q ys"
proof (cases "quit_request r")
  case True
  then show ?thesis by (intro quit) (simp_all add: run_one_def)
next
  case False
  then show ?thesis
    using run_one_cases [OF assms] empty task by (cases xs) auto
qed

lemma submit_inv:
  assumes inv: "sys_inv s xs" and t: "t \<notin> set xs" "t \<noteq> NULL" and r: "exec_locked t f (rq s) = (was_empty, r)"
  shows "sys_inv (s\<lparr>rq := r, raising := raising s @ (if was_empty then [0] else []), submitted := submitted s @ [t]\<rparr>) (xs @ [t])"
    (is "sys_inv ?s _")
proof (rule sys_invI)
  note rep = sys_invD(1) [OF inv]
  have was: "was_empty \<longleftrightarrow> xs = []"
    using r rep slist_is_empty_rep [of "fst (job_list (rq s))" "snd (job_list (rq s))"]
    by (auto simp: exec_locked_def)
  show "slist_rep (job_list (rq ?s)) (xs @ [t])"
    using r slist_fifo.put_law [OF rep t] by (auto simp: exec_locked_def)
  show "submitted ?s = taken ?s @ xs @ [t]"
    using sys_invD(2) [OF inv] by simp
  have same: "workers r = workers (rq s)" "quit_request r = quit_request (rq s)"
    using r by (auto simp: exec_locked_def)
  show "worker_ok ?s (xs @ [t] \<noteq> []) i" if "i < length (workers (rq ?s))" for i
    using that sys_invD(3) [OF inv, of i] was by (auto simp: worker_ok_def alerted_def same)
qed

lemma raise_one_inv:
  assumes inv: "sys_inv s xs" and j: "j < length (raising s)"
  shows "sys_inv (s\<lparr>rq := raise_event (raising s ! j) (rq s), raising := (raising s)[j := Suc (raising s ! j)]\<rparr>) xs"
    (is "sys_inv ?s _")
proof (rule sys_invI)
  show "slist_rep (job_list (rq ?s)) xs" "submitted ?s = taken ?s @ xs"
    using sys_invD [OF inv] by simp_all
  show "worker_ok ?s (xs \<noteq> []) i" if i: "i < length (workers (rq ?s))" for i
  proof -
    have "\<exists>k' \<in> set ((raising s)[j := Suc (raising s ! j)]). k' \<le> i"
      if k: "k \<in> set (raising s)" "k \<le> i" "i \<noteq> raising s ! j" for k
    proof -
      obtain m where m: "m < length (raising s)" "k = raising s ! m"
        using k(1) by (auto simp: in_set_conv_nth)
      then have "(raising s)[j := Suc (raising s ! j)] ! m \<le> i"
        using k j by (auto simp: nth_list_update)
      with m show ?thesis
        by (metis length_list_update nth_mem)
    qed
    with i sys_invD(3) [OF inv, of i] show ?thesis
      by (auto simp: worker_ok_def alerted_def)
  qed
qed

lemma raised_all_inv:
  assumes inv: "sys_inv s xs" and k: "raising s = ks @ length (workers (rq s)) # ls"
  shows "sys_inv (s\<lparr>rq := call_hook (rq s), raising := ks @ ls\<rparr>) xs"
proof (rule sys_invI)
  show "worker_ok (s\<lparr>rq := call_hook (rq s), raising := ks @ ls\<rparr>) (xs \<noteq> []) i"
    if "i < length (workers (rq (s\<lparr>rq := call_hook (rq s), raising := ks @ ls\<rparr>)))" for i
    using that sys_invD(3) [OF inv, of i] k by (auto simp: worker_ok_def alerted_def)
qed (use sys_invD [OF inv] in simp_all)

lemma work_inv:
  assumes inv: "sys_inv s xs" and i: "i < length (workers (rq s))" and r: "worker_func i (rq s) = Some r"
  shows "\<exists>ys. sys_inv (s\<lparr>rq := r, taken := taken s @ task_started i (rq s) r\<rparr>) ys"
    (is "\<exists>ys. sys_inv ?s ys")
proof (cases "pc (workers (rq s) ! i) = Looping")
  case False
  have "sys_inv ?s xs"
  proof (rule sys_invI)
    have same: "job_list r = job_list (rq s)" "quit_request r = quit_request (rq s)"
      "length (workers r) = length (workers (rq s))"
      using False r by (auto simp: worker_func_def split: wpc.splits if_splits)
    show "slist_rep (job_list (rq ?s)) xs" "submitted ?s = taken ?s @ xs"
      using sys_invD [OF inv] False same by (auto simp: task_started_def split: wpc.splits)
    show "worker_ok ?s (xs \<noteq> []) m" if "m < length (workers (rq ?s))" for m
      using that sys_invD(3) [OF inv, of m] False r same
      by (auto simp: worker_func_def worker_ok_def alerted_def split: wpc.splits if_splits)
  qed
  then show ?thesis ..
next
  case True
  from sys_invD(1) [OF inv] show ?thesis
  proof (cases rule: run_one_result)
    case quit
    then have r: "r = set_pc i Finished (rq s)"
      using r True by (simp add: worker_func_def)
    have "sys_inv ?s xs"
      by (rule sys_invI) (use sys_invD [OF inv] quit i r in \<open>auto simp: worker_ok_def alerted_def task_started_def split: wpc.splits\<close>)
    then show ?thesis ..
  next
    case empty
    then have r: "r = set_pc i Waiting (rq s)"
      using r True by (simp add: worker_func_def)
    have "sys_inv ?s []"
      by (rule sys_invI) (use sys_invD [OF inv] empty i r in \<open>auto simp: worker_ok_def alerted_def task_started_def split: wpc.splits\<close>)
    then show ?thesis ..
  next
    case (task x ys q)
    then have r: "r = set_pc i (Running x) ((rq s)\<lparr>job_list := q\<rparr>)"
      using r True by (simp add: worker_func_def)
    have "sys_inv ?s ys"
      by (rule sys_invI) (use sys_invD [OF inv] task i r True in \<open>auto simp: worker_ok_def alerted_def task_started_def\<close>)
    then show ?thesis ..
  qed
qed

lemma dispatch_inv:
  assumes inv: "sys_inv s xs" and r: "run_one (rq s) = (1, t, r)"
  shows "\<exists>ys. sys_inv (s\<lparr>rq := r, taken := taken s @ [t]\<rparr>) ys"
  using sys_invD(1) [OF inv]
proof (cases rule: run_one_result)
  case (task x ys q)
  then have "sys_inv (s\<lparr>rq := r, taken := taken s @ [t]\<rparr>) ys"
    by (intro sys_invI) (use sys_invD [OF inv] r in \<open>auto simp: worker_ok_def alerted_def\<close>)
  then show ?thesis ..
qed (use r in auto)

lemma quit_inv: "sys_inv s xs \<Longrightarrow> sys_inv (s\<lparr>rq := request_quit (rq s)\<rparr>) xs"
  by (rule sys_invI) (auto dest: sys_invD simp: worker_ok_def alerted_def)

lemma join_raise_inv: "sys_inv s xs \<Longrightarrow> sys_inv (s\<lparr>rq := raise_event i (rq s)\<rparr>) xs"
  by (rule sys_invI) (auto dest: sys_invD simp: worker_ok_def alerted_def)

lemma sys_step_inv: "sys_step s s' \<Longrightarrow> sys_inv s xs \<Longrightarrow> \<exists>ys. sys_inv s' ys"
proof (induction rule: sys_step.induct)
  case (submit s ys t f was_empty r)
  then have "ys = xs"
    using slist_rep_unique sys_invD(1) by blast
  with submit submit_inv show ?case by blast
qed (blast intro: raise_one_inv raised_all_inv work_inv dispatch_inv quit_inv join_raise_inv)+

lemma sys_reach_inv: "sys_reach s \<Longrightarrow> \<exists>xs. sys_inv s xs"
  by (induction rule: sys_reach.induct) (blast intro: runq_init_inv sys_step_inv)+


text \<open>
  C8: under every interleaving of submitters, workers and dispatchers, tasks are taken for running
  in the order of their submission and each once: what was submitted is what was taken, then what
  the list holds.
\<close>

theorem runq_tasks_in_order:
  assumes "sys_reach s"
  shows "\<exists>xs. slist_rep (job_list (rq s)) xs \<and> submitted s = taken s @ xs"
  using sys_reach_inv [OF assms] sys_invD(1,2) by blast

text \<open>
  C9: no wake-up is lost: while tasks wait, every worker that sleeps has its event raised or a
  submitter is still about to raise it.
\<close>

theorem runq_no_lost_wakeup:
  assumes "sys_reach s" "slist_rep (job_list (rq s)) xs" "xs \<noteq> []"
    and "i < length (workers (rq s))" "pc (workers (rq s) ! i) = Waiting"
  shows "wakeup (workers (rq s) ! i) \<or> (\<exists>k \<in> set (raising s). k \<le> i)"
proof -
  obtain ys where ys: "sys_inv s ys"
    using sys_reach_inv assms(1) by blast
  then have "ys = xs"
    using sys_invD(1) slist_rep_unique assms(2) by blast
  with sys_invD(3) [OF ys assms(4)] assms(3,5) show ?thesis
    by (simp add: worker_ok_def alerted_def)
qed

lemma worker_func_blocked:
  "worker_func i r = None \<longleftrightarrow>
     pc (workers r ! i) = Waiting \<and> \<not> wakeup (workers r ! i) \<or> pc (workers r ! i) \<in> {Finished, Unstarted}"
  by (cases "pc (workers r ! i)"; cases "run_one r") (auto simp: worker_func_def)

text \<open>
  C10: if no thread can move, a worker was started and nobody asked to quit, then every submitted
  task has been taken: the queue does not deadlock with work left.
\<close>

theorem runq_quiescent:
  assumes reach: "sys_reach s" and quiet: "raising s = []"
    and stuck: "\<forall>i < length (workers (rq s)). worker_func i (rq s) = None"
    and w: "\<exists>w \<in> set (workers (rq s)). pc w \<noteq> Unstarted" and noquit: "\<not> quit_request (rq s)"
  shows "taken s = submitted s"
proof -
  obtain xs where inv: "sys_inv s xs"
    using sys_reach_inv reach by blast
  obtain i where i: "i < length (workers (rq s))" "pc (workers (rq s) ! i) \<noteq> Unstarted"
    using w by (auto simp: in_set_conv_nth)
  have "pc (workers (rq s) ! i) \<noteq> Finished"
    using sys_invD(3) [OF inv i(1)] noquit by (simp add: worker_ok_def)
  with i stuck have "pc (workers (rq s) ! i) = Waiting" "\<not> wakeup (workers (rq s) ! i)"
    by (auto simp: worker_func_blocked)
  with sys_invD(2,3) [OF inv] i(1) quiet show ?thesis
    by (auto simp: worker_ok_def alerted_def)
qed

text \<open>Steps of one worker, until it blocks.\<close>

fun worker_steps :: "nat \<Rightarrow> nat \<Rightarrow> 'a runq_scheme \<Rightarrow> 'a runq_scheme" where
  "worker_steps 0 i r = r"
| "worker_steps (Suc n) i r = (case worker_func i r of None \<Rightarrow> r | Some r' \<Rightarrow> worker_steps n i r')"

text \<open>
  A started worker returns within three of its own steps once the queue was told to quit and
  its event was raised, so the \<open>thr_join\<close> of \<open>join_worker\<close> does not wait for ever (the task the
  worker may be running apart).
\<close>

theorem worker_quits:
  assumes "quit_request r" "i < length (workers r)" "pc (workers r ! i) \<noteq> Unstarted"
    and "wakeup (workers r ! i)"
  shows "pc (workers (worker_steps 3 i r) ! i) = Finished"
  using assms by (cases "pc (workers r ! i)")
    (auto simp: numeral_3_eq_3 worker_func_def run_one_def split: option.splits)

theorem worker_quits_witness:
  "pc (workers (worker_steps 3 0 (raise_event 0 (request_quit (snd (runq_init (\<lambda>_. 0) (\<lambda>_. 0) True [(0, 0)]))))) ! 0)
     = Finished"
  by (rule worker_quits) (simp_all add: runq_init_def init_worker_def raise_event_def request_quit_def Let_def)

section \<open>A run of one worker\<close>

definition one_worker :: "sys" where
  "one_worker = \<lparr>rq = (snd (runq_init (\<lambda>_. 0) (\<lambda>_. 0) True [(0, 0)]))\<lparr>hook := True\<rparr>, raising = [], submitted = [], taken = []\<rparr>"

lemma one_worker_reach: "sys_reach one_worker"
  unfolding one_worker_def by (rule sys_reach.start [of "\<lambda>_. 0" "\<lambda>_. 0" "[(0, 0)]"]) (simp add: runq_init_def init_worker_def Let_def)

lemmas runq_eval = one_worker_def runq_init_def init_worker_def Let_def exec_locked_def slist_append_def slist_init_def
  slist_is_empty_def slist_rep_def

definition one_submitted :: sys where
  "one_submitted = one_worker\<lparr>rq := snd (exec_locked 5 1 (rq one_worker)), raising := [0], submitted := [5]\<rparr>"

lemma one_submitted_reach: "sys_reach one_submitted"
proof -
  have "sys_step one_worker one_submitted"
    using sys_step.submit [of one_worker "[]" 5 1 True "snd (exec_locked 5 1 (rq one_worker))"]
    by (simp add: one_submitted_def runq_eval)
  then show ?thesis
    by (rule sys_reach.step [OF one_worker_reach])
qed

theorem runq_tasks_in_order_witness:
  "\<exists>xs. slist_rep (job_list (rq one_submitted)) xs \<and> [5] = taken one_submitted @ xs"
  using runq_tasks_in_order [OF one_submitted_reach] by (simp add: one_submitted_def)

theorem runq_no_lost_wakeup_witness:
  "wakeup (workers (rq one_submitted) ! 0) \<or> (\<exists>k \<in> set (raising one_submitted). k \<le> 0)"
  using runq_no_lost_wakeup [OF one_submitted_reach, of "[5]" 0]
  by (simp add: one_submitted_def runq_eval)

text \<open>The worker is woken, runs the task and sleeps again.\<close>

definition one_raised :: sys where
  "one_raised = one_submitted\<lparr>rq := call_hook (raise_event 0 (rq one_submitted)), raising := []\<rparr>"

definition worker_turn :: "sys \<Rightarrow> sys" where
  "worker_turn s = (case worker_func 0 (rq s) of None \<Rightarrow> s
     | Some r \<Rightarrow> s\<lparr>rq := r, taken := taken s @ task_started 0 (rq s) r\<rparr>)"

lemma worker_turn_reach: "sys_reach s \<Longrightarrow> workers (rq s) \<noteq> [] \<Longrightarrow> sys_reach (worker_turn s)"
  by (auto simp: worker_turn_def split: option.splits intro: sys_reach.step sys_step.work)

lemma one_raised_reach: "sys_reach one_raised"
proof -
  have w: "workers (rq one_submitted) = [\<lparr>wakeup = False, pc = Waiting\<rparr>]" and r: "raising one_submitted = [0]"
    by (simp_all add: one_submitted_def runq_eval)
  have "sys_reach (one_submitted\<lparr>rq := raise_event 0 (rq one_submitted), raising := [1]\<rparr>)" (is "sys_reach ?s")
    using sys_reach.step [OF one_submitted_reach sys_step.raise_one [of 0]] w r by simp
  from sys_reach.step [OF this sys_step.raised_all [of ?s "[]" "[]"]] show ?thesis
    by (simp add: w one_raised_def)
qed

lemma worker_func_length: "worker_func i r = Some r' \<Longrightarrow> length (workers r') = length (workers r)"
  by (auto simp: worker_func_def run_one_def split: wpc.splits if_splits prod.splits)

definition one_done :: sys where
  "one_done = (worker_turn ^^ 5) one_raised"

lemma one_done_eval: "taken one_done = [5]" "submitted one_done = [5]" "raising one_done = []"
   "workers (rq one_done) = [\<lparr>wakeup = False, pc = Waiting\<rparr>]" "\<not> quit_request (rq one_done)"
  by (simp_all add: one_done_def numeral_eq_Suc worker_turn_def one_raised_def one_submitted_def runq_eval worker_func_def run_one_def slist_pop_def set_pc_def clear_event_def raise_event_def call_hook_def task_started_def)

lemma one_done_reach: "sys_reach one_done"
proof -
  have "sys_reach ((worker_turn ^^ n) one_raised) \<and> workers (rq ((worker_turn ^^ n) one_raised)) \<noteq> []" for n
  proof (induction n)
    case 0
    then show ?case
      using one_raised_reach by (simp add: one_raised_def one_submitted_def runq_eval raise_event_def)
  next
    case (Suc n)
    then show ?case
      using worker_turn_reach worker_func_length
      by (force simp: worker_turn_def split: option.splits)
  qed
  then show ?thesis by (simp add: one_done_def)
qed

theorem runq_quiescent_witness: "taken one_done = submitted one_done \<and> submitted one_done = [5]"
  using runq_quiescent [OF one_done_reach] by (simp add: one_done_eval worker_func_def)

end
