(* ===== verification/Dlb_Rbt.thy ===== *)
theory Dlb_Rbt
  imports Dlb_Prelude "HOL-Library.Monad_Syntax"
begin

unbundle bit_operations_syntax

text \<open>
  Red-black trees (\<^verbatim>\<open>src/src/rbt.c\<close>), first part: the nodes in an explicit heap, searching and
  insertion. A tree is the pair of the heap and its root pointer. A dereference of \<open>NULL\<close> and a
  loop that does not end are both \<open>None\<close>, so that a lemma that an operation returns \<open>Some\<close> also
  says that it terminates and follows no null pointer.

  The abstraction is a binary tree of addresses and flag words (\<open>rtree\<close>); \<open>tree_at\<close> relates it to
  the \<open>left\<close>, \<open>right\<close> and \<open>parent\<close> pointers. Operations that work inside a tree are described at a
  focus: a subtree and the path (\<open>ctx\<close>) from it up to the root.
\<close>

section \<open>Nodes and operations\<close>

record rbt_node =
  flags :: u32
  left :: addr
  right :: addr
  parent :: addr

type_synonym rbt_heap = "addr \<Rightarrow> rbt_node"
type_synonym rbt = "rbt_heap \<times> addr"  \<comment> \<open>the heap and the root pointer\<close>

definition RBT_FLAG_RED :: u32 where "RBT_FLAG_RED = 1"
definition RBT_FLAG_MODIFIED :: u32 where "RBT_FLAG_MODIFIED = 2"

definition deref :: "rbt_heap \<Rightarrow> addr \<Rightarrow> rbt_node option" where
  "deref h n = (if n = NULL then None else Some (h n))"

definition upd :: "addr \<Rightarrow> (rbt_node \<Rightarrow> rbt_node) \<Rightarrow> rbt_heap \<Rightarrow> rbt_heap option" where
  "upd n f h = (if n = NULL then None else Some (h(n := f (h n))))"

definition red :: "u32 \<Rightarrow> bool" where "red f \<longleftrightarrow> f AND RBT_FLAG_RED \<noteq> 0"
definition modified :: "u32 \<Rightarrow> bool" where "modified f \<longleftrightarrow> f AND RBT_FLAG_MODIFIED \<noteq> 0"

definition to_red :: "u32 \<Rightarrow> u32" where "to_red f = f OR RBT_FLAG_RED"
definition to_black :: "u32 \<Rightarrow> u32" where "to_black f = f AND NOT RBT_FLAG_RED"
definition to_modified :: "u32 \<Rightarrow> u32" where "to_modified f = f OR RBT_FLAG_MODIFIED"

definition RBT_IS_RED :: "rbt_heap \<Rightarrow> addr \<Rightarrow> bool" where
  "RBT_IS_RED h n \<longleftrightarrow> n \<noteq> NULL \<and> red (flags (h n))"

definition RBT_IS_BLACK :: "rbt_heap \<Rightarrow> addr \<Rightarrow> bool" where
  "RBT_IS_BLACK h n \<longleftrightarrow> n = NULL \<or> \<not> red (flags (h n))"

definition MAKE_RED :: "addr \<Rightarrow> rbt_heap \<Rightarrow> rbt_heap option" where
  "MAKE_RED n = upd n (flags_update to_red)"

definition MAKE_BLACK :: "addr \<Rightarrow> rbt_heap \<Rightarrow> rbt_heap option" where
  "MAKE_BLACK n = upd n (flags_update to_black)"

definition MARK_MODIFIED :: "addr \<Rightarrow> rbt_heap \<Rightarrow> rbt_heap option" where
  "MARK_MODIFIED n = upd n (flags_update to_modified)"

definition rbt_init :: "rbt_heap \<Rightarrow> rbt" where
  "rbt_init h = (h, NULL)"

text \<open>\<open>cmp\<close> is the comparison function of the tree: a key against the key of a node.\<close>

partial_function (option) find_loop :: "('k \<Rightarrow> addr \<Rightarrow> int) \<Rightarrow> 'k \<Rightarrow> rbt_heap \<Rightarrow> addr \<Rightarrow> addr option" where
  "find_loop cmp key h n =
     (if n = NULL then Some n
      else let r = cmp key n in
        if r = 0 then Some n
        else find_loop cmp key h (if r < 0 then left (h n) else right (h n)))"

declare find_loop.simps [code]

definition rbt_find :: "('k \<Rightarrow> addr \<Rightarrow> int) \<Rightarrow> 'k \<Rightarrow> rbt \<Rightarrow> addr option" where
  "rbt_find cmp key t = find_loop cmp key (fst t) (snd t)"

fun fix_downptr :: "addr \<Rightarrow> addr \<Rightarrow> addr \<Rightarrow> rbt \<Rightarrow> rbt" where
  "fix_downptr p old n (h, root) =
     (if p \<noteq> NULL
      then (if left (h p) = old then (h(p := (h p)\<lparr>left := n\<rparr>), root)
            else (h(p := (h p)\<lparr>right := n\<rparr>), root))
      else (h, n))"

text \<open>\<open>if (c) c->parent = n;\<close>\<close>

definition adopt :: "addr \<Rightarrow> addr \<Rightarrow> rbt_heap \<Rightarrow> rbt_heap" where
  "adopt c n h = (if c \<noteq> NULL then h(c := (h c)\<lparr>parent := n\<rparr>) else h)"

fun rotate_left :: "addr \<Rightarrow> rbt \<Rightarrow> rbt option" where
  "rotate_left n (h, root) = do {
     x \<leftarrow> deref h n;
     let p = parent x;
     let r = right x;
     y \<leftarrow> deref h r;
     h \<leftarrow> upd n (right_update (\<lambda>_. left y)) h;
     let h = adopt (left y) n h;
     h \<leftarrow> upd r (left_update (\<lambda>_. n)) h;
     h \<leftarrow> upd n (parent_update (\<lambda>_. r)) h;
     h \<leftarrow> upd r (parent_update (\<lambda>_. p)) h;
     Some (fix_downptr p n r (h, root))
   }"

fun rotate_right :: "addr \<Rightarrow> rbt \<Rightarrow> rbt option" where
  "rotate_right n (h, root) = do {
     x \<leftarrow> deref h n;
     let p = parent x;
     let l = left x;
     y \<leftarrow> deref h l;
     h \<leftarrow> upd n (left_update (\<lambda>_. right y)) h;
     let h = adopt (right y) n h;
     h \<leftarrow> upd l (right_update (\<lambda>_. n)) h;
     h \<leftarrow> upd n (parent_update (\<lambda>_. l)) h;
     h \<leftarrow> upd l (parent_update (\<lambda>_. p)) h;
     Some (fix_downptr p n l (h, root))
   }"

definition sibling :: "rbt_heap \<Rightarrow> addr \<Rightarrow> addr option" where
  "sibling h n = do {
     x \<leftarrow> deref h n;
     p \<leftarrow> deref h (parent x);
     Some (if n = left p then right p else left p)
   }"

definition grandparent :: "rbt_heap \<Rightarrow> addr \<Rightarrow> addr option" where
  "grandparent h n = do {
     x \<leftarrow> deref h n;
     p \<leftarrow> deref h (parent x);
     Some (parent p)
   }"

text \<open>
  The recolouring loop of \<open>repair_after_insert\<close>. The result tells whether the function returns
  from inside the loop, and otherwise at which node the loop was left.
\<close>

partial_function (option) insert_recolour :: "addr \<Rightarrow> rbt_heap \<Rightarrow> (bool \<times> addr \<times> rbt_heap) option" where
  "insert_recolour n h = do {
     x \<leftarrow> deref h n;
     if parent x = NULL then do { h \<leftarrow> MAKE_BLACK n h; Some (True, n, h) }
     else if RBT_IS_BLACK h (parent x) then Some (True, n, h)
     else do {
       u \<leftarrow> sibling h (parent x);
       if RBT_IS_BLACK h u then Some (False, n, h)
       else do {
         h \<leftarrow> MAKE_BLACK u h;
         h \<leftarrow> MAKE_BLACK (parent x) h;
         g \<leftarrow> grandparent h n;
         h \<leftarrow> MAKE_RED g h;
         insert_recolour g h
       }
     }
   }"

declare insert_recolour.simps [code]

text \<open>The rotations at the end of \<open>repair_after_insert\<close>.\<close>

definition insert_turn :: "addr \<Rightarrow> rbt \<Rightarrow> (addr \<times> rbt) option" where
  "insert_turn n t = do {
     x \<leftarrow> deref (fst t) n;
     p \<leftarrow> deref (fst t) (parent x);
     gp \<leftarrow> grandparent (fst t) n;
     g \<leftarrow> deref (fst t) gp;
     if n = left p \<and> parent x = right g then do {
       t \<leftarrow> rotate_right (parent x) t;
       x \<leftarrow> deref (fst t) n;
       Some (right x, t)
     } else if n = right p \<and> parent x = left g then do {
       t \<leftarrow> rotate_left (parent x) t;
       x \<leftarrow> deref (fst t) n;
       Some (left x, t)
     } else Some (n, t)
   }"

definition insert_finish :: "addr \<Rightarrow> rbt \<Rightarrow> rbt option" where
  "insert_finish n t = do {
     x \<leftarrow> deref (fst t) n;
     h \<leftarrow> MAKE_BLACK (parent x) (fst t);
     gp \<leftarrow> grandparent h n;
     h \<leftarrow> MAKE_RED gp h;
     p \<leftarrow> deref h (parent x);
     if n = left p then rotate_right gp (h, snd t) else rotate_left gp (h, snd t)
   }"

definition repair_after_insert :: "addr \<Rightarrow> rbt \<Rightarrow> rbt option" where
  "repair_after_insert n t = do {
     (finished, n, h) \<leftarrow> insert_recolour n (fst t);
     if finished then Some (h, snd t)
     else do {
       (n, t) \<leftarrow> insert_turn n (h, snd t);
       insert_finish n t
     }
   }"

text \<open>
  The pointer \<open>nptr\<close> of \<open>rbt_insert\<close> is a node and a direction, or the root when the node is
  \<open>NULL\<close>; \<open>set_ptr\<close> is the assignment through it. The search marks every node it visits and
  returns the last value of \<open>p\<close>, of \<open>nptr\<close>, and the node \<open>*nptr\<close> whose key matches, if any.
\<close>

fun set_ptr :: "addr \<Rightarrow> bool \<Rightarrow> addr \<Rightarrow> rbt \<Rightarrow> rbt" where
  "set_ptr p goes_left n (h, root) =
     (if p = NULL then (h, n)
      else if goes_left then (h(p := (h p)\<lparr>left := n\<rparr>), root)
      else (h(p := (h p)\<lparr>right := n\<rparr>), root))"

partial_function (option) insert_search
  :: "('k \<Rightarrow> addr \<Rightarrow> int) \<Rightarrow> 'k \<Rightarrow> addr \<Rightarrow> bool \<Rightarrow> addr \<Rightarrow> rbt_heap \<Rightarrow> (addr \<times> bool \<times> addr \<times> rbt_heap) option" where
  "insert_search cmp key p goes_left c h =
     (if c = NULL then Some (p, goes_left, NULL, h)
      else let r = cmp key c in do {
        h \<leftarrow> MARK_MODIFIED c h;
        if r = 0 then Some (p, goes_left, c, h)
        else insert_search cmp key c (r < 0) (if r < 0 then left (h c) else right (h c)) h
      })"

declare insert_search.simps [code]

definition rbt_insert :: "('k \<Rightarrow> addr \<Rightarrow> int) \<Rightarrow> 'k \<Rightarrow> addr \<Rightarrow> rbt \<Rightarrow> (addr \<times> rbt) option" where
  "rbt_insert cmp key n t = do {
     (p, d, c, h) \<leftarrow> insert_search cmp key NULL False (snd t) (fst t);
     if c \<noteq> NULL then do {
       h \<leftarrow> upd n (\<lambda>_. h c) h;
       let (h, root) = set_ptr p d n (h, snd t);
       let h = adopt (left (h n)) n h;
       let h = adopt (right (h n)) n h;
       Some (c, (h, root))
     } else do {
       let (h, root) = set_ptr p d n (h, snd t);
       h \<leftarrow> upd n (\<lambda>x. x\<lparr>left := NULL, right := NULL, flags := 0, parent := p\<rparr>) h;
       h \<leftarrow> MAKE_RED n h;
       h \<leftarrow> MARK_MODIFIED n h;
       t \<leftarrow> repair_after_insert n (h, root);
       Some (NULL, t)
     }
   }"

section \<open>Flags\<close>

lemma flag_bits:
  "red f \<longleftrightarrow> bit f 0" "modified f \<longleftrightarrow> bit f 1"
  using and_exp_eq_0_iff_not_bit [of f 0] and_exp_eq_0_iff_not_bit [of f 1]
  by (simp_all add: red_def modified_def RBT_FLAG_RED_def RBT_FLAG_MODIFIED_def)

lemma flag_simps [simp]:
  "red (to_red f)" "\<not> red (to_black f)" "red (to_modified f) = red f"
  "modified (to_red f) = modified f" "modified (to_black f) = modified f" "modified (to_modified f)"
  "\<not> red 0"
  by (simp_all add: flag_bits to_red_def to_black_def to_modified_def RBT_FLAG_RED_def RBT_FLAG_MODIFIED_def bit_simps)

section \<open>Trees, paths and foci\<close>

datatype rtree = Tip | Bin rtree addr u32 rtree

fun nodes :: "rtree \<Rightarrow> addr list" where
  "nodes Tip = []"
| "nodes (Bin l a f r) = nodes l @ a # nodes r"

fun root_of :: "rtree \<Rightarrow> addr" where
  "root_of Tip = NULL"
| "root_of (Bin l a f r) = a"

text \<open>The tree \<open>t\<close> stands in the heap below the parent \<open>q\<close>.\<close>

fun tree_at :: "rbt_heap \<Rightarrow> addr \<Rightarrow> rtree \<Rightarrow> bool" where
  "tree_at h q Tip \<longleftrightarrow> True"
| "tree_at h q (Bin l a f r) \<longleftrightarrow>
     a \<noteq> NULL \<and> h a = \<lparr>flags = f, left = root_of l, right = root_of r, parent = q\<rparr> \<and>
     tree_at h a l \<and> tree_at h a r"

datatype dir_frame = Lf addr u32 rtree | Rt rtree addr u32

type_synonym ctx = "dir_frame list"

fun plug1 :: "dir_frame \<Rightarrow> rtree \<Rightarrow> rtree" where
  "plug1 (Lf a f r) s = Bin s a f r"
| "plug1 (Rt l a f) s = Bin l a f s"

definition plug :: "ctx \<Rightarrow> rtree \<Rightarrow> rtree" where
  "plug C s = fold plug1 C s"

lemma plug_simps [simp]: "plug [] s = s" "plug (F # C) s = plug C (plug1 F s)"
    "plug (C @ D) s = plug D (plug C s)"
  by (simp_all add: plug_def)

fun lefts :: "ctx \<Rightarrow> addr list" where
  "lefts [] = []"
| "lefts (Lf a f r # C) = lefts C"
| "lefts (Rt l a f # C) = lefts C @ nodes l @ [a]"

fun rights :: "ctx \<Rightarrow> addr list" where
  "rights [] = []"
| "rights (Lf a f r # C) = a # nodes r @ rights C"
| "rights (Rt l a f # C) = rights C"

lemma nodes_plug [simp]: "nodes (plug C s) = lefts C @ nodes s @ rights C"
proof (induction C arbitrary: s)
  case (Cons F C)
  then show ?case by (cases F) auto
qed simp

fun parent_of :: "ctx \<Rightarrow> addr" where
  "parent_of [] = NULL"
| "parent_of (Lf a f r # C) = a"
| "parent_of (Rt l a f # C) = a"

text \<open>The path \<open>C\<close> stands in the heap above a subtree whose root is \<open>p\<close>.\<close>

fun ctx_at :: "rbt_heap \<Rightarrow> addr \<Rightarrow> addr \<Rightarrow> ctx \<Rightarrow> bool" where
  "ctx_at h root p [] \<longleftrightarrow> root = p"
| "ctx_at h root p (Lf a f r # C) \<longleftrightarrow>
     a \<noteq> NULL \<and> h a = \<lparr>flags = f, left = p, right = root_of r, parent = parent_of C\<rparr> \<and>
     tree_at h a r \<and> ctx_at h root a C"
| "ctx_at h root p (Rt l a f # C) \<longleftrightarrow>
     a \<noteq> NULL \<and> h a = \<lparr>flags = f, left = root_of l, right = p, parent = parent_of C\<rparr> \<and>
     tree_at h a l \<and> ctx_at h root a C"

text \<open>The focus: subtree \<open>s\<close> below the path \<open>C\<close>.\<close>

definition focus :: "rbt \<Rightarrow> ctx \<Rightarrow> rtree \<Rightarrow> bool" where
  "focus t C s \<longleftrightarrow> ctx_at (fst t) (snd t) (root_of s) C \<and> tree_at (fst t) (parent_of C) s \<and>
     distinct (lefts C @ nodes s @ rights C)"

definition rbt_rep :: "rbt \<Rightarrow> rtree \<Rightarrow> bool" where
  "rbt_rep t s \<longleftrightarrow> focus t [] s"

lemma focus_plug1: "focus t C (plug1 F s) \<longleftrightarrow> focus t (F # C) s"
  by (cases F) (auto simp: focus_def)

lemma focus_plug: "rbt_rep t (plug C s) \<longleftrightarrow> focus t C s"
proof -
  have "focus t D (plug C s) \<longleftrightarrow> focus t (C @ D) s" for D
    by (induction C arbitrary: s) (simp_all add: focus_plug1)
  from this [of "[]"] show ?thesis by (simp add: rbt_rep_def)
qed

lemma focus_up: "focus t (Lf a f r # C) s \<longleftrightarrow> focus t C (Bin s a f r)"
    "focus t (Rt l a f # C) s \<longleftrightarrow> focus t C (Bin l a f s)"
  using focus_plug1 [of t C "Lf a f r" s] focus_plug1 [of t C "Rt l a f" s] by simp_all

lemma split_node: "a \<in> set (nodes t) \<Longrightarrow> \<exists>C l f r. t = plug C (Bin l a f r)"
proof (induction t)
  case (Bin l b f r)
  consider "a = b" | "a \<in> set (nodes l)" | "a \<in> set (nodes r)"
    using Bin.prems by auto
  then show ?case
  proof cases
    case 1
    then show ?thesis by (metis plug_simps(1))
  next
    case 2
    then obtain C l' g r' where "l = plug C (Bin l' a g r')"
      using Bin.IH(1) by blast
    then have "Bin l b f r = plug (C @ [Lf b f r]) (Bin l' a g r')"
      by simp
    then show ?thesis by blast
  next
    case 3
    then obtain C l' g r' where "r = plug C (Bin l' a g r')"
      using Bin.IH(2) by blast
    then have "Bin l b f r = plug (C @ [Rt l b f]) (Bin l' a g r')"
      by simp
    then show ?thesis by blast
  qed
qed simp

section \<open>What heap updates do to a focus\<close>

lemma tree_at_cong: "(\<And>a. a \<in> set (nodes t) \<Longrightarrow> h' a = h a) \<Longrightarrow> tree_at h' q t = tree_at h q t"
  by (induction t arbitrary: q) auto

lemma tree_at_upd [simp]: "a \<notin> set (nodes t) \<Longrightarrow> tree_at (h(a := x)) q t = tree_at h q t"
  by (rule tree_at_cong) auto

lemma ctx_at_cong:
  "(\<And>a. a \<in> set (lefts C) \<union> set (rights C) \<Longrightarrow> h' a = h a) \<Longrightarrow> ctx_at h' root p C = ctx_at h root p C"
proof (induction C arbitrary: p)
  case (Cons F C)
  then show ?case
    by (cases F) (auto simp: tree_at_cong [of _ h' h])
qed simp

lemma ctx_at_upd [simp]:
  "a \<notin> set (lefts C) \<Longrightarrow> a \<notin> set (rights C) \<Longrightarrow> ctx_at (h(a := x)) root p C = ctx_at h root p C"
  by (rule ctx_at_cong) auto

lemma root_of_NULL [simp]: "tree_at h q t \<Longrightarrow> root_of t = 0 \<longleftrightarrow> t = Tip"
  by (cases t) auto

lemma root_of_in: "t \<noteq> Tip \<Longrightarrow> root_of t \<in> set (nodes t)"
  by (cases t) auto

lemma parent_of_NULL [simp]: "ctx_at h root p C \<Longrightarrow> parent_of C = 0 \<longleftrightarrow> C = []"
  by (cases C rule: parent_of.cases) auto

lemma adopt_tree:
  "tree_at h q t \<Longrightarrow> distinct (nodes t) \<Longrightarrow> tree_at (adopt (root_of t) q' h) q' t"
  by (cases t) (auto simp: adopt_def)

lemma adopt_other [simp]: "a \<noteq> c \<Longrightarrow> adopt c n h a = h a"
  by (simp add: adopt_def)

lemma adopt_tree_other [simp]: "c \<notin> set (nodes t) \<Longrightarrow> tree_at (adopt c n h) q t = tree_at h q t"
  by (simp add: adopt_def)

lemma adopt_ctx_other [simp]:
  "c \<notin> set (lefts C) \<Longrightarrow> c \<notin> set (rights C) \<Longrightarrow> ctx_at (adopt c n h) root p C = ctx_at h root p C"
  by (simp add: adopt_def)

text \<open>\<open>fix_downptr\<close> replaces the subtree below a path, and touches only the path.\<close>

lemma fix_downptr_ctx:
  assumes "ctx_at h root p C" "p \<noteq> NULL" "p \<notin> set (lefts C) \<union> set (rights C)" "distinct (lefts C @ rights C)"
  obtains h' root' where "fix_downptr (parent_of C) p n (h, root) = (h', root')" "ctx_at h' root' n C"
    "\<And>a. a \<notin> set (lefts C) \<union> set (rights C) \<Longrightarrow> h' a = h a"
proof (cases C rule: parent_of.cases)
  case 1
  with assms that show ?thesis by simp
next
  case (2 a f r D)
  have "fix_downptr (parent_of C) p n (h, root) = (h(a := (h a)\<lparr>left := n\<rparr>), root)"
    using assms 2 by simp
  moreover have "ctx_at (h(a := (h a)\<lparr>left := n\<rparr>)) root n C"
    using assms 2 by auto
  ultimately show ?thesis
    using 2 by (intro that [of "h(a := (h a)\<lparr>left := n\<rparr>)" root]) auto
next
  case (3 l a f D)
  have "root_of l \<noteq> p"
    using assms 3 root_of_in [of l] by (cases l) auto
  then have "fix_downptr (parent_of C) p n (h, root) = (h(a := (h a)\<lparr>right := n\<rparr>), root)"
    using assms 3 by simp
  moreover have "ctx_at (h(a := (h a)\<lparr>right := n\<rparr>)) root n C"
    using assms 3 by auto
  ultimately show ?thesis
    using 3 by (intro that [of "h(a := (h a)\<lparr>right := n\<rparr>)" root]) auto
qed

text \<open>A change of the flags of one node.\<close>

fun reflag :: "addr \<Rightarrow> (u32 \<Rightarrow> u32) \<Rightarrow> rtree \<Rightarrow> rtree" where
  "reflag a F Tip = Tip"
| "reflag a F (Bin l b f r) = Bin (reflag a F l) b (if b = a then F f else f) (reflag a F r)"

fun reflag1 :: "addr \<Rightarrow> (u32 \<Rightarrow> u32) \<Rightarrow> dir_frame \<Rightarrow> dir_frame" where
  "reflag1 a F (Lf b f r) = Lf b (if b = a then F f else f) (reflag a F r)"
| "reflag1 a F (Rt l b f) = Rt (reflag a F l) b (if b = a then F f else f)"

lemma reflag_root [simp]: "root_of (reflag a F t) = root_of t"
  by (cases t) auto

lemma reflag_nodes [simp]: "nodes (reflag a F t) = nodes t"
  by (induction t) auto

lemma reflag_id [simp]: "a \<notin> set (nodes t) \<Longrightarrow> reflag a F t = t"
  by (induction t) auto

lemma reflag1_ctx [simp]:
  "lefts (map (reflag1 a F) C) = lefts C" "rights (map (reflag1 a F) C) = rights C"
  "parent_of (map (reflag1 a F) C) = parent_of C"
proof -
  show "lefts (map (reflag1 a F) C) = lefts C"
    by (induction C rule: lefts.induct) auto
  show "rights (map (reflag1 a F) C) = rights C"
    by (induction C rule: rights.induct) auto
  show "parent_of (map (reflag1 a F) C) = parent_of C"
    by (cases C rule: parent_of.cases) auto
qed

lemma reflag1_id [simp]:
  "a \<notin> set (lefts C) \<Longrightarrow> a \<notin> set (rights C) \<Longrightarrow> map (reflag1 a F) C = C"
proof (induction C)
  case (Cons G C)
  then show ?case by (cases G) auto
qed simp

lemma tree_at_reflag: "tree_at h q t \<Longrightarrow> tree_at (h(a := flags_update F (h a))) q (reflag a F t)"
  by (induction t arbitrary: q) auto

lemma ctx_at_reflag:
  "ctx_at h root p C \<Longrightarrow> ctx_at (h(a := flags_update F (h a))) root p (map (reflag1 a F) C)"
proof -
  define h' where "h' = h(a := flags_update F (h a))"
  have h': "h' b = (if b = a then flags_update F (h b) else h b)" for b
    by (simp add: h'_def)
  have "tree_at h q t \<Longrightarrow> tree_at h' q (reflag a F t)" for q t
    unfolding h'_def by (rule tree_at_reflag)
  then have "ctx_at h root p C \<Longrightarrow> ctx_at h' root p (map (reflag1 a F) C)"
    by (induction C arbitrary: p rule: lefts.induct) (auto simp: h')
  then show "ctx_at h root p C \<Longrightarrow> ?thesis"
    by (simp add: h'_def)
qed

lemma focus_reflag:
  assumes "focus (h, root) C s"
  shows "focus (h(a := flags_update F (h a)), root) (map (reflag1 a F) C) (reflag a F s)"
  using assms tree_at_reflag ctx_at_reflag by (auto simp: focus_def)

text \<open>Rotations.\<close>

declare fix_downptr.simps [simp del]

lemma deref_simps [simp]: "n \<noteq> NULL \<Longrightarrow> deref h n = Some (h n)" "n \<noteq> NULL \<Longrightarrow> upd n F h = Some (h(n := F (h n)))"
  by (simp_all add: deref_def upd_def)

lemma focus_Bin:
  "focus (h, root) C (Bin l n f r) \<longleftrightarrow> ctx_at h root n C \<and> n \<noteq> NULL \<and>
     h n = \<lparr>flags = f, left = root_of l, right = root_of r, parent = parent_of C\<rparr> \<and>
     tree_at h n l \<and> tree_at h n r \<and> distinct (lefts C @ (nodes l @ n # nodes r) @ rights C)"
  by (auto simp: focus_def)

lemma focus_replace:
  assumes "ctx_at h root p C" "p \<noteq> NULL" "p \<notin> set (lefts C) \<union> set (rights C)"
    and "tree_at h (parent_of C) s" "distinct (lefts C @ nodes s @ rights C)"
  obtains h' root' where "fix_downptr (parent_of C) p (root_of s) (h, root) = (h', root')" "focus (h', root') C s"
proof -
  have "distinct (lefts C @ rights C)"
    using assms(5) by auto
  from fix_downptr_ctx [OF assms(1,2,3) this, of "root_of s"] obtain h' root'
    where *: "fix_downptr (parent_of C) p (root_of s) (h, root) = (h', root')" "ctx_at h' root' (root_of s) C"
      "\<And>a. a \<notin> set (lefts C) \<union> set (rights C) \<Longrightarrow> h' a = h a"
    by metis
  have "tree_at h' (parent_of C) s = tree_at h (parent_of C) s"
    using assms(5) by (intro tree_at_cong *(3)) auto
  with * assms(4,5) that show ?thesis by (simp add: focus_def)
qed

lemma adopt_frame [simp]:
  "a \<notin> set (nodes t) \<Longrightarrow> adopt (root_of t) n h a = h a"
  "set (nodes t) \<inter> set (nodes s) = {} \<Longrightarrow> tree_at (adopt (root_of t) n h) q s = tree_at h q s"
  "set (nodes t) \<inter> set (lefts C) = {} \<Longrightarrow> set (nodes t) \<inter> set (rights C) = {} \<Longrightarrow>
     ctx_at (adopt (root_of t) n h) root p C = ctx_at h root p C"
  by (cases t; auto simp: adopt_def)+

lemma disjoint_append [simp]:
  "set (xs @ ys) \<inter> A = {} \<longleftrightarrow> set xs \<inter> A = {} \<and> set ys \<inter> A = {}"
  "A \<inter> set (xs @ ys) = {} \<longleftrightarrow> A \<inter> set xs = {} \<and> A \<inter> set ys = {}"
  "set (x # xs) \<inter> A = {} \<longleftrightarrow> x \<notin> A \<and> set xs \<inter> A = {}"
  "A \<inter> set (x # xs) = {} \<longleftrightarrow> x \<notin> A \<and> A \<inter> set xs = {}"
  by auto

lemma distinct_focus:
  "distinct (xs @ (ys @ a # zs) @ ws) \<longleftrightarrow> distinct xs \<and> distinct ys \<and> distinct zs \<and> distinct ws \<and>
     a \<notin> set xs \<and> a \<notin> set ys \<and> a \<notin> set zs \<and> a \<notin> set ws \<and> set xs \<inter> set ys = {} \<and> set xs \<inter> set zs = {} \<and>
     set xs \<inter> set ws = {} \<and> set ys \<inter> set zs = {} \<and> set ys \<inter> set ws = {} \<and> set zs \<inter> set ws = {}"
  by auto

lemma distinct_Bin:
  "distinct (ys @ a # zs) \<longleftrightarrow> distinct ys \<and> distinct zs \<and> a \<notin> set ys \<and> a \<notin> set zs \<and> set ys \<inter> set zs = {}"
  by auto

lemma rotate_left_focus:
  assumes "focus (h, root) C (Bin A n f (Bin B r g D))"
  obtains h' root' where "rotate_left n (h, root) = Some (h', root')" "focus (h', root') C (Bin (Bin A n f B) r g D)"
proof -
  note F = assms [unfolded focus_Bin tree_at.simps nodes.simps distinct_focus distinct_Bin disjoint_append]
  have dist: "distinct (lefts C @ nodes (Bin (Bin A n f B) r g D) @ rights C)"
    using assms by (simp add: focus_def)
  define h2 where "h2 = adopt (root_of B) n (h(n := (h n)\<lparr>right := root_of B\<rparr>))"
  define h4 where "h4 = h2(r := (h2 r)\<lparr>left := n\<rparr>, n := (h2 n)\<lparr>parent := r\<rparr>)"
  define h5 where "h5 = h4(r := (h4 r)\<lparr>parent := parent_of C\<rparr>)"
  have nr: "n \<noteq> r" "n \<notin> set (nodes B)" "r \<notin> set (nodes B)" and s: "set (nodes B) \<inter> set (nodes A) = {}"
    "set (nodes B) \<inter> set (lefts C) = {}"
    using F by (auto simp: Int_commute)
  have "tree_at h2 n B"
    unfolding h2_def using F by (intro adopt_tree [of _ r]) auto
  moreover have "tree_at h2 n A" 
    using F s by (simp add: h2_def)
  moreover have "tree_at h2 r D" 
    using F by (simp add: h2_def)
  moreover have "ctx_at h2 root n C"
    using F s by (simp add: h2_def)
  moreover have h2: "h2 n = \<lparr>flags = f, left = root_of A, right = root_of B, parent = parent_of C\<rparr>"
      "h2 r = \<lparr>flags = g, left = root_of B, right = root_of D, parent = n\<rparr>"
    using F nr by (simp_all add: h2_def)
  ultimately have "tree_at h5 (parent_of C) (Bin (Bin A n f B) r g D)" "ctx_at h5 root n C"
    using F nr by (simp_all add: h5_def h4_def)
  then obtain h' root' where *: "fix_downptr (parent_of C) n r (h5, root) = (h', root')"
    "focus (h', root') C (Bin (Bin A n f B) r g D)"
    using F dist focus_replace [of h5 root n C "Bin (Bin A n f B) r g D"] by auto
  have "rotate_left n (h, root) = Some (h', root')"
    using F nr *(1) by (simp add: h5_def h4_def h2_def Let_def)
  with * that show ?thesis by blast
qed

lemma rotate_right_focus:
  assumes "focus (h, root) C (Bin (Bin D l g B) n f A)"
  obtains h' root' where "rotate_right n (h, root) = Some (h', root')" "focus (h', root') C (Bin D l g (Bin B n f A))"
proof -
  note F = assms [unfolded focus_Bin tree_at.simps nodes.simps distinct_focus distinct_Bin disjoint_append]
  have dist: "distinct (lefts C @ nodes (Bin D l g (Bin B n f A)) @ rights C)"
    using assms by (simp add: focus_def)
  define h2 where "h2 = adopt (root_of B) n (h(n := (h n)\<lparr>left := root_of B\<rparr>))"
  define h4 where "h4 = h2(l := (h2 l)\<lparr>right := n\<rparr>, n := (h2 n)\<lparr>parent := l\<rparr>)"
  define h5 where "h5 = h4(l := (h4 l)\<lparr>parent := parent_of C\<rparr>)"
  have nr: "n \<noteq> l" "n \<notin> set (nodes B)" "l \<notin> set (nodes B)" and s: "set (nodes B) \<inter> set (nodes D) = {}"
    "set (nodes B) \<inter> set (lefts C) = {}"
    using F by (auto simp: Int_commute)
  have "tree_at h2 n B"
    unfolding h2_def using F by (intro adopt_tree [of _ l]) auto
  moreover have "tree_at h2 n A" 
    using F s by (simp add: h2_def)
  moreover have "tree_at h2 l D" 
    using F s by (simp add: h2_def)
  moreover have "ctx_at h2 root n C"
    using F s by (simp add: h2_def)
  moreover have h2: "h2 n = \<lparr>flags = f, left = root_of B, right = root_of A, parent = parent_of C\<rparr>"
      "h2 l = \<lparr>flags = g, left = root_of D, right = root_of B, parent = n\<rparr>"
    using F nr by (simp_all add: h2_def)
  ultimately have "tree_at h5 (parent_of C) (Bin D l g (Bin B n f A))" "ctx_at h5 root n C"
    using F nr by (simp_all add: h5_def h4_def)
  then obtain h' root' where *: "fix_downptr (parent_of C) n l (h5, root) = (h', root')"
    "focus (h', root') C (Bin D l g (Bin B n f A))"
    using F dist focus_replace [of h5 root n C "Bin D l g (Bin B n f A)"] by auto
  have "rotate_right n (h, root) = Some (h', root')"
    using F nr *(1) by (simp add: h5_def h4_def h2_def Let_def)
  with * that show ?thesis by blast
qed

section \<open>The red-black invariant\<close>

fun rootred :: "rtree \<Rightarrow> bool" where
  "rootred Tip = False"
| "rootred (Bin l a f r) = red f"

fun bheight :: "rtree \<Rightarrow> nat" where
  "bheight Tip = 0"
| "bheight (Bin l a f r) = (if red f then bheight l else bheight l + 1)"

fun invh :: "rtree \<Rightarrow> bool" where
  "invh Tip = True"
| "invh (Bin l a f r) = (bheight l = bheight r \<and> invh l \<and> invh r)"

fun invc :: "rtree \<Rightarrow> bool" where
  "invc Tip = True"
| "invc (Bin l a f r) = ((red f \<longrightarrow> \<not> rootred l \<and> \<not> rootred r) \<and> invc l \<and> invc r)"

definition rbt_ok :: "rtree \<Rightarrow> bool" where
  "rbt_ok t \<longleftrightarrow> invh t \<and> invc t \<and> \<not> rootred t"

fun frame_flags :: "dir_frame \<Rightarrow> u32" where
  "frame_flags (Lf a f r) = f"
| "frame_flags (Rt l a f) = f"

fun frame_sib :: "dir_frame \<Rightarrow> rtree" where
  "frame_sib (Lf a f r) = r"
| "frame_sib (Rt l a f) = l"

fun frame_addr :: "dir_frame \<Rightarrow> addr" where
  "frame_addr (Lf a f r) = a"
| "frame_addr (Rt l a f) = a"

fun topred :: "ctx \<Rightarrow> bool" where
  "topred [] = False"
| "topred (F # C) = red (frame_flags F)"

text \<open>A path is in order for subtrees of black height \<open>k\<close>.\<close>

fun ctx_ok :: "ctx \<Rightarrow> nat \<Rightarrow> bool" where
  "ctx_ok [] k = True"
| "ctx_ok (F # C) k = (bheight (frame_sib F) = k \<and> invh (frame_sib F) \<and> invc (frame_sib F) \<and>
     (red (frame_flags F) \<longrightarrow> \<not> rootred (frame_sib F) \<and> C \<noteq> [] \<and> \<not> topred C) \<and>
     ctx_ok C (if red (frame_flags F) then k else k + 1))"

lemma rbt_ok_plug:
  "rbt_ok (plug C s) \<longleftrightarrow>
     ctx_ok C (bheight s) \<and> invh s \<and> invc s \<and> (rootred s \<longrightarrow> C \<noteq> [] \<and> \<not> topred C)"
proof (induction C arbitrary: s)
  case (Cons F C)
  show ?case
  proof (cases F)
    case (Lf a f r)
    show ?thesis by (simp add: Cons.IH Lf) metis
  next
    case (Rt l a f)
    show ?thesis by (simp add: Cons.IH Rt) metis
  qed
qed (auto simp: rbt_ok_def)

text \<open>
  Augmented trees: \<open>S\<close> is the summary stored in every node, here the nodes of its subtree. A node
  whose summary is out of date must be marked as modified.
\<close>

fun summarised :: "(addr \<Rightarrow> addr list) \<Rightarrow> rtree \<Rightarrow> bool" where
  "summarised S Tip = True"
| "summarised S (Bin l a f r) =
     ((modified f \<or> S a = nodes (Bin l a f r)) \<and> summarised S l \<and> summarised S r)"

fun ctx_marked :: "(addr \<Rightarrow> addr list) \<Rightarrow> ctx \<Rightarrow> bool" where
  "ctx_marked S [] = True"
| "ctx_marked S (F # C) = (modified (frame_flags F) \<and> summarised S (frame_sib F) \<and> ctx_marked S C)"

lemma summarised_plug: "ctx_marked S C \<Longrightarrow> summarised S s \<Longrightarrow> summarised S (plug C s)"
proof (induction C arbitrary: s)
  case (Cons F C)
  then show ?case by (cases F) auto
qed simp

fun rootmod :: "rtree \<Rightarrow> bool" where
  "rootmod Tip = True"
| "rootmod (Bin l a f r) = modified f"

section \<open>Repair after insertion\<close>

text \<open>The focus is at a red node; only its parent may be red as well.\<close>

definition ins_inv :: "(addr \<Rightarrow> addr list) \<Rightarrow> ctx \<Rightarrow> rtree \<Rightarrow> bool" where
  "ins_inv S C s \<longleftrightarrow> ctx_ok C (bheight s) \<and> invh s \<and> invc s \<and> rootred s \<and>
     ctx_marked S C \<and> summarised S s \<and> rootmod s"

fun blacken :: "rtree \<Rightarrow> rtree" where
  "blacken Tip = Tip"
| "blacken (Bin l a f r) = Bin l a (to_black f) r"

fun recolour :: "dir_frame \<Rightarrow> dir_frame \<Rightarrow> rtree \<Rightarrow> rtree" where
  "recolour (Lf a f r) (Lf b g u) s = Bin (Bin s a (to_black f) r) b (to_red g) (blacken u)"
| "recolour (Rt l a f) (Lf b g u) s = Bin (Bin l a (to_black f) s) b (to_red g) (blacken u)"
| "recolour (Lf a f r) (Rt u b g) s = Bin (blacken u) b (to_red g) (Bin s a (to_black f) r)"
| "recolour (Rt l a f) (Rt u b g) s = Bin (blacken u) b (to_red g) (Bin l a (to_black f) s)"

lemma root_of_neq [simp]:
  "a \<notin> set (nodes t) \<Longrightarrow> 0 < a \<Longrightarrow> root_of t \<noteq> a" "a \<notin> set (nodes t) \<Longrightarrow> 0 < a \<Longrightarrow> a \<noteq> root_of t"
  by (cases t; auto)+

lemma recolour_inv:
  assumes "ins_inv S (F1 # F2 # C) s" "red (frame_flags F1)" "rootred (frame_sib F2)"
  shows "ins_inv S C (recolour F1 F2 s)"
  using assms by (cases F1; cases F2; cases "frame_sib F2") (auto simp: ins_inv_def)

lemma recolour_nodes: "nodes (recolour F1 F2 s) = nodes (plug [F1, F2] s)"
  by (cases F1; cases F2; cases "frame_sib F2") auto

lemma is_black_root [simp]:
  "tree_at h q t \<Longrightarrow> RBT_IS_BLACK h (root_of t) \<longleftrightarrow> \<not> rootred t"
  "tree_at h q t \<Longrightarrow> RBT_IS_RED h (root_of t) \<longleftrightarrow> rootred t"
  by (cases t; auto simp: RBT_IS_BLACK_def RBT_IS_RED_def)+

lemma sibling_focus:
  assumes "focus (h, root) (F # C) (Bin l n f r)"
  shows "sibling h n = Some (root_of (frame_sib F))"
  using assms by (cases F) (auto simp: sibling_def focus_def)

lemma grandparent_focus:
  assumes "focus (h, root) (F # C) (Bin l n f r)"
  shows "grandparent h n = Some (parent_of C)"
  using assms by (cases F) (auto simp: grandparent_def focus_def)

lemma recolour_heap:
  assumes fo: "focus (h, root) (F1 # F2 # C) (Bin l n f r)" and u: "frame_sib F2 \<noteq> Tip"
  shows "\<exists>h1 h2 h3. MAKE_BLACK (root_of (frame_sib F2)) h = Some h1 \<and> MAKE_BLACK (frame_addr F1) h1 = Some h2 \<and>
    grandparent h2 n = Some (frame_addr F2) \<and> MAKE_RED (frame_addr F2) h2 = Some h3 \<and>
    focus (h3, root) C (recolour F1 F2 (Bin l n f r))"
proof -
  obtain ul uu fu ur where sib: "frame_sib F2 = Bin ul uu fu ur"
    using u by (cases "frame_sib F2") auto
  define h1 where "h1 = h(uu := flags_update to_black (h uu))"
  define h2 where "h2 = h1(frame_addr F1 := flags_update to_black (h1 (frame_addr F1)))"
  define h3 where "h3 = h2(frame_addr F2 := flags_update to_red (h2 (frame_addr F2)))"
  have nn: "uu \<noteq> NULL" "frame_addr F1 \<noteq> NULL" "frame_addr F2 \<noteq> NULL"
    using fo sib by (cases F1; cases F2; auto simp: focus_def)+
  have fo2: "focus (h2, root) (map (reflag1 (frame_addr F1) to_black) (map (reflag1 uu to_black) (F1 # F2 # C)))
      (reflag (frame_addr F1) to_black (reflag uu to_black (Bin l n f r)))"
    unfolding h2_def h1_def by (intro focus_reflag fo)
  have D: "distinct (lefts C @ nodes (plug [F1, F2] (Bin l n f r)) @ rights C)"
    using fo by (cases F1; cases F2; simp add: focus_def)
  have "grandparent h2 n = Some (frame_addr F2)"
    using fo2 by (cases F1; cases F2) (auto dest: grandparent_focus)
  moreover have "focus (h3, root) C (recolour F1 F2 (Bin l n f r))"
    using focus_reflag [OF fo2, of "frame_addr F2" to_red] D sib
    by (cases F1; cases F2; simp add: h3_def focus_up)
  moreover have "MAKE_BLACK uu h = Some h1" "MAKE_BLACK (frame_addr F1) h1 = Some h2"
      "MAKE_RED (frame_addr F2) h2 = Some h3"
    using nn by (simp_all add: MAKE_BLACK_def MAKE_RED_def h1_def h2_def h3_def)
  ultimately show ?thesis
    using sib by simp
qed

lemma insert_recolour_ok:
  assumes "focus (h, root) C s" "ins_inv S C s" "n = root_of s"
  shows "\<exists>finished n' h' C' s'. insert_recolour n h = Some (finished, n', h') \<and> focus (h', root) C' s' \<and>
    nodes (plug C' s') = nodes (plug C s) \<and>
    (if finished then rbt_ok (plug C' s') \<and> summarised S (plug C' s')
     else ins_inv S C' s' \<and> n' = root_of s' \<and> (\<exists>F1 F2 D. C' = F1 # F2 # D \<and> red (frame_flags F1) \<and> \<not> rootred (frame_sib F2)))"
  using assms
proof (induction "length C" arbitrary: C h s n rule: less_induct)
  case less
  obtain l f r where s: "s = Bin l n f r"
    using less.prems by (cases s) (auto simp: ins_inv_def)
  note fo = less.prems(1) [unfolded s] and inv = less.prems(2)
  have n: "n \<noteq> NULL" "h n = \<lparr>flags = f, left = root_of l, right = root_of r, parent = parent_of C\<rparr>"
    using fo by (auto simp: focus_Bin)
  have at: "ctx_at h root n C"
    using fo by (simp add: focus_Bin)
  show ?case
  proof (cases "topred C")
    case False
    show ?thesis
    proof (cases "C = []")
      case True
      have "insert_recolour n h = Some (True, n, h(n := flags_update to_black (h n)))"
        using n True by (subst insert_recolour.simps) (simp add: MAKE_BLACK_def)
      moreover have "focus (h(n := flags_update to_black (h n)), root) [] (Bin l n (to_black f) r)"
        using focus_reflag [OF fo, of n to_black] fo True by (simp add: focus_def)
      moreover have "rbt_ok (Bin l n (to_black f) r) \<and> summarised S (Bin l n (to_black f) r)"
        using inv s by (auto simp: ins_inv_def rbt_ok_def)
      ultimately show ?thesis
        using True s by (intro exI [of _ True] exI [of _ n] exI [of _ "h(n := flags_update to_black (h n))"]
            exI [of _ "[]"] exI [of _ "Bin l n (to_black f) r"]) simp
    next
      case nonempty: False
      then have "RBT_IS_BLACK h (parent_of C)"
        using at False by (cases C rule: parent_of.cases) (auto simp: RBT_IS_BLACK_def)
      then have "insert_recolour n h = Some (True, n, h)"
        using n nonempty at by (subst insert_recolour.simps) simp
      moreover have "rbt_ok (plug C s)"
        using inv nonempty False by (auto simp: rbt_ok_plug ins_inv_def)
      ultimately show ?thesis
        using less.prems(1) inv by (intro exI [of _ True] exI [of _ n] exI [of _ h] exI [of _ C] exI [of _ s])
          (simp add: ins_inv_def summarised_plug)
    qed
  next
    case True
    then obtain F1 F2 D where C: "C = F1 # F2 # D"
      using inv by (cases C; cases "tl C") (auto simp: ins_inv_def)
    then have "parent_of C = frame_addr F1" "RBT_IS_BLACK h (frame_addr F1) = False" "frame_addr F1 \<noteq> NULL"
      using at True by (cases F1; auto simp: RBT_IS_BLACK_def)+
    note p = this
    have "focus (h, root) (F2 # D) (plug1 F1 s)"
      using fo C s by (simp add: focus_plug1)
    moreover obtain l1 f1 r1 where "plug1 F1 s = Bin l1 (frame_addr F1) f1 r1"
      by (cases F1) auto
    ultimately have sib: "sibling h (frame_addr F1) = Some (root_of (frame_sib F2))"
      "tree_at h (frame_addr F2) (frame_sib F2)"
      using sibling_focus by (fastforce, cases F2, simp_all add: focus_def)
    show ?thesis
    proof (cases "rootred (frame_sib F2)")
      case False
      then have "insert_recolour n h = Some (False, n, h)"
        using n sib p by (subst insert_recolour.simps) simp
      then show ?thesis
        using less.prems C True False by (intro exI [of _ False] exI [of _ n] exI [of _ h] exI [of _ C] exI [of _ s]) simp
    next
      case redu: True
      then have "frame_sib F2 \<noteq> Tip" by auto
      then obtain h1 h2 h3 where hs: "MAKE_BLACK (root_of (frame_sib F2)) h = Some h1" "MAKE_BLACK (frame_addr F1) h1 = Some h2"
          "grandparent h2 n = Some (frame_addr F2)" "MAKE_RED (frame_addr F2) h2 = Some h3"
          "focus (h3, root) D (recolour F1 F2 s)"
        using recolour_heap [of h root F1 F2 D l n f r] fo C s by auto
      have "insert_recolour n h = insert_recolour (frame_addr F2) h3"
        using n sib p hs redu by (subst insert_recolour.simps) simp
      moreover have "ins_inv S D (recolour F1 F2 s)"
        using recolour_inv inv C True redu by auto
      moreover have "frame_addr F2 = root_of (recolour F1 F2 s)"
        by (cases F1; cases F2) auto
      ultimately show ?thesis
        using less.hyps [of D h3 "recolour F1 F2 s" "frame_addr F2"] hs(5) C recolour_nodes [of F1 F2 s]
        by simp
    qed
  qed
qed

fun same_dir :: "dir_frame \<Rightarrow> dir_frame \<Rightarrow> bool" where
  "same_dir (Lf a f r) F \<longleftrightarrow> (case F of Lf _ _ _ \<Rightarrow> True | Rt _ _ _ \<Rightarrow> False)"
| "same_dir (Rt l a f) F \<longleftrightarrow> (case F of Rt _ _ _ \<Rightarrow> True | Lf _ _ _ \<Rightarrow> False)"

lemma focus_pair:
  assumes "focus (h, root) (F1 # F2 # D) (Bin l n f r)"
  shows "n \<noteq> NULL" "parent (h n) = frame_addr F1" "frame_addr F1 \<noteq> NULL" "frame_addr F2 \<noteq> NULL"
    "grandparent h n = Some (frame_addr F2)"
    "n = left (h (frame_addr F1)) \<longleftrightarrow> (\<exists>a f r. F1 = Lf a f r)"
    "n = right (h (frame_addr F1)) \<longleftrightarrow> (\<exists>l a f. F1 = Rt l a f)"
    "frame_addr F1 = left (h (frame_addr F2)) \<longleftrightarrow> (\<exists>a f r. F2 = Lf a f r)"
    "frame_addr F1 = right (h (frame_addr F2)) \<longleftrightarrow> (\<exists>l a f. F2 = Rt l a f)"
  using assms by (cases F1; cases F2; simp add: focus_def grandparent_def)+

lemma insert_turn_ok:
  assumes fo: "focus (h, root) (F1 # F2 # D) (Bin l n f r)" and inv: "ins_inv S (F1 # F2 # D) (Bin l n f r)"
    and red: "red (frame_flags F1)"
  shows "\<exists>n' h' root' F s. insert_turn n (h, root) = Some (n', h', root') \<and> focus (h', root') (F # F2 # D) s \<and>
    same_dir F F2 \<and> ins_inv S (F # F2 # D) s \<and> red (frame_flags F) \<and> n' = root_of s \<and>
    nodes (plug1 F s) = nodes (plug1 F1 (Bin l n f r))"
proof -
  note fp = focus_pair [OF fo]
  show ?thesis
  proof (cases F1)
    case F1: (Lf a fa ra)
    show ?thesis
    proof (cases F2)
      case (Lf b fb rb)
      then have "insert_turn n (h, root) = Some (n, h, root)"
        using fp F1 by (simp add: insert_turn_def)
      with fo inv red F1 Lf show ?thesis by fastforce
    next
      case F2: (Rt lb b fb)
      have "focus (h, root) (F2 # D) (Bin (Bin l n f r) a fa ra)"
        using fo F1 by (simp add: focus_up)
      then obtain h' root' where rot: "rotate_right a (h, root) = Some (h', root')"
        "focus (h', root') (F2 # D) (Bin l n f (Bin r a fa ra))"
        by (rule rotate_right_focus)
      then have fo': "focus (h', root') (Rt l n f # F2 # D) (Bin r a fa ra)" and "right (h' n) = a"
        by (simp_all add: focus_up focus_Bin)
      then have "insert_turn n (h, root) = Some (a, h', root')"
        using fp F1 F2 rot by (simp add: insert_turn_def)
      moreover have "ins_inv S (Rt l n f # F2 # D) (Bin r a fa ra)" "red f"
        using inv red F1 by (auto simp: ins_inv_def)
      ultimately show ?thesis
        using fo' F1 F2 by fastforce
    qed
  next
    case F1: (Rt la a fa)
    show ?thesis
    proof (cases F2)
      case (Rt lb b fb)
      then have "insert_turn n (h, root) = Some (n, h, root)"
        using fp F1 by (simp add: insert_turn_def)
      with fo inv red F1 Rt show ?thesis by fastforce
    next
      case F2: (Lf b fb rb)
      have "focus (h, root) (F2 # D) (Bin la a fa (Bin l n f r))"
        using fo F1 by (simp add: focus_up)
      then obtain h' root' where rot: "rotate_left a (h, root) = Some (h', root')"
        "focus (h', root') (F2 # D) (Bin (Bin la a fa l) n f r)"
        by (rule rotate_left_focus)
      then have fo': "focus (h', root') (Lf n f r # F2 # D) (Bin la a fa l)" and "left (h' n) = a"
        by (simp_all add: focus_up focus_Bin)
      then have "insert_turn n (h, root) = Some (a, h', root')"
        using fp F1 F2 rot by (simp add: insert_turn_def)
      moreover have "ins_inv S (Lf n f r # F2 # D) (Bin la a fa l)" "red f"
        using inv red F1 by (auto simp: ins_inv_def)
      ultimately show ?thesis
        using fo' F1 F2 by fastforce
    qed
  qed
qed

lemma recolour_pair:
  assumes fo: "focus (h, root) (F1 # F2 # D) (Bin l n f r)"
  shows "\<exists>h1 h2. MAKE_BLACK (frame_addr F1) h = Some h1 \<and> grandparent h1 n = Some (frame_addr F2) \<and>
    MAKE_RED (frame_addr F2) h1 = Some h2 \<and>
    focus (h2, root) (map (reflag1 (frame_addr F2) to_red) (map (reflag1 (frame_addr F1) to_black) (F1 # F2 # D))) (Bin l n f r) \<and>
    (n = left (h2 (frame_addr F1)) \<longleftrightarrow> (\<exists>a f r. F1 = Lf a f r))"
proof -
  define h1 where "h1 = h(frame_addr F1 := flags_update to_black (h (frame_addr F1)))"
  define h2 where "h2 = h1(frame_addr F2 := flags_update to_red (h1 (frame_addr F2)))"
  have "n \<noteq> frame_addr F1" "n \<noteq> frame_addr F2" "frame_addr F1 \<notin> set (nodes l)" "frame_addr F2 \<notin> set (nodes l)"
     "frame_addr F1 \<notin> set (nodes r)" "frame_addr F2 \<notin> set (nodes r)"
    using fo by (cases F1; cases F2; simp add: focus_def)+
  then have fo1: "focus (h1, root) (map (reflag1 (frame_addr F1) to_black) (F1 # F2 # D)) (Bin l n f r)"
     and fo2: "focus (h2, root) (map (reflag1 (frame_addr F2) to_red) (map (reflag1 (frame_addr F1) to_black) (F1 # F2 # D)))
      (Bin l n f r)"
    using focus_reflag [OF fo, of "frame_addr F1" to_black]
      focus_reflag [OF focus_reflag [OF fo, of "frame_addr F1" to_black], of "frame_addr F2" to_red]
    unfolding h1_def h2_def by (simp_all only: reflag.simps reflag_id if_False not_False_eq_True)
  have "grandparent h1 n = Some (frame_addr F2)"
    using focus_pair(5) [OF fo1 [simplified list.map]] by (cases F2) auto
  moreover have "n = left (h2 (frame_addr F1)) \<longleftrightarrow> (\<exists>a f r. F1 = Lf a f r)"
    using focus_pair(6) [OF fo2 [simplified list.map]] by (cases F1) auto
  moreover have "MAKE_BLACK (frame_addr F1) h = Some h1" "MAKE_RED (frame_addr F2) h1 = Some h2"
    using focus_pair(3,4) [OF fo] by (simp_all add: MAKE_BLACK_def MAKE_RED_def h1_def h2_def)
  ultimately show ?thesis
    using fo2 by blast
qed

lemma insert_finish_ok:
  assumes fo: "focus (h, root) (F1 # F2 # D) (Bin l n f r)" and inv: "ins_inv S (F1 # F2 # D) (Bin l n f r)"
    and red: "red (frame_flags F1)" "\<not> rootred (frame_sib F2)" and dir: "same_dir F1 F2"
  shows "\<exists>t' s. insert_finish n (h, root) = Some t' \<and> rbt_rep t' s \<and> rbt_ok s \<and> summarised S s \<and>
    nodes s = nodes (plug (F1 # F2 # D) (Bin l n f r))"
proof -
  obtain h1 h2 where hs: "MAKE_BLACK (frame_addr F1) h = Some h1" "grandparent h1 n = Some (frame_addr F2)"
    "MAKE_RED (frame_addr F2) h1 = Some h2"
    "focus (h2, root) (map (reflag1 (frame_addr F2) to_red) (map (reflag1 (frame_addr F1) to_black) (F1 # F2 # D))) (Bin l n f r)"
    "n = left (h2 (frame_addr F1)) \<longleftrightarrow> (\<exists>a f r. F1 = Lf a f r)"
    using recolour_pair [OF fo] by blast
  have fin: "insert_finish n (h, root) =
      (if n = left (h2 (frame_addr F1)) then rotate_right (frame_addr F2) (h2, root)
       else rotate_left (frame_addr F2) (h2, root))"
    using focus_pair(1-4) [OF fo] hs(1-3) by (simp add: insert_finish_def)
  have D: "distinct (lefts D @ nodes (plug [F1, F2] (Bin l n f r)) @ rights D)"
    using fo by (cases F1; cases F2; simp add: focus_def)
  have "\<exists>t' s. insert_finish n (h, root) = Some t' \<and> focus t' D s \<and> rbt_ok (plug D s) \<and> summarised S s \<and>
    nodes s = nodes (plug [F1, F2] (Bin l n f r))"
  proof (cases F1)
    case F1: (Lf a fa ra)
    then obtain b fb rb where F2: "F2 = Lf b fb rb"
      using dir by (cases F2) auto
    have "focus (h2, root) D (Bin (Bin (Bin l n f r) a (to_black fa) ra) b (to_red fb) rb)"
      using hs(4) D F1 F2 by (simp add: focus_up del: map_map)
    then obtain h' root' where "rotate_right b (h2, root) = Some (h', root')"
        "focus (h', root') D (Bin (Bin l n f r) a (to_black fa) (Bin ra b (to_red fb) rb))"
      by (rule rotate_right_focus)
    moreover have "rbt_ok (plug D (Bin (Bin l n f r) a (to_black fa) (Bin ra b (to_red fb) rb)))"
        "summarised S (Bin (Bin l n f r) a (to_black fa) (Bin ra b (to_red fb) rb))"
      using inv F1 F2 red by (auto simp: ins_inv_def rbt_ok_plug)
    ultimately show ?thesis
      using fin hs(5) F1 F2 by force
  next
    case F1: (Rt la a fa)
    then obtain lb b fb where F2: "F2 = Rt lb b fb"
      using dir by (cases F2) auto
    have "focus (h2, root) D (Bin lb b (to_red fb) (Bin la a (to_black fa) (Bin l n f r)))"
      using hs(4) D F1 F2 by (simp add: focus_up del: map_map)
    then obtain h' root' where "rotate_left b (h2, root) = Some (h', root')"
        "focus (h', root') D (Bin (Bin lb b (to_red fb) la) a (to_black fa) (Bin l n f r))"
      by (rule rotate_left_focus)
    moreover have "rbt_ok (plug D (Bin (Bin lb b (to_red fb) la) a (to_black fa) (Bin l n f r)))"
        "summarised S (Bin (Bin lb b (to_red fb) la) a (to_black fa) (Bin l n f r))"
      using inv F1 F2 red by (auto simp: ins_inv_def rbt_ok_plug)
    ultimately show ?thesis
      using fin hs(5) F1 F2 by force
  qed
  then obtain t' s where *: "insert_finish n (h, root) = Some t'" "focus t' D s" "rbt_ok (plug D s)" "summarised S s"
    "nodes s = nodes (plug [F1, F2] (Bin l n f r))"
    by blast
  moreover have "summarised S (plug D s)"
    using *(4) inv by (intro summarised_plug) (simp_all add: ins_inv_def)
  moreover have "nodes (plug D s) = nodes (plug (F1 # F2 # D) (Bin l n f r))"
    using *(5) by simp
  ultimately show ?thesis
    using focus_plug by blast
qed

lemma repair_after_insert_ok:
  assumes "focus (h, root) C s" "ins_inv S C s" "n = root_of s"
  shows "\<exists>t' s'. repair_after_insert n (h, root) = Some t' \<and> rbt_rep t' s' \<and> rbt_ok s' \<and> summarised S s' \<and>
    nodes s' = nodes (plug C s)"
proof -
  obtain finished n' h' C' s' where *: "insert_recolour n h = Some (finished, n', h')" "focus (h', root) C' s'"
    "nodes (plug C' s') = nodes (plug C s)"
    "if finished then rbt_ok (plug C' s') \<and> summarised S (plug C' s')
     else ins_inv S C' s' \<and> n' = root_of s' \<and> (\<exists>F1 F2 D. C' = F1 # F2 # D \<and> red (frame_flags F1) \<and> \<not> rootred (frame_sib F2))"
    using insert_recolour_ok [OF assms] by blast
  show ?thesis
  proof (cases finished)
    case True
    with * show ?thesis
      by (intro exI [of _ "(h', root)"] exI [of _ "plug C' s'"]) (simp add: repair_after_insert_def focus_plug)
  next
    case False
    then obtain F1 F2 D where C': "C' = F1 # F2 # D" and red: "red (frame_flags F1)" "\<not> rootred (frame_sib F2)"
      and inv: "ins_inv S C' s'" and n': "n' = root_of s'"
      using *(4) by auto
    then obtain l f r where s': "s' = Bin l n' f r"
      by (cases s') (auto simp: ins_inv_def)
    obtain n2 h2 root2 F s2 where turn: "insert_turn n' (h', root) = Some (n2, h2, root2)"
        "focus (h2, root2) (F # F2 # D) s2" "same_dir F F2" "ins_inv S (F # F2 # D) s2" "red (frame_flags F)"
        "n2 = root_of s2" "nodes (plug1 F s2) = nodes (plug1 F1 (Bin l n' f r))"
      using insert_turn_ok [of h' root F1 F2 D l n' f r S, folded s' C'] *(2) inv red(1) s' by auto
    then obtain l2 f2 r2 where s2: "s2 = Bin l2 n2 f2 r2"
      by (cases s2) (auto simp: ins_inv_def)
    obtain t' s3 where fin: "insert_finish n2 (h2, root2) = Some t'" "rbt_rep t' s3" "rbt_ok s3" "summarised S s3"
       "nodes s3 = nodes (plug (F # F2 # D) s2)"
      using insert_finish_ok [of h2 root2 F F2 D l2 n2 f2 r2 S, folded s2] turn(2-5) red(2) by blast
    have "nodes (plug (F # F2 # D) s2) = nodes (plug C' s')"
      using turn(7) C' s' by (cases F2) simp_all
    moreover have "repair_after_insert n (h, root) = Some t'"
      using *(1) False turn(1) fin(1) by (simp add: repair_after_insert_def)
    ultimately show ?thesis
      using fin(2-5) *(3) by (intro exI [of _ t'] exI [of _ s3]) simp
  qed
qed

section \<open>Searching\<close>

text \<open>What the tree relies on: the comparison function orders keys, and every node has a key.\<close>

definition compares :: "('k::linorder \<Rightarrow> addr \<Rightarrow> int) \<Rightarrow> (addr \<Rightarrow> 'k) \<Rightarrow> bool" where
  "compares cmp key \<longleftrightarrow> (\<forall>k a. (cmp k a < 0 \<longleftrightarrow> k < key a) \<and> (cmp k a = 0 \<longleftrightarrow> k = key a))"

lemma comparesD:
  assumes "compares cmp key"
  shows "cmp k a < 0 \<longleftrightarrow> k < key a" "cmp k a = 0 \<longleftrightarrow> k = key a" "0 < cmp k a \<longleftrightarrow> key a < k"
proof -
  show *: "cmp k a < 0 \<longleftrightarrow> k < key a" "cmp k a = 0 \<longleftrightarrow> k = key a"
    using assms by (auto simp: compares_def)
  show "0 < cmp k a \<longleftrightarrow> key a < k"
    using * by (metis linorder_neqE not_less_iff_gr_or_eq)
qed

abbreviation ordered :: "(addr \<Rightarrow> 'k::linorder) \<Rightarrow> addr list \<Rightarrow> bool" where
  "ordered key xs \<equiv> sorted_wrt (\<lambda>a b. key a < key b) xs"

definition node_with :: "(addr \<Rightarrow> 'k) \<Rightarrow> 'k \<Rightarrow> addr list \<Rightarrow> addr" where
  "node_with key k xs = (case find (\<lambda>a. key a = k) xs of None \<Rightarrow> NULL | Some a \<Rightarrow> a)"

lemma find_append: "find P (xs @ ys) = (case find P xs of None \<Rightarrow> find P ys | Some x \<Rightarrow> Some x)"
  by (induction xs) auto

lemma node_with_skip:
  "\<forall>a \<in> set xs. key a \<noteq> k \<Longrightarrow> node_with key k (xs @ ys) = node_with key k ys"
  "\<forall>a \<in> set ys. key a \<noteq> k \<Longrightarrow> node_with key k (xs @ ys) = node_with key k xs"
proof -
  have "find (\<lambda>a. key a = k) zs = None" if "\<forall>a \<in> set zs. key a \<noteq> k" for zs
    using that by (auto simp: find_None_iff)
  then show "\<forall>a \<in> set xs. key a \<noteq> k \<Longrightarrow> node_with key k (xs @ ys) = node_with key k ys"
    "\<forall>a \<in> set ys. key a \<noteq> k \<Longrightarrow> node_with key k (xs @ ys) = node_with key k xs"
    by (auto simp: node_with_def find_append split: option.splits)
qed

lemma find_loop_tree:
  assumes cmp: "compares cmp key"
  shows "tree_at h q s \<Longrightarrow> ordered key (nodes s) \<Longrightarrow>
    find_loop cmp k h (root_of s) = Some (node_with key k (nodes s))"
proof (induction s arbitrary: q)
  case Tip
  then show ?case
    by (subst find_loop.simps) (simp add: node_with_def)
next
  case (Bin l a f r)
  note c = comparesD [OF cmp, of k a]
  have ord: "ordered key (nodes l)" "ordered key (nodes r)"
    "\<forall>b \<in> set (nodes l). key b < key a" "\<forall>b \<in> set (nodes r). key a < key b"
    using Bin.prems(2) by (auto simp: sorted_wrt_append)
  consider "k = key a" | "k < key a" | "key a < k"
    by (rule linorder_cases)
  then show ?case
  proof cases
    case 1
    then have "node_with key k (nodes l @ a # nodes r) = a"
      using ord(3) by (subst node_with_skip) (auto simp: node_with_def)
    with 1 Bin.prems c show ?thesis
      by (subst find_loop.simps) simp
  next
    case 2
    then have "node_with key k (nodes l @ a # nodes r) = node_with key k (nodes l)"
      using ord(4) by (subst node_with_skip) (auto dest: less_trans)
    with 2 Bin c ord show ?thesis
      by (subst find_loop.simps) (auto simp: Let_def)
  next
    case 3
    then have "node_with key k ((nodes l @ [a]) @ nodes r) = node_with key k (nodes r)"
      using ord(3) by (subst node_with_skip) (auto dest: less_trans)
    with 3 Bin c ord show ?thesis
      by (subst find_loop.simps) (auto simp: Let_def)
  qed
qed

section \<open>Insertion\<close>

fun goes_left :: "ctx \<Rightarrow> bool" where
  "goes_left (Lf a f r # C) = True"
| "goes_left C = False"

lemma set_ptr_ctx:
  assumes "ctx_at h root p C" "distinct (lefts C @ rights C)"
  obtains h' root' where "set_ptr (parent_of C) (goes_left C) n (h, root) = (h', root')" "ctx_at h' root' n C"
    "\<And>a. a \<notin> set (lefts C) \<union> set (rights C) \<Longrightarrow> h' a = h a"
proof (cases C rule: parent_of.cases)
  case 1
  with assms that show ?thesis by simp
next
  case (2 a f r D)
  then show ?thesis
    using assms by (intro that [of "h(a := (h a)\<lparr>left := n\<rparr>)" root]) auto
next
  case (3 l a f D)
  then show ?thesis
    using assms by (intro that [of "h(a := (h a)\<lparr>right := n\<rparr>)" root]) auto
qed

definition search_inv :: "(addr \<Rightarrow> addr list) \<Rightarrow> (addr \<Rightarrow> 'k::linorder) \<Rightarrow> 'k \<Rightarrow> ctx \<Rightarrow> rtree \<Rightarrow> bool" where
  "search_inv S key k C s \<longleftrightarrow> ctx_marked S C \<and> summarised S s \<and> rbt_ok (plug C s) \<and>
     (\<forall>a \<in> set (lefts C). key a < k) \<and> (\<forall>a \<in> set (rights C). k < key a)"

lemma insert_search_ok:
  assumes cmp: "compares cmp key"
  shows "focus (h, root) C s \<Longrightarrow> ordered key (nodes s) \<Longrightarrow> search_inv S key k C s \<Longrightarrow>
    \<exists>C' s' h'. insert_search cmp k (parent_of C) (goes_left C) (root_of s) h
        = Some (parent_of C', goes_left C', root_of s', h') \<and>
      focus (h', root) C' s' \<and> search_inv S key k C' s' \<and> nodes (plug C' s') = nodes (plug C s) \<and> rootmod s' \<and>
      (s' \<noteq> Tip \<longrightarrow> key (root_of s') = k)"
proof (induction s arbitrary: h C)
  case Tip
  then show ?case
    by (subst insert_search.simps) force
next
  case (Bin l a f r)
  define h' where "h' = h(a := flags_update to_modified (h a))"
  have a: "a \<noteq> NULL" "left (h a) = root_of l" "right (h a) = root_of r"
    and fo: "focus (h', root) C (Bin l a (to_modified f) r)"
    using Bin.prems(1) focus_reflag [OF Bin.prems(1), of a to_modified] by (simp_all add: h'_def focus_Bin)
  have ord: "ordered key (nodes l)" "ordered key (nodes r)"
    "\<forall>b \<in> set (nodes l). key b < key a" "\<forall>b \<in> set (nodes r). key a < key b"
    using Bin.prems(2) by (auto simp: sorted_wrt_append)
  have inv: "search_inv S key k C (Bin l a (to_modified f) r)"
    using Bin.prems(3) by (simp add: search_inv_def rbt_ok_plug)
  have step: "insert_search cmp k (parent_of C) (goes_left C) a h =
      (if cmp k a = 0 then Some (parent_of C, goes_left C, a, h')
       else insert_search cmp k a (cmp k a < 0) (if cmp k a < 0 then root_of l else root_of r) h')"
    using a by (subst insert_search.simps) (simp add: MARK_MODIFIED_def h'_def Let_def)
  consider "k = key a" | "k < key a" | "key a < k"
    by (rule linorder_cases)
  then show ?case
  proof cases
    case 1
    then show ?thesis
      using fo inv step comparesD(2) [OF cmp]
      by (intro exI [of _ C] exI [of _ "Bin l a (to_modified f) r"] exI [of _ h']) simp
  next
    case 2
    have "focus (h', root) (Lf a (to_modified f) r # C) l"
      using fo by (simp add: focus_up)
    moreover have "search_inv S key k (Lf a (to_modified f) r # C) l"
      using inv 2 ord(4) by (auto simp: search_inv_def dest: less_trans)
    ultimately show ?thesis
      using Bin.IH(1) [of h' "Lf a (to_modified f) r # C"] ord(1) 2 step comparesD [OF cmp, of k a] by auto
  next
    case 3
    have "focus (h', root) (Rt l a (to_modified f) # C) r"
      using fo by (simp add: focus_up)
    moreover have "search_inv S key k (Rt l a (to_modified f) # C) r"
      using inv 3 ord(3) by (auto simp: search_inv_def dest: less_trans)
    ultimately show ?thesis
      using Bin.IH(2) [of h' "Rt l a (to_modified f) # C"] ord(2) 3 step comparesD [OF cmp, of k a] by auto
  qed
qed

lemma insert_leaf:
  assumes fo: "focus (h, root) C Tip" and inv: "search_inv S key k C Tip"
    and n: "n \<noteq> NULL" "n \<notin> set (nodes (plug C Tip))"
  shows "\<exists>t' s. do {
       let (h, root) = set_ptr (parent_of C) (goes_left C) n (h, root);
       h \<leftarrow> upd n (\<lambda>x. x\<lparr>left := NULL, right := NULL, flags := 0, parent := parent_of C\<rparr>) h;
       h \<leftarrow> MAKE_RED n h;
       h \<leftarrow> MARK_MODIFIED n h;
       t \<leftarrow> repair_after_insert n (h, root);
       Some (NULL, t)
     } = Some (NULL, t') \<and> rbt_rep t' s \<and> rbt_ok s \<and> summarised S s \<and> nodes s = lefts C @ n # rights C"
proof -
  have at: "ctx_at h root NULL C" "distinct (lefts C @ rights C)"
    using fo by (simp_all add: focus_def)
  then obtain h1 root1 where h1: "set_ptr (parent_of C) (goes_left C) n (h, root) = (h1, root1)" "ctx_at h1 root1 n C"
    using set_ptr_ctx by metis
  define f where "f = to_modified (to_red 0)"
  define h2 where "h2 = h1(n := \<lparr>flags = f, left = NULL, right = NULL, parent = parent_of C\<rparr>)"
  have "focus (h2, root1) C (Bin Tip n f Tip)"
    using h1(2) n at(2) by (auto simp: focus_Bin h2_def)
  moreover have "ins_inv S C (Bin Tip n f Tip)"
    using inv by (auto simp: ins_inv_def search_inv_def rbt_ok_plug f_def)
  ultimately obtain t' s where *: "repair_after_insert n (h2, root1) = Some t'" "rbt_rep t' s" "rbt_ok s"
      "summarised S s" "nodes s = nodes (plug C (Bin Tip n f Tip))"
    using repair_after_insert_ok [of h2 root1 C "Bin Tip n f Tip" S n] by auto
  have "do {
       h \<leftarrow> upd n (\<lambda>x. x\<lparr>left := NULL, right := NULL, flags := 0, parent := parent_of C\<rparr>) h1;
       h \<leftarrow> MAKE_RED n h;
       MARK_MODIFIED n h
     } = Some h2"
    using n by (cases "h1 n") (simp add: MAKE_RED_def MARK_MODIFIED_def h2_def f_def)
  then show ?thesis
    using * h1(1) by (cases t', intro exI [of _ t'] exI [of _ s]) (auto simp: bind_eq_Some_conv)
qed

lemma replace_node:
  assumes fo: "focus (h, root) C (Bin l c f r)" and n: "n \<noteq> NULL" "n \<notin> set (nodes (plug C (Bin l c f r)))"
  shows "\<exists>t'. do {
       h \<leftarrow> upd n (\<lambda>_. h c) h;
       let (h, root) = set_ptr (parent_of C) (goes_left C) n (h, root);
       let h = adopt (left (h n)) n h;
       let h = adopt (right (h n)) n h;
       Some (c, (h, root))
     } = Some (c, t') \<and> focus t' C (Bin l n f r)"
proof -
  note F = fo [unfolded focus_Bin distinct_focus]
  have nn: "n \<notin> set (lefts C)" "n \<notin> set (rights C)" "n \<notin> set (nodes l)" "n \<notin> set (nodes r)" "n \<noteq> c"
    using n by auto
  have "ctx_at (h(n := h c)) root c C" "distinct (lefts C @ rights C)"
    using F nn by auto
  then obtain h1 root1 where h1: "set_ptr (parent_of C) (goes_left C) n (h(n := h c), root) = (h1, root1)"
    "ctx_at h1 root1 n C" "\<And>a. a \<notin> set (lefts C) \<union> set (rights C) \<Longrightarrow> h1 a = (h(n := h c)) a"
    using set_ptr_ctx by metis
  have h1n: "h1 n = \<lparr>flags = f, left = root_of l, right = root_of r, parent = parent_of C\<rparr>"
    using h1(3) [of n] nn F by auto
  have "h1 a = h a" if "a \<in> set (nodes l) \<union> set (nodes r)" for a
  proof -
    have "a \<notin> set (lefts C) \<union> set (rights C)" "a \<noteq> n"
      using that F nn by (auto simp: disjoint_iff)
    then show ?thesis
      using h1(3) by simp
  qed
  then have "tree_at h1 c l = tree_at h c l" "tree_at h1 c r = tree_at h c r"
    by (auto intro!: tree_at_cong)
  then have sub: "tree_at h1 c l" "tree_at h1 c r"
    using F by simp_all
  define h2 where "h2 = adopt (root_of l) n h1"
  define h3 where "h3 = adopt (root_of r) n h2"
  have "tree_at h2 n l" "tree_at h2 c r" "ctx_at h2 root1 n C" "h2 n = h1 n"
    using sub F nn h1(2) by (auto simp: h2_def Int_commute intro: adopt_tree)
  then have "tree_at h3 n l" "tree_at h3 n r" "ctx_at h3 root1 n C" "h3 n = h1 n"
    using F nn by (auto simp: h3_def Int_commute intro: adopt_tree)
  then have "focus (h3, root1) C (Bin l n f r)"
    unfolding focus_Bin distinct_focus using F nn n h1n by auto
  moreover have "h2 n = h1 n"
    using nn by (simp add: h2_def)
  ultimately show ?thesis
    using h1(1) n h1n by (auto simp: Let_def h3_def h2_def)
qed

lemma insert_tree:
  assumes cmp: "compares cmp key" and rep: "rbt_rep t s" "rbt_ok s" "ordered key (nodes s)"
    and n: "n \<noteq> NULL" "n \<notin> set (nodes s)" and S: "summarised S s"
  shows "\<exists>t' s'. rbt_insert cmp (key n) n t = Some (node_with key (key n) (nodes s), t') \<and> rbt_rep t' s' \<and> rbt_ok s' \<and>
    nodes s' = filter (\<lambda>a. key a < key n) (nodes s) @ n # filter (\<lambda>a. key n < key a) (nodes s) \<and> summarised S s'"
proof -
  obtain h root where t: "t = (h, root)" by (cases t)
  have "search_inv S key (key n) [] s"
    using rep S by (simp add: search_inv_def)
  moreover have fo: "focus (h, root) [] s"
    using rep t by (simp add: rbt_rep_def)
  ultimately obtain C' s1 h' where se: "insert_search cmp (key n) NULL False (root_of s) h
        = Some (parent_of C', goes_left C', root_of s1, h')" "focus (h', root) C' s1" "search_inv S key (key n) C' s1"
      "nodes (plug C' s1) = nodes s" "rootmod s1" "s1 \<noteq> Tip \<Longrightarrow> key (root_of s1) = key n"
    using insert_search_ok [OF cmp, of h root "[]" s S "key n"] rep(3) by auto
  have root: "root = root_of s"
    using fo by (simp add: focus_def)
  have n': "n \<notin> set (nodes (plug C' s1))"
    using n se(4) by simp
  have fl: "filter (\<lambda>a. key a < key n) (lefts C') = lefts C'" "filter (\<lambda>a. key a < key n) (rights C') = []"
      "filter (\<lambda>a. key n < key a) (rights C') = rights C'" "filter (\<lambda>a. key n < key a) (lefts C') = []"
    using se(3) by (auto simp: search_inv_def filter_empty_conv intro!: filter_True)
  have less: "\<forall>a \<in> set (lefts C'). key a \<noteq> key n" "\<forall>a \<in> set (rights C'). key a \<noteq> key n"
    using se(3) by (auto simp: search_inv_def)
  show ?thesis
  proof (cases s1)
    case Tip
    then have ns: "nodes s = lefts C' @ rights C'"
      using se(4) by simp
    then have "node_with key (key n) (nodes s) = NULL"
      using less node_with_skip(1) [of "nodes s" key "key n" "[]"] by (auto simp: node_with_def)
    moreover obtain t' s' where "rbt_insert cmp (key n) n t = Some (NULL, t')" "rbt_rep t' s'" "rbt_ok s'" "summarised S s'"
      "nodes s' = lefts C' @ n # rights C'"
      using insert_leaf [OF se(2,3) [unfolded Tip] n(1)] n' se(1) Tip root t by (auto simp: rbt_insert_def)
    ultimately show ?thesis
      using fl ns by auto
  next
    case (Bin l c f r)
    have kc: "key c = key n" "c \<noteq> NULL"
      using se(6,2) Bin by (auto simp: focus_Bin)
    obtain t' where ins: "rbt_insert cmp (key n) n t = Some (c, t')" "focus t' C' (Bin l n f r)"
      using replace_node [OF se(2) [unfolded Bin] n(1)] n' se(1) Bin root t kc(2) by (auto simp: rbt_insert_def)
    have "ordered key (lefts C' @ (nodes l @ c # nodes r) @ rights C')"
      using rep(3) se(4) Bin by simp
    then have lr: "\<forall>a \<in> set (nodes l). key a < key n" "\<forall>a \<in> set (nodes r). key n < key a"
      using kc by (auto simp: sorted_wrt_append)
    then have flr: "filter (\<lambda>a. key a < key n) (nodes l) = nodes l" "filter (\<lambda>a. key a < key n) (nodes r) = []"
      "filter (\<lambda>a. key n < key a) (nodes r) = nodes r" "filter (\<lambda>a. key n < key a) (nodes l) = []"
      by (auto simp: filter_empty_conv intro!: filter_True)
    have ns: "nodes s = (lefts C' @ nodes l) @ c # nodes r @ rights C'"
      using se(4) Bin by simp
    have "node_with key (key n) (nodes s) = c"
      unfolding ns using kc lr less by (subst node_with_skip) (auto simp: node_with_def)
    moreover have "rbt_ok (plug C' (Bin l n f r))" "summarised S (plug C' (Bin l n f r))"
      using se(3,5) Bin by (auto simp: search_inv_def rbt_ok_plug intro!: summarised_plug)
    ultimately show ?thesis
      using ins fl flr kc by (intro exI [of _ t'] exI [of _ "plug C' (Bin l n f r)"]) (simp add: ns focus_plug)
  qed
qed

text \<open>
  C2: \<open>rbt_insert\<close> terminates without following a null pointer; the new node takes its place between
  the smaller and the larger keys; a node with an equal key is replaced and returned; the tree is a
  red-black tree again, its parent pointers are right, and every node whose subtree changed is
  marked as modified.
\<close>

theorem rbt_insert_correct:
  assumes cmp: "compares cmp key" and rep: "rbt_rep t s" "rbt_ok s" "ordered key (nodes s)"
    and n: "n \<noteq> NULL" "n \<notin> set (nodes s)" and S: "summarised S s"
  shows "\<exists>t' s'. rbt_insert cmp (key n) n t = Some (node_with key (key n) (nodes s), t') \<and> rbt_rep t' s' \<and> rbt_ok s' \<and>
    nodes s' = filter (\<lambda>a. key a < key n) (nodes s) @ n # filter (\<lambda>a. key n < key a) (nodes s) \<and> summarised S s'"
  using assms by (rule insert_tree)

lemma find_tree:
  assumes "compares cmp key" "rbt_rep t s" "ordered key (nodes s)"
  shows "rbt_find cmp k t = Some (node_with key k (nodes s))"
  using assms find_loop_tree [OF assms(1), of "fst t" _ s k]
  by (auto simp: rbt_find_def rbt_rep_def focus_def)

text \<open>
  C28: \<open>rbt_find\<close> returns the node with the given key, or \<open>NULL\<close> when the tree has none.
\<close>

theorem rbt_find_correct:
  assumes "compares cmp key" "rbt_rep t s" "ordered key (nodes s)"
  shows "rbt_find cmp k t = Some (node_with key k (nodes s))"
  using assms by (rule find_tree)

end
