(* ===== verification/Dlb_Rbt_Remove.thy ===== *)
theory Dlb_Rbt_Remove
  imports Dlb_Rbt
begin

unbundle bit_operations_syntax

text \<open>
  Red-black trees (\<^verbatim>\<open>src/src/rbt.c\<close>), second part: removal. A node with two children first changes
  places with its successor; then the node, which has at most one child, is cut out, and a loop
  repairs the path that has become one black node short.
\<close>

section \<open>Operations\<close>

partial_function (option) leftmost :: "rbt_heap \<Rightarrow> addr \<Rightarrow> addr option" where
  "leftmost h s = do {
     y \<leftarrow> deref h s;
     if left y \<noteq> NULL then leftmost h (left y) else Some s
   }"

declare leftmost.simps [code]

text \<open>The part of \<open>swap_with_successor\<close> before \<open>fix_downptr\<close>: both nodes get their new contents.\<close>

definition swap_contents :: "addr \<Rightarrow> rbt_heap \<Rightarrow> (addr \<times> rbt_heap) option" where
  "swap_contents n h = do {
     x \<leftarrow> deref h n;
     let s = right x;
     y \<leftarrow> deref h s;
     if left y \<noteq> NULL then do {
       s \<leftarrow> leftmost h s;
       tmp \<leftarrow> deref h s;
       h \<leftarrow> upd s (\<lambda>_. x) h;
       h \<leftarrow> upd n (\<lambda>_. tmp) h;
       h \<leftarrow> upd (parent tmp) (left_update (\<lambda>_. n)) h;
       Some (s, h)
     } else do {
       h \<leftarrow> upd s (\<lambda>_. \<lparr>flags = flags x, left = left x, right = n, parent = parent x\<rparr>) h;
       h \<leftarrow> upd n (\<lambda>_. \<lparr>flags = flags y, left = NULL, right = right y, parent = s\<rparr>) h;
       Some (s, h)
     }
   }"

fun swap_with_successor :: "addr \<Rightarrow> rbt \<Rightarrow> rbt option" where
  "swap_with_successor n (h, root) = do {
     x \<leftarrow> deref h n;
     (s, h) \<leftarrow> swap_contents n h;
     let (h, root) = fix_downptr (parent x) n s (h, root);
     z \<leftarrow> deref h s;
     h \<leftarrow> upd (left z) (parent_update (\<lambda>_. s)) h;
     z \<leftarrow> deref h s;
     h \<leftarrow> upd (right z) (parent_update (\<lambda>_. s)) h;
     let h = adopt (right (h n)) n h;
     Some (h, root)
   }"

text \<open>
  The loop of \<open>repair_after_remove\<close>: whether the function returns inside it, and the values of
  \<open>n\<close>, \<open>p\<close> and \<open>s\<close> when the loop is left.
\<close>

definition sibling_turn :: "addr \<Rightarrow> addr \<Rightarrow> addr \<Rightarrow> rbt \<Rightarrow> (addr \<times> rbt) option" where
  "sibling_turn n p s t =
     (if RBT_IS_RED (fst t) s then do {
        h \<leftarrow> MAKE_RED p (fst t);
        h \<leftarrow> MAKE_BLACK s h;
        h \<leftarrow> MARK_MODIFIED s h;
        x \<leftarrow> deref h p;
        if n = left x then do {
          t \<leftarrow> rotate_left p (h, snd t);
          x \<leftarrow> deref (fst t) p;
          Some (right x, t)
        } else do {
          t \<leftarrow> rotate_right p (h, snd t);
          x \<leftarrow> deref (fst t) p;
          Some (left x, t)
        }
      } else Some (s, t))"

partial_function (option) remove_loop
  :: "addr \<Rightarrow> addr \<Rightarrow> rbt \<Rightarrow> (bool \<times> addr \<times> addr \<times> addr \<times> rbt) option" where
  "remove_loop n p t =
     (if p = NULL then Some (True, n, p, NULL, t)
      else do {
        x \<leftarrow> deref (fst t) p;
        (s, t) \<leftarrow> sibling_turn n p (if left x = n then right x else left x) t;
        y \<leftarrow> deref (fst t) s;
        if RBT_IS_BLACK (fst t) p \<and> RBT_IS_BLACK (fst t) (left y) \<and> RBT_IS_BLACK (fst t) (right y) then do {
          h \<leftarrow> MAKE_RED s (fst t);
          x \<leftarrow> deref h p;
          remove_loop p (parent x) (h, snd t)
        } else Some (False, n, p, s, t)
      })"

declare remove_loop.simps [code]

text \<open>The rotation of \<open>s\<close> that makes its far child red.\<close>

definition nephew_turn :: "addr \<Rightarrow> addr \<Rightarrow> addr \<Rightarrow> rbt \<Rightarrow> (addr \<times> rbt) option" where
  "nephew_turn n p s t = do {
     x \<leftarrow> deref (fst t) p;
     y \<leftarrow> deref (fst t) s;
     if n = left x \<and> RBT_IS_BLACK (fst t) (right y) then do {
       h \<leftarrow> MAKE_RED s (fst t);
       h \<leftarrow> MAKE_BLACK (left y) h;
       h \<leftarrow> MARK_MODIFIED s h;
       h \<leftarrow> MARK_MODIFIED (left y) h;
       t \<leftarrow> rotate_right s (h, snd t);
       y \<leftarrow> deref (fst t) s;
       Some (parent y, t)
     } else if n = right x \<and> RBT_IS_BLACK (fst t) (left y) then do {
       h \<leftarrow> MAKE_RED s (fst t);
       h \<leftarrow> MAKE_BLACK (right y) h;
       h \<leftarrow> MARK_MODIFIED s h;
       h \<leftarrow> MARK_MODIFIED (right y) h;
       t \<leftarrow> rotate_left s (h, snd t);
       y \<leftarrow> deref (fst t) s;
       Some (parent y, t)
     } else Some (s, t)
   }"

definition remove_finish :: "addr \<Rightarrow> addr \<Rightarrow> addr \<Rightarrow> rbt \<Rightarrow> rbt option" where
  "remove_finish n p s t = do {
     x \<leftarrow> deref (fst t) p;
     h \<leftarrow> upd s (flags_update (\<lambda>_. flags x OR RBT_FLAG_MODIFIED)) (fst t);
     h \<leftarrow> MAKE_BLACK p h;
     x \<leftarrow> deref h p;
     y \<leftarrow> deref h s;
     if n = left x then do {
       h \<leftarrow> MAKE_BLACK (right y) h;
       rotate_left p (h, snd t)
     } else do {
       h \<leftarrow> MAKE_BLACK (left y) h;
       rotate_right p (h, snd t)
     }
   }"

definition repair_after_remove :: "addr \<Rightarrow> rbt \<Rightarrow> rbt option" where
  "repair_after_remove n t = do {
     x \<leftarrow> deref (fst t) n;
     (finished, n, p, s, t) \<leftarrow> remove_loop NULL (parent x) t;
     if finished then Some t
     else do {
       y \<leftarrow> deref (fst t) s;
       if RBT_IS_RED (fst t) p \<and> RBT_IS_BLACK (fst t) (left y) \<and> RBT_IS_BLACK (fst t) (right y) then do {
         h \<leftarrow> MAKE_RED s (fst t);
         h \<leftarrow> MAKE_BLACK p h;
         Some (h, snd t)
       } else do {
         (s, t) \<leftarrow> nephew_turn n p s t;
         remove_finish n p s t
       }
     }
   }"

partial_function (option) rbt_mark_modified :: "addr \<Rightarrow> rbt_heap \<Rightarrow> rbt_heap option" where
  "rbt_mark_modified n h =
     (if n = NULL then Some h
      else do { h \<leftarrow> MARK_MODIFIED n h; rbt_mark_modified (parent (h n)) h })"

declare rbt_mark_modified.simps [code]

definition rbt_remove :: "addr \<Rightarrow> rbt \<Rightarrow> rbt option" where
  "rbt_remove n t = do {
     x \<leftarrow> deref (fst t) n;
     t \<leftarrow> if left x \<noteq> NULL \<and> right x \<noteq> NULL then swap_with_successor n t else Some t;
     h \<leftarrow> rbt_mark_modified n (fst t);
     x \<leftarrow> deref h n;
     let s = (if left x \<noteq> NULL then left x else right x);
     let (h, root) = fix_downptr (parent x) n s (h, snd t);
     if s \<noteq> NULL then do {
       let h = adopt s (parent x) h;
       h \<leftarrow> MAKE_BLACK s h;
       Some (h, root)
     } else if RBT_IS_RED h n then Some (h, root)
     else repair_after_remove n (h, root)
   }"

section \<open>Repair after removal\<close>

text \<open>The focus is at a black subtree whose black height is one too small.\<close>

definition rem_inv :: "(addr \<Rightarrow> addr list) \<Rightarrow> ctx \<Rightarrow> rtree \<Rightarrow> bool" where
  "rem_inv S C s \<longleftrightarrow> ctx_ok C (bheight s + 1) \<and> invh s \<and> invc s \<and> \<not> rootred s \<and>
     ctx_marked S C \<and> summarised S s"

lemma rem_inv_sibling:
  assumes "rem_inv S (F # D) s"
  obtains A w f B where "frame_sib F = Bin A w f B"
  using assms by (cases "frame_sib F") (auto simp: rem_inv_def)

lemma focus_frame:
  assumes "focus (h, root) (F # D) s" "frame_sib F = Bin A w f B"
  shows "frame_addr F \<noteq> NULL" "w \<noteq> NULL" "w \<noteq> frame_addr F"
    "left (h w) = root_of A" "right (h w) = root_of B" "flags (h w) = f"
    "parent (h (frame_addr F)) = parent_of D" "flags (h (frame_addr F)) = frame_flags F"
    "parent (h w) = frame_addr F"
    "tree_at h w A" "tree_at h w B"
    "RBT_IS_RED h w = red f" "RBT_IS_RED h (frame_addr F) = red (frame_flags F)"
    "RBT_IS_BLACK h (frame_addr F) = (\<not> red (frame_flags F))"
  using assms by (cases F; simp add: focus_def RBT_IS_RED_def RBT_IS_BLACK_def)+

lemma focus_frame_ptrs:
  assumes "focus (h, root) (F # D) s" "frame_sib F = Bin A w f B"
  shows "left (h (frame_addr F)) = root_of s \<longleftrightarrow> (\<exists>a g r. F = Lf a g r)"
    "right (h (frame_addr F)) = root_of s \<longleftrightarrow> (\<exists>a g l. F = Rt l a g)"
    "F = Lf a g r \<Longrightarrow> right (h (frame_addr F)) = w" "F = Rt l a g \<Longrightarrow> left (h (frame_addr F)) = w"
proof -
  have "w \<noteq> root_of s"
    using assms by (cases F; cases s; simp add: focus_def)
  then show "left (h (frame_addr F)) = root_of s \<longleftrightarrow> (\<exists>a g r. F = Lf a g r)"
    "right (h (frame_addr F)) = root_of s \<longleftrightarrow> (\<exists>a g l. F = Rt l a g)"
    using assms by (cases F; simp add: focus_def)+
  show "F = Lf a g r \<Longrightarrow> right (h (frame_addr F)) = w" "F = Rt l a g \<Longrightarrow> left (h (frame_addr F)) = w"
    using assms by (auto simp: focus_def)
qed

text \<open>Several changes of flags in a row.\<close>

lemma reflag_simps:
  "MAKE_RED n h = (if n = NULL then None else Some (h(n := flags_update to_red (h n))))"
  "MAKE_BLACK n h = (if n = NULL then None else Some (h(n := flags_update to_black (h n))))"
  "MARK_MODIFIED n h = (if n = NULL then None else Some (h(n := flags_update to_modified (h n))))"
  by (simp_all add: MAKE_RED_def MAKE_BLACK_def MARK_MODIFIED_def upd_def)

lemma sibling_turn_black:
  "\<not> RBT_IS_RED (fst t) s \<Longrightarrow> sibling_turn n p s t = Some (s, t)"
  by (simp add: sibling_turn_def)

lemma sibling_turn_ok:
  assumes fo: "focus (h, root) (F # D) s" and inv: "rem_inv S (F # D) s" and sib: "frame_sib F = Bin A w f B"
    and red: "red f"
  shows "\<exists>w' t' F' D'. sibling_turn (root_of s) (frame_addr F) w (h, root) = Some (w', t') \<and>
     focus t' (F' # D') s \<and> rem_inv S (F' # D') s \<and> frame_addr F' = frame_addr F \<and>
     w' = root_of (frame_sib F') \<and> \<not> rootred (frame_sib F') \<and> red (frame_flags F') \<and>
     nodes (plug (F' # D') s) = nodes (plug (F # D) s)"
proof -
  define p where "p = frame_addr F"
  define f' where "f' = to_modified (to_black f)"
  define g where "g = to_red (frame_flags F)"
  define h1 where "h1 = h(p := flags_update to_red (h p))"
  define h2 where "h2 = h1(w := flags_update to_black (h1 w))"
  define h3 where "h3 = h2(w := flags_update to_modified (h2 w))"
  note ff = focus_frame [OF fo sib, folded p_def]
  have fo3: "focus (h3, root) (map (reflag1 w to_modified) (map (reflag1 w to_black) (map (reflag1 p to_red) (F # D))))
     (reflag w to_modified (reflag w to_black (reflag p to_red s)))"
    unfolding h3_def h2_def h1_def by (intro focus_reflag fo)
  have h3: "MAKE_RED p h = Some h1" "MAKE_BLACK w h1 = Some h2" "MARK_MODIFIED w h2 = Some h3"
    using ff by (simp_all add: reflag_simps h1_def h2_def h3_def)
  have l: "left (h3 p) = left (h p)"
    by (simp add: h3_def h2_def h1_def)
  have st: "sibling_turn (root_of s) p w (h, root) =
      (if root_of s = left (h p)
       then do { t \<leftarrow> rotate_left p (h3, root); x \<leftarrow> deref (fst t) p; Some (right x, t) }
       else do { t \<leftarrow> rotate_right p (h3, root); x \<leftarrow> deref (fst t) p; Some (left x, t) })"
    unfolding sibling_turn_def using ff red h3 l by simp
  have lf: "root_of s = left (h p) \<longleftrightarrow> (\<exists>a g r. F = Lf a g r)"
    using focus_frame_ptrs(1) [OF fo sib] unfolding p_def by metis
  have dist: "distinct (lefts D @ nodes (plug1 F s) @ rights D)"
    using fo by (cases F) (simp_all add: focus_def)
  show ?thesis
  proof (cases F)
    case (Lf a ga r)
    have "focus (h3, root) D (Bin s p g (Bin A w f' B))"
      using fo3 dist sib Lf by (simp add: p_def g_def f'_def focus_up del: map_map)
    then obtain h' root' where rot: "rotate_left p (h3, root) = Some (h', root')"
        "focus (h', root') D (Bin (Bin s p g A) w f' B)"
      by (rule rotate_left_focus)
    then have fo': "focus (h', root') (Lf p g A # Lf w f' B # D) s"
      by (simp add: focus_up)
    then have "sibling_turn (root_of s) p w (h, root) = Some (root_of A, h', root')"
      using st rot lf Lf ff by (simp add: p_def focus_def)
    moreover have "rem_inv S (Lf p g A # Lf w f' B # D) s"
      using inv sib red Lf by (auto simp: rem_inv_def g_def f'_def)
    moreover have "\<not> rootred A"
      using inv sib red Lf by (auto simp: rem_inv_def)
    ultimately show ?thesis
      using fo' Lf sib by (intro exI [of _ "root_of A"] exI [of _ "(h', root')"] exI [of _ "Lf p g A"] exI [of _ "Lf w f' B # D"])
        (simp add: p_def g_def)
  next
    case (Rt l a ga)
    have "focus (h3, root) D (Bin (Bin A w f' B) p g s)"
      using fo3 dist sib Rt by (simp add: p_def g_def f'_def focus_up del: map_map)
    then obtain h' root' where rot: "rotate_right p (h3, root) = Some (h', root')"
        "focus (h', root') D (Bin A w f' (Bin B p g s))"
      by (rule rotate_right_focus)
    then have fo': "focus (h', root') (Rt B p g # Rt A w f' # D) s"
      by (simp add: focus_up)
    then have "sibling_turn (root_of s) p w (h, root) = Some (root_of B, h', root')"
      using st rot lf Rt ff by (simp add: p_def focus_def)
    moreover have "rem_inv S (Rt B p g # Rt A w f' # D) s"
      using inv sib red Rt by (auto simp: rem_inv_def g_def f'_def)
    moreover have "\<not> rootred B"
      using inv sib red Rt by (auto simp: rem_inv_def)
    ultimately show ?thesis
      using fo' Rt sib by (intro exI [of _ "root_of B"] exI [of _ "(h', root')"] exI [of _ "Rt B p g"] exI [of _ "Rt A w f' # D"])
        (simp add: p_def g_def)
  qed
qed

text \<open>How the loop is left when work remains: the sibling \<open>w\<close> is black, and either it has a red child or its parent is red.\<close>

definition rem_stop :: "(addr \<Rightarrow> addr list) \<Rightarrow> rbt \<Rightarrow> addr \<Rightarrow> addr \<Rightarrow> addr \<Rightarrow> ctx \<Rightarrow> rtree \<Rightarrow> bool" where
  "rem_stop S t n p s C u \<longleftrightarrow> focus t C u \<and> rem_inv S C u \<and> (\<exists>F D A f B. C = F # D \<and> n = root_of u \<and>
     p = frame_addr F \<and> frame_sib F = Bin A s f B \<and> \<not> red f \<and> (red (frame_flags F) \<or> rootred A \<or> rootred B))"

definition rem_done :: "(addr \<Rightarrow> addr list) \<Rightarrow> rbt \<Rightarrow> addr list \<Rightarrow> bool" where
  "rem_done S t xs \<longleftrightarrow> (\<exists>u. rbt_rep t u \<and> rbt_ok u \<and> summarised S u \<and> nodes u = xs)"

lemma rem_doneI:
  "focus t C u \<Longrightarrow> rbt_ok (plug C u) \<Longrightarrow> ctx_marked S C \<Longrightarrow> summarised S u \<Longrightarrow> nodes (plug C u) = xs \<Longrightarrow>
     rem_done S t xs"
  unfolding rem_done_def by (intro exI [of _ "plug C u"]) (simp add: focus_plug summarised_plug)

fun climb :: "dir_frame \<Rightarrow> rtree \<Rightarrow> rtree" where
  "climb (Lf p g (Bin A w f B)) s = Bin s p g (Bin A w (to_red f) B)"
| "climb (Rt (Bin A w f B) p g) s = Bin (Bin A w (to_red f) B) p g s"
| "climb F s = plug1 F s"

lemma climb_simps [simp]: "root_of (climb F s) = frame_addr F" "nodes (climb F s) = nodes (plug1 F s)"
  by (induction F s rule: climb.induct) auto

lemma climb_inv:
  assumes "rem_inv S (F # D) s" "frame_sib F = Bin A w f B" "\<not> red f" "\<not> red (frame_flags F)" "\<not> rootred A" "\<not> rootred B"
  shows "rem_inv S D (climb F s)"
  using assms by (cases F) (auto simp: rem_inv_def)

lemma climb_focus:
  assumes "focus (h, root) (F # D) s" "frame_sib F = Bin A w f B"
  shows "focus (h(w := flags_update to_red (h w)), root) D (climb F s)"
proof -
  have "distinct (lefts D @ nodes (plug1 F s) @ rights D)"
    using assms(1) by (cases F) (simp_all add: focus_def)
  with focus_reflag [OF assms(1), of w to_red] assms(2) show ?thesis
    by (cases F) (simp_all add: focus_up)
qed

lemma remove_loop_ok:
  assumes "focus (h, root) C s" "rem_inv S C s" "n = root_of s" "p = parent_of C"
  shows "\<exists>finished n' p' s' t'. remove_loop n p (h, root) = Some (finished, n', p', s', t') \<and>
    (if finished then rem_done S t' (nodes (plug C s))
     else \<exists>C' u. rem_stop S t' n' p' s' C' u \<and> nodes (plug C' u) = nodes (plug C s))"
  using assms
proof (induction "length C" arbitrary: C h s n p rule: less_induct)
  case less
  show ?case
  proof (cases C)
    case Nil
    then have "rem_done S (h, root) (nodes (plug C s))"
      using less.prems by (intro rem_doneI [of _ C s]) (auto simp: rem_inv_def rbt_ok_def)
    then show ?thesis
      using less.prems Nil by (subst remove_loop.simps) auto
  next
    case (Cons F D)
    note fo = less.prems(1) [unfolded Cons] and inv = less.prems(2) [unfolded Cons]
    obtain A w f B where sib: "frame_sib F = Bin A w f B"
      using inv by (rule rem_inv_sibling)
    note ff = focus_frame [OF fo sib] and fp = focus_frame_ptrs [OF fo sib]
    have p: "p = frame_addr F"
      using less.prems Cons by (cases F) auto
    have s: "(if left (h (frame_addr F)) = root_of s then right (h (frame_addr F)) else left (h (frame_addr F))) = w"
      using fp by (cases F) auto
    show ?thesis
    proof (cases "red f")
      case True
      obtain w' t' F' D' where st: "sibling_turn (root_of s) (frame_addr F) w (h, root) = Some (w', t')"
        "focus t' (F' # D') s" "rem_inv S (F' # D') s" "frame_addr F' = frame_addr F"
        "w' = root_of (frame_sib F')" "\<not> rootred (frame_sib F')" "red (frame_flags F')"
        "nodes (plug (F' # D') s) = nodes (plug (F # D) s)"
        using sibling_turn_ok [OF fo inv sib True] by blast
      obtain A' w2 f' B' where sib': "frame_sib F' = Bin A' w2 f' B'"
        using st(3) by (rule rem_inv_sibling)
      obtain h' root' where t': "t' = (h', root')" by (cases t')
      note ff' = focus_frame [OF st(2) [unfolded t'] sib']
      have w: "w' = w2" "\<not> red f'"
        using st(5,6) sib' by simp_all
      have "remove_loop n p (h, root) = Some (False, n, p, w', t')"
        using st(1,4,7) w s p ff ff' less.prems(3) t' by (subst remove_loop.simps) (simp split del: if_split)
      moreover have "rem_stop S t' n p w' (F' # D') s"
        unfolding rem_stop_def using st sib' w p less.prems(3) by (intro conjI exI [of _ F'] exI [of _ D']) auto
      then have "\<exists>C' u. rem_stop S t' n p w' C' u \<and> nodes (plug C' u) = nodes (plug C s)"
        using st(8) Cons by blast
      ultimately show ?thesis by auto
    next
      case False
      then have turn: "sibling_turn (root_of s) (frame_addr F) w (h, root) = Some (w, h, root)"
        using ff by (intro sibling_turn_black) simp
      show ?thesis
      proof (cases "red (frame_flags F) \<or> rootred A \<or> rootred B")
        case True
        then have "remove_loop n p (h, root) = Some (False, n, p, w, h, root)"
          using turn s p ff less.prems(3) by (subst remove_loop.simps) (auto split del: if_split)
        moreover have "rem_stop S (h, root) n p w C s"
          unfolding rem_stop_def using Cons fo inv sib p less.prems(3) False True by blast
        then have "\<exists>C' u. rem_stop S (h, root) n p w C' u \<and> nodes (plug C' u) = nodes (plug C s)"
          by blast
        ultimately show ?thesis by auto
      next
        case up: False
        define h' where "h' = h(w := flags_update to_red (h w))"
        have fo': "focus (h', root) D (climb F s)"
          using climb_focus [OF fo sib] by (simp add: h'_def)
        have eq: "remove_loop n p (h, root) = remove_loop p (parent_of D) (h', root)"
          using turn s p ff less.prems(3) up by (subst remove_loop.simps) (simp add: reflag_simps h'_def split del: if_split)
        have nd: "nodes (plug D (climb F s)) = nodes (plug C s)"
          using Cons by simp
        have inv': "rem_inv S D (climb F s)"
          using climb_inv inv sib False up by blast
        show ?thesis
          unfolding eq nd [symmetric] by (rule less.hyps [OF _ fo' inv']) (simp_all add: Cons p)
      qed
    qed
  qed
qed

fun far_nephew :: "dir_frame \<Rightarrow> rtree" where
  "far_nephew (Lf p g (Bin A w f B)) = B"
| "far_nephew (Rt (Bin A w f B) p g) = A"
| "far_nephew F = Tip"

lemma nephew_inv:
  "rem_inv S (Lf p g (Bin (Bin A1 a fa A2) w f B) # D) u \<Longrightarrow> red fa \<Longrightarrow> \<not> red f \<Longrightarrow> \<not> rootred B \<Longrightarrow>
     rem_inv S (Lf p g (Bin A1 a (to_modified (to_black fa)) (Bin A2 w (to_modified (to_red f)) B)) # D) u"
  "rem_inv S (Rt (Bin A w f (Bin A1 a fa A2)) p g # D) u \<Longrightarrow> red fa \<Longrightarrow> \<not> red f \<Longrightarrow> \<not> rootred A \<Longrightarrow>
     rem_inv S (Rt (Bin (Bin A w (to_modified (to_red f)) A1) a (to_modified (to_black fa)) A2) p g # D) u"
  by (simp_all add: rem_inv_def)

lemma nephew_turn_ok:
  assumes fo: "focus (h, root) (F # D) u" and inv: "rem_inv S (F # D) u" and sib: "frame_sib F = Bin A w f B"
    and blk: "\<not> red f" and nephew: "rootred A \<or> rootred B"
  shows "\<exists>w' h' root' F' A' f' B'. nephew_turn (root_of u) (frame_addr F) w (h, root) = Some (w', h', root') \<and>
     focus (h', root') (F' # D) u \<and> rem_inv S (F' # D) u \<and> frame_addr F' = frame_addr F \<and>
     frame_flags F' = frame_flags F \<and>
     frame_sib F' = Bin A' w' f' B' \<and> \<not> red f' \<and> rootred (far_nephew F') \<and> nodes (plug1 F' u) = nodes (plug1 F u)"
proof (cases "rootred (far_nephew F)")
  case True
  have "nephew_turn (root_of u) (frame_addr F) w (h, root) = Some (w, h, root)"
    using focus_frame [OF fo sib] focus_frame_ptrs [OF fo sib] sib True
    by (cases F) (auto simp: nephew_turn_def)
  with assms True show ?thesis by blast
next
  case False
  define p where "p = frame_addr F"
  define N where "N = (if rootred A then A else B)"
  obtain A1 a fa A2 where N: "N = Bin A1 a fa A2" "red fa"
    using nephew by (cases N) (auto simp: N_def split: if_splits)
  define fa' where "fa' = to_modified (to_black fa)"
  define f' where "f' = to_modified (to_red f)"
  define h1 where "h1 = h(w := flags_update to_red (h w))"
  define h2 where "h2 = h1(a := flags_update to_black (h1 a))"
  define h3 where "h3 = h2(w := flags_update to_modified (h2 w))"
  define h4 where "h4 = h3(a := flags_update to_modified (h3 a))"
  note ff = focus_frame [OF fo sib, folded p_def] and fp = focus_frame_ptrs [OF fo sib, folded p_def]
  have a0: "a \<noteq> NULL"
    using ff N by (auto simp: N_def split: if_splits)
  have fo4: "focus (h4, root)
     (map (reflag1 a to_modified) (map (reflag1 w to_modified) (map (reflag1 a to_black) (map (reflag1 w to_red) (F # D)))))
     (reflag a to_modified (reflag w to_modified (reflag a to_black (reflag w to_red u))))"
    unfolding h4_def h3_def h2_def h1_def by (intro focus_reflag fo)
  have hs: "MAKE_RED w h = Some h1" "MAKE_BLACK a h1 = Some h2" "MARK_MODIFIED w h2 = Some h3" "MARK_MODIFIED a h3 = Some h4"
    using ff a0 by (simp_all add: reflag_simps h1_def h2_def h3_def h4_def)
  have dist: "distinct (lefts D @ nodes (plug1 F u) @ rights D)"
    using fo by (cases F) (simp_all add: focus_def)
  show ?thesis
  proof (cases F)
    case (Lf p' g r)
    then have A: "A = Bin A1 a fa A2" "\<not> rootred B" "F = Lf p g (Bin A w f B)"
      using False sib nephew N by (auto simp: N_def p_def)
    have "focus (h4, root) (Rt u p g # D) (Bin (Bin A1 a fa' A2) w f' B)"
      using fo4 dist A by (simp add: f'_def fa'_def focus_up del: map_map)
    then obtain h' root' where rot: "rotate_right w (h4, root) = Some (h', root')"
        "focus (h', root') (Rt u p g # D) (Bin A1 a fa' (Bin A2 w f' B))"
      by (rule rotate_right_focus)
    then have fo': "focus (h', root') (Lf p g (Bin A1 a fa' (Bin A2 w f' B)) # D) u"
      by (simp add: focus_up)
    have "nephew_turn (root_of u) p w (h, root) = Some (parent (h' w), h', root')"
      using ff fp A hs rot by (simp add: nephew_turn_def)
    moreover have "parent (h' w) = a"
      using fo' by (simp add: focus_def)
    moreover have "rem_inv S (Lf p g (Bin A1 a fa' (Bin A2 w f' B)) # D) u"
      unfolding f'_def fa'_def using inv A N(2) blk by (intro nephew_inv(1)) (simp_all only: not_False_eq_True)
    ultimately show ?thesis
      using fo' A by (intro exI [of _ a] exI [of _ h'] exI [of _ root'] exI [of _ "Lf p g (Bin A1 a fa' (Bin A2 w f' B))"])
        (simp add: f'_def fa'_def)
  next
    case (Rt l p' g)
    then have A: "B = Bin A1 a fa A2" "\<not> rootred A" "F = Rt (Bin A w f B) p g"
      using False sib nephew N by (auto simp: N_def p_def split: if_splits)
    have "focus (h4, root) (Lf p g u # D) (Bin A w f' (Bin A1 a fa' A2))"
      using fo4 dist A by (simp add: f'_def fa'_def focus_up del: map_map)
    then obtain h' root' where rot: "rotate_left w (h4, root) = Some (h', root')"
        "focus (h', root') (Lf p g u # D) (Bin (Bin A w f' A1) a fa' A2)"
      by (rule rotate_left_focus)
    then have fo': "focus (h', root') (Rt (Bin (Bin A w f' A1) a fa' A2) p g # D) u"
      by (simp add: focus_up)
    have "root_of u \<noteq> left (h p)"
      using fp(1) A by auto
    then have "nephew_turn (root_of u) p w (h, root) = Some (parent (h' w), h', root')"
      using ff fp(2) A hs rot by (simp add: nephew_turn_def)
    moreover have "parent (h' w) = a"
      using fo' by (simp add: focus_def)
    moreover have "rem_inv S (Rt (Bin (Bin A w f' A1) a fa' A2) p g # D) u"
      unfolding f'_def fa'_def using inv A N(2) blk by (intro nephew_inv(2)) (simp_all only: not_False_eq_True)
    ultimately show ?thesis
      using fo' A by (intro exI [of _ a] exI [of _ h'] exI [of _ root'] exI [of _ "Rt (Bin (Bin A w f' A1) a fa' A2) p g"])
        (simp add: f'_def fa'_def)
  qed
qed

lemma finish_inv:
  "rem_inv S (Lf p g (Bin A w f (Bin B1 b fb B2)) # D) u \<Longrightarrow> red fb \<Longrightarrow> \<not> red f \<Longrightarrow>
     rbt_ok (plug D (Bin (Bin u p (to_black g) A) w (to_modified g) (Bin B1 b (to_black fb) B2))) \<and> ctx_marked S D \<and>
     summarised S (Bin (Bin u p (to_black g) A) w (to_modified g) (Bin B1 b (to_black fb) B2))"
  "rem_inv S (Rt (Bin (Bin B1 b fb B2) w f A) p g # D) u \<Longrightarrow> red fb \<Longrightarrow> \<not> red f \<Longrightarrow>
     rbt_ok (plug D (Bin (Bin B1 b (to_black fb) B2) w (to_modified g) (Bin A p (to_black g) u))) \<and> ctx_marked S D \<and>
     summarised S (Bin (Bin B1 b (to_black fb) B2) w (to_modified g) (Bin A p (to_black g) u))"
  by (cases "red g"; simp add: rem_inv_def rbt_ok_plug)+

lemma remove_finish_ok:
  assumes fo: "focus (h, root) (F # D) u" and inv: "rem_inv S (F # D) u" and sib: "frame_sib F = Bin A w f B"
    and blk: "\<not> red f" and far: "far_nephew F = Bin B1 b fb B2" "red fb"
  shows "\<exists>t'. remove_finish (root_of u) (frame_addr F) w (h, root) = Some t' \<and> rem_done S t' (nodes (plug (F # D) u))"
proof -
  define p where "p = frame_addr F"
  define g where "g = frame_flags F"
  define h1 where "h1 = h(w := flags_update (\<lambda>_. to_modified g) (h w))"
  define h2 where "h2 = h1(p := flags_update to_black (h1 p))"
  define h3 where "h3 = h2(b := flags_update to_black (h2 b))"
  note ff = focus_frame [OF fo sib, folded p_def] and fp = focus_frame_ptrs [OF fo sib, folded p_def]
  have b0: "b \<noteq> NULL"
    using ff far sib by (cases F) auto
  have fo3: "focus (h3, root) (map (reflag1 b to_black) (map (reflag1 p to_black) (map (reflag1 w (\<lambda>_. to_modified g)) (F # D))))
     (reflag b to_black (reflag p to_black (reflag w (\<lambda>_. to_modified g) u)))"
    unfolding h3_def h2_def h1_def by (intro focus_reflag fo)
  have hs: "upd w (flags_update (\<lambda>_. flags (h p) OR RBT_FLAG_MODIFIED)) h = Some h1" "MAKE_BLACK p h1 = Some h2" "MAKE_BLACK b h2 = Some h3"
    using ff b0 by (simp_all add: reflag_simps h1_def h2_def h3_def g_def to_modified_def)
  have hp: "left (h2 p) = left (h p)" "left (h2 w) = left (h w)" "right (h2 w) = right (h w)"
    by (simp_all add: h1_def h2_def)
  have fin: "remove_finish (root_of u) p w (h, root) =
    (if root_of u = left (h p) then do { h \<leftarrow> MAKE_BLACK (right (h w)) h2; rotate_left p (h, root) }
     else do { h \<leftarrow> MAKE_BLACK (left (h w)) h2; rotate_right p (h, root) })"
    using ff(1-3) hs(1,2) hp by (simp add: remove_finish_def)
  have dist: "distinct (lefts D @ nodes (plug1 F u) @ rights D)"
    using fo by (cases F) (simp_all add: focus_def)
  show ?thesis
  proof (cases F)
    case (Lf p' g' r)
    then have F: "F = Lf p g (Bin A w f (Bin B1 b fb B2))" "B = Bin B1 b fb B2"
      using far sib by (auto simp: p_def g_def)
    have "focus (h3, root) D (Bin u p (to_black g) (Bin A w (to_modified g) (Bin B1 b (to_black fb) B2)))"
      using fo3 dist F by (simp add: focus_up del: map_map)
    then obtain h' root' where rot: "rotate_left p (h3, root) = Some (h', root')"
        "focus (h', root') D (Bin (Bin u p (to_black g) A) w (to_modified g) (Bin B1 b (to_black fb) B2))"
      by (rule rotate_left_focus)
    have "rem_done S (h', root') (nodes (plug (F # D) u))"
      using rot(2) finish_inv(1) [of S p g A w f B1 b fb B2 D u] inv far(2) blk F
      by (intro rem_doneI [OF rot(2)]) simp_all
    moreover have "root_of u = left (h p)" "right (h w) = b"
      using fp(1) ff(5) F by simp_all
    ultimately show ?thesis
      using fin hs(3) rot(1) unfolding p_def [symmetric] by simp
  next
    case (Rt l p' g')
    then have F: "F = Rt (Bin (Bin B1 b fb B2) w f B) p g" "A = Bin B1 b fb B2"
      using far sib by (auto simp: p_def g_def)
    have "focus (h3, root) D (Bin (Bin (Bin B1 b (to_black fb) B2) w (to_modified g) B) p (to_black g) u)"
      using fo3 dist F by (simp add: focus_up del: map_map)
    then obtain h' root' where rot: "rotate_right p (h3, root) = Some (h', root')"
        "focus (h', root') D (Bin (Bin B1 b (to_black fb) B2) w (to_modified g) (Bin B p (to_black g) u))"
      by (rule rotate_right_focus)
    have "rem_done S (h', root') (nodes (plug (F # D) u))"
      using rot(2) finish_inv(2) [of S B1 b fb B2 w f B p g D u] inv far(2) blk F
      by (intro rem_doneI [OF rot(2)]) simp_all
    moreover have "root_of u \<noteq> left (h p)" "left (h w) = b"
      using fp(1) ff(4) F by auto
    ultimately show ?thesis
      using fin hs(3) rot(1) unfolding p_def [symmetric] by simp
  qed
qed

lemma remove_recolour_ok:
  assumes fo: "focus (h, root) (F # D) u" and inv: "rem_inv S (F # D) u" and sib: "frame_sib F = Bin A w f B"
    and blk: "\<not> red f" "\<not> rootred A" "\<not> rootred B" "red (frame_flags F)"
  shows "\<exists>h1 h2. MAKE_RED w h = Some h1 \<and> MAKE_BLACK (frame_addr F) h1 = Some h2 \<and>
    rem_done S (h2, root) (nodes (plug (F # D) u))"
proof -
  define p where "p = frame_addr F"
  define h1 where "h1 = h(w := flags_update to_red (h w))"
  define h2 where "h2 = h1(p := flags_update to_black (h1 p))"
  note ff = focus_frame [OF fo sib, folded p_def]
  have fo2: "focus (h2, root) (map (reflag1 p to_black) (map (reflag1 w to_red) (F # D)))
     (reflag p to_black (reflag w to_red u))"
    unfolding h2_def h1_def by (intro focus_reflag fo)
  have hs: "MAKE_RED w h = Some h1" "MAKE_BLACK p h1 = Some h2"
    using ff by (simp_all add: reflag_simps h1_def h2_def)
  have dist: "distinct (lefts D @ nodes (plug1 F u) @ rights D)"
    using fo by (cases F) (simp_all add: focus_def)
  have "rem_done S (h2, root) (nodes (plug (F # D) u))"
  proof (cases F)
    case (Lf a g r)
    then have "focus (h2, root) D (Bin u p (to_black g) (Bin A w (to_red f) B))"
      using fo2 dist sib by (simp add: focus_up p_def del: map_map)
    then show ?thesis
      using inv sib blk Lf by (elim rem_doneI) (auto simp: rem_inv_def rbt_ok_plug p_def)
  next
    case (Rt l a g)
    then have "focus (h2, root) D (Bin (Bin A w (to_red f) B) p (to_black g) u)"
      using fo2 dist sib by (simp add: focus_up p_def del: map_map)
    then show ?thesis
      using inv sib blk Rt by (elim rem_doneI) (auto simp: rem_inv_def rbt_ok_plug p_def)
  qed
  with hs show ?thesis by (auto simp: p_def)
qed

lemma far_nephew_Bin: "rootred (far_nephew F) \<Longrightarrow> \<exists>B1 b fb B2. far_nephew F = Bin B1 b fb B2 \<and> red fb"
  by (cases "far_nephew F") auto

lemma rem_stop_ok:
  assumes "rem_stop S t n p s C u"
  shows "\<exists>t'. do {
       y \<leftarrow> deref (fst t) s;
       if RBT_IS_RED (fst t) p \<and> RBT_IS_BLACK (fst t) (left y) \<and> RBT_IS_BLACK (fst t) (right y) then do {
         h \<leftarrow> MAKE_RED s (fst t);
         h \<leftarrow> MAKE_BLACK p h;
         Some (h, snd t)
       } else do {
         (s, t) \<leftarrow> nephew_turn n p s t;
         remove_finish n p s t
       }
     } = Some t' \<and> rem_done S t' (nodes (plug C u))"
proof -
  obtain h root where t: "t = (h, root)" by (cases t)
  obtain F D A f B where C: "C = F # D" and st: "n = root_of u" "p = frame_addr F" "frame_sib F = Bin A s f B" "\<not> red f"
      "red (frame_flags F) \<or> rootred A \<or> rootred B" and fo: "focus (h, root) (F # D) u" and inv: "rem_inv S (F # D) u"
    using assms t by (auto simp: rem_stop_def)
  note ff = focus_frame [OF fo st(3)]
  have cond: "RBT_IS_RED h p \<and> RBT_IS_BLACK h (left (h s)) \<and> RBT_IS_BLACK h (right (h s)) \<longleftrightarrow>
      \<not> (rootred A \<or> rootred B)"
    using ff st by auto
  show ?thesis
  proof (cases "rootred A \<or> rootred B")
    case False
    then obtain h1 h2 where "MAKE_RED s h = Some h1" "MAKE_BLACK p h1 = Some h2" "rem_done S (h2, root) (nodes (plug C u))"
      using remove_recolour_ok [OF fo inv st(3,4)] st C by auto
    with False cond ff(2) t show ?thesis by simp
  next
    case True
    from nephew_turn_ok [OF fo inv st(3,4) this] obtain w' h' root' F' A' f' B'
      where n: "nephew_turn n p s (h, root) = Some (w', h', root')" "focus (h', root') (F' # D) u" "rem_inv S (F' # D) u"
        "frame_addr F' = p" "frame_sib F' = Bin A' w' f' B'" "\<not> red f'"
        "rootred (far_nephew F')" "nodes (plug1 F' u) = nodes (plug1 F u)"
      unfolding st(1,2) by blast
    obtain B1 b fb B2 where "far_nephew F' = Bin B1 b fb B2" "red fb"
      using far_nephew_Bin [OF n(7)] by blast
    from remove_finish_ok [OF n(2,3,5,6) this] obtain t' where
      "remove_finish n p w' (h', root') = Some t'" "rem_done S t' (nodes (plug (F' # D) u))"
      unfolding st(1) n(4) by blast
    moreover have "nodes (plug (F' # D) u) = nodes (plug C u)"
      using n(8) C by simp
    ultimately show ?thesis
      using True cond ff(2) t n(1) by (cases t') auto
  qed
qed

lemma repair_after_remove_ok:
  assumes fo: "focus (h, root) C Tip" and inv: "rem_inv S C Tip" and n: "n \<noteq> NULL" "parent (h n) = parent_of C"
  shows "\<exists>t'. repair_after_remove n (h, root) = Some t' \<and> rem_done S t' (lefts C @ rights C)"
proof -
  obtain finished n' p' s' t' where l: "remove_loop NULL (parent_of C) (h, root) = Some (finished, n', p', s', t')"
    "if finished then rem_done S t' (nodes (plug C Tip))
     else \<exists>C' u. rem_stop S t' n' p' s' C' u \<and> nodes (plug C' u) = nodes (plug C Tip)"
    using remove_loop_ok [OF fo inv, of NULL "parent_of C"] by auto
  show ?thesis
  proof (cases finished)
    case True
    with l n show ?thesis by (auto simp: repair_after_remove_def)
  next
    case False
    then obtain C' u where stop: "rem_stop S t' n' p' s' C' u" "nodes (plug C' u) = lefts C @ rights C"
      using l(2) by auto
    from rem_stop_ok [OF stop(1)] stop(2) l(1) n False show ?thesis
      by (simp add: repair_after_remove_def)
  qed
qed

section \<open>Marking the path\<close>

fun mark1 :: "dir_frame \<Rightarrow> dir_frame" where
  "mark1 (Lf a f r) = Lf a (to_modified f) r"
| "mark1 (Rt l a f) = Rt l a (to_modified f)"

lemma mark1_simps [simp]:
  "frame_sib (mark1 F) = frame_sib F" "red (frame_flags (mark1 F)) = red (frame_flags F)"
  "modified (frame_flags (mark1 F))" "frame_addr (mark1 F) = frame_addr F"
  by (cases F; simp)+

lemma mark_ctx_simps [simp]:
  "lefts (map mark1 C) = lefts C" "rights (map mark1 C) = rights C" "parent_of (map mark1 C) = parent_of C"
  "topred (map mark1 C) = topred C" "ctx_ok (map mark1 C) k = ctx_ok C k"
  "ctx_marked S (map mark1 C) \<longleftrightarrow> (\<forall>F \<in> set C. summarised S (frame_sib F))"
proof -
  show "lefts (map mark1 C) = lefts C" by (induction C rule: lefts.induct) auto
  show "rights (map mark1 C) = rights C" by (induction C rule: rights.induct) auto
  show "parent_of (map mark1 C) = parent_of C" by (cases C rule: parent_of.cases) auto
  have t: "topred (map mark1 C) = topred C" for C by (cases C) auto
  then show "topred (map mark1 C) = topred C" .
  show "ctx_ok (map mark1 C) k = ctx_ok C k" by (induction C arbitrary: k) (auto simp: t)
  show "ctx_marked S (map mark1 C) \<longleftrightarrow> (\<forall>F \<in> set C. summarised S (frame_sib F))"
    by (induction C) auto
qed

lemma frame_addr_path: "frame_addr ` set C \<subseteq> set (lefts C) \<union> set (rights C)"
  by (induction C rule: lefts.induct) auto

lemma mark_ctx:
  "ctx_at h root p C \<Longrightarrow> distinct (lefts C @ rights C) \<Longrightarrow>
     \<exists>h'. rbt_mark_modified (parent_of C) h = Some h' \<and> ctx_at h' root p (map mark1 C) \<and>
       (\<forall>a. a \<notin> frame_addr ` set C \<longrightarrow> h' a = h a)"
proof (induction C arbitrary: h p)
  case Nil
  then show ?case by (subst rbt_mark_modified.simps) simp
next
  case (Cons F C)
  define a where "a = frame_addr F"
  define h1 where "h1 = h(a := flags_update to_modified (h a))"
  have F: "a \<noteq> NULL" "parent_of (F # C) = a" "parent (h a) = parent_of C" "ctx_at h root a C" "distinct (lefts C @ rights C)"
    "a \<notin> set (lefts C) \<union> set (rights C)" "a \<notin> set (nodes (frame_sib F))" "tree_at h a (frame_sib F)"
    "set (nodes (frame_sib F)) \<inter> (set (lefts C) \<union> set (rights C)) = {}"
    using Cons.prems by (cases F; auto simp: a_def)+
  then have "ctx_at h1 root a C"
    by (simp add: h1_def)
  from Cons.IH [OF this F(5)] obtain h' where h': "rbt_mark_modified (parent_of C) h1 = Some h'"
      "ctx_at h' root a (map mark1 C)" "\<And>b. b \<notin> frame_addr ` set C \<Longrightarrow> h' b = h1 b"
    by blast
  have eq: "rbt_mark_modified (parent_of (F # C)) h = Some h'"
    using F(1-3) h'(1) by (subst rbt_mark_modified.simps) (simp add: reflag_simps h1_def)
  have "a \<notin> frame_addr ` set C" and dis: "frame_addr ` set C \<inter> set (nodes (frame_sib F)) = {}"
    using frame_addr_path [of C] F(6,9) by auto
  then have h'a: "h' a = h1 a"
    using h'(3) by blast
  have "h' b = h b" if "b \<in> set (nodes (frame_sib F))" for b
  proof -
    have "b \<notin> frame_addr ` set C" "b \<noteq> a"
      using dis that F(7) by auto
    then show ?thesis
      using h'(3) by (simp add: h1_def)
  qed
  then have "tree_at h' a (frame_sib F)"
    using F(8) tree_at_cong [of "frame_sib F" h' h] by blast
  then have "ctx_at h' root p (map mark1 (F # C))"
    using Cons.prems(1) h'(2) h'a by (cases F) (auto simp: a_def h1_def)
  moreover have "h' b = h b" if "b \<notin> frame_addr ` set (F # C)" for b
    using h'(3) [of b] that by (auto simp: h1_def a_def)
  ultimately show ?case
    using eq by blast
qed

lemma mark_focus:
  assumes fo: "focus (h, root) C (Bin l n f r)"
  obtains h' where "rbt_mark_modified n h = Some h'" "focus (h', root) (map mark1 C) (Bin l n (to_modified f) r)"
proof -
  define h1 where "h1 = h(n := flags_update to_modified (h n))"
  have fo1: "focus (h1, root) C (Bin l n (to_modified f) r)"
    using focus_reflag [OF fo, of n to_modified] fo by (simp add: focus_Bin h1_def)
  note F = fo1 [unfolded focus_Bin distinct_focus]
  then obtain h' where h': "rbt_mark_modified (parent_of C) h1 = Some h'" "ctx_at h' root n (map mark1 C)"
      "\<And>a. a \<notin> frame_addr ` set C \<Longrightarrow> h' a = h1 a"
    using mark_ctx [of h1 root n C] by auto
  have "h' a = h1 a" if "a \<in> set (nodes l) \<union> set (nodes r) \<union> {n}" for a
  proof -
    have "a \<notin> frame_addr ` set C"
      using frame_addr_path [of C] that F by (auto simp: disjoint_iff)
    then show ?thesis by (rule h'(3))
  qed
  note same = this
  have "tree_at h' n l = tree_at h1 n l" "tree_at h' n r = tree_at h1 n r"
    by (rule tree_at_cong; simp add: same)+
  then have "focus (h', root) (map mark1 C) (Bin l n (to_modified f) r)"
    unfolding focus_Bin distinct_focus using F h'(2) same [of n] by simp
  moreover have "rbt_mark_modified n h = Some h'"
    using fo h'(1) by (subst rbt_mark_modified.simps) (simp add: focus_Bin reflag_simps h1_def)
  ultimately show ?thesis using that by blast
qed

lemma summarised_frames:
  "summarised S (plug C s) \<Longrightarrow> summarised S s \<and> (\<forall>F \<in> set C. summarised S (frame_sib F))"
proof (induction C arbitrary: s)
  case (Cons F C)
  from Cons.IH [of "plug1 F s"] Cons.prems show ?case by (cases F) auto
qed simp

section \<open>Changing places with the successor\<close>

lemma focus_plugs: "focus t D (plug C s) \<longleftrightarrow> focus t (C @ D) s"
  by (induction C arbitrary: s) (simp_all add: focus_plug1)

text \<open>A path segment \<open>C\<close> below the node \<open>q\<close>, above a subtree with root \<open>p\<close>.\<close>

definition up :: "addr \<Rightarrow> ctx \<Rightarrow> addr" where
  "up q C = (if C = [] then q else parent_of C)"

lemma up_simps [simp]: "up q [] = q" "up q (F # C) = frame_addr F"
  by (cases F; simp add: up_def)+

fun seg :: "rbt_heap \<Rightarrow> addr \<Rightarrow> addr \<Rightarrow> ctx \<Rightarrow> bool" where
  "seg h q p [] \<longleftrightarrow> True"
| "seg h q p (Lf a f r # C) \<longleftrightarrow>
     a \<noteq> NULL \<and> h a = \<lparr>flags = f, left = p, right = root_of r, parent = up q C\<rparr> \<and>
     tree_at h a r \<and> seg h q a C"
| "seg h q p (Rt l a f # C) \<longleftrightarrow>
     a \<noteq> NULL \<and> h a = \<lparr>flags = f, left = root_of l, right = p, parent = up q C\<rparr> \<and>
     tree_at h a l \<and> seg h q a C"

lemma tree_at_plug: "tree_at h q (plug C s) \<longleftrightarrow> seg h q (root_of s) C \<and> tree_at h (up q C) s"
proof (induction C arbitrary: s)
  case (Cons F C)
  then show ?case by (cases F) auto
qed simp

lemma seg_cong:
  "(\<And>a. a \<in> set (lefts C) \<union> set (rights C) \<Longrightarrow> h' a = h a) \<Longrightarrow> seg h' q p C = seg h q p C"
proof (induction C arbitrary: p)
  case (Cons F C)
  then show ?case
    by (cases F) (auto simp: tree_at_cong [of _ h' h])
qed simp

lemma seg_upd [simp]:
  "a \<notin> set (lefts C) \<Longrightarrow> a \<notin> set (rights C) \<Longrightarrow> seg (h(a := x)) q p C = seg h q p C"
  by (rule seg_cong) auto

text \<open>The path down to the leftmost node of a tree.\<close>

fun spine :: "ctx \<Rightarrow> bool" where
  "spine [] = True"
| "spine (Lf a f r # C) = spine C"
| "spine (Rt l a f # C) = False"

lemma spine_append [simp]: "spine (C @ D) \<longleftrightarrow> spine C \<and> spine D"
  by (induction C rule: spine.induct) auto

lemma spine_lefts [simp]: "spine C \<Longrightarrow> lefts C = []"
  by (induction C rule: spine.induct) auto

lemma spine_exists: "r \<noteq> Tip \<Longrightarrow> \<exists>Ls s g rr. r = plug Ls (Bin Tip s g rr) \<and> spine Ls"
proof (induction r)
  case (Bin l a f r)
  show ?case
  proof (cases "l = Tip")
    case True
    then show ?thesis by (intro exI [of _ "[]"]) simp
  next
    case False
    then obtain Ls s g rr where "l = plug Ls (Bin Tip s g rr)" "spine Ls"
      using Bin.IH(1) by blast
    then have "Bin l a f r = plug (Ls @ [Lf a f r]) (Bin Tip s g rr)" "spine (Ls @ [Lf a f r])"
      by simp_all
    then show ?thesis by blast
  qed
qed simp

lemma root_of_pos [simp]: "tree_at h q t \<Longrightarrow> 0 < root_of t \<longleftrightarrow> t \<noteq> Tip"
  by (cases t) auto

lemma plug_Tip [simp]: "plug C s = Tip \<longleftrightarrow> C = [] \<and> s = Tip"
proof (induction C arbitrary: s)
  case (Cons F C)
  then show ?case by (cases F) auto
qed simp

lemma plug_root: "root_of s = root_of s' \<Longrightarrow> root_of (plug C s) = root_of (plug C s')"
proof (induction C arbitrary: s s')
  case (Cons F C)
  from Cons.IH [of "plug1 F s" "plug1 F s'"] Cons.prems show ?case by (cases F) auto
qed simp

lemma leftmost_spine:
  "tree_at h q (plug Ls (Bin Tip s g rr)) \<Longrightarrow> spine Ls \<Longrightarrow> leftmost h (root_of (plug Ls (Bin Tip s g rr))) = Some s"
proof (induction Ls arbitrary: q rule: rev_induct)
  case Nil
  then show ?case by (subst leftmost.simps) simp
next
  case (snoc F Ms)
  obtain b k t where F: "F = Lf b k t"
    using snoc.prems(2) by (cases F) auto
  have b: "b \<noteq> NULL" "left (h b) = root_of (plug Ms (Bin Tip s g rr))" "tree_at h b (plug Ms (Bin Tip s g rr))"
    using snoc.prems(1) F by auto
  then have "root_of (plug Ms (Bin Tip s g rr)) \<noteq> NULL"
    by simp
  moreover have "leftmost h (root_of (plug Ms (Bin Tip s g rr))) = Some s"
    using snoc b(3) by simp
  ultimately show ?case
    using b F by (simp add: leftmost.simps [of h b])
qed

text \<open>What both branches of \<open>swap_with_successor\<close> establish before the pointers to the two nodes are repaired.\<close>

definition swapped :: "rbt_heap \<Rightarrow> addr \<Rightarrow> ctx \<Rightarrow> rtree \<Rightarrow> addr \<Rightarrow> u32 \<Rightarrow> ctx \<Rightarrow> addr \<Rightarrow> u32 \<Rightarrow> rtree \<Rightarrow> bool" where
  "swapped h root C l n f Ls s g rr \<longleftrightarrow>
     h s = \<lparr>flags = f, left = root_of l, right = root_of (plug Ls (Bin Tip n g rr)), parent = parent_of C\<rparr> \<and>
     (\<exists>q. h n = \<lparr>flags = g, left = NULL, right = root_of rr, parent = up q Ls\<rparr>) \<and>
     seg h n n Ls \<and> tree_at h s rr \<and> tree_at h n l \<and> ctx_at h root n C"

lemma swap_contents_ok:
  assumes fo: "focus (h, root) C (Bin l n f (plug Ls (Bin Tip s g rr)))" and sp: "spine Ls"
  shows "\<exists>h'. swap_contents n h = Some (s, h') \<and> swapped h' root C l n f Ls s g rr"
proof -
  note F = fo [unfolded focus_Bin nodes_plug nodes.simps, simplified sp spine_lefts append.simps]
  have t: "tree_at h n (plug Ls (Bin Tip s g rr))"
    using F by simp
  note T = this [unfolded tree_at_plug]
  have s0: "s \<noteq> NULL" "s \<noteq> n" "h s = \<lparr>flags = g, left = NULL, right = root_of rr, parent = up n Ls\<rparr>"
    using T F by auto
  show ?thesis
  proof (cases Ls)
    case Nil
    define h' where "h' = h(s := \<lparr>flags = f, left = root_of l, right = n, parent = parent_of C\<rparr>,
      n := \<lparr>flags = g, left = NULL, right = root_of rr, parent = s\<rparr>)"
    have "swap_contents n h = Some (s, h')"
      using F Nil s0 by (simp add: swap_contents_def h'_def)
    moreover have "swapped h' root C l n f Ls s g rr"
      using F Nil s0 T by (simp add: swapped_def h'_def)
    ultimately show ?thesis by blast
  next
    case (Cons G Ms)
    then obtain b k t where G: "G = Lf b k t"
      using sp by (cases G) auto
    define h' where "h' = h(s := h n, n := h s, b := (h b)\<lparr>left := n\<rparr>)"
    have b: "b \<noteq> NULL" "b \<noteq> n" "b \<noteq> s" "h b = \<lparr>flags = k, left = s, right = root_of t, parent = up n Ms\<rparr>"
      using T F Cons G by auto
    obtain l' a' f' r' where pl: "plug Ls (Bin Tip s g rr) = Bin l' a' f' r'"
      by (metis plug_Tip rtree.distinct(1) rtree.exhaust)
    have "l' \<noteq> Tip"
    proof (cases Ls rule: rev_cases)
      case (snoc Ns K)
      then show ?thesis
        using sp pl by (cases K) auto
    qed (use Cons in simp)
    have "root_of (plug Ls (Bin Tip s g rr)) = a'" "h a' = \<lparr>flags = f', left = root_of l', right = root_of r', parent = n\<rparr>"
       "a' \<noteq> NULL" "root_of l' \<noteq> NULL"
      using t \<open>l' \<noteq> Tip\<close> by (auto simp: pl)
    moreover have "leftmost h (root_of (plug Ls (Bin Tip s g rr))) = Some s"
      using t sp by (rule leftmost_spine)
    ultimately have "swap_contents n h = Some (s, h')"
      using F s0 b Cons G by (simp add: swap_contents_def h'_def)
    moreover have "swapped h' root C l n f Ls s g rr"
      using F s0 b T Cons G sp plug_root [of "Bin (Bin Tip s g rr) b k t" "Bin (Bin Tip n g rr) b k t" Ms]
      by (simp add: swapped_def h'_def)
    ultimately show ?thesis by blast
  qed
qed

lemma adopt_self [simp]: "0 < c \<Longrightarrow> adopt c n h c = (h c)\<lparr>parent := n\<rparr>"
  by (simp add: adopt_def)

lemma seg_adopt:
  "seg h q p (C @ [F]) \<Longrightarrow> distinct (lefts (C @ [F]) @ rights (C @ [F])) \<Longrightarrow>
     seg (adopt (frame_addr F) q' h) q' p (C @ [F])"
proof (induction C arbitrary: p)
  case Nil
  then show ?case by (cases F) simp_all
next
  case (Cons G C)
  have "lefts (C @ [F]) @ rights (C @ [F]) \<noteq> []" "frame_addr F \<in> set (lefts (C @ [F])) \<union> set (rights (C @ [F]))"
    using frame_addr_path [of "C @ [F]"] by auto
  have up: "up q' (C @ [F]) = up q (C @ [F])"
    by (simp add: up_def)
  have "frame_addr F \<noteq> frame_addr G" "frame_addr F \<notin> set (nodes (frame_sib G))"
    using Cons.prems(2) \<open>frame_addr F \<in> _\<close> by (cases G; auto)+
  moreover have "seg (adopt (frame_addr F) q' h) q' (frame_addr G) (C @ [F])"
    using Cons by (cases G) auto
  ultimately show ?case
    using Cons.prems(1) up by (cases G) auto
qed

lemma seg_adopt_frame [simp]:
  "set (nodes t) \<inter> set (lefts C) = {} \<Longrightarrow> set (nodes t) \<inter> set (rights C) = {} \<Longrightarrow>
     seg (adopt (root_of t) n h) q p C = seg h q p C"
  by (cases t) (auto simp: adopt_def)

lemma swap_with_successor_ok:
  assumes fo: "focus (h, root) C (Bin l n f (plug Ls (Bin Tip s g rr)))" and sp: "spine Ls" and l: "l \<noteq> Tip"
  shows "\<exists>t'. swap_with_successor n (h, root) = Some t' \<and> focus t' C (Bin l s f (plug Ls (Bin Tip n g rr)))"
proof -
  note F = fo [unfolded focus_Bin nodes_plug nodes.simps, simplified sp spine_lefts append.simps]
  obtain h1 where h1: "swap_contents n h = Some (s, h1)" and sw: "swapped h1 root C l n f Ls s g rr"
    using swap_contents_ok [OF fo sp] by blast
  note W = sw [unfolded swapped_def]
  have s0: "s \<noteq> NULL"
    using F by (simp add: tree_at_plug)
  define R where "R = plug Ls (Bin Tip n g rr)"
  have D: "distinct (lefts C @ nodes (Bin l s f R) @ rights C)" and DR: "distinct (nodes R)"
    using F sp by (auto simp: R_def)
  have pre: "ctx_at h1 root n C" "n \<noteq> NULL" "n \<notin> set (lefts C) \<union> set (rights C)" "distinct (lefts C @ rights C)"
    using W F by auto
  obtain h2 root2 where h2: "fix_downptr (parent_of C) n s (h1, root) = (h2, root2)" "ctx_at h2 root2 s C"
      "\<And>a. a \<notin> set (lefts C) \<union> set (rights C) \<Longrightarrow> h2 a = h1 a"
    using fix_downptr_ctx [OF pre, of s] by metis
  have "h2 s = h1 s" "h2 n = h1 n" "tree_at h2 s rr = tree_at h1 s rr" "tree_at h2 n l = tree_at h1 n l"
     "seg h2 n n Ls = seg h1 n n Ls"
    using D sp by (auto simp: R_def disjoint_iff intro!: h2(3) tree_at_cong seg_cong)
  with W obtain q where V: "h2 s = \<lparr>flags = f, left = root_of l, right = root_of R, parent = parent_of C\<rparr>"
      "h2 n = \<lparr>flags = g, left = NULL, right = root_of rr, parent = up q Ls\<rparr>"
      "seg h2 n n Ls" "tree_at h2 s rr" "tree_at h2 n l"
    by (auto simp: R_def)
  define h3 where "h3 = adopt (root_of l) s h2"
  define h4 where "h4 = adopt (root_of R) s h3"
  define h5 where "h5 = adopt (root_of rr) n h4"
  have ns: "n \<noteq> s" "s \<notin> set (nodes l)" "n \<notin> set (nodes l)" "s \<notin> set (nodes rr)" "n \<notin> set (nodes rr)"
      "s \<notin> set (rights Ls)" "n \<notin> set (rights Ls)" "s \<notin> set (nodes R)"
    and dj: "set (nodes l) \<inter> set (nodes rr) = {}" "set (nodes l) \<inter> set (rights Ls) = {}" "set (nodes l) \<inter> set (lefts C) = {}"
      "set (nodes l) \<inter> set (rights C) = {}" "set (nodes rr) \<inter> set (rights Ls) = {}" "set (nodes rr) \<inter> set (nodes l) = {}"
      "set (nodes rr) \<inter> set (lefts C) = {}" "set (nodes rr) \<inter> set (rights C) = {}"
      "set (nodes R) \<inter> set (nodes l) = {}" "set (nodes R) \<inter> set (lefts C) = {}" "set (nodes R) \<inter> set (rights C) = {}"
      "distinct (nodes l)" "distinct (nodes rr)" "distinct (rights Ls)"
    using D sp by (auto simp: R_def)
  have h3: "tree_at h3 s l" "ctx_at h3 root2 s C" "h3 s = h2 s" "h3 n = h2 n" "tree_at h3 s rr" "seg h3 n n Ls"
    using V h2(2) sp ns dj adopt_tree [of h2 n l s] by (simp_all add: h3_def)
  have h4: "tree_at h4 s l" "ctx_at h4 root2 s C" "h4 s = h2 s"
    using h3 ns dj by (simp_all add: h4_def)
  have R: "h4 n = \<lparr>flags = g, left = NULL, right = root_of rr, parent = up s Ls\<rparr> \<and> tree_at h4 s rr \<and> seg h4 s n Ls"
  proof (cases Ls rule: rev_cases)
    case Nil
    then have "root_of R = n" by (simp add: R_def)
    then show ?thesis
      using Nil h3 V(2) F ns by (simp add: h4_def)
  next
    case (snoc Ms G)
    then obtain b k t where G: "G = Lf b k t"
      using sp by (cases G) auto
    then have b: "root_of R = b" "b \<in> set (rights Ls)"
      using snoc frame_addr_path [of Ls] sp by (auto simp: R_def)
    then have "b \<noteq> n" "b \<notin> set (nodes rr)"
      using ns dj by auto
    then have "h4 n = h3 n" "tree_at h4 s rr"
      using h3 b by (simp_all add: h4_def)
    moreover have "seg h4 s n Ls"
      using seg_adopt [of h3 n n Ms G s] h3(6) dj(14) sp snoc b(1) G by (simp add: h4_def)
    ultimately show ?thesis
      using h3(4) V(2) snoc by (simp add: up_def)
  qed
  have "tree_at h5 n rr" "seg h5 s n Ls" "h5 n = h4 n"
    using R ns dj sp adopt_tree [of h4 s rr n] by (simp_all add: h5_def)
  then have "tree_at h5 s R"
    using R F by (simp add: R_def tree_at_plug)
  moreover have "tree_at h5 s l" "ctx_at h5 root2 s C" "h5 s = h2 s"
    using h4 ns dj by (simp_all add: h5_def)
  ultimately have "focus (h5, root2) C (Bin l s f R)"
    using V(1) s0 D by (simp add: focus_Bin)
  moreover have "swap_with_successor n (h, root) = Some (h5, root2)"
  proof -
    have "upd (root_of l) (parent_update (\<lambda>_. s)) h2 = Some h3"
      using V(5) l by (simp add: h3_def adopt_def)
    moreover have "upd (root_of R) (parent_update (\<lambda>_. s)) h3 = Some h4"
      using \<open>tree_at h5 s R\<close> by (simp add: h4_def adopt_def R_def)
    ultimately show ?thesis
      using h1 h2(1) V(1) s0 F h3(3) R by (simp add: h5_def)
  qed
  ultimately show ?thesis
    by (auto simp: R_def)
qed

section \<open>What the repair does not touch\<close>

text \<open>
  The pointers of the nodes in \<open>X\<close> stay within \<open>X\<close>, and every other node is as it was in the heap
  \<open>g\<close>. Every step of the repair keeps this.
\<close>

definition within :: "addr set \<Rightarrow> rbt_heap \<Rightarrow> rbt_heap \<Rightarrow> bool" where
  "within X g h \<longleftrightarrow> (\<forall>a \<in> X. left (h a) \<in> insert NULL X \<and> right (h a) \<in> insert NULL X \<and> parent (h a) \<in> insert NULL X) \<and>
     (\<forall>a. a \<notin> X \<longrightarrow> h a = g a)"

lemma withinD:
  assumes "within X g h" "a \<in> insert NULL X" "a \<noteq> NULL"
  shows "left (h a) \<in> insert NULL X" "right (h a) \<in> insert NULL X" "parent (h a) \<in> insert NULL X"
  using assms by (auto simp: within_def)

lemma within_upd:
  assumes "within X g h" "a \<in> insert NULL X" "a \<noteq> NULL"
    "left x \<in> insert NULL X" "right x \<in> insert NULL X" "parent x \<in> insert NULL X"
  shows "within X g (h(a := x))"
  using assms by (auto simp: within_def)

lemma within_upd_Some:
  assumes "upd a F h = Some h'" "within X g h" "a \<in> insert NULL X"
    "left (F (h a)) \<in> insert NULL X" "right (F (h a)) \<in> insert NULL X" "parent (F (h a)) \<in> insert NULL X"
  shows "within X g h'"
  using assms within_upd by (auto simp: upd_def split: if_splits)

lemma within_flags:
  assumes "upd a (flags_update F) h = Some h'" "within X g h" "a \<in> insert NULL X"
  shows "within X g h'"
proof -
  have "a \<noteq> NULL"
    using assms(1) by (auto simp: upd_def split: if_splits)
  with assms withinD [OF assms(2,3)] show ?thesis
    by (intro within_upd_Some [OF assms]) auto
qed

lemma within_flag_ops:
  "MAKE_RED a h = Some h' \<Longrightarrow> within X g h \<Longrightarrow> a \<in> insert NULL X \<Longrightarrow> within X g h'"
  "MAKE_BLACK a h = Some h' \<Longrightarrow> within X g h \<Longrightarrow> a \<in> insert NULL X \<Longrightarrow> within X g h'"
  "MARK_MODIFIED a h = Some h' \<Longrightarrow> within X g h \<Longrightarrow> a \<in> insert NULL X \<Longrightarrow> within X g h'"
  by (auto simp: MAKE_RED_def MAKE_BLACK_def MARK_MODIFIED_def intro: within_flags)

lemma within_adopt:
  "within X g h \<Longrightarrow> c \<in> insert NULL X \<Longrightarrow> n \<in> insert NULL X \<Longrightarrow> within X g (adopt c n h)"
  by (auto simp: adopt_def within_def)

lemma within_fix_downptr:
  "fix_downptr p old n (h, root) = (h', root') \<Longrightarrow> within X g h \<Longrightarrow> p \<in> insert NULL X \<Longrightarrow> n \<in> insert NULL X \<Longrightarrow> within X g h'"
  by (auto simp: fix_downptr.simps within_def split: if_splits)

lemma deref_eq_Some: "deref h n = Some x \<longleftrightarrow> n \<noteq> NULL \<and> x = h n"
  by (auto simp: deref_def)

lemma upd_eq_Some: "upd n F h = Some h' \<longleftrightarrow> n \<noteq> NULL \<and> h' = h(n := F (h n))"
  by (auto simp: upd_def)

lemma within_rotate_left:
  assumes "rotate_left n (h, root) = Some (h', root')" "within X g h" "n \<in> insert NULL X"
  shows "within X g h'"
proof -
  have n: "n \<noteq> NULL" "right (h n) \<noteq> NULL"
    using assms(1) by (auto simp: bind_eq_Some_conv deref_eq_Some Let_def)
  note D = withinD [OF assms(2,3) n(1)]
  note E = withinD [OF assms(2) D(2) n(2)]
  let ?r = "right (h n)"
  define h1 where "h1 = h(n := (h n)\<lparr>right := left (h ?r)\<rparr>)"
  define h2 where "h2 = adopt (left (h ?r)) n h1"
  define h3 where "h3 = h2(?r := (h2 ?r)\<lparr>left := n\<rparr>)"
  define h4 where "h4 = h3(n := (h3 n)\<lparr>parent := ?r\<rparr>)"
  define h5 where "h5 = h4(?r := (h4 ?r)\<lparr>parent := parent (h n)\<rparr>)"
  have "rotate_left n (h, root) = Some (fix_downptr (parent (h n)) n ?r (h5, root))"
    unfolding h5_def h4_def h3_def h2_def h1_def using n by (simp add: Let_def)
  then have "fix_downptr (parent (h n)) n ?r (h5, root) = (h', root')"
    using assms(1) by simp
  moreover have w1: "within X g h1"
    unfolding h1_def using D E assms n by (intro within_upd) auto
  then have w2: "within X g h2"
    unfolding h2_def using E assms by (intro within_adopt)
  then have w3: "within X g h3"
    unfolding h3_def using withinD [OF w2 D(2) n(2)] D assms n by (intro within_upd) auto
  then have w4: "within X g h4"
    unfolding h4_def using withinD [OF w3 assms(3) n(1)] D assms n by (intro within_upd) auto
  then have "within X g h5"
    unfolding h5_def using withinD [OF w4 D(2) n(2)] D n by (intro within_upd) auto
  ultimately show ?thesis
    using D by (blast intro: within_fix_downptr)
qed

lemma within_rotate_right:
  assumes "rotate_right n (h, root) = Some (h', root')" "within X g h" "n \<in> insert NULL X"
  shows "within X g h'"
proof -
  have n: "n \<noteq> NULL" "left (h n) \<noteq> NULL"
    using assms(1) by (auto simp: bind_eq_Some_conv deref_eq_Some Let_def)
  note D = withinD [OF assms(2,3) n(1)]
  note E = withinD [OF assms(2) D(1) n(2)]
  let ?l = "left (h n)"
  define h1 where "h1 = h(n := (h n)\<lparr>left := right (h ?l)\<rparr>)"
  define h2 where "h2 = adopt (right (h ?l)) n h1"
  define h3 where "h3 = h2(?l := (h2 ?l)\<lparr>right := n\<rparr>)"
  define h4 where "h4 = h3(n := (h3 n)\<lparr>parent := ?l\<rparr>)"
  define h5 where "h5 = h4(?l := (h4 ?l)\<lparr>parent := parent (h n)\<rparr>)"
  have "rotate_right n (h, root) = Some (fix_downptr (parent (h n)) n ?l (h5, root))"
    unfolding h5_def h4_def h3_def h2_def h1_def using n by (simp add: Let_def)
  then have "fix_downptr (parent (h n)) n ?l (h5, root) = (h', root')"
    using assms(1) by simp
  moreover have w1: "within X g h1"
    unfolding h1_def using D E assms n by (intro within_upd) auto
  then have w2: "within X g h2"
    unfolding h2_def using E assms by (intro within_adopt)
  then have w3: "within X g h3"
    unfolding h3_def using withinD [OF w2 D(1) n(2)] D assms n by (intro within_upd) auto
  then have w4: "within X g h4"
    unfolding h4_def using withinD [OF w3 assms(3) n(1)] D assms n by (intro within_upd) auto
  then have "within X g h5"
    unfolding h5_def using withinD [OF w4 D(1) n(2)] D n by (intro within_upd) auto
  ultimately show ?thesis
    using D by (blast intro: within_fix_downptr)
qed

declare rotate_left.simps [simp del] rotate_right.simps [simp del]

lemmas within_steps = within_flag_ops within_flags within_rotate_left within_rotate_right

lemma within_sibling_turn:
  assumes "sibling_turn n p s (h, root) = Some (s', h', root')" "within X g h" "p \<in> insert NULL X" "s \<in> insert NULL X"
  shows "within X g h' \<and> s' \<in> insert NULL X"
proof (cases "RBT_IS_RED h s")
  case False
  then show ?thesis using assms by (simp add: sibling_turn_def)
next
  case True
  then obtain h1 h2 h3 where h: "MAKE_RED p h = Some h1" "MAKE_BLACK s h1 = Some h2" "MARK_MODIFIED s h2 = Some h3"
    and rot: "rotate_left p (h3, root) = Some (h', root') \<and> s' = right (h' p) \<or>
      rotate_right p (h3, root) = Some (h', root') \<and> s' = left (h' p)"
    using assms(1) by (auto simp: sibling_turn_def bind_eq_Some_conv deref_eq_Some split: if_splits)
  have p0: "p \<noteq> NULL"
    using h(1) by (auto simp: reflag_simps split: if_splits)
  have "within X g h3"
    using h assms by (blast intro: within_steps)
  then have w: "within X g h'"
    using rot assms(3) by (blast intro: within_steps)
  with rot withinD [OF w assms(3) p0] show ?thesis by auto
qed

lemma within_nephew_turn:
  assumes "nephew_turn n p s (h, root) = Some (s', h', root')" "within X g h" "p \<in> insert NULL X" "s \<in> insert NULL X"
  shows "within X g h' \<and> s' \<in> insert NULL X"
proof -
  have s0: "s \<noteq> NULL"
    using assms(1) by (auto simp: nephew_turn_def bind_eq_Some_conv deref_eq_Some)
  note D = withinD [OF assms(2,4) s0]
  have turn: ?thesis if "c = left (h s) \<or> c = right (h s)" and h: "MAKE_RED s h = Some h1" "MAKE_BLACK c h1 = Some h2"
      "MARK_MODIFIED s h2 = Some h3" "MARK_MODIFIED c h3 = Some h4"
      and rot: "rotate_right s (h4, root) = Some (h', root') \<or> rotate_left s (h4, root) = Some (h', root')"
      and s': "s' = parent (h' s)" for c h1 h2 h3 h4
  proof -
    have c: "c \<in> insert NULL X"
      using that(1) D by auto
    have "within X g h4"
      using h c assms(2,4) by (blast intro: within_steps)
    then have w: "within X g h'"
      using rot assms(4) by (blast intro: within_steps)
    with s' withinD [OF w assms(4) s0] show ?thesis by auto
  qed
  consider "n = left (h p) \<and> RBT_IS_BLACK h (right (h s))"
    | "\<not> (n = left (h p) \<and> RBT_IS_BLACK h (right (h s)))" "n = right (h p) \<and> RBT_IS_BLACK h (left (h s))"
    | "\<not> (n = left (h p) \<and> RBT_IS_BLACK h (right (h s)))" "\<not> (n = right (h p) \<and> RBT_IS_BLACK h (left (h s)))"
    by blast
  then show ?thesis
  proof cases
    case 1
    then obtain h1 h2 h3 h4 where "MAKE_RED s h = Some h1" "MAKE_BLACK (left (h s)) h1 = Some h2" "MARK_MODIFIED s h2 = Some h3"
        "MARK_MODIFIED (left (h s)) h3 = Some h4" "rotate_right s (h4, root) = Some (h', root')" "s' = parent (h' s)"
      using assms(1) unfolding nephew_turn_def by (simp add: bind_eq_Some_conv deref_eq_Some) blast
    then show ?thesis by (intro turn [of "left (h s)" h1 h2 h3 h4]) simp_all
  next
    case 2
    then obtain h1 h2 h3 h4 where "MAKE_RED s h = Some h1" "MAKE_BLACK (right (h s)) h1 = Some h2" "MARK_MODIFIED s h2 = Some h3"
        "MARK_MODIFIED (right (h s)) h3 = Some h4" "rotate_left s (h4, root) = Some (h', root')" "s' = parent (h' s)"
      using assms(1) unfolding nephew_turn_def by (auto simp: bind_eq_Some_conv deref_eq_Some split: if_splits)
    then show ?thesis by (intro turn [of "right (h s)" h1 h2 h3 h4]) simp_all
  next
    case 3
    then show ?thesis
      using assms by (auto simp: nephew_turn_def bind_eq_Some_conv deref_eq_Some split: if_splits)
  qed
qed

lemma within_remove_finish:
  assumes "remove_finish n p s (h, root) = Some (h', root')" "within X g h" "p \<in> insert NULL X" "s \<in> insert NULL X"
  shows "within X g h'"
proof -
  obtain h1 h2 h3 c where h: "upd s (flags_update (\<lambda>_. flags (h p) OR RBT_FLAG_MODIFIED)) h = Some h1" "MAKE_BLACK p h1 = Some h2"
      "MAKE_BLACK c h2 = Some h3" "c = left (h2 s) \<or> c = right (h2 s)" "s \<noteq> NULL"
      "rotate_right p (h3, root) = Some (h', root') \<or> rotate_left p (h3, root) = Some (h', root')"
    using assms(1) by (auto simp: remove_finish_def bind_eq_Some_conv deref_eq_Some split: if_splits)
  have w2: "within X g h2"
    using h(1,2) assms(2-4) by (blast intro: within_steps)
  have "c \<in> insert NULL X"
    using h(4) withinD [OF w2 assms(4) h(5)] by auto
  then have "within X g h3"
    using h(3) w2 by (blast intro: within_steps)
  then show ?thesis
    using h(6) assms(3) by (blast intro: within_steps)
qed

lemma within_remove_loop:
  assumes "remove_loop n p t = Some y"
  shows "within X g (fst t) \<longrightarrow> p \<in> insert NULL X \<longrightarrow>
    (case y of (fin, n', p', s', t') \<Rightarrow> within X g (fst t') \<and> p' \<in> insert NULL X \<and> s' \<in> insert NULL X)"
proof (rule remove_loop.raw_induct [OF _ assms], intro impI)
  fix loop :: "addr \<Rightarrow> addr \<Rightarrow> rbt \<Rightarrow> (bool \<times> addr \<times> addr \<times> addr \<times> rbt) option" and n p t y
  assume IH: "\<And>n p t y. loop n p t = Some y \<Longrightarrow> within X g (fst t) \<longrightarrow> p \<in> insert NULL X \<longrightarrow>
      (case y of (fin, n', p', s', t') \<Rightarrow> within X g (fst t') \<and> p' \<in> insert NULL X \<and> s' \<in> insert NULL X)"
    and body: "(if p = NULL then Some (True, n, p, NULL, t)
      else do {
        x \<leftarrow> deref (fst t) p;
        (s, t) \<leftarrow> sibling_turn n p (if left x = n then right x else left x) t;
        y \<leftarrow> deref (fst t) s;
        if RBT_IS_BLACK (fst t) p \<and> RBT_IS_BLACK (fst t) (left y) \<and> RBT_IS_BLACK (fst t) (right y) then do {
          h \<leftarrow> MAKE_RED s (fst t);
          x \<leftarrow> deref h p;
          loop p (parent x) (h, snd t)
        } else Some (False, n, p, s, t)
      }) = Some y"
    and w: "within X g (fst t)" and p: "p \<in> insert NULL X"
  show "case y of (fin, n', p', s', t') \<Rightarrow> within X g (fst t') \<and> p' \<in> insert NULL X \<and> s' \<in> insert NULL X"
  proof (cases "p = NULL")
    case True
    with body w show ?thesis by auto
  next
    case False
    define s where "s = (if left (fst t p) = n then right (fst t p) else left (fst t p))"
    obtain s1 t1 where st: "sibling_turn n p s t = Some (s1, t1)"
      using body False by (cases "sibling_turn n p s t") (simp add: s_def deref_def, metis surj_pair)
    have rest: "(if RBT_IS_BLACK (fst t1) p \<and> RBT_IS_BLACK (fst t1) (left (fst t1 s1)) \<and> RBT_IS_BLACK (fst t1) (right (fst t1 s1))
        then do { h \<leftarrow> MAKE_RED s1 (fst t1); x \<leftarrow> deref h p; loop p (parent x) (h, snd t1) }
        else Some (False, n, p, s1, t1)) = Some y"
      using body False st by (cases "s1 = NULL") (simp_all add: s_def [symmetric] deref_def split del: if_split)
    have "s \<in> insert NULL X"
      using withinD [OF w p False] by (simp add: s_def)
    then have w1: "within X g (fst t1)" "s1 \<in> insert NULL X"
      using within_sibling_turn [of n p s "fst t" "snd t" s1 "fst t1" "snd t1" X g] st w p by simp_all
    show ?thesis
    proof (cases "RBT_IS_BLACK (fst t1) p \<and> RBT_IS_BLACK (fst t1) (left (fst t1 s1)) \<and> RBT_IS_BLACK (fst t1) (right (fst t1 s1))")
      case True
      then obtain h2 where h2: "MAKE_RED s1 (fst t1) = Some h2" "loop p (parent (h2 p)) (h2, snd t1) = Some y"
        using rest False by (cases "MAKE_RED s1 (fst t1)") (simp_all add: deref_def)
      have w2: "within X g h2"
        using h2(1) w1 by (rule within_flag_ops)
      have "parent (h2 p) \<in> insert NULL X"
        using withinD(3) [OF w2 p] False by simp
      with IH [OF h2(2)] w2 show ?thesis by auto
    next
      case other: False
      then have "y = (False, n, p, s1, t1)"
        using rest by auto
      with w1 p show ?thesis by simp
    qed
  qed
qed

lemma within_repair:
  assumes "repair_after_remove n t = Some t'" "within X g (fst t)" "parent (fst t n) \<in> insert NULL X"
  shows "within X g (fst t')"
proof -
  obtain fin n1 p s t1 where l: "remove_loop NULL (parent (fst t n)) t = Some (fin, n1, p, s, t1)"
    and rest: "(if fin then Some t1
     else do {
       y \<leftarrow> deref (fst t1) s;
       if RBT_IS_RED (fst t1) p \<and> RBT_IS_BLACK (fst t1) (left y) \<and> RBT_IS_BLACK (fst t1) (right y) then do {
         h \<leftarrow> MAKE_RED s (fst t1);
         h \<leftarrow> MAKE_BLACK p h;
         Some (h, snd t1)
       } else do {
         (s, t) \<leftarrow> nephew_turn n1 p s t1;
         remove_finish n1 p s t
       }
     }) = Some t'"
    using assms(1) unfolding repair_after_remove_def by (force simp: bind_eq_Some_conv deref_eq_Some)
  have w: "within X g (fst t1)" "p \<in> insert NULL X" "s \<in> insert NULL X"
    using within_remove_loop [OF l, of X g] assms(2,3) by auto
  show ?thesis
  proof (cases fin)
    case True
    with rest w show ?thesis by simp
  next
    case False
    show ?thesis
    proof (cases "RBT_IS_RED (fst t1) p \<and> RBT_IS_BLACK (fst t1) (left (fst t1 s)) \<and> RBT_IS_BLACK (fst t1) (right (fst t1 s))")
      case True
      then obtain h2 h3 where "MAKE_RED s (fst t1) = Some h2" "MAKE_BLACK p h2 = Some h3" "t' = (h3, snd t1)"
        using rest False by (auto simp: bind_eq_Some_conv deref_eq_Some)
      with w show ?thesis by (auto intro: within_steps)
    next
      case other: False
      then obtain s2 t2 where t2: "nephew_turn n1 p s t1 = Some (s2, t2)" "remove_finish n1 p s2 t2 = Some t'"
        using rest False by (auto simp: bind_eq_Some_conv deref_eq_Some)
      have "within X g (fst t2)" "s2 \<in> insert NULL X"
        using within_nephew_turn [of n1 p s "fst t1" "snd t1" s2 "fst t2" "snd t2" X g] t2(1) w by simp_all
      then show ?thesis
        using within_remove_finish [of n1 p s2 "fst t2" "snd t2" "fst t'" "snd t'" X g] t2(2) w(2) by simp
    qed
  qed
qed

lemma focus_within:
  assumes "focus (h, root) C s"
  shows "within (set (lefts C) \<union> set (nodes s) \<union> set (rights C)) h h" "parent_of C \<in> insert NULL (set (lefts C) \<union> set (rights C))"
proof -
  have par: "parent_of C \<in> insert NULL (set (lefts C) \<union> set (rights C))" for C
    by (cases C rule: parent_of.cases) auto
  have rt: "root_of s \<in> insert NULL (set (nodes s))" for s
    by (cases s) auto
  show "parent_of C \<in> insert NULL (set (lefts C) \<union> set (rights C))"
    by (rule par)
  show "within (set (lefts C) \<union> set (nodes s) \<union> set (rights C)) h h"
    unfolding within_def
  proof (intro conjI ballI allI impI)
    fix a assume "a \<in> set (lefts C) \<union> set (nodes s) \<union> set (rights C)"
    then obtain D l f r where pl: "plug C s = plug D (Bin l a f r)"
      using split_node [of a "plug C s"] by auto
    then have fo: "focus (h, root) D (Bin l a f r)"
      using assms by (metis focus_plug)
    have eq: "set (lefts C) \<union> set (nodes s) \<union> set (rights C) = set (lefts D) \<union> set (nodes l @ a # nodes r) \<union> set (rights D)"
      using arg_cong [OF pl, of "\<lambda>t. set (nodes t)"] by auto
    show "left (h a) \<in> insert NULL (set (lefts C) \<union> set (nodes s) \<union> set (rights C))"
      "right (h a) \<in> insert NULL (set (lefts C) \<union> set (nodes s) \<union> set (rights C))"
      "parent (h a) \<in> insert NULL (set (lefts C) \<union> set (nodes s) \<union> set (rights C))"
      unfolding eq using fo rt [of l] rt [of r] par [of D] by (auto simp: focus_Bin)
  qed simp
qed

text \<open>A removed node keeps its pointers, and they lead into the tree.\<close>

definition stale :: "rbt \<Rightarrow> addr \<Rightarrow> addr list \<Rightarrow> bool" where
  "stale t n ns \<longleftrightarrow> left (fst t n) \<in> insert NULL (set ns) \<and> parent (fst t n) \<in> insert NULL (set ns)"

section \<open>Removal\<close>

lemma cut_out:
  assumes fo: "focus (h, root) C (Bin l n f r)" and c: "c = l \<and> r = Tip \<or> c = r \<and> l = Tip"
  obtains h' root' where "fix_downptr (parent_of C) n (root_of c) (h, root) = (h', root')"
    "focus (adopt (root_of c) (parent_of C) h', root') C c" "h' n = h n"
proof -
  note F = fo [unfolded focus_Bin distinct_focus]
  have pre: "ctx_at h root n C" "n \<noteq> NULL" "n \<notin> set (lefts C) \<union> set (rights C)" "distinct (lefts C @ rights C)"
    using F by auto
  obtain h' root' where h': "fix_downptr (parent_of C) n (root_of c) (h, root) = (h', root')"
      "ctx_at h' root' (root_of c) C" "\<And>a. a \<notin> set (lefts C) \<union> set (rights C) \<Longrightarrow> h' a = h a"
    using fix_downptr_ctx [OF pre, of "root_of c"] by metis
  have dj: "set (nodes c) \<inter> set (lefts C) = {}" "set (nodes c) \<inter> set (rights C) = {}" "distinct (nodes c)" "tree_at h n c"
    using F c by auto
  then have "tree_at h' n c = tree_at h n c"
    by (intro tree_at_cong h'(3)) auto
  then have "focus (adopt (root_of c) (parent_of C) h', root') C c"
    using h'(2) dj pre(4) by (auto simp: focus_def intro: adopt_tree)
  with that h' pre show ?thesis by blast
qed

lemma no_grandchildren:
  assumes "rbt_ok (plug C (Bin l n f r))" "c = l \<and> r = Tip \<or> c = r \<and> l = Tip" "c = Bin cl a fc cr"
  shows "cl = Tip" "cr = Tip" "red fc" "\<not> red f" "bheight (Bin l n f r) = 1"
proof -
  have B: "invh (Bin l n f r)" "invc (Bin l n f r)"
    using assms(1) by (simp_all add: rbt_ok_plug)
  have "bheight t = 0 \<Longrightarrow> \<not> rootred t \<Longrightarrow> t = Tip" for t
    by (cases t) (auto split: if_splits)
  with B assms(2,3) show "cl = Tip" "cr = Tip" "red fc" "\<not> red f" "bheight (Bin l n f r) = 1"
    by (auto split: if_splits)
qed

declare swap_with_successor.simps [simp del]

lemma ctx_append [simp]: "lefts (C @ D) = lefts D @ lefts C" "rights (C @ D) = rights C @ rights D"
proof -
  show "lefts (C @ D) = lefts D @ lefts C" by (induction C rule: lefts.induct) auto
  show "rights (C @ D) = rights C @ rights D" by (induction C rule: rights.induct) auto
qed

text \<open>Two subtrees that the invariant cannot tell apart.\<close>

definition alike :: "rtree \<Rightarrow> rtree \<Rightarrow> bool" where
  "alike s s' \<longleftrightarrow> bheight s = bheight s' \<and> invh s = invh s' \<and> invc s = invc s' \<and> rootred s = rootred s'"

lemma alike_plug: "alike s s' \<Longrightarrow> alike (plug C s) (plug C s')"
proof (induction C arbitrary: s s')
  case (Cons F C)
  have "alike (plug1 F s) (plug1 F s')"
    using Cons.prems by (cases F) (auto simp: alike_def)
  then show ?case
    using Cons.IH by simp
qed simp

lemma remove_core:
  assumes fo: "focus (h, root) C (Bin l n f r)" and c: "c = l \<and> r = Tip \<or> c = r \<and> l = Tip"
    and ok: "rbt_ok (plug C (Bin l n f r))" and S: "\<forall>F \<in> set C. summarised S (frame_sib F)" "summarised S c"
  shows "\<exists>t'. do {
     h \<leftarrow> rbt_mark_modified n h;
     x \<leftarrow> deref h n;
     let s = (if left x \<noteq> NULL then left x else right x);
     let (h, root) = fix_downptr (parent x) n s (h, root);
     if s \<noteq> NULL then do {
       let h = adopt s (parent x) h;
       h \<leftarrow> MAKE_BLACK s h;
       Some (h, root)
     } else if RBT_IS_RED h n then Some (h, root)
     else repair_after_remove n (h, root)
   } = Some t' \<and> rem_done S t' (lefts C @ nodes c @ rights C) \<and> stale t' n (lefts C @ nodes c @ rights C)"
proof -
  define D where "D = map mark1 C"
  obtain h1 where h1: "rbt_mark_modified n h = Some h1" "focus (h1, root) D (Bin l n (to_modified f) r)"
    unfolding D_def using fo by (rule mark_focus)
  obtain h2 root2 where h2: "fix_downptr (parent_of D) n (root_of c) (h1, root) = (h2, root2)"
    "focus (adopt (root_of c) (parent_of D) h2, root2) D c" "h2 n = h1 n"
    using h1(2) c by (rule cut_out)
  have n: "n \<noteq> NULL" "h1 n = \<lparr>flags = to_modified f, left = root_of l, right = root_of r, parent = parent_of D\<rparr>"
    using h1(2) by (auto simp: focus_Bin)
  have ch: "(if left (h1 n) \<noteq> NULL then left (h1 n) else right (h1 n)) = root_of c" "tree_at h1 n c"
    using n c h1(2) by (auto simp: focus_Bin)
  have ctx: "lefts D = lefts C" "rights D = rights C" "ctx_marked S D" "\<And>k. ctx_ok D k = ctx_ok C k" "topred D = topred C"
      "D = [] \<longleftrightarrow> C = []"
    using S by (simp_all add: D_def)
  have st: "stale (h', root') n (lefts C @ nodes c @ rights C)" if "h' n = h1 n" for h' root'
  proof -
    have "root_of l \<in> insert NULL (set (nodes c))"
      using c by (cases l) auto
    then show ?thesis
      using that n focus_within(2) [OF h1(2)] ctx by (auto simp: stale_def)
  qed
  show ?thesis
  proof (cases c)
    case Tip
    have lr: "l = Tip" "r = Tip"
      using c Tip by auto
    have fo2: "focus (h2, root2) D Tip"
      using h2(2) Tip by (simp add: adopt_def)
    show ?thesis
    proof (cases "red f")
      case True
      then have "rbt_ok (plug D Tip)"
        using ok ctx lr by (simp add: rbt_ok_plug)
      then have "rem_done S (h2, root2) (lefts C @ nodes c @ rights C)"
        using ctx Tip by (intro rem_doneI [OF fo2]) simp_all
      with st [of h2, OF h2(3)] show ?thesis
        using h1(1) h2(1,3) n ch(1) True Tip by (simp add: RBT_IS_RED_def)
    next
      case False
      then have "rem_inv S D Tip"
        using ok ctx lr by (simp add: rem_inv_def rbt_ok_plug)
      then obtain t' where t': "repair_after_remove n (h2, root2) = Some t'" "rem_done S t' (lefts C @ rights C)"
        using repair_after_remove_ok [OF fo2 _ n(1), of S] h2(3) n(2) ctx(1,2) by (metis rbt_node.select_convs(4))
      have "fst t' n = h1 n"
        using within_repair [OF t'(1), of "set (lefts D) \<union> set (rights D)" h2] focus_within [OF fo2] h1(2) h2(3) n(2)
        by (auto simp: focus_Bin within_def)
      then have "stale t' n (lefts C @ nodes c @ rights C)"
        using st [of "fst t'" "snd t'"] by simp
      with t' h1(1) h2(1,3) n ch(1) False Tip show ?thesis
        by (simp add: RBT_IS_RED_def)
    qed
  next
    case (Bin cl a fc cr)
    note g = no_grandchildren [OF ok c Bin]
    define h3 where "h3 = adopt a (parent_of D) h2"
    have a: "a \<noteq> NULL"
      using ch(2) Bin by simp
    have "focus (h3(a := flags_update to_black (h3 a)), root2) D (Bin cl a (to_black fc) cr)"
      using focus_reflag [OF h2(2), of a to_black] h2(2) Bin by (simp add: h3_def focus_def)
    then have "rem_done S (h3(a := flags_update to_black (h3 a)), root2) (lefts C @ nodes c @ rights C)"
      using ok g S ctx Bin by (elim rem_doneI) (auto simp: rbt_ok_plug)
    moreover have "n \<notin> set (nodes c)"
      using h1(2) c by (auto simp: focus_Bin)
    then have "(h3(a := flags_update to_black (h3 a))) n = h1 n"
      using Bin h2(3) by (auto simp: h3_def adopt_def)
    note st [of "h3(a := flags_update to_black (h3 a))" root2, OF this]
    ultimately show ?thesis
      using h1(1) h2(1) n ch(1) a Bin by (simp add: h3_def reflag_simps)
  qed
qed

lemma remove_tree:
  assumes rep: "rbt_rep t s" "rbt_ok s" and n: "n \<in> set (nodes s)" and S: "summarised S s"
  shows "\<exists>t' s'. rbt_remove n t = Some t' \<and> rbt_rep t' s' \<and> rbt_ok s' \<and> nodes s' = remove1 n (nodes s) \<and> summarised S s' \<and>
    stale t' n (remove1 n (nodes s))"
proof -
  obtain h root where t: "t = (h, root)" by (cases t)
  obtain C l f r where s: "s = plug C (Bin l n f r)"
    using split_node [OF n] by blast
  have fo: "focus (h, root) C (Bin l n f r)" and ok: "rbt_ok (plug C (Bin l n f r))"
    and sm: "summarised S l" "summarised S r" "\<forall>F \<in> set C. summarised S (frame_sib F)"
    using rep S summarised_frames [of S C "Bin l n f r"] by (auto simp: t s focus_plug)
  note F = fo [unfolded focus_Bin distinct_focus]
  have rest: "remove1 n (nodes s) = lefts C @ nodes l @ nodes r @ rights C"
    using F by (simp add: s remove1_append)
  show ?thesis
  proof (cases "l \<noteq> Tip \<and> r \<noteq> Tip")
    case False
    define c where "c = (if l = Tip then r else l)"
    have c: "c = l \<and> r = Tip \<or> c = r \<and> l = Tip" "summarised S c" "nodes c = nodes l @ nodes r"
      using False sm by (auto simp: c_def)
    from remove_core [OF fo c(1) ok sm(3) c(2)] rest c(3) F False t show ?thesis
      unfolding rbt_remove_def rem_done_def by (auto simp: Let_def)
  next
    case True
    then obtain Ls s1 g rr where r: "r = plug Ls (Bin Tip s1 g rr)" and sp: "spine Ls"
      using spine_exists by blast
    define E where "E = Ls @ Rt l s1 f # C"
    have "\<exists>t1. swap_with_successor n (h, root) = Some t1 \<and> focus t1 C (Bin l s1 f (plug Ls (Bin Tip n g rr)))"
      using swap_with_successor_ok fo sp True unfolding r by blast
    then obtain h1 root1 where sw: "swap_with_successor n (h, root) = Some (h1, root1)" "focus (h1, root1) E (Bin Tip n g rr)"
      by (auto simp: E_def focus_plugs [symmetric] focus_up(2))
    have "plug E (Bin Tip n g rr) = plug C (Bin l s1 f (plug Ls (Bin Tip n g rr)))"
      by (simp add: E_def)
    moreover have "alike (plug Ls (Bin Tip n g rr)) r"
      unfolding r by (rule alike_plug) (simp add: alike_def)
    ultimately have ok': "rbt_ok (plug E (Bin Tip n g rr))"
      using ok by (simp add: rbt_ok_plug alike_def)
    have sm': "summarised S rr" "\<forall>F \<in> set E. summarised S (frame_sib F)"
      using sm summarised_frames [of S Ls "Bin Tip s1 g rr"] by (auto simp: E_def r)
    have "lefts E @ nodes rr @ rights E = remove1 n (nodes s)"
      using rest sp by (simp add: E_def r)
    with remove_core [OF sw(2), of rr S] ok' sm' sw(1) F True t show ?thesis
      unfolding rbt_remove_def rem_done_def by (auto simp: Let_def)
  qed
qed

text \<open>
  C3: \<open>rbt_remove\<close> terminates without following a null pointer and takes exactly the given node out
  of the tree: the other nodes keep their order, the tree is a red-black tree with right parent
  pointers, and every node whose subtree changed is marked as modified.
\<close>

theorem rbt_remove_correct:
  assumes rep: "rbt_rep t s" "rbt_ok s" and n: "n \<in> set (nodes s)" and S: "summarised S s"
  shows "\<exists>t' s'. rbt_remove n t = Some t' \<and> rbt_rep t' s' \<and> rbt_ok s' \<and> nodes s' = remove1 n (nodes s) \<and> summarised S s'"
  using remove_tree [OF assms] by blast

section \<open>A tree of three nodes\<close>

definition three_heap :: rbt_heap where
  "three_heap = (\<lambda>_. \<lparr>flags = 0, left = 0, right = 0, parent = 0\<rparr>)
     (2 := \<lparr>flags = 0, left = 1, right = 3, parent = 0\<rparr>,
      1 := \<lparr>flags = 1, left = 0, right = 0, parent = 2\<rparr>,
      3 := \<lparr>flags = 1, left = 0, right = 0, parent = 2\<rparr>)"

definition three_tree :: rtree where
  "three_tree = Bin (Bin Tip 1 1 Tip) 2 0 (Bin Tip 3 1 Tip)"

definition three_sums :: "addr \<Rightarrow> addr list" where
  "three_sums a = (if a = 2 then [1, 2, 3] else [a])"

definition nat_cmp :: "nat \<Rightarrow> addr \<Rightarrow> int" where
  "nat_cmp k a = int k - int a"

lemma nat_cmp_compares: "compares nat_cmp (\<lambda>a. a)"
  by (auto simp: compares_def nat_cmp_def)

lemma three_ok: "rbt_rep (three_heap, 2) three_tree" "rbt_ok three_tree" "nodes three_tree = [1, 2, 3]"
    "summarised three_sums three_tree"
  by (simp_all add: rbt_rep_def focus_def three_heap_def three_tree_def rbt_ok_def flag_bits three_sums_def)

theorem rbt_find_correct_witness: "rbt_find nat_cmp 3 (three_heap, 2) = Some 3 \<and> rbt_find nat_cmp 7 (three_heap, 2) = Some 0"
  using rbt_find_correct [OF nat_cmp_compares three_ok(1), of 3] rbt_find_correct [OF nat_cmp_compares three_ok(1), of 7]
  by (simp add: three_ok(3) node_with_def)

theorem rbt_insert_correct_witness:
  "\<exists>t' s'. rbt_insert nat_cmp 4 4 (three_heap, 2) = Some (0, t') \<and> rbt_rep t' s' \<and> rbt_ok s' \<and> nodes s' = [1, 2, 3, 4]"
  using rbt_insert_correct [OF nat_cmp_compares three_ok(1,2) _ _ _ three_ok(4), of 4] by (auto simp: three_ok(3) node_with_def)

theorem rbt_remove_correct_witness:
  "\<exists>t' s'. rbt_remove 2 (three_heap, 2) = Some t' \<and> rbt_rep t' s' \<and> rbt_ok s' \<and> nodes s' = [1, 3]"
  using rbt_remove_correct [OF three_ok(1,2) _ three_ok(4), of 2] by (auto simp: three_ok(3))

end
