(* ===== verification/Dlb_Rbt_Iter.thy ===== *)
theory Dlb_Rbt_Iter
  imports Dlb_Rbt_Remove
begin

text \<open>
  Walking through red-black trees (\<^verbatim>\<open>src/src/rbt_iter.c\<close>), searching for the neighbours of a key, and
  range queries (\<^verbatim>\<open>src/src/rbt_range.c\<close>). All of them are described by the sequence of the nodes of
  the tree in order.
\<close>

section \<open>Iterators\<close>

partial_function (option) rightmost :: "rbt_heap \<Rightarrow> addr \<Rightarrow> addr option" where
  "rightmost h s = do {
     y \<leftarrow> deref h s;
     if right y \<noteq> NULL then rightmost h (right y) else Some s
   }"

declare rightmost.simps [code]

partial_function (option) climb_next :: "rbt_heap \<Rightarrow> addr \<Rightarrow> addr option" where
  "climb_next h n = do {
     x \<leftarrow> deref h n;
     if parent x \<noteq> NULL \<and> right (h (parent x)) = n then climb_next h (parent x) else Some (parent x)
   }"

declare climb_next.simps [code]

partial_function (option) climb_prev :: "rbt_heap \<Rightarrow> addr \<Rightarrow> addr option" where
  "climb_prev h n = do {
     x \<leftarrow> deref h n;
     if parent x \<noteq> NULL \<and> left (h (parent x)) = n then climb_prev h (parent x) else Some (parent x)
   }"

declare climb_prev.simps [code]

definition rbt_iter_next :: "rbt_heap \<Rightarrow> addr \<Rightarrow> addr option" where
  "rbt_iter_next h n = do {
     x \<leftarrow> deref h n;
     if right x \<noteq> NULL then leftmost h (right x) else climb_next h n
   }"

definition rbt_iter_prev :: "rbt_heap \<Rightarrow> addr \<Rightarrow> addr option" where
  "rbt_iter_prev h n = do {
     x \<leftarrow> deref h n;
     if left x \<noteq> NULL then rightmost h (left x) else climb_prev h n
   }"

definition rbt_iter_first :: "rbt \<Rightarrow> addr option" where
  "rbt_iter_first t = (if snd t = NULL then Some NULL else leftmost (fst t) (snd t))"

definition rbt_iter_last :: "rbt \<Rightarrow> addr option" where
  "rbt_iter_last t = (if snd t = NULL then Some NULL else rightmost (fst t) (snd t))"

partial_function (option) le_loop :: "('k \<Rightarrow> addr \<Rightarrow> int) \<Rightarrow> 'k \<Rightarrow> rbt_heap \<Rightarrow> addr \<Rightarrow> addr \<Rightarrow> addr option" where
  "le_loop cmp key h n m =
     (if n = NULL then Some m
      else let r = cmp key n in
        if r = 0 then Some n
        else if r < 0 then le_loop cmp key h (left (h n)) m
        else le_loop cmp key h (right (h n)) n)"

partial_function (option) ge_loop :: "('k \<Rightarrow> addr \<Rightarrow> int) \<Rightarrow> 'k \<Rightarrow> rbt_heap \<Rightarrow> addr \<Rightarrow> addr \<Rightarrow> addr option" where
  "ge_loop cmp key h n m =
     (if n = NULL then Some m
      else let r = cmp key n in
        if r = 0 then Some n
        else if r < 0 then ge_loop cmp key h (left (h n)) n
        else ge_loop cmp key h (right (h n)) m)"

partial_function (option) lt_loop :: "('k \<Rightarrow> addr \<Rightarrow> int) \<Rightarrow> 'k \<Rightarrow> rbt_heap \<Rightarrow> addr \<Rightarrow> addr \<Rightarrow> addr option" where
  "lt_loop cmp key h n m =
     (if n = NULL then Some m
      else let r = cmp key n in
        if r \<le> 0 then lt_loop cmp key h (left (h n)) m
        else lt_loop cmp key h (right (h n)) n)"

partial_function (option) gt_loop :: "('k \<Rightarrow> addr \<Rightarrow> int) \<Rightarrow> 'k \<Rightarrow> rbt_heap \<Rightarrow> addr \<Rightarrow> addr \<Rightarrow> addr option" where
  "gt_loop cmp key h n m =
     (if n = NULL then Some m
      else let r = cmp key n in
        if r < 0 then gt_loop cmp key h (left (h n)) n
        else gt_loop cmp key h (right (h n)) m)"

declare le_loop.simps [code] ge_loop.simps [code] lt_loop.simps [code] gt_loop.simps [code]

definition rbt_iter_le :: "('k \<Rightarrow> addr \<Rightarrow> int) \<Rightarrow> 'k \<Rightarrow> rbt \<Rightarrow> addr option" where
  "rbt_iter_le cmp key t = le_loop cmp key (fst t) (snd t) NULL"

definition rbt_iter_ge :: "('k \<Rightarrow> addr \<Rightarrow> int) \<Rightarrow> 'k \<Rightarrow> rbt \<Rightarrow> addr option" where
  "rbt_iter_ge cmp key t = ge_loop cmp key (fst t) (snd t) NULL"

definition rbt_iter_lt :: "('k \<Rightarrow> addr \<Rightarrow> int) \<Rightarrow> 'k \<Rightarrow> rbt \<Rightarrow> addr option" where
  "rbt_iter_lt cmp key t = lt_loop cmp key (fst t) (snd t) NULL"

definition rbt_iter_gt :: "('k \<Rightarrow> addr \<Rightarrow> int) \<Rightarrow> 'k \<Rightarrow> rbt \<Rightarrow> addr option" where
  "rbt_iter_gt cmp key t = gt_loop cmp key (fst t) (snd t) NULL"

section \<open>Range queries\<close>

text \<open>
  The callbacks are recorded in the order in which they are made. \<open>cmp\<close> tells whether a node lies
  before (negative), inside (zero) or after (positive) the range.
\<close>

datatype rbt_range_addtype = RBT_RANGE_ADD_NODE | RBT_RANGE_ADD_TREE

type_synonym calls = "(addr \<times> rbt_range_addtype) list"

definition add_tree :: "addr \<Rightarrow> calls" where
  "add_tree n = (if n \<noteq> NULL then [(n, RBT_RANGE_ADD_TREE)] else [])"

partial_function (option) query_low :: "(addr \<Rightarrow> int) \<Rightarrow> rbt_heap \<Rightarrow> addr \<Rightarrow> calls option" where
  "query_low cmp h n =
     (if n = NULL then Some []
      else if cmp n < 0 then query_low cmp h (right (h n))
      else do {
        xs \<leftarrow> query_low cmp h (left (h n));
        Some (xs @ (n, RBT_RANGE_ADD_NODE) # add_tree (right (h n)))
      })"

partial_function (option) query_high :: "(addr \<Rightarrow> int) \<Rightarrow> rbt_heap \<Rightarrow> addr \<Rightarrow> calls option" where
  "query_high cmp h n =
     (if n = NULL then Some []
      else if 0 < cmp n then query_high cmp h (left (h n))
      else do {
        xs \<leftarrow> query_high cmp h (right (h n));
        Some (add_tree (left (h n)) @ (n, RBT_RANGE_ADD_NODE) # xs)
      })"

partial_function (option) query_over :: "(addr \<Rightarrow> int) \<Rightarrow> rbt_heap \<Rightarrow> addr \<Rightarrow> calls option" where
  "query_over cmp h n =
     (if n = NULL then Some []
      else if cmp n < 0 then query_over cmp h (right (h n))
      else if 0 < cmp n then query_over cmp h (left (h n))
      else do {
        xs \<leftarrow> query_low cmp h (left (h n));
        ys \<leftarrow> query_high cmp h (right (h n));
        Some (xs @ (n, RBT_RANGE_ADD_NODE) # ys)
      })"

declare query_low.simps [code] query_high.simps [code] query_over.simps [code]

definition rbt_range_query :: "(addr \<Rightarrow> int) \<Rightarrow> rbt \<Rightarrow> calls option" where
  "rbt_range_query cmp t = query_over cmp (fst t) (snd t)"

section \<open>First, last, next and previous\<close>

definition first_of :: "addr list \<Rightarrow> addr" where
  "first_of xs = (case xs of [] \<Rightarrow> NULL | x # _ \<Rightarrow> x)"

definition last_of :: "addr list \<Rightarrow> addr" where
  "last_of xs = (if xs = [] then NULL else last xs)"

lemma first_of_append [simp]: "first_of (xs @ ys) = (if xs = [] then first_of ys else first_of xs)"
  by (cases xs) (simp_all add: first_of_def)

lemma last_of_append [simp]: "last_of (xs @ ys) = (if ys = [] then last_of xs else last_of ys)"
  by (simp add: last_of_def)

lemma first_of_simps [simp]: "first_of [] = NULL" "first_of (x # xs) = x" "last_of [] = NULL" "last_of (xs @ [x]) = x" "last_of [x] = x"
  by (simp_all add: first_of_def last_of_def)

lemma last_of_Cons [simp]: "last_of (x # xs) = (if xs = [] then x else last_of xs)"
  by (simp add: last_of_def)

lemma nodes_Nil [simp]: "nodes t = [] \<longleftrightarrow> t = Tip"
  by (cases t) auto

lemma leftmost_first: "tree_at h q t \<Longrightarrow> t \<noteq> Tip \<Longrightarrow> leftmost h (root_of t) = Some (first_of (nodes t))"
proof (induction t arbitrary: q)
  case (Bin l a f r)
  then show ?case
    by (cases "l = Tip"; subst leftmost.simps; auto)
qed simp

lemma rightmost_last: "tree_at h q t \<Longrightarrow> t \<noteq> Tip \<Longrightarrow> rightmost h (root_of t) = Some (last_of (nodes t))"
proof (induction t arbitrary: q)
  case (Bin l a f r)
  then show ?case
    by (cases "r = Tip"; subst rightmost.simps; auto)
qed simp

lemma climb_next_focus: "focus (h, root) C (Bin l n f r) \<Longrightarrow> climb_next h n = Some (first_of (rights C))"
proof (induction C arbitrary: l n f r)
  case Nil
  then show ?case
    by (subst climb_next.simps) (simp add: focus_Bin)
next
  case (Cons F C)
  show ?case
  proof (cases F)
    case (Lf a g t)
    with Cons.prems show ?thesis
      by (subst climb_next.simps) (simp add: focus_Bin)
  next
    case (Rt t a g)
    have "climb_next h n = climb_next h a"
      using Cons.prems Rt by (subst climb_next.simps) (simp add: focus_Bin)
    with Cons.IH [of t a g "Bin l n f r"] Cons.prems Rt show ?thesis
      by (simp add: focus_up)
  qed
qed

lemma climb_prev_focus: "focus (h, root) C (Bin l n f r) \<Longrightarrow> climb_prev h n = Some (last_of (lefts C))"
proof (induction C arbitrary: l n f r)
  case Nil
  then show ?case
    by (subst climb_prev.simps) (simp add: focus_Bin)
next
  case (Cons F C)
  show ?case
  proof (cases F)
    case (Rt t a g)
    with Cons.prems show ?thesis
      by (subst climb_prev.simps) (simp add: focus_Bin)
  next
    case (Lf a g t)
    have "climb_prev h n = climb_prev h a"
      using Cons.prems Lf by (subst climb_prev.simps) (simp add: focus_Bin)
    with Cons.IH [of "Bin l n f r" a g t] Cons.prems Lf show ?thesis
      by (simp add: focus_up)
  qed
qed

lemma rep_node:
  assumes rep: "rbt_rep (h, root) s" and ns: "nodes s = xs @ n # ys"
  obtains C l f r where "focus (h, root) C (Bin l n f r)" "xs = lefts C @ nodes l" "ys = nodes r @ rights C"
proof -
  obtain C l f r where s: "s = plug C (Bin l n f r)"
    using split_node [of n s] ns by auto
  have fo: "focus (h, root) C (Bin l n f r)"
    using rep s by (simp add: focus_plug)
  have eq: "(lefts C @ nodes l) @ n # (nodes r @ rights C) = xs @ n # ys"
    using ns s by simp
  have "n \<notin> set (lefts C @ nodes l)" "n \<notin> set (nodes r @ rights C)"
    using fo by (auto simp: focus_Bin)
  with eq have "lefts C @ nodes l = xs \<and> nodes r @ rights C = ys"
    by (subst (asm) append_Cons_eq_iff) auto
  with fo that show ?thesis by blast
qed

lemma rbt_iter_next_eq:
  assumes "rbt_rep (h, root) s" "nodes s = xs @ n # ys"
  shows "rbt_iter_next h n = Some (first_of ys)" "rbt_iter_prev h n = Some (last_of xs)"
proof -
  obtain C l f r where fo: "focus (h, root) C (Bin l n f r)" and eq: "xs = lefts C @ nodes l" "ys = nodes r @ rights C"
    using assms by (rule rep_node)
  note F = fo [unfolded focus_Bin]
  show "rbt_iter_next h n = Some (first_of ys)"
    using F leftmost_first [of h n r] climb_next_focus [OF fo] by (cases "r = Tip") (auto simp: rbt_iter_next_def eq)
  show "rbt_iter_prev h n = Some (last_of xs)"
    using F rightmost_last [of h n l] climb_prev_focus [OF fo] by (cases "l = Tip") (auto simp: rbt_iter_prev_def eq)
qed

lemma rbt_iter_first_eq: "rbt_rep t s \<Longrightarrow> rbt_iter_first t = Some (first_of (nodes s))"
    "rbt_rep t s \<Longrightarrow> rbt_iter_last t = Some (last_of (nodes s))"
  using leftmost_first [of "fst t" _ s] rightmost_last [of "fst t" _ s]
  by (cases "s = Tip"; auto simp: rbt_rep_def focus_def rbt_iter_first_def rbt_iter_last_def)+

text \<open>The sequence of nodes that a loop over \<open>rbt_iter_next\<close> (or \<open>rbt_iter_prev\<close>) visits.\<close>

fun walk :: "nat \<Rightarrow> (addr \<Rightarrow> addr option) \<Rightarrow> addr \<Rightarrow> addr list option" where
  "walk fuel step n = (if n = NULL then Some [] else
     case fuel of 0 \<Rightarrow> None | Suc k \<Rightarrow> do { m \<leftarrow> step n; ns \<leftarrow> walk k step m; Some (n # ns) })"

lemma walk_next:
  "rbt_rep (h, root) s \<Longrightarrow> nodes s = xs @ ys \<Longrightarrow> length ys \<le> fuel \<Longrightarrow> walk fuel (rbt_iter_next h) (first_of ys) = Some ys"
proof (induction ys arbitrary: xs fuel)
  case (Cons y ys)
  then obtain k where k: "fuel = Suc k"
    by (cases fuel) auto
  have "y \<noteq> NULL"
    using Cons.prems(1,2) by (rule rep_node) (simp add: focus_Bin)
  with Cons.IH [of "xs @ [y]" k] Cons.prems k rbt_iter_next_eq(1) [OF Cons.prems(1,2)] show ?case
    by simp
qed simp

lemma walk_prev:
  "rbt_rep (h, root) s \<Longrightarrow> nodes s = xs @ ys \<Longrightarrow> length xs \<le> fuel \<Longrightarrow> walk fuel (rbt_iter_prev h) (last_of xs) = Some (rev xs)"
proof (induction xs arbitrary: ys fuel rule: rev_induct)
  case (snoc x xs)
  then obtain k where k: "fuel = Suc k"
    by (cases fuel) auto
  have ns: "nodes s = xs @ x # ys"
    using snoc.prems by simp
  have "x \<noteq> NULL"
    using snoc.prems(1) ns by (rule rep_node) (simp add: focus_Bin)
  with snoc.IH [of "x # ys" k] snoc.prems k rbt_iter_next_eq(2) [OF snoc.prems(1) ns] show ?case
    by simp
qed simp

text \<open>
  C27: starting from \<open>rbt_iter_first\<close>, repeated calls of \<open>rbt_iter_next\<close> visit every node of the tree
  once, in order, and end with \<open>NULL\<close>; from \<open>rbt_iter_last\<close>, \<open>rbt_iter_prev\<close> visits them in reverse.
\<close>

theorem rbt_iter_walks:
  assumes "rbt_rep t s"
  shows "do { n \<leftarrow> rbt_iter_first t; walk (length (nodes s)) (rbt_iter_next (fst t)) n } = Some (nodes s)
    \<and> do { n \<leftarrow> rbt_iter_last t; walk (length (nodes s)) (rbt_iter_prev (fst t)) n } = Some (rev (nodes s))"
  using assms walk_next [of "fst t" "snd t" s "[]" "nodes s"] walk_prev [of "fst t" "snd t" s "nodes s" "[]"]
  by (simp add: rbt_iter_first_eq del: walk.simps)

theorem rbt_iter_walks_witness:
  "do { n \<leftarrow> rbt_iter_first (three_heap, 2); walk 3 (rbt_iter_next three_heap) n } = Some [1, 2, 3]"
  using rbt_iter_walks [OF three_ok(1)] by (simp add: three_ok(3) numeral_3_eq_3 del: walk.simps)

section \<open>Neighbours of a key\<close>

lemma bin_ordered:
  assumes "ordered key (nodes l @ a # nodes r)"
  shows "ordered key (nodes l)" "ordered key (nodes r)" "\<forall>b \<in> set (nodes l). key b < key a"
    "\<forall>b \<in> set (nodes r). key a < key b"
  using assms by (auto simp: sorted_wrt_append)

lemma neighbour_loops:
  assumes cmp: "compares cmp key"
  shows "tree_at h q s \<Longrightarrow> ordered key (nodes s) \<Longrightarrow>
    le_loop cmp k h (root_of s) m = Some (if filter (\<lambda>a. key a \<le> k) (nodes s) = [] then m else last_of (filter (\<lambda>a. key a \<le> k) (nodes s))) \<and>
    lt_loop cmp k h (root_of s) m = Some (if filter (\<lambda>a. key a < k) (nodes s) = [] then m else last_of (filter (\<lambda>a. key a < k) (nodes s))) \<and>
    ge_loop cmp k h (root_of s) m = Some (if filter (\<lambda>a. k \<le> key a) (nodes s) = [] then m else first_of (filter (\<lambda>a. k \<le> key a) (nodes s))) \<and>
    gt_loop cmp k h (root_of s) m = Some (if filter (\<lambda>a. k < key a) (nodes s) = [] then m else first_of (filter (\<lambda>a. k < key a) (nodes s)))"
proof (induction s arbitrary: q m)
  case Tip
  then show ?case
    by (subst le_loop.simps, subst lt_loop.simps, subst ge_loop.simps, subst gt_loop.simps) simp
next
  case (Bin l a f r)
  note c = comparesD [OF cmp, of k a]
  note ord = bin_ordered [OF Bin.prems(2) [unfolded nodes.simps]]
  have a: "a \<noteq> NULL" "left (h a) = root_of l" "right (h a) = root_of r" "tree_at h a l" "tree_at h a r"
    using Bin.prems(1) by auto
  note IHl = Bin.IH(1) [OF a(4) ord(1)] and IHr = Bin.IH(2) [OF a(5) ord(2)]
  consider "k = key a" | "k < key a" | "key a < k"
    by (rule linorder_cases)
  then show ?case
  proof cases
    case 1
    then have fl: "filter (\<lambda>b. key b \<le> k) (nodes r) = []" "filter (\<lambda>b. k \<le> key b) (nodes l) = []"
        "filter (\<lambda>b. key b < k) (nodes r) = []" "filter (\<lambda>b. k < key b) (nodes l) = []"
        "filter (\<lambda>b. key b < k) (nodes l) = nodes l" "filter (\<lambda>b. k < key b) (nodes r) = nodes r"
      using ord(3,4) by (force simp: filter_empty_conv intro!: filter_True)+
    show ?thesis
      by (subst le_loop.simps, subst lt_loop.simps, subst ge_loop.simps, subst gt_loop.simps)
        (use 1 a c fl IHl IHr in \<open>simp add: Let_def\<close>)
  next
    case 2
    then have fl: "filter (\<lambda>b. key b \<le> k) (nodes r) = []" "filter (\<lambda>b. key b < k) (nodes r) = []"
      using ord(4) by (force simp: filter_empty_conv)+
    have neg: "\<not> key a \<le> k" "\<not> key a < k" "k \<le> key a \<longleftrightarrow> True"
      using 2 by auto
    show ?thesis
      by (subst le_loop.simps, subst lt_loop.simps, subst ge_loop.simps, subst gt_loop.simps)
        (use 2 a c fl IHl IHr in \<open>simp add: Let_def neg\<close>)
  next
    case 3
    then have fl: "filter (\<lambda>b. k \<le> key b) (nodes l) = []" "filter (\<lambda>b. k < key b) (nodes l) = []"
      using ord(3) by (force simp: filter_empty_conv)+
    have neg: "\<not> k \<le> key a" "\<not> k < key a" "key a \<le> k \<longleftrightarrow> True"
      using 3 by auto
    show ?thesis
      by (subst le_loop.simps, subst lt_loop.simps, subst ge_loop.simps, subst gt_loop.simps)
        (use 3 a c fl IHl IHr in \<open>simp add: Let_def neg\<close>)
  qed
qed

text \<open>
  \<open>rbt_iter_le\<close> and \<open>rbt_iter_lt\<close> return the largest node whose key is not greater (is less) than
  the given one, \<open>rbt_iter_ge\<close> and \<open>rbt_iter_gt\<close> the smallest whose key is not less (is greater), and
  \<open>NULL\<close> when there is none.
\<close>

theorem rbt_iter_neighbours:
  assumes "compares cmp key" "rbt_rep t s" "ordered key (nodes s)"
  shows "rbt_iter_le cmp k t = Some (last_of (filter (\<lambda>a. key a \<le> k) (nodes s)))
    \<and> rbt_iter_lt cmp k t = Some (last_of (filter (\<lambda>a. key a < k) (nodes s)))
    \<and> rbt_iter_ge cmp k t = Some (first_of (filter (\<lambda>a. k \<le> key a) (nodes s)))
    \<and> rbt_iter_gt cmp k t = Some (first_of (filter (\<lambda>a. k < key a) (nodes s)))"
proof -
  have "tree_at (fst t) NULL s" "snd t = root_of s"
    using assms(2) by (auto simp: rbt_rep_def focus_def)
  with neighbour_loops [OF assms(1) this(1) assms(3), of k NULL] show ?thesis
    by (auto simp: rbt_iter_le_def rbt_iter_lt_def rbt_iter_ge_def rbt_iter_gt_def)
qed

theorem rbt_iter_neighbours_witness:
  "rbt_iter_le nat_cmp 2 (three_heap, 2) = Some 2 \<and> rbt_iter_lt nat_cmp 2 (three_heap, 2) = Some 1 \<and>
   rbt_iter_ge nat_cmp 4 (three_heap, 2) = Some 0 \<and> rbt_iter_gt nat_cmp 2 (three_heap, 2) = Some 3"
  using rbt_iter_neighbours [OF nat_cmp_compares three_ok(1), of 2] rbt_iter_neighbours [OF nat_cmp_compares three_ok(1), of 4]
  by (simp add: three_ok(3))

section \<open>What a range query reports\<close>

fun subtree :: "rtree \<Rightarrow> addr \<Rightarrow> rtree" where
  "subtree Tip n = Tip"
| "subtree (Bin l a f r) n =
     (if n = a then Bin l a f r else if n \<in> set (nodes l) then subtree l n else subtree r n)"

text \<open>The nodes that one callback stands for.\<close>

fun expand :: "rtree \<Rightarrow> addr \<times> rbt_range_addtype \<Rightarrow> addr list" where
  "expand s (n, RBT_RANGE_ADD_NODE) = [n]"
| "expand s (n, RBT_RANGE_ADD_TREE) = nodes (subtree s n)"

definition reported :: "rtree \<Rightarrow> calls \<Rightarrow> addr list" where
  "reported s xs = concat (map (expand s) xs)"

lemma reported_simps [simp]: "reported s [] = []" "reported s (xs @ ys) = reported s xs @ reported s ys"
    "reported s ((n, RBT_RANGE_ADD_NODE) # xs) = n # reported s xs"
  by (simp_all add: reported_def)

lemma reported_sub:
  assumes "distinct (nodes (Bin l a f r))"
  shows "fst ` set xs \<subseteq> set (nodes l) \<Longrightarrow> reported (Bin l a f r) xs = reported l xs"
    "fst ` set xs \<subseteq> set (nodes r) \<Longrightarrow> reported (Bin l a f r) xs = reported r xs"
proof -
  have "n \<in> set (nodes l) \<Longrightarrow> expand (Bin l a f r) (n, ty) = expand l (n, ty)"
    "n \<in> set (nodes r) \<Longrightarrow> expand (Bin l a f r) (n, ty) = expand r (n, ty)" for n ty
    using assms by (cases ty; auto)+
  then show "fst ` set xs \<subseteq> set (nodes l) \<Longrightarrow> reported (Bin l a f r) xs = reported l xs"
    "fst ` set xs \<subseteq> set (nodes r) \<Longrightarrow> reported (Bin l a f r) xs = reported r xs"
    unfolding reported_def by (auto intro!: arg_cong [of _ _ concat] map_cong)
qed

lemma add_tree_reported:
  assumes "distinct (nodes (Bin l a f r))" "tree_at h q (Bin l a f r)"
  shows "reported (Bin l a f r) (add_tree (root_of l)) = nodes l" "reported (Bin l a f r) (add_tree (root_of r)) = nodes r"
    "fst ` set (add_tree (root_of l)) \<subseteq> set (nodes l)" "fst ` set (add_tree (root_of r)) \<subseteq> set (nodes r)"
  using assms by (cases l; cases r; auto simp: add_tree_def reported_def)+

text \<open>The nodes come in the order: before the range, inside, after it.\<close>

definition contiguous :: "(addr \<Rightarrow> int) \<Rightarrow> addr list \<Rightarrow> bool" where
  "contiguous cmp xs \<longleftrightarrow> sorted_wrt (\<lambda>a b. sgn (cmp a) \<le> sgn (cmp b)) xs"

lemma contiguousD:
  assumes "contiguous cmp (xs @ a # ys)"
  shows "contiguous cmp xs" "contiguous cmp ys"
    "cmp a < 0 \<Longrightarrow> b \<in> set xs \<Longrightarrow> cmp b < 0" "0 < cmp a \<Longrightarrow> b \<in> set ys \<Longrightarrow> 0 < cmp b"
    "cmp a \<le> 0 \<Longrightarrow> b \<in> set xs \<Longrightarrow> cmp b \<le> 0" "0 \<le> cmp a \<Longrightarrow> b \<in> set ys \<Longrightarrow> 0 \<le> cmp b"
  using assms by (auto simp: contiguous_def sorted_wrt_append sgn_if split: if_splits)

lemma query_low_ok:
  "tree_at h q s \<Longrightarrow> distinct (nodes s) \<Longrightarrow> contiguous cmp (nodes s) \<Longrightarrow> \<forall>a \<in> set (nodes s). cmp a \<le> 0 \<Longrightarrow>
     \<exists>xs. query_low cmp h (root_of s) = Some xs \<and> fst ` set xs \<subseteq> set (nodes s) \<and>
       reported s xs = filter (\<lambda>a. cmp a = 0) (nodes s)"
proof (induction s arbitrary: q)
  case Tip
  then show ?case by (subst query_low.simps) simp
next
  case (Bin l a f r)
  note c = contiguousD [OF Bin.prems(3) [unfolded nodes.simps]]
  have d: "distinct (nodes l)" "distinct (nodes r)" "tree_at h a l" "tree_at h a r" "a \<noteq> NULL"
    "left (h a) = root_of l" "right (h a) = root_of r"
    using Bin.prems by auto
  note ad = add_tree_reported [OF Bin.prems(2,1)]
  show ?case
  proof (cases "cmp a < 0")
    case True
    obtain xs where xs: "query_low cmp h (root_of r) = Some xs" "fst ` set xs \<subseteq> set (nodes r)"
        "reported r xs = filter (\<lambda>a. cmp a = 0) (nodes r)"
      using Bin.IH(2) [OF d(4,2) c(2)] Bin.prems(4) by auto
    have "filter (\<lambda>a. cmp a = 0) (nodes l) = []"
      using c(3) [OF True] by (force simp: filter_empty_conv)
    with xs True d reported_sub(2) [OF Bin.prems(2) xs(2)] show ?thesis
      by (subst query_low.simps) auto
  next
    case False
    obtain xs where xs: "query_low cmp h (root_of l) = Some xs" "fst ` set xs \<subseteq> set (nodes l)"
        "reported l xs = filter (\<lambda>a. cmp a = 0) (nodes l)"
      using Bin.IH(1) [OF d(3,1) c(1)] Bin.prems(4) by auto
    have z: "cmp a = 0" "filter (\<lambda>a. cmp a = 0) (nodes r) = nodes r"
      using False Bin.prems(4) c(6) by (force intro!: filter_True)+
    show ?thesis
      using xs z d ad reported_sub(1) [OF Bin.prems(2) xs(2)]
      by (subst query_low.simps) auto
  qed
qed

lemma query_high_ok:
  "tree_at h q s \<Longrightarrow> distinct (nodes s) \<Longrightarrow> contiguous cmp (nodes s) \<Longrightarrow> \<forall>a \<in> set (nodes s). 0 \<le> cmp a \<Longrightarrow>
     \<exists>xs. query_high cmp h (root_of s) = Some xs \<and> fst ` set xs \<subseteq> set (nodes s) \<and>
       reported s xs = filter (\<lambda>a. cmp a = 0) (nodes s)"
proof (induction s arbitrary: q)
  case Tip
  then show ?case by (subst query_high.simps) simp
next
  case (Bin l a f r)
  note c = contiguousD [OF Bin.prems(3) [unfolded nodes.simps]]
  have d: "distinct (nodes l)" "distinct (nodes r)" "tree_at h a l" "tree_at h a r" "a \<noteq> NULL"
    "left (h a) = root_of l" "right (h a) = root_of r"
    using Bin.prems by auto
  note ad = add_tree_reported [OF Bin.prems(2,1)]
  show ?case
  proof (cases "0 < cmp a")
    case True
    obtain xs where xs: "query_high cmp h (root_of l) = Some xs" "fst ` set xs \<subseteq> set (nodes l)"
        "reported l xs = filter (\<lambda>a. cmp a = 0) (nodes l)"
      using Bin.IH(1) [OF d(3,1) c(1)] Bin.prems(4) by auto
    have "filter (\<lambda>a. cmp a = 0) (nodes r) = []"
      using c(4) [OF True] by (force simp: filter_empty_conv)
    with xs True d reported_sub(1) [OF Bin.prems(2) xs(2)] show ?thesis
      by (subst query_high.simps) auto
  next
    case False
    obtain xs where xs: "query_high cmp h (root_of r) = Some xs" "fst ` set xs \<subseteq> set (nodes r)"
        "reported r xs = filter (\<lambda>a. cmp a = 0) (nodes r)"
      using Bin.IH(2) [OF d(4,2) c(2)] Bin.prems(4) by auto
    have z: "cmp a = 0" "filter (\<lambda>a. cmp a = 0) (nodes l) = nodes l"
      using False Bin.prems(4) c(5) by (force intro!: filter_True)+
    show ?thesis
      using xs z d ad reported_sub(2) [OF Bin.prems(2) xs(2)]
      by (subst query_high.simps) auto
  qed
qed

lemma query_over_ok:
  "tree_at h q s \<Longrightarrow> distinct (nodes s) \<Longrightarrow> contiguous cmp (nodes s) \<Longrightarrow>
     \<exists>xs. query_over cmp h (root_of s) = Some xs \<and> fst ` set xs \<subseteq> set (nodes s) \<and>
       reported s xs = filter (\<lambda>a. cmp a = 0) (nodes s)"
proof (induction s arbitrary: q)
  case Tip
  then show ?case by (subst query_over.simps) simp
next
  case (Bin l a f r)
  note c = contiguousD [OF Bin.prems(3) [unfolded nodes.simps]]
  have d: "distinct (nodes l)" "distinct (nodes r)" "tree_at h a l" "tree_at h a r" "a \<noteq> NULL"
    "left (h a) = root_of l" "right (h a) = root_of r"
    using Bin.prems by auto
  consider "cmp a < 0" | "0 < cmp a" | "cmp a = 0"
    by linarith
  then show ?case
  proof cases
    case 1
    obtain xs where xs: "query_over cmp h (root_of r) = Some xs" "fst ` set xs \<subseteq> set (nodes r)"
        "reported r xs = filter (\<lambda>a. cmp a = 0) (nodes r)"
      using Bin.IH(2) [OF d(4,2) c(2)] by auto
    have "filter (\<lambda>a. cmp a = 0) (nodes l) = []"
      using c(3) [OF 1] by (force simp: filter_empty_conv)
    with xs 1 d reported_sub(2) [OF Bin.prems(2) xs(2)] show ?thesis
      by (subst query_over.simps) auto
  next
    case 2
    obtain xs where xs: "query_over cmp h (root_of l) = Some xs" "fst ` set xs \<subseteq> set (nodes l)"
        "reported l xs = filter (\<lambda>a. cmp a = 0) (nodes l)"
      using Bin.IH(1) [OF d(3,1) c(1)] by auto
    have "filter (\<lambda>a. cmp a = 0) (nodes r) = []"
      using c(4) [OF 2] by (force simp: filter_empty_conv)
    with xs 2 d reported_sub(1) [OF Bin.prems(2) xs(2)] show ?thesis
      by (subst query_over.simps) auto
  next
    case 3
    obtain xs where xs: "query_low cmp h (root_of l) = Some xs" "fst ` set xs \<subseteq> set (nodes l)"
        "reported l xs = filter (\<lambda>a. cmp a = 0) (nodes l)"
      using query_low_ok [OF d(3,1) c(1)] c(5) 3 by auto
    obtain ys where ys: "query_high cmp h (root_of r) = Some ys" "fst ` set ys \<subseteq> set (nodes r)"
        "reported r ys = filter (\<lambda>a. cmp a = 0) (nodes r)"
      using query_high_ok [OF d(4,2) c(2)] c(6) 3 by auto
    show ?thesis
      using xs ys 3 d reported_sub(1) [OF Bin.prems(2) xs(2)] reported_sub(2) [OF Bin.prems(2) ys(2)]
      by (subst query_over.simps) auto
  qed
qed

text \<open>
  C26: the nodes and subtrees that \<open>rbt_range_query\<close> reports are, in order and without repetition,
  exactly the nodes inside the range.
\<close>

theorem rbt_range_query_correct:
  assumes "rbt_rep t s" "contiguous cmp (nodes s)"
  shows "\<exists>xs. rbt_range_query cmp t = Some xs \<and> reported s xs = filter (\<lambda>a. cmp a = 0) (nodes s)"
proof -
  have "tree_at (fst t) NULL s" "snd t = root_of s" "distinct (nodes s)"
    using assms(1) by (auto simp: rbt_rep_def focus_def)
  with query_over_ok [of "fst t" NULL s cmp] assms(2) show ?thesis
    by (auto simp: rbt_range_query_def)
qed

theorem rbt_range_query_correct_witness:
  "\<exists>xs. rbt_range_query (\<lambda>a. if a < 2 then -1 else 0) (three_heap, 2) = Some xs \<and> reported three_tree xs = [2, 3]"
proof -
  have "contiguous (\<lambda>a. if a < 2 then -1 else 0) (nodes three_tree)"
    by (simp add: three_ok(3) contiguous_def)
  from rbt_range_query_correct [OF three_ok(1) this] show ?thesis
    by (simp add: three_ok(3))
qed

section \<open>The interface of an ordered set of nodes\<close>

text \<open>
  What a client of the tree relies on: the set holds a sequence of nodes in the order of their
  keys; insertion, removal, search and the first node act on this sequence. The locale \<open>rbt_keys\<close>
  provides it for every comparison function that compares keys.
\<close>

locale ordered_nodes =
  fixes key :: "addr \<Rightarrow> 'k::linorder"
    and rep :: "'s \<Rightarrow> addr list \<Rightarrow> bool"
    and put :: "addr \<Rightarrow> 's \<Rightarrow> (addr \<times> 's) option"
    and del :: "addr \<Rightarrow> 's \<Rightarrow> 's option"
    and look :: "'k \<Rightarrow> 's \<Rightarrow> addr option"
    and least :: "'s \<Rightarrow> addr option"
  assumes rep_ordered: "rep s xs \<Longrightarrow> ordered key xs \<and> NULL \<notin> set xs"
    and put_law: "rep s xs \<Longrightarrow> n \<noteq> NULL \<Longrightarrow> n \<notin> set xs \<Longrightarrow> \<exists>s'. put n s = Some (node_with key (key n) xs, s') \<and>
      rep s' (filter (\<lambda>a. key a < key n) xs @ n # filter (\<lambda>a. key n < key a) xs)"
    and del_law: "rep s xs \<Longrightarrow> n \<in> set xs \<Longrightarrow> \<exists>s'. del n s = Some s' \<and> rep s' (remove1 n xs)"
    and look_law: "rep s xs \<Longrightarrow> look k s = Some (node_with key k xs)"
    and least_law: "rep s xs \<Longrightarrow> least s = Some (first_of xs)"
begin

text \<open>Taking out the first node.\<close>

lemma pop_least:
  assumes "rep s (x # xs)"
  shows "\<exists>s'. least s = Some x \<and> x \<noteq> NULL \<and> del x s = Some s' \<and> rep s' xs"
  using least_law [OF assms] del_law [OF assms, of x] rep_ordered [OF assms] by auto

lemma put_then_look:
  assumes "rep s xs" "n \<noteq> NULL" "n \<notin> set xs"
  shows "\<exists>c s'. put n s = Some (c, s') \<and> look (key n) s' = Some n"
proof -
  obtain s' where s': "put n s = Some (node_with key (key n) xs, s')"
      "rep s' (filter (\<lambda>a. key a < key n) xs @ n # filter (\<lambda>a. key n < key a) xs)"
    using put_law [OF assms] by blast
  have "node_with key (key n) (filter (\<lambda>a. key a < key n) xs @ n # filter (\<lambda>a. key n < key a) xs) = n"
    by (subst node_with_skip) (auto simp: node_with_def)
  with look_law [OF s'(2), of "key n"] s'(1) show ?thesis by simp
qed

lemma del_then_look:
  assumes "rep s xs" "n \<in> set xs"
  shows "\<exists>s'. del n s = Some s' \<and> look (key n) s' = Some NULL"
proof -
  obtain s' where s': "del n s = Some s'" "rep s' (remove1 n xs)"
    using del_law [OF assms] by blast
  obtain ys zs where xs: "xs = ys @ n # zs"
    using assms(2) by (meson split_list)
  have "\<forall>a \<in> set (ys @ zs). key a \<noteq> key n" "n \<notin> set ys"
    using rep_ordered [OF assms(1)] by (auto simp: xs sorted_wrt_append)
  then have "node_with key (key n) (remove1 n xs) = NULL"
    using node_with_skip(1) [of "ys @ zs" key "key n" "[]"] by (simp add: xs remove1_append node_with_def)
  with look_law [OF s'(2), of "key n"] s'(1) show ?thesis by simp
qed

end

definition rbt_holds :: "(addr \<Rightarrow> 'k::linorder) \<Rightarrow> rbt \<Rightarrow> addr list \<Rightarrow> bool" where
  "rbt_holds key t xs \<longleftrightarrow>
     (\<exists>s S. rbt_rep t s \<and> rbt_ok s \<and> ordered key (nodes s) \<and> nodes s = xs \<and> summarised S s)"

lemma rep_nonnull: "rbt_rep t s \<Longrightarrow> NULL \<notin> set (nodes s)"
proof -
  have "tree_at h q s \<Longrightarrow> NULL \<notin> set (nodes s)" for h q
    by (induction s arbitrary: q) auto
  then show "rbt_rep t s \<Longrightarrow> NULL \<notin> set (nodes s)"
    by (auto simp: rbt_rep_def focus_def)
qed

lemma rbt_holds_init: "rbt_holds key (rbt_init h) []"
  unfolding rbt_holds_def by (rule exI [of _ Tip]) (simp add: rbt_rep_def focus_def rbt_init_def rbt_ok_def)

locale rbt_keys =
  fixes cmp :: "'k::linorder \<Rightarrow> addr \<Rightarrow> int" and key :: "addr \<Rightarrow> 'k"
  assumes compares: "compares cmp key"
begin

lemma put_rbt:
  assumes "rbt_holds key t xs" "n \<noteq> NULL" "n \<notin> set xs"
  shows "\<exists>t'. rbt_insert cmp (key n) n t = Some (node_with key (key n) xs, t') \<and>
    rbt_holds key t' (filter (\<lambda>a. key a < key n) xs @ n # filter (\<lambda>a. key n < key a) xs)"
proof -
  obtain s S where s: "rbt_rep t s" "rbt_ok s" "ordered key (nodes s)" "nodes s = xs" "summarised S s"
    using assms(1) by (auto simp: rbt_holds_def)
  have n: "n \<notin> set (nodes s)"
    using assms(3) s(4) by simp
  obtain t' s' where r: "rbt_insert cmp (key n) n t = Some (node_with key (key n) (nodes s), t')" "rbt_rep t' s'" "rbt_ok s'"
      "nodes s' = filter (\<lambda>a. key a < key n) (nodes s) @ n # filter (\<lambda>a. key n < key a) (nodes s)" "summarised S s'"
    using insert_tree [OF compares s(1,2,3) assms(2) n s(5)] by blast
  have "ordered key (nodes s')"
    using s(3) by (auto simp: r(4) sorted_wrt_append sorted_wrt_filter)
  with r s(4) show ?thesis
    by (auto simp: rbt_holds_def)
qed

lemma del_rbt:
  assumes "rbt_holds key t xs" "n \<in> set xs"
  shows "\<exists>t'. rbt_remove n t = Some t' \<and> rbt_holds key t' (remove1 n xs)"
proof -
  obtain s S where s: "rbt_rep t s" "rbt_ok s" "ordered key (nodes s)" "nodes s = xs" "summarised S s"
    using assms(1) by (auto simp: rbt_holds_def)
  have n: "n \<in> set (nodes s)"
    using assms(2) s(4) by simp
  obtain t' s' where r: "rbt_remove n t = Some t'" "rbt_rep t' s'" "rbt_ok s'" "nodes s' = remove1 n (nodes s)" "summarised S s'"
    using remove_tree [OF s(1,2) n s(5)] by blast
  obtain ys zs where ns: "nodes s = ys @ n # zs" "n \<notin> set ys"
    using n by (meson split_list_first)
  have "ordered key (nodes s')"
    using s(3) by (simp add: r(4) ns remove1_append sorted_wrt_append)
  with r s(4) show ?thesis
    by (auto simp: rbt_holds_def)
qed

end

sublocale rbt_keys \<subseteq> ordered_nodes key "rbt_holds key" "\<lambda>n. rbt_insert cmp (key n) n" rbt_remove "rbt_find cmp" rbt_iter_first
proof unfold_locales
  show "rbt_holds key s xs \<Longrightarrow> ordered key xs \<and> NULL \<notin> set xs" for s xs
    using rep_nonnull [of s] by (auto simp: rbt_holds_def)
  show "rbt_holds key s xs \<Longrightarrow> rbt_find cmp k s = Some (node_with key k xs)" for s xs k
    using find_tree [OF compares, of s] by (auto simp: rbt_holds_def)
  show "rbt_holds key s xs \<Longrightarrow> rbt_iter_first s = Some (first_of xs)" for s xs
    using rbt_iter_first_eq(1) [of s] by (auto simp: rbt_holds_def)
qed (blast intro: put_rbt del_rbt)+

section \<open>The predecessor of a removed node\<close>

lemma tree_node_at:
  assumes "rbt_rep (h, root) s" "a \<in> set (nodes s)"
  obtains C l f r where "s = plug C (Bin l a f r)" "focus (h, root) C (Bin l a f r)"
  using split_node [OF assms(2)] assms(1) focus_plug by metis

text \<open>No node of the tree points to a node outside of it, so the search through the stale pointers ends.\<close>

lemma stale_prev:
  assumes rep: "rbt_rep (h, root) s" and st: "stale (h, root) n (nodes s)" and n: "n \<notin> set (nodes s)" "n \<noteq> NULL"
  shows "\<exists>p. rbt_iter_prev h n = Some p"
proof (cases "left (h n) = NULL")
  case True
  have "climb_prev h n = Some (parent (h n))"
  proof (cases "parent (h n) = NULL")
    case False
    then have "parent (h n) \<in> set (nodes s)"
      using st by (simp add: stale_def)
    then obtain C l f r where s: "s = plug C (Bin l (parent (h n)) f r)" "focus (h, root) C (Bin l (parent (h n)) f r)"
      by (rule tree_node_at [OF rep])
    have "left (h (parent (h n))) \<noteq> n"
      using s n by (cases l) (auto simp: focus_Bin)
    with n show ?thesis by (subst climb_prev.simps) simp
  qed (use n in \<open>subst climb_prev.simps, simp\<close>)
  with True n show ?thesis by (simp add: rbt_iter_prev_def)
next
  case False
  then have "left (h n) \<in> set (nodes s)"
    using st by (simp add: stale_def)
  then obtain C l f r where "focus (h, root) C (Bin l (left (h n)) f r)"
    by (rule tree_node_at [OF rep])
  then have "rightmost h (left (h n)) = Some (last_of (nodes (Bin l (left (h n)) f r)))"
    using rightmost_last [of h _ "Bin l (left (h n)) f r"] by (auto simp: focus_def)
  with False n show ?thesis by (simp add: rbt_iter_prev_def)
qed

context rbt_keys
begin

lemma del_then_prev:
  assumes "rbt_holds key t xs" "n \<in> set xs"
  shows "\<exists>t' p. rbt_remove n t = Some t' \<and> rbt_holds key t' (remove1 n xs) \<and> rbt_iter_prev (fst t') n = Some p"
proof -
  obtain s S where s: "rbt_rep t s" "rbt_ok s" "nodes s = xs" "summarised S s"
    using assms(1) by (auto simp: rbt_holds_def)
  obtain t' s' where r: "rbt_remove n t = Some t'" "rbt_rep t' s'" "nodes s' = remove1 n xs" "stale t' n (remove1 n xs)"
    using remove_tree [OF s(1,2) _ s(4)] assms(2) s(3) by blast
  have "distinct xs" "n \<noteq> NULL"
    using s(1) rep_nonnull [OF s(1)] assms(2) s(3) by (auto simp: rbt_rep_def focus_def intro: gr0I)
  then obtain p where "rbt_iter_prev (fst t') n = Some p"
    using stale_prev [of "fst t'" "snd t'" s' n] r by auto
  moreover have "rbt_holds key t' (remove1 n xs)"
    using del_rbt [OF assms] r(1) by auto
  ultimately show ?thesis
    using r(1) by blast
qed

end

end
