(* ===== verification/Dlb_Mailbox.thy ===== *)
theory Dlb_Mailbox
  imports Dlb_Runq
begin

unbundle bit_operations_syntax

text \<open>
  Mailboxes (\<^verbatim>\<open>src/io/mailbox.c\<close>): 32 flags that any thread may raise and one consumer that waits for
  some or all of a set. Each function is a critical section followed, when the wait is over, by
  the submission of the task of the mailbox to its run queue. The sequential functions are the
  composition of both; the step relation interleaves them.
\<close>

section \<open>State and operations\<close>

datatype mailbox_wait_mode = MAILBOX_WAIT_NONE | MAILBOX_WAIT_ANY | MAILBOX_WAIT_ALL

record mailbox =
  task :: addr  \<comment> \<open>the embedded task; its function is in the run queue's \<open>funcs\<close>\<close>
  state :: u32
  expected :: u32
  mode :: mailbox_wait_mode

definition mailbox_init :: "addr \<Rightarrow> mailbox" where
  "mailbox_init t = \<lparr>task = t, state = 0, expected = 0, mode = MAILBOX_WAIT_NONE\<rparr>"

definition mailbox_take :: "u32 \<Rightarrow> mailbox \<Rightarrow> u32 \<times> mailbox" where
  "mailbox_take clear_mask m = (state m, m\<lparr>state := state m AND NOT clear_mask\<rparr>)"

text \<open>The critical sections return whether the function fires.\<close>

definition raise_locked :: "u32 \<Rightarrow> mailbox \<Rightarrow> bool \<times> mailbox" where
  "raise_locked set_mask m =
     (let st = state m OR set_mask;
          fire = (case mode m of
              MAILBOX_WAIT_NONE \<Rightarrow> False
            | MAILBOX_WAIT_ANY \<Rightarrow> expected m AND st \<noteq> 0
            | MAILBOX_WAIT_ALL \<Rightarrow> expected m AND st = expected m)
      in (fire, m\<lparr>state := st, mode := (if fire then MAILBOX_WAIT_NONE else mode m)\<rparr>))"

definition wait_locked :: "u32 \<Rightarrow> mailbox \<Rightarrow> bool \<times> mailbox" where
  "wait_locked wanted m =
     (let fire = (state m AND wanted \<noteq> 0)
      in (fire, m\<lparr>expected := wanted, mode := (if fire then mode m else MAILBOX_WAIT_ANY)\<rparr>))"

definition wait_all_locked :: "u32 \<Rightarrow> mailbox \<Rightarrow> bool \<times> mailbox" where
  "wait_all_locked wanted m =
     (let fire = (state m AND wanted = wanted)
      in (fire, m\<lparr>expected := wanted, mode := (if fire then mode m else MAILBOX_WAIT_ALL)\<rparr>))"

text \<open>\<open>if (fire) runq_task_exec(&m->task, m->task.func);\<close>\<close>

definition submit_if :: "bool \<times> mailbox \<Rightarrow> runq \<Rightarrow> mailbox \<times> runq" where
  "submit_if fm r = (case fm of (fire, m) \<Rightarrow>
     (m, if fire then runq_task_exec (task m) (funcs r (task m)) r else r))"

definition mailbox_raise :: "u32 \<Rightarrow> mailbox \<times> runq \<Rightarrow> mailbox \<times> runq" where
  "mailbox_raise set_mask mr = submit_if (raise_locked set_mask (fst mr)) (snd mr)"

definition set_func :: "addr \<Rightarrow> nat \<Rightarrow> runq \<Rightarrow> runq" where
  "set_func t cb r = r\<lparr>funcs := (funcs r)(t := cb)\<rparr>"

definition mailbox_wait :: "u32 \<Rightarrow> nat \<Rightarrow> mailbox \<times> runq \<Rightarrow> mailbox \<times> runq" where
  "mailbox_wait wanted cb mr = submit_if (wait_locked wanted (fst mr)) (set_func (task (fst mr)) cb (snd mr))"

definition mailbox_wait_all :: "u32 \<Rightarrow> nat \<Rightarrow> mailbox \<times> runq \<Rightarrow> mailbox \<times> runq" where
  "mailbox_wait_all wanted cb mr = submit_if (wait_all_locked wanted (fst mr)) (set_func (task (fst mr)) cb (snd mr))"

section \<open>Waiting, then raising\<close>

text \<open>The test of the code for the end of a wait, as a predicate on the flags.\<close>

definition satisfied :: "mailbox_wait_mode \<Rightarrow> u32 \<Rightarrow> u32 \<Rightarrow> bool" where
  "satisfied md wanted st = (case md of
     MAILBOX_WAIT_NONE \<Rightarrow> False
   | MAILBOX_WAIT_ANY \<Rightarrow> st AND wanted \<noteq> 0
   | MAILBOX_WAIT_ALL \<Rightarrow> st AND wanted = wanted)"

lemma satisfied_mono:
  assumes "satisfied md wanted st"
  shows "satisfied md wanted (st OR x)"
proof (cases md)
  case MAILBOX_WAIT_ANY
  then obtain n where "bit st n" "bit wanted n"
    using assms by (auto simp: satisfied_def bit_eq_iff bit_simps)
  then have "bit ((st OR x) AND wanted) n"
    by (simp add: bit_simps)
  then show ?thesis
    using MAILBOX_WAIT_ANY by (auto simp: satisfied_def)
next
  case MAILBOX_WAIT_ALL
  then show ?thesis
    using assms by (auto simp: satisfied_def bit_eq_iff bit_simps)
qed (use assms in \<open>simp add: satisfied_def\<close>)

lemma satisfied_fold: "satisfied md wanted s \<Longrightarrow> satisfied md wanted (fold (OR) ms s)"
proof (induction ms arbitrary: s)
  case (Cons x ms)
  then show ?case
    using satisfied_mono [of md wanted s x] by (simp add: or.commute)
qed simp

lemma raise_locked_eq:
  "raise_locked x m = (satisfied (mode m) (expected m) (state m OR x),
     m\<lparr>state := state m OR x,
       mode := (if satisfied (mode m) (expected m) (state m OR x) then MAILBOX_WAIT_NONE else mode m)\<rparr>)"
  by (simp add: raise_locked_def satisfied_def Let_def and.commute split: mailbox_wait_mode.split)

lemma wait_locked_eq:
  assumes "mode m = MAILBOX_WAIT_NONE"
  shows "wait_locked wanted m = (satisfied MAILBOX_WAIT_ANY wanted (state m),
      m\<lparr>expected := wanted, mode := (if satisfied MAILBOX_WAIT_ANY wanted (state m) then MAILBOX_WAIT_NONE else MAILBOX_WAIT_ANY)\<rparr>)"
    "wait_all_locked wanted m = (satisfied MAILBOX_WAIT_ALL wanted (state m),
      m\<lparr>expected := wanted, mode := (if satisfied MAILBOX_WAIT_ALL wanted (state m) then MAILBOX_WAIT_NONE else MAILBOX_WAIT_ALL)\<rparr>)"
  using assms by (simp_all add: wait_locked_def wait_all_locked_def satisfied_def Let_def)

text \<open>The task of a run queue after one submission.\<close>

lemma runq_task_exec_rep:
  assumes "slist_rep (job_list r) xs" "t \<notin> set xs" "t \<noteq> NULL"
  shows "slist_rep (job_list (runq_task_exec t f r)) (xs @ [t])"
proof -
  have "job_list (raise_from i k r') = job_list r'" for i k and r' :: "'a runq_scheme"
    by (induction k arbitrary: i r') simp_all
  then show ?thesis
    using slist_fifo.put_law [OF assms] by (simp add: runq_task_exec_def exec_locked_def)
qed

lemma raise_all_idle:
  "mode m = MAILBOX_WAIT_NONE \<Longrightarrow> \<exists>m'. fold mailbox_raise ms (m, r) = (m', r) \<and> mode m' = MAILBOX_WAIT_NONE"
proof (induction ms arbitrary: m)
  case (Cons x ms)
  then show ?case
    by (simp add: mailbox_raise_def submit_if_def raise_locked_eq satisfied_def)
qed simp

lemma raise_all_waiting:
  assumes "slist_rep (job_list r) xs" "task m \<notin> set xs" "task m \<noteq> NULL"
  shows "\<not> satisfied (mode m) (expected m) (state m) \<Longrightarrow>
    \<exists>m' r'. fold mailbox_raise ms (m, r) = (m', r') \<and>
      slist_rep (job_list r')
        (if satisfied (mode m) (expected m) (fold (OR) ms (state m)) then xs @ [task m] else xs)"
  using assms
proof (induction ms arbitrary: m)
  case (Cons x ms)
  define m1 where "m1 = m\<lparr>state := state m OR x\<rparr>"
  show ?case
  proof (cases "satisfied (mode m) (expected m) (state m OR x)")
    case False
    then have "mailbox_raise x (m, r) = (m1, r)"
      by (simp add: mailbox_raise_def submit_if_def raise_locked_eq m1_def)
    moreover have m1: "task m1 = task m" "mode m1 = mode m" "expected m1 = expected m" "state m1 = x OR state m"
      by (simp_all add: m1_def or.commute)
    ultimately show ?thesis
      using Cons.IH [of m1, unfolded m1] Cons.prems False by (simp add: or.commute)
  next
    case True
    define r1 where "r1 = runq_task_exec (task m) (funcs r (task m)) r"
    have "mailbox_raise x (m, r) = (m1\<lparr>mode := MAILBOX_WAIT_NONE\<rparr>, r1)"
      using True by (simp add: mailbox_raise_def submit_if_def raise_locked_eq m1_def r1_def)
    moreover have "\<exists>m'. fold mailbox_raise ms (m1\<lparr>mode := MAILBOX_WAIT_NONE\<rparr>, r1) = (m', r1) \<and> mode m' = MAILBOX_WAIT_NONE"
      by (rule raise_all_idle) simp
    moreover have "satisfied (mode m) (expected m) (fold (OR) (x # ms) (state m))"
      using True by (simp add: or.commute satisfied_fold)
    moreover have "slist_rep (job_list r1) (xs @ [task m])"
      using Cons.prems by (simp add: r1_def runq_task_exec_rep)
    ultimately show ?thesis by auto
  qed
qed simp

lemma wait_then_raise:
  assumes "slist_rep (job_list r) xs" "task m \<notin> set xs" "task m \<noteq> NULL"
    and fm: "fm = (satisfied md wanted (state m),
      m\<lparr>expected := wanted, mode := (if satisfied md wanted (state m) then MAILBOX_WAIT_NONE else md)\<rparr>)"
  shows "\<exists>m' r'. fold mailbox_raise ms (submit_if fm (set_func (task m) cb r)) = (m', r') \<and>
      slist_rep (job_list r') (if satisfied md wanted (fold (OR) ms (state m)) then xs @ [task m] else xs)"
proof -
  define r0 where "r0 = set_func (task m) cb r"
  have r0: "slist_rep (job_list r0) xs"
    using assms(1) by (simp add: r0_def set_func_def)
  show ?thesis
  proof (cases "satisfied md wanted (state m)")
    case True
    define r1 where "r1 = runq_task_exec (task m) (funcs r0 (task m)) r0"
    define m1 where "m1 = m\<lparr>expected := wanted, mode := MAILBOX_WAIT_NONE\<rparr>"
    have "submit_if fm r0 = (m1, r1)"
      using True by (simp add: fm submit_if_def r1_def m1_def)
    moreover have "\<exists>m'. fold mailbox_raise ms (m1, r1) = (m', r1) \<and> mode m' = MAILBOX_WAIT_NONE"
      by (rule raise_all_idle) (simp add: m1_def)
    moreover have "slist_rep (job_list r1) (xs @ [task m])"
      using r0 assms by (simp add: r1_def runq_task_exec_rep)
    ultimately show ?thesis
      using True by (auto simp: r0_def satisfied_fold)
  next
    case False
    define m1 where "m1 = m\<lparr>expected := wanted, mode := md\<rparr>"
    have "submit_if fm r0 = (m1, r0)"
      using False by (simp add: fm submit_if_def m1_def)
    moreover have m1: "task m1 = task m" "mode m1 = md" "expected m1 = wanted" "state m1 = state m"
      by (simp_all add: m1_def)
    ultimately show ?thesis
      using raise_all_waiting [OF r0, of m1, unfolded m1] assms False by (simp add: r0_def)
  qed
qed

text \<open>
  A wait followed by any sequence of raises submits the task of the mailbox exactly once if the
  flags raised before and since meet the condition, and not at all otherwise; the order of the
  raises does not matter. \<open>mailbox_wait\<close> waits for any of the flags, \<open>mailbox_wait_all\<close> for all.
\<close>

theorem mailbox_wait_fires_once:
  assumes "mode m = MAILBOX_WAIT_NONE" "slist_rep (job_list r) xs" "task m \<notin> set xs" "task m \<noteq> NULL"
  shows "(\<exists>m' r'. fold mailbox_raise ms (mailbox_wait wanted cb (m, r)) = (m', r') \<and>
      slist_rep (job_list r') (if fold (OR) ms (state m) AND wanted \<noteq> 0 then xs @ [task m] else xs)) \<and>
    (\<exists>m' r'. fold mailbox_raise ms (mailbox_wait_all wanted cb (m, r)) = (m', r') \<and>
      slist_rep (job_list r') (if fold (OR) ms (state m) AND wanted = wanted then xs @ [task m] else xs))"
  using wait_then_raise [OF assms(2-4) wait_locked_eq(1) [OF assms(1)], where ms = ms and cb = cb]
    wait_then_raise [OF assms(2-4) wait_locked_eq(2) [OF assms(1)], where ms = ms and cb = cb]
  by (simp add: mailbox_wait_def mailbox_wait_all_def satisfied_def)

text \<open>An idle run queue without workers.\<close>

definition idle_runq :: runq where
  "idle_runq = snd (runq_init (\<lambda>_. 0) (\<lambda>_. 0) True [])"

lemma idle_runq_rep: "slist_rep (job_list idle_runq) []"
  by (simp add: idle_runq_def runq_init_def slist_init_rep)

theorem mailbox_wait_fires_once_witness:
  "\<exists>m' r'. fold mailbox_raise [1, 2] (mailbox_wait_all 3 7 (mailbox_init 9, idle_runq)) = (m', r') \<and>
     slist_rep (job_list r') [9]"
  using mailbox_wait_fires_once [OF _ idle_runq_rep, of "mailbox_init 9" "[1, 2]" 3 7] by (simp add: mailbox_init_def)

text \<open>
  A wait for the empty set never completes, whatever is raised, although the documentation of
  \<open>mailbox_wait\<close> says that it completes immediately.
\<close>

theorem mailbox_wait_empty_set:
  assumes "mode m = MAILBOX_WAIT_NONE" "slist_rep (job_list r) xs" "task m \<notin> set xs" "task m \<noteq> NULL"
  shows "\<exists>m' r'. fold mailbox_raise ms (mailbox_wait 0 cb (m, r)) = (m', r') \<and> slist_rep (job_list r') xs"
  using wait_then_raise [OF assms(2-4) wait_locked_eq(1) [OF assms(1)], where ms = ms and cb = cb and wanted = 0]
  by (simp add: mailbox_wait_def satisfied_def)

theorem mailbox_wait_empty_set_witness:
  "\<exists>m' r'. fold mailbox_raise [1, 0xFFFFFFFF] (mailbox_wait 0 7 (mailbox_init 9, idle_runq)) = (m', r') \<and>
     slist_rep (job_list r') []"
  using mailbox_wait_empty_set [OF _ idle_runq_rep, of "mailbox_init 9" "[1, 0xFFFFFFFF]" 7] by (simp add: mailbox_init_def)

section \<open>Producers and the consumer interleaved\<close>

text \<open>
  \<open>firing\<close> counts the threads that have decided to fire and have not submitted the task yet;
  \<open>outstanding\<close> says that the consumer has begun a wait whose callback has not run. The consumer
  respects the documented rule that the mailbox may only be raised in the meantime.
\<close>

record mb_sys =
  mb :: mailbox
  mq :: runq
  firing :: nat
  outstanding :: bool

abbreviation fires :: "bool \<Rightarrow> nat" where
  "fires b \<equiv> (if b then 1 else 0)"

inductive mb_step :: "mb_sys \<Rightarrow> mb_sys \<Rightarrow> bool" where
  raise: "raise_locked x (mb s) = (fire, m) \<Longrightarrow> mb_step s (s\<lparr>mb := m, firing := firing s + fires fire\<rparr>)"
| submit: "0 < firing s \<Longrightarrow> mb_step s (s\<lparr>firing := firing s - 1,
     mq := runq_task_exec (task (mb s)) (funcs (mq s) (task (mb s))) (mq s)\<rparr>)"
| wait: "\<not> outstanding s \<Longrightarrow> wait_locked w (mb s) = (fire, m) \<or> wait_all_locked w (mb s) = (fire, m) \<Longrightarrow>
     mb_step s (s\<lparr>mb := m, mq := set_func (task m) cb (mq s), outstanding := True, firing := firing s + fires fire\<rparr>)"
| take: "\<not> outstanding s \<Longrightarrow> mailbox_take x (mb s) = (st, m) \<Longrightarrow> mb_step s (s\<lparr>mb := m\<rparr>)"
| other: "slist_rep (job_list (mq s)) xs \<Longrightarrow> t \<notin> set xs \<Longrightarrow> t \<noteq> NULL \<Longrightarrow> t \<noteq> task (mb s) \<Longrightarrow>
     mb_step s (s\<lparr>mq := runq_task_exec t f (mq s)\<rparr>)"
| run: "run_one (mq s) = (1, t, r) \<Longrightarrow> mb_step s (s\<lparr>mq := r, outstanding := (outstanding s \<and> t \<noteq> task (mb s))\<rparr>)"

inductive mb_reach :: "mb_sys \<Rightarrow> bool" where
  start: "t \<noteq> NULL \<Longrightarrow> slist_rep (job_list r) xs \<Longrightarrow> t \<notin> set xs \<Longrightarrow>
     mb_reach \<lparr>mb = mailbox_init t, mq = r, firing = 0, outstanding = False\<rparr>"
| step: "mb_reach s \<Longrightarrow> mb_step s s' \<Longrightarrow> mb_reach s'"

text \<open>An outstanding wait is in exactly one of three places: waiting, firing, or queued.\<close>

definition mb_inv :: "mb_sys \<Rightarrow> addr list \<Rightarrow> bool" where
  "mb_inv s xs \<longleftrightarrow> slist_rep (job_list (mq s)) xs \<and> task (mb s) \<noteq> NULL \<and>
     fires (mode (mb s) \<noteq> MAILBOX_WAIT_NONE) + firing s + fires (task (mb s) \<in> set xs) = fires (outstanding s) \<and>
     \<not> satisfied (mode (mb s)) (expected (mb s)) (state (mb s))"

lemma satisfied_NONE [simp]: "\<not> satisfied MAILBOX_WAIT_NONE w st"
  by (simp add: satisfied_def)

lemma mb_step_inv: "mb_step s s' \<Longrightarrow> mb_inv s xs \<Longrightarrow> \<exists>ys. mb_inv s' ys"
proof (induction rule: mb_step.induct)
  case (raise x s fire m)
  have "mode (mb s) \<noteq> MAILBOX_WAIT_NONE" if fire
    using raise that by (auto simp: raise_locked_eq)
  with raise have "mb_inv (s\<lparr>mb := m, firing := firing s + fires fire\<rparr>) xs"
    by (auto simp: mb_inv_def raise_locked_eq split: if_splits)
  then show ?case ..
next
  case (submit s)
  then have "task (mb s) \<notin> set xs"
    by (auto simp: mb_inv_def split: if_splits)
  with submit have "mb_inv (s\<lparr>firing := firing s - 1,
     mq := runq_task_exec (task (mb s)) (funcs (mq s) (task (mb s))) (mq s)\<rparr>) (xs @ [task (mb s)])"
    by (auto simp: mb_inv_def runq_task_exec_rep split: if_splits)
  then show ?case ..
next
  case (wait s w fire m cb)
  then have "mode (mb s) = MAILBOX_WAIT_NONE"
    by (auto simp: mb_inv_def split: if_splits)
  then have "mb_inv (s\<lparr>mb := m, mq := set_func (task m) cb (mq s), outstanding := True, firing := firing s + fires fire\<rparr>) xs"
    using wait by (auto simp: mb_inv_def wait_locked_eq set_func_def split: if_splits)
  then show ?case ..
next
  case (take s x st m)
  then have "mode (mb s) = MAILBOX_WAIT_NONE"
    by (auto simp: mb_inv_def split: if_splits)
  then have "mb_inv (s\<lparr>mb := m\<rparr>) xs"
    using take by (auto simp: mb_inv_def mailbox_take_def)
  then show ?case ..
next
  case (other s ys t f)
  then have "ys = xs"
    using slist_rep_unique by (auto simp: mb_inv_def)
  with other have "mb_inv (s\<lparr>mq := runq_task_exec t f (mq s)\<rparr>) (xs @ [t])"
    by (auto simp: mb_inv_def runq_task_exec_rep)
  then show ?case ..
next
  case (run s t r)
  then have rep: "slist_rep (job_list (mq s)) xs"
    by (simp add: mb_inv_def)
  then show ?case
  proof (cases rule: run_one_result)
    case (task x ys q)
    have "x \<notin> set ys"
      using slist_fifo.rep_distinct [OF rep] task(2) by simp
    with task run have "mb_inv (s\<lparr>mq := r, outstanding := (outstanding s \<and> t \<noteq> task (mb s))\<rparr>) ys"
      by (auto simp: mb_inv_def split: if_splits)
    then show ?thesis ..
  qed (use run in auto)
qed

lemma mb_reach_inv: "mb_reach s \<Longrightarrow> \<exists>xs. mb_inv s xs"
proof (induction rule: mb_reach.induct)
  case (start t r xs)
  then have "mb_inv \<lparr>mb = mailbox_init t, mq = r, firing = 0, outstanding = False\<rparr> xs"
    by (simp add: mb_inv_def mailbox_init_def satisfied_def)
  then show ?case ..
next
  case (step s s')
  then show ?case using mb_step_inv by blast
qed

text \<open>When a wait has to complete, as \<^verbatim>\<open>mailbox.h\<close> says it: for any of the flags or the empty set, for all of the flags.\<close>

definition due :: "mailbox_wait_mode \<Rightarrow> u32 \<Rightarrow> u32 \<Rightarrow> bool" where
  "due md wanted st = (case md of
     MAILBOX_WAIT_NONE \<Rightarrow> False
   | MAILBOX_WAIT_ANY \<Rightarrow> wanted = 0 \<or> (\<exists>n < 32. bit wanted n \<and> bit st n)
   | MAILBOX_WAIT_ALL \<Rightarrow> (\<forall>n < 32. bit wanted n \<longrightarrow> bit st n))"

lemma satisfied_due: "satisfied md wanted st \<longleftrightarrow> due md wanted st" if "md = MAILBOX_WAIT_ANY \<Longrightarrow> wanted \<noteq> 0"
proof (cases md)
  case MAILBOX_WAIT_ANY
  have "st AND wanted \<noteq> 0 \<longleftrightarrow> (\<exists>n < 32. bit (st AND wanted) n)"
    using bit_imp_le_length [of "st AND wanted"] by (auto simp: bit_eq_iff)
  with MAILBOX_WAIT_ANY that show ?thesis
    by (auto simp: satisfied_def due_def bit_and_iff)
next
  case MAILBOX_WAIT_ALL
  have "st AND wanted = wanted \<longleftrightarrow> (\<forall>n < 32. bit (st AND wanted) n \<longleftrightarrow> bit wanted n)"
    using bit_imp_le_length [of wanted] by (auto simp: bit_eq_iff bit_and_iff)
  with MAILBOX_WAIT_ALL show ?thesis
    by (auto simp: satisfied_def due_def bit_and_iff)
qed (simp add: satisfied_def due_def)

text \<open>
  C11: under every interleaving of raising threads, the consumer and the run queue, unless the open wait is for
  any flag of the empty set, an outstanding wait is in exactly one place: the mailbox still waits and what \<^verbatim>\<open>mailbox.h\<close> asks
  for has not happened yet, or one thread is about to submit the task, or the task is queued. So a
  completion is neither lost nor duplicated, and a pending task is never submitted again. (Against
  \<^verbatim>\<open>mailbox.h\<close> a wait for any flag of the empty set never completes, see \<open>mailbox_wait_empty_set\<close>.)
\<close>

theorem mailbox_exactly_one_completion:
  assumes "mb_reach s" "mode (mb s) = MAILBOX_WAIT_ANY \<Longrightarrow> expected (mb s) \<noteq> 0"
  shows "\<exists>xs. slist_rep (job_list (mq s)) xs \<and>
    fires (mode (mb s) \<noteq> MAILBOX_WAIT_NONE) + firing s + fires (task (mb s) \<in> set xs) = fires (outstanding s) \<and>
    \<not> due (mode (mb s)) (expected (mb s)) (state (mb s))"
  using mb_reach_inv [OF assms(1)] satisfied_due [OF assms(2)] unfolding mb_inv_def by blast

definition mb_example :: mb_sys where
  "mb_example = \<lparr>mb = snd (wait_locked 4 (mailbox_init 9)), mq = set_func 9 7 idle_runq, firing = 0, outstanding = True\<rparr>"

lemma mb_example_reach: "mb_reach mb_example"
proof -
  let ?s = "\<lparr>mb = mailbox_init 9, mq = idle_runq, firing = 0, outstanding = False\<rparr>"
  have "mb_reach ?s"
    by (rule mb_reach.start [OF _ idle_runq_rep]) simp_all
  moreover have "mb_step ?s mb_example"
    using mb_step.wait [of ?s 4 False "snd (wait_locked 4 (mailbox_init 9))" 7]
    by (simp add: mb_example_def wait_locked_def mailbox_init_def)
  ultimately show ?thesis by (rule mb_reach.step)
qed

theorem mailbox_exactly_one_completion_witness:
  "\<exists>xs. slist_rep (job_list (mq mb_example)) xs \<and>
     fires (mode (mb mb_example) \<noteq> MAILBOX_WAIT_NONE) + firing mb_example + fires (task (mb mb_example) \<in> set xs) = 1"
proof -
  have "expected (mb mb_example) \<noteq> 0"
    by (simp add: mb_example_def wait_locked_def mailbox_init_def)
  then obtain xs where "slist_rep (job_list (mq mb_example)) xs" "fires (mode (mb mb_example) \<noteq> MAILBOX_WAIT_NONE) +
      firing mb_example + fires (task (mb mb_example) \<in> set xs) = fires (outstanding mb_example)"
    using mailbox_exactly_one_completion [OF mb_example_reach] by blast
  moreover have "outstanding mb_example" by (simp add: mb_example_def)
  ultimately show ?thesis by (intro exI [of _ xs]) simp
qed

end
