(* ===== verification/Dlb_Waitq.thy ===== *)
theory Dlb_Waitq
  imports Dlb_Mailbox Dlb_Rbt_Iter "HOL-Library.Product_Lexorder"
begin

text \<open>
  Wait queues (\<^verbatim>\<open>src/io/waitq.c\<close>): timers in a red-black tree ordered by deadline, which become tasks
  of a run queue when they expire. A timer, its tree node and its task are one address here; in C
  they are one structure. The deadlines are 64-bit clock ticks. Each function is one critical
  section followed by calls of the hook or of the run queue; the clock reading \<open>now\<close> is a parameter.
\<close>

section \<open>State and operations\<close>

record waitq =
  waiting_set :: rbt
  deadline :: "addr \<Rightarrow> u64"
  run :: runq
  wq_wakeup :: bool  \<comment> \<open>the hook is set\<close>
  wakeups :: nat  \<comment> \<open>how often it was called\<close>

text \<open>The key of a search is the timer itself, of which the comparison reads deadline and address.\<close>

definition cmp_by_deadline :: "(addr \<Rightarrow> u64) \<Rightarrow> u64 \<times> addr \<Rightarrow> addr \<Rightarrow> int" where
  "cmp_by_deadline dl kt nt =
     (if fst kt < dl nt then -1
      else if fst kt > dl nt then 1
      else if snd kt < nt then -1
      else if snd kt > nt then 1
      else 0)"

definition timer_key :: "(addr \<Rightarrow> u64) \<Rightarrow> addr \<Rightarrow> u64 \<times> addr" where
  "timer_key dl t = (dl t, t)"

definition waitq_init :: "rbt_heap \<Rightarrow> (addr \<Rightarrow> u64) \<Rightarrow> runq \<Rightarrow> waitq" where
  "waitq_init h dl r = \<lparr>waiting_set = rbt_init h, deadline = dl, run = r, wq_wakeup = False, wakeups = 0\<rparr>"

definition expire_one :: "u64 \<Rightarrow> waitq \<Rightarrow> (addr \<times> waitq) option" where
  "expire_one now wq = do {
     n \<leftarrow> rbt_iter_first (waiting_set wq);
     if n \<noteq> NULL then
       if deadline wq n > now then Some (NULL, wq)
       else do {
         t \<leftarrow> rbt_remove n (waiting_set wq);
         Some (n, wq\<lparr>waiting_set := t\<rparr>)
       }
     else Some (NULL, wq)
   }"

text \<open>The result is an int: the low 32 bits of the difference.\<close>

definition waitq_next_deadline :: "u64 \<Rightarrow> waitq \<Rightarrow> int option" where
  "waitq_next_deadline now wq = do {
     n \<leftarrow> rbt_iter_first (waiting_set wq);
     if n = NULL then Some (-1)
     else if deadline wq n < now then Some 0
     else Some (sint (ucast (deadline wq n - now) :: u32))
   }"

partial_function (option) waitq_dispatch_loop :: "nat \<Rightarrow> u64 \<Rightarrow> nat \<Rightarrow> waitq \<Rightarrow> (nat \<times> waitq) option" where
  "waitq_dispatch_loop limit now count wq =
     (if limit = 0 \<or> count < limit then do {
        (t, wq) \<leftarrow> expire_one now wq;
        if t = NULL then Some (count, wq)
        else waitq_dispatch_loop limit now (count + 1)
          (wq\<lparr>run := runq_task_exec t (funcs (run wq) t) (run wq)\<rparr>)
      } else Some (count, wq))"

declare waitq_dispatch_loop.simps [code]

definition waitq_dispatch :: "nat \<Rightarrow> u64 \<Rightarrow> waitq \<Rightarrow> (nat \<times> waitq) option" where
  "waitq_dispatch limit now wq = waitq_dispatch_loop limit now 0 wq"

definition call_wakeup :: "bool \<Rightarrow> waitq \<Rightarrow> waitq" where
  "call_wakeup need_wakeup wq =
     (if need_wakeup \<and> wq_wakeup wq then wq\<lparr>wakeups := wakeups wq + 1\<rparr> else wq)"

definition wset_add :: "addr \<Rightarrow> waitq \<Rightarrow> waitq option" where
  "wset_add t wq = do {
     (old, s) \<leftarrow> rbt_insert (cmp_by_deadline (deadline wq)) (timer_key (deadline wq) t) t (waiting_set wq);
     p \<leftarrow> rbt_iter_prev (fst s) t;
     Some (call_wakeup (p = NULL) (wq\<lparr>waiting_set := s\<rparr>))
   }"

definition wset_remove :: "addr \<Rightarrow> waitq \<Rightarrow> (bool \<times> waitq) option" where
  "wset_remove t wq = do {
     n \<leftarrow> rbt_find (cmp_by_deadline (deadline wq)) (timer_key (deadline wq) t) (waiting_set wq);
     if n \<noteq> NULL then do {
       s \<leftarrow> rbt_remove n (waiting_set wq);
       p \<leftarrow> rbt_iter_prev (fst s) n;
       Some (True, call_wakeup (p = NULL) (wq\<lparr>waiting_set := s\<rparr>))
     } else Some (False, wq)
   }"

text \<open>Intervals are ints, sign-extended when they are added to the clock.\<close>

definition waitq_timer_wait :: "addr \<Rightarrow> u32 \<Rightarrow> nat \<Rightarrow> u64 \<Rightarrow> waitq \<Rightarrow> waitq option" where
  "waitq_timer_wait t interval_ms func now wq =
     wset_add t (wq\<lparr>run := set_func t func (run wq), deadline := (deadline wq)(t := now + scast interval_ms)\<rparr>)"

definition waitq_timer_cancelled :: "addr \<Rightarrow> waitq \<Rightarrow> bool" where
  "waitq_timer_cancelled t wq \<longleftrightarrow> deadline wq t = 0"

definition waitq_timer_cancel :: "addr \<Rightarrow> waitq \<Rightarrow> waitq option" where
  "waitq_timer_cancel t wq = do {
     (removed, wq) \<leftarrow> wset_remove t wq;
     Some (if removed
       then wq\<lparr>deadline := (deadline wq)(t := 0), run := runq_task_exec t (funcs (run wq) t) (run wq)\<rparr>
       else wq)
   }"

definition waitq_timer_reschedule :: "addr \<Rightarrow> u32 \<Rightarrow> u64 \<Rightarrow> waitq \<Rightarrow> waitq option" where
  "waitq_timer_reschedule t interval_ms now wq = do {
     (removed, wq) \<leftarrow> wset_remove t wq;
     if removed then wset_add t (wq\<lparr>deadline := (deadline wq)(t := now + scast interval_ms)\<rparr>) else Some wq
   }"

section \<open>The timers as an ordered set of nodes\<close>

lemma cmp_by_deadline_compares: "compares (cmp_by_deadline dl) (timer_key dl)"
  by (auto simp: compares_def cmp_by_deadline_def timer_key_def less_prod_def')

interpretation timers: rbt_keys "cmp_by_deadline dl" "timer_key dl" for dl
  by unfold_locales (rule cmp_by_deadline_compares)

text \<open>The waiting timers, by deadline.\<close>

definition wq_rep :: "waitq \<Rightarrow> addr list \<Rightarrow> bool" where
  "wq_rep wq xs \<longleftrightarrow> rbt_holds (timer_key (deadline wq)) (waiting_set wq) xs"

lemma node_with_timer: "node_with (timer_key dl) (timer_key dl t) xs = (if t \<in> set xs then t else NULL)"
proof -
  have "find (\<lambda>a. timer_key dl a = timer_key dl t) xs = (if t \<in> set xs then Some t else None)"
    by (induction xs) (auto simp: timer_key_def)
  then show ?thesis by (simp add: node_with_def)
qed

lemma rbt_holds_cong:
  assumes "\<And>a. a \<in> set xs \<Longrightarrow> key' a = key a"
  shows "rbt_holds key' t xs = rbt_holds key t xs"
proof -
  have "ordered key' xs = ordered key xs"
    using assms by (induction xs) auto
  then show ?thesis
    by (auto simp: rbt_holds_def)
qed

lemma wq_rep_deadline:
  "t \<notin> set xs \<Longrightarrow> rbt_holds (timer_key (dl(t := d))) s xs = rbt_holds (timer_key dl) s xs"
  by (rule rbt_holds_cong) (auto simp: timer_key_def)

lemma wq_rep_sorted:
  assumes "wq_rep wq xs"
  shows "sorted (map (deadline wq) xs)" "NULL \<notin> set xs" "distinct xs"
proof -
  have ord: "ordered (timer_key (deadline wq)) xs" and "NULL \<notin> set xs"
    using timers.rep_ordered assms by (auto simp: wq_rep_def)
  then show "NULL \<notin> set xs" by simp
  have "sorted_wrt (\<lambda>a b. deadline wq a \<le> deadline wq b) xs"
    by (rule sorted_wrt_mono_rel [OF _ ord]) (auto simp: timer_key_def less_prod_def')
  then show "sorted (map (deadline wq) xs)"
    by (simp add: sorted_map)
  have "sorted_wrt (\<noteq>) xs"
    by (rule sorted_wrt_mono_rel [OF _ ord]) auto
  then show "distinct xs"
    by (induction xs) auto
qed

section \<open>Expiry\<close>

lemma expire_one_eq:
  assumes "wq_rep wq xs"
  shows "xs = [] \<or> now < deadline wq (hd xs) \<Longrightarrow> expire_one now wq = Some (NULL, wq)"
    "xs = x # ys \<Longrightarrow> deadline wq x \<le> now \<Longrightarrow>
       \<exists>s. expire_one now wq = Some (x, wq\<lparr>waiting_set := s\<rparr>) \<and> wq_rep (wq\<lparr>waiting_set := s\<rparr>) ys"
proof -
  note first = timers.least_law [OF assms [unfolded wq_rep_def]]
  show "xs = [] \<or> now < deadline wq (hd xs) \<Longrightarrow> expire_one now wq = Some (NULL, wq)"
    using first wq_rep_sorted(2) [OF assms] by (cases xs) (auto simp: expire_one_def)
  assume x: "xs = x # ys" "deadline wq x \<le> now"
  obtain s where "rbt_iter_first (waiting_set wq) = Some x" "x \<noteq> NULL" "rbt_remove x (waiting_set wq) = Some s"
      "rbt_holds (timer_key (deadline wq)) s ys"
    using timers.pop_least [of "deadline wq" "waiting_set wq" x ys] assms x by (auto simp: wq_rep_def)
  with x show "\<exists>s. expire_one now wq = Some (x, wq\<lparr>waiting_set := s\<rparr>) \<and> wq_rep (wq\<lparr>waiting_set := s\<rparr>) ys"
    by (intro exI [of _ s]) (simp add: expire_one_def wq_rep_def)
qed

lemma waitq_dispatch_loop_ok:
  "wq_rep wq xs \<Longrightarrow> slist_rep (job_list (run wq)) js \<Longrightarrow> set xs \<inter> set js = {} \<Longrightarrow> limit = 0 \<or> count \<le> limit \<Longrightarrow>
     e = length (takeWhile (\<lambda>t. deadline wq t \<le> now) xs) \<Longrightarrow> k = (if limit = 0 then e else min (limit - count) e) \<Longrightarrow>
     \<exists>wq'. waitq_dispatch_loop limit now count wq = Some (count + k, wq') \<and> wq_rep wq' (drop k xs) \<and>
       slist_rep (job_list (run wq')) (js @ take k xs) \<and> deadline wq' = deadline wq"
proof (induction xs arbitrary: wq js count e k)
  case Nil
  then show ?case
    using expire_one_eq(1) [OF Nil.prems(1)] by (subst waitq_dispatch_loop.simps) auto
next
  case (Cons x xs)
  show ?case
  proof (cases "(limit = 0 \<or> count < limit) \<and> deadline wq x \<le> now")
    case False
    then have "k = 0"
      using Cons.prems(4,5,6) by auto
    moreover have "waitq_dispatch_loop limit now count wq = Some (count, wq)"
      using expire_one_eq(1) [OF Cons.prems(1), of now] False by (subst waitq_dispatch_loop.simps) auto
    ultimately show ?thesis
      using Cons.prems(1,2) by simp
  next
    case True
    obtain s where s: "expire_one now wq = Some (x, wq\<lparr>waiting_set := s\<rparr>)" "wq_rep (wq\<lparr>waiting_set := s\<rparr>) xs"
      using expire_one_eq(2) [OF Cons.prems(1)] True by blast
    define wq1 where "wq1 = wq\<lparr>waiting_set := s, run := runq_task_exec x (funcs (run wq) x) (run wq)\<rparr>"
    note xs = wq_rep_sorted(2,3) [OF Cons.prems(1)]
    have loop: "waitq_dispatch_loop limit now count wq = waitq_dispatch_loop limit now (count + 1) wq1"
      using s(1) True xs(1) by (subst waitq_dispatch_loop.simps) (simp add: wq1_def)
    define e' where "e' = length (takeWhile (\<lambda>t. deadline wq1 t \<le> now) xs)"
    define k' where "k' = (if limit = 0 then e' else min (limit - (count + 1)) e')"
    have k: "k = Suc k'"
      using Cons.prems(5,6) True by (auto simp: k'_def e'_def wq1_def)
    have "wq_rep wq1 xs"
      using s(2) by (simp add: wq1_def wq_rep_def)
    moreover have "slist_rep (job_list (run wq1)) (js @ [x])"
      using Cons.prems(2,3) xs(1) by (simp add: wq1_def runq_task_exec_rep)
    moreover have "set xs \<inter> set (js @ [x]) = {}"
      using Cons.prems(3) xs(2) by auto
    ultimately obtain wq' where "waitq_dispatch_loop limit now (count + 1) wq1 = Some (count + 1 + k', wq')"
        "wq_rep wq' (drop k' xs)" "slist_rep (job_list (run wq')) ((js @ [x]) @ take k' xs)" "deadline wq' = deadline wq1"
      using Cons.IH [of wq1 "js @ [x]" "count + 1" e' k'] True by (auto simp: e'_def k'_def)
    then show ?thesis
      using loop k by (simp add: wq1_def)
  qed
qed

text \<open>
  C12: \<open>waitq_dispatch\<close> ends and moves the timers whose deadline has passed, earliest first and at most
  \<open>limit\<close> of them, to the end of the run queue; it returns their number, and the others keep waiting.
\<close>

theorem waitq_dispatch_correct:
  assumes "wq_rep wq xs" "slist_rep (job_list (run wq)) js" "set xs \<inter> set js = {}"
    and "e = length (takeWhile (\<lambda>t. deadline wq t \<le> now) xs)" "k = (if limit = 0 then e else min limit e)"
  shows "\<exists>wq'. waitq_dispatch limit now wq = Some (k, wq') \<and> wq_rep wq' (drop k xs) \<and>
    slist_rep (job_list (run wq')) (js @ take k xs)"
  using waitq_dispatch_loop_ok [OF assms(1-3), of limit 0 e now k] assms(4,5) by (auto simp: waitq_dispatch_def)

section \<open>Starting, cancelling and rescheduling a timer\<close>

definition place :: "(addr \<Rightarrow> u64) \<Rightarrow> addr \<Rightarrow> addr list \<Rightarrow> addr list" where
  "place dl t xs = filter (\<lambda>a. timer_key dl a < timer_key dl t) xs @ t # filter (\<lambda>a. timer_key dl t < timer_key dl a) xs"

lemma wset_add_eq:
  assumes "wq_rep wq xs" "t \<noteq> NULL" "t \<notin> set xs"
  shows "\<exists>s. wset_add t wq = Some (call_wakeup (hd (place (deadline wq) t xs) = t) (wq\<lparr>waiting_set := s\<rparr>)) \<and>
    wq_rep (wq\<lparr>waiting_set := s\<rparr>) (place (deadline wq) t xs)"
proof -
  obtain h' root' where r: "rbt_insert (cmp_by_deadline (deadline wq)) (timer_key (deadline wq) t) t (waiting_set wq) = Some (NULL, h', root')"
      "rbt_holds (timer_key (deadline wq)) (h', root') (place (deadline wq) t xs)"
    using timers.put_law [OF assms(1) [unfolded wq_rep_def] assms(2,3)] assms(3) by (auto simp: node_with_timer place_def)
  obtain u where "rbt_rep (h', root') u" "nodes u = place (deadline wq) t xs"
    using r(2) by (auto simp: rbt_holds_def)
  then have "rbt_iter_prev h' t = Some (last_of (filter (\<lambda>a. timer_key (deadline wq) a < timer_key (deadline wq) t) xs))"
    using rbt_iter_next_eq(2) by (simp add: place_def)
  moreover have "last_of ys = NULL \<longleftrightarrow> hd (ys @ t # zs) = t" if "NULL \<notin> set ys" "t \<notin> set ys" for ys zs
  proof (cases "ys = []")
    case False
    then have "last ys \<noteq> NULL" "hd ys \<noteq> t"
      using that last_in_set hd_in_set by metis+
    with False show ?thesis by (simp add: last_of_def)
  qed simp
  then have "last_of (filter (\<lambda>a. timer_key (deadline wq) a < timer_key (deadline wq) t) xs) = NULL \<longleftrightarrow>
      hd (place (deadline wq) t xs) = t"
    unfolding place_def using wq_rep_sorted(2) [OF assms(1)] assms(3) by (metis filter_is_subset subsetD)
  ultimately show ?thesis
    using r by (auto simp: wset_add_def wq_rep_def)
qed

text \<open>
  C29: \<open>waitq_timer_wait\<close> puts the timer into its place by deadline and calls the hook exactly when it
  has become the first to expire.
\<close>

theorem waitq_timer_wait_correct:
  assumes "wq_rep wq xs" "t \<noteq> NULL" "t \<notin> set xs" "dl = (deadline wq)(t := now + scast interval)"
  shows "\<exists>wq'. waitq_timer_wait t interval func now wq = Some wq' \<and> wq_rep wq' (place dl t xs) \<and> deadline wq' = dl \<and>
    funcs (run wq') t = func \<and>
    wakeups wq' = wakeups wq + (if hd (place dl t xs) = t \<and> wq_wakeup wq then 1 else 0)"
proof -
  define wq1 where "wq1 = wq\<lparr>run := set_func t func (run wq), deadline := dl\<rparr>"
  have "wq_rep wq1 xs"
    using assms wq_rep_deadline [OF assms(3)] by (simp add: wq1_def wq_rep_def)
  from wset_add_eq [OF this assms(2,3)] obtain s where
    "wset_add t wq1 = Some (call_wakeup (hd (place dl t xs) = t) (wq1\<lparr>waiting_set := s\<rparr>))"
    "wq_rep (wq1\<lparr>waiting_set := s\<rparr>) (place dl t xs)"
    by (auto simp: wq1_def)
  then show ?thesis
    using assms(4) by (auto simp: waitq_timer_wait_def wq1_def call_wakeup_def wq_rep_def set_func_def)
qed

text \<open>
  \<open>wset_remove\<close> asks for the predecessor of the node after it has been removed, through the stale
  pointers of the node. The lemmas below only need that this ends; what it returns matters for
  the hook alone.
\<close>

lemma find_timer:
  assumes "wq_rep wq xs" "NULL \<notin> set xs"
  shows "rbt_find (cmp_by_deadline (deadline wq)) (timer_key (deadline wq) t) (waiting_set wq) = Some (if t \<in> set xs then t else NULL)"
  using timers.look_law [OF assms(1) [unfolded wq_rep_def], of "timer_key (deadline wq) t"] by (simp add: node_with_timer)

text \<open>
  Cancelling a timer that is not waiting has no effect.
\<close>

lemma cancel_expired:
  assumes "wq_rep wq xs" "t \<notin> set xs"
  shows "waitq_timer_cancel t wq = Some wq" "waitq_timer_reschedule t interval now wq = Some wq"
  using find_timer [OF assms(1) wq_rep_sorted(2) [OF assms(1)], of t] assms(2)
  by (simp_all add: waitq_timer_cancel_def waitq_timer_reschedule_def wset_remove_def)

lemma wset_remove_eq:
  assumes "wq_rep wq xs" "t \<in> set xs"
  shows "\<exists>s need. wset_remove t wq = Some (True, call_wakeup need (wq\<lparr>waiting_set := s\<rparr>)) \<and>
    wq_rep (wq\<lparr>waiting_set := s\<rparr>) (remove1 t xs)"
proof -
  note xs = wq_rep_sorted(2) [OF assms(1)]
  obtain s p where "rbt_remove t (waiting_set wq) = Some s" "rbt_holds (timer_key (deadline wq)) s (remove1 t xs)"
      "rbt_iter_prev (fst s) t = Some p"
    using timers.del_then_prev [OF assms(1) [unfolded wq_rep_def] assms(2)] by blast
  moreover have "t \<noteq> NULL"
    using xs assms(2) by metis
  ultimately show ?thesis
    using find_timer [OF assms(1) xs, of t] assms(2)
    by (intro exI [of _ s] exI [of _ "p = NULL"]) (simp add: wset_remove_def wq_rep_def)
qed

lemma call_wakeup_simps [simp]:
  "waiting_set (call_wakeup b wq) = waiting_set wq" "deadline (call_wakeup b wq) = deadline wq"
  "run (call_wakeup b wq) = run wq" "wq_rep (call_wakeup b wq) xs = wq_rep wq xs"
  by (simp_all add: call_wakeup_def wq_rep_def)

text \<open>
  C30: \<open>waitq_timer_cancel\<close> on a waiting timer takes exactly this timer out of the queue, marks it as
  cancelled and submits its task behind the other tasks, so that its callback runs at once and
  can see that it was cancelled. On a timer that is not waiting it has no effect.
\<close>

theorem waitq_timer_cancel_correct:
  assumes "wq_rep wq xs" "slist_rep (job_list (run wq)) js" "t \<noteq> NULL" "t \<notin> set js"
  shows "\<exists>wq'. waitq_timer_cancel t wq = Some wq' \<and> wq_rep wq' (remove1 t xs) \<and>
    (if t \<in> set xs then waitq_timer_cancelled t wq' \<and> slist_rep (job_list (run wq')) (js @ [t]) else wq' = wq)"
proof (cases "t \<in> set xs")
  case True
  then obtain s need where s: "wset_remove t wq = Some (True, call_wakeup need (wq\<lparr>waiting_set := s\<rparr>))"
      "wq_rep (wq\<lparr>waiting_set := s\<rparr>) (remove1 t xs)"
    using wset_remove_eq [OF assms(1)] by blast
  define wq1 where "wq1 = call_wakeup need (wq\<lparr>waiting_set := s\<rparr>)"
  define wq' where "wq' = wq1\<lparr>deadline := (deadline wq1)(t := 0), run := runq_task_exec t (funcs (run wq1) t) (run wq1)\<rparr>"
  have "t \<notin> set (remove1 t xs)"
    using wq_rep_sorted(3) [OF assms(1)] by simp
  then have "wq_rep wq' (remove1 t xs)"
    using s(2) by (simp add: wq'_def wq1_def wq_rep_def wq_rep_deadline)
  moreover have "slist_rep (job_list (run wq')) (js @ [t])"
    using assms by (simp add: wq'_def wq1_def runq_task_exec_rep)
  moreover have "waitq_timer_cancel t wq = Some wq'"
    using s(1) by (simp add: waitq_timer_cancel_def wq'_def wq1_def)
  ultimately show ?thesis
    using True by (simp add: wq'_def waitq_timer_cancelled_def)
next
  case False
  then show ?thesis
    using cancel_expired(1) [OF assms(1)] assms(1) by (simp add: remove1_idem)
qed

text \<open>
  \<open>waitq_timer_reschedule\<close> on a waiting timer moves exactly this timer to the place of its new
  deadline; on a timer that is not waiting it has no effect.
\<close>

theorem waitq_timer_reschedule_correct:
  assumes "wq_rep wq xs" "t \<noteq> NULL" "dl = (deadline wq)(t := now + scast interval)"
  shows "\<exists>wq'. waitq_timer_reschedule t interval now wq = Some wq' \<and>
    (if t \<in> set xs then wq_rep wq' (place dl t (remove1 t xs)) \<and> deadline wq' = dl else wq' = wq)"
proof (cases "t \<in> set xs")
  case True
  then obtain s need where s: "wset_remove t wq = Some (True, call_wakeup need (wq\<lparr>waiting_set := s\<rparr>))"
      "wq_rep (wq\<lparr>waiting_set := s\<rparr>) (remove1 t xs)"
    using wset_remove_eq [OF assms(1)] by blast
  define wq1 where "wq1 = (call_wakeup need (wq\<lparr>waiting_set := s\<rparr>))\<lparr>deadline := dl\<rparr>"
  have t: "t \<notin> set (remove1 t xs)"
    using wq_rep_sorted(3) [OF assms(1)] by simp
  then have "wq_rep wq1 (remove1 t xs)"
    using s(2) assms(3) by (simp add: wq1_def wq_rep_def wq_rep_deadline)
  from wset_add_eq [OF this assms(2) t] obtain s2 where
    "wset_add t wq1 = Some (call_wakeup (hd (place dl t (remove1 t xs)) = t) (wq1\<lparr>waiting_set := s2\<rparr>))"
    "wq_rep (wq1\<lparr>waiting_set := s2\<rparr>) (place dl t (remove1 t xs))"
    by (auto simp: wq1_def)
  moreover have "waitq_timer_reschedule t interval now wq = wset_add t wq1"
    using s(1) assms(3) by (simp add: waitq_timer_reschedule_def wq1_def)
  ultimately show ?thesis
    using True by (simp add: wq1_def)
next
  case False
  then show ?thesis
    using cancel_expired(2) [OF assms(1)] by simp
qed

section \<open>Three timers\<close>

text \<open>Timers 1, 2 and 3 expire at 10, 20 and 30; the hook is set and no task is submitted.\<close>

definition three_timers :: waitq where
  "three_timers = \<lparr>waiting_set = (three_heap, 2), deadline = (\<lambda>a. of_nat (10 * a)),
     run = \<lparr>job_list = (\<lambda>_. 0, slist_init), quit_request = False, workers = [], hook = False, hook_calls = 0, funcs = (\<lambda>_. 0)\<rparr>,
     wq_wakeup = True, wakeups = 0\<rparr>"

lemma three_timers_rep: "wq_rep three_timers [1, 2, 3]" "slist_rep (job_list (run three_timers)) []"
proof -
  have "ordered (timer_key (deadline three_timers)) [1, 2, 3]"
    by (simp add: three_timers_def timer_key_def less_prod_def')
  then show "wq_rep three_timers [1, 2, 3]"
    unfolding wq_rep_def rbt_holds_def using three_ok
    by (intro exI [of _ three_tree] exI [of _ three_sums]) (simp add: three_timers_def)
  show "slist_rep (job_list (run three_timers)) []"
    by (simp add: three_timers_def slist_init_rep)
qed

lemma three_timers_wakeup: "wq_wakeup three_timers" "deadline three_timers (Suc 0) = 10" "deadline three_timers 2 = 20"
    "deadline three_timers 3 = 30" "wakeups three_timers = 0"
  by (simp_all add: three_timers_def)

theorem waitq_dispatch_correct_witness:
  "\<exists>wq'. waitq_dispatch 0 25 three_timers = Some (2, wq') \<and> wq_rep wq' [3] \<and> slist_rep (job_list (run wq')) [1, 2]"
  using waitq_dispatch_correct [OF three_timers_rep _ refl refl, where now = 25 and limit = 0]
  by (simp add: three_timers_wakeup numeral_2_eq_2 [symmetric])

theorem waitq_timer_wait_correct_witness:
  "\<exists>wq'. waitq_timer_wait 4 5 7 10 three_timers = Some wq' \<and> wq_rep wq' [1, 4, 2, 3] \<and> wakeups wq' = 0"
  using waitq_timer_wait_correct [OF three_timers_rep(1) _ _ refl, where t = 4 and now = 10 and interval = 5 and func = 7]
  by (auto simp: place_def timer_key_def less_prod_def' three_timers_wakeup)

theorem waitq_timer_cancel_correct_witness:
  "\<exists>wq'. waitq_timer_cancel 2 three_timers = Some wq' \<and> wq_rep wq' [1, 3] \<and> waitq_timer_cancelled 2 wq' \<and>
    slist_rep (job_list (run wq')) [2]"
  using waitq_timer_cancel_correct [OF three_timers_rep, of 2] by auto

theorem waitq_timer_reschedule_correct_witness:
  "\<exists>wq'. waitq_timer_reschedule 1 100 10 three_timers = Some wq' \<and> wq_rep wq' [2, 3, 1] \<and> deadline wq' 1 = 110"
  using waitq_timer_reschedule_correct [OF three_timers_rep(1) _ refl, where t = 1 and now = 10 and interval = 100]
  by (auto simp: place_def timer_key_def less_prod_def' three_timers_wakeup)

text \<open>
  Cancelling timer 1, which is a left child, changes the time of the next expiry from 10 to 20. The
  hook is set, but it is not called: the predecessor is read from the removed node, whose
  parent pointer is 2.
\<close>

lemma cancel_misses_wakeup:
  "waitq_next_deadline 0 three_timers = Some 10"
  "map_option (\<lambda>wq'. (wakeups wq', waitq_next_deadline 0 wq')) (waitq_timer_cancel 1 three_timers) = Some (0, Some 20)"
  by code_simp+

text \<open>
  The time to the next expiry, for a difference that fits an int.
\<close>

lemma waitq_next_deadline_eq:
  assumes "wq_rep wq xs" "xs \<noteq> [] \<Longrightarrow> uint (deadline wq (hd xs)) - uint now < 2 ^ 31"
  shows "waitq_next_deadline now wq = Some (if xs = [] then -1 else max 0 (uint (deadline wq (hd xs)) - uint now))"
proof (cases xs)
  case Nil
  then show ?thesis
    using timers.least_law [OF assms(1) [unfolded wq_rep_def]] by (simp add: waitq_next_deadline_def)
next
  case (Cons x ys)
  define d where "d = deadline wq x"
  have first: "rbt_iter_first (waiting_set wq) = Some x" "x \<noteq> NULL"
    using timers.least_law [OF assms(1) [unfolded wq_rep_def]] wq_rep_sorted(2) [OF assms(1)] Cons by auto
  show ?thesis
  proof (cases "d < now")
    case True
    then show ?thesis
      using first Cons by (simp add: waitq_next_deadline_def d_def word_less_def)
  next
    case False
    then have "uint (d - now) = uint d - uint now"
      by (simp add: uint_sub_lem [THEN iffD1] word_le_def not_less)
    moreover have "uint d - uint now < 2 ^ 31" "0 \<le> uint d - uint now"
      using assms(2) Cons False by (simp_all add: d_def word_le_def not_less)
    ultimately have "sint (ucast (d - now) :: u32) = uint d - uint now"
      by (simp add: sint_uint uint_up_ucast signed_take_bit_int_eq_self take_bit_int_eq_self unsigned_ucast_eq)
    then show ?thesis
      using first Cons False \<open>0 \<le> uint d - uint now\<close> by (simp add: waitq_next_deadline_def d_def)
  qed
qed

end
