(* ===== verification/Dlb_Alloc.thy ===== *)
theory Dlb_Alloc
  imports Dlb_Prelude
begin

text \<open>
  The contract of a memory allocator as its clients see it, and what follows from it for every client
  that uses it only through its two operations. The arena and the slab allocator provide it.
\<close>

text \<open>The blocks of the clients lie in the given region and do not overlap.\<close>

definition separated :: "addr \<Rightarrow> nat \<Rightarrow> (addr \<rightharpoonup> nat) \<Rightarrow> bool" where
  "separated base n L \<longleftrightarrow> (\<forall>p c. L p = Some c \<longrightarrow> base \<le> p \<and> p + c \<le> base + n) \<and>
     (\<forall>p c q d. L p = Some c \<longrightarrow> L q = Some d \<longrightarrow> p < q \<longrightarrow> p + c \<le> q)"

text \<open>
  The interface: an allocator keeps an invariant that relates its state to the capacities it has
  handed out. A client that uses it only through \<open>alloc\<close> and \<open>dealloc\<close> never gets overlapping blocks.
\<close>

locale allocator =
  fixes inv :: "'s \<Rightarrow> (addr \<rightharpoonup> nat) \<Rightarrow> bool"
    and alloc :: "nat \<Rightarrow> 's \<Rightarrow> addr \<times> 's"
    and dealloc :: "addr \<Rightarrow> 's \<Rightarrow> 's"
    and region :: "'s \<Rightarrow> addr \<times> nat"
    and limit :: nat
  assumes alloc_law: "inv s L \<Longrightarrow> alloc n s = (p, s') \<Longrightarrow>
      region s' = region s \<and> (p = NULL \<longrightarrow> s' = s) \<and>
      (p \<noteq> NULL \<longrightarrow> L p = None \<and> (\<exists>c. inv s' (L(p \<mapsto> c)) \<and> (n \<le> limit \<longrightarrow> n \<le> c)))"
    and dealloc_law: "inv s L \<Longrightarrow> p \<in> dom L \<Longrightarrow> region (dealloc p s) = region s \<and> inv (dealloc p s) (L(p := None))"
    and inv_separated: "inv s L \<Longrightarrow> separated (fst (region s)) (snd (region s)) L"

datatype heap_op = Malloc nat | Release addr

text \<open>A client that records the size of every block it holds and releases only those.\<close>

fun run_ops :: "(nat \<Rightarrow> 's \<Rightarrow> addr \<times> 's) \<Rightarrow> (addr \<Rightarrow> 's \<Rightarrow> 's) \<Rightarrow> heap_op list \<Rightarrow> 's \<Rightarrow> (addr \<rightharpoonup> nat) \<Rightarrow> 's \<times> (addr \<rightharpoonup> nat)" where
  "run_ops alloc dealloc [] s H = (s, H)"
| "run_ops alloc dealloc (Malloc n # ops) s H =
     (case alloc n s of (p, s') \<Rightarrow> run_ops alloc dealloc ops s' (if p = NULL then H else H(p \<mapsto> n)))"
| "run_ops alloc dealloc (Release p # ops) s H =
     (if H p = None then run_ops alloc dealloc ops s H else run_ops alloc dealloc ops (dealloc p s) (H(p := None)))"

context allocator
begin

definition holds :: "'s \<Rightarrow> (addr \<rightharpoonup> nat) \<Rightarrow> bool" where
  "holds s H \<longleftrightarrow> (\<exists>L. inv s L \<and> dom L = dom H \<and> (\<forall>p n c. H p = Some n \<longrightarrow> L p = Some c \<longrightarrow> n \<le> c))"

lemma holds_separated: "holds s H \<Longrightarrow> separated (fst (region s)) (snd (region s)) H"
proof -
  assume "holds s H"
  then obtain L where L: "inv s L" "dom L = dom H" "\<And>p n c. H p = Some n \<Longrightarrow> L p = Some c \<Longrightarrow> n \<le> c"
    by (auto simp: holds_def)
  have cap: "\<exists>c. L p = Some c \<and> n \<le> c" if "H p = Some n" for p n
    using L(2,3) that by (metis domD domI)
  show ?thesis
    using inv_separated [OF L(1)] unfolding separated_def
    by (meson add_left_mono cap le_trans)
qed

lemma run_ops_holds:
  "holds s H \<Longrightarrow> \<forall>n. Malloc n \<in> set ops \<longrightarrow> n \<le> limit \<Longrightarrow> run_ops alloc dealloc ops s H = (s', H') \<Longrightarrow>
     holds s' H' \<and> region s' = region s"
proof (induction ops arbitrary: s H)
  case (Cons x ops)
  obtain L where L: "inv s L" "dom L = dom H" "\<And>p n c. H p = Some n \<Longrightarrow> L p = Some c \<Longrightarrow> n \<le> c"
    using Cons.prems(1) by (auto simp: holds_def)
  show ?case
  proof (cases x)
    case (Malloc n)
    obtain p s1 where a: "alloc n s = (p, s1)" by force
    have "holds s1 (if p = NULL then H else H(p \<mapsto> n))"
    proof (cases "p = NULL")
      case True
      with alloc_law [OF L(1) a] Cons.prems(1) show ?thesis by simp
    next
      case False
      then obtain c where "inv s1 (L(p \<mapsto> c))" "n \<le> c"
        using alloc_law [OF L(1) a] Cons.prems(2) Malloc by auto
      with False L(2,3) show ?thesis
        unfolding holds_def by (intro exI [of _ "L(p \<mapsto> c)"]) auto
    qed
    with Cons.IH [of s1] Cons.prems(2,3) Malloc a alloc_law [OF L(1) a] show ?thesis by auto
  next
    case (Release p)
    show ?thesis
    proof (cases "H p = None")
      case True
      with Cons Release show ?thesis by simp
    next
      case False
      then have d: "region (dealloc p s) = region s" "inv (dealloc p s) (L(p := None))"
        using dealloc_law [OF L(1), of p] L(2) by auto
      then have "holds (dealloc p s) (H(p := None))"
        using L(2,3) unfolding holds_def by (intro exI [of _ "L(p := None)"]) auto
      with Cons.IH [of "dealloc p s"] Cons.prems(2,3) Release False d(1) show ?thesis by auto
    qed
  qed
qed simp

end

end
