(* ===== verification/Dlb_Arena.thy ===== *)
theory Dlb_Arena
  imports Dlb_Cbuf Dlb_Alloc
begin

unbundle bit_operations_syntax

text \<open>
  The buddy allocator (\<^verbatim>\<open>src/src/arena.c\<close>). The block headers are a heap of records and the bytes of
  the caller are the flat memory of the circular buffers; a header takes up 24 bytes in front of
  the bytes of its block. The header writes of the allocator are shown to stay away from the bytes
  of the allocated blocks, so keeping both apart loses nothing.
\<close>

section \<open>State and operations\<close>

record arena_block =
  prev_blk :: addr
  next_blk :: addr
  order :: nat
  is_free :: bool

type_synonym block_heap = "addr \<Rightarrow> arena_block"

record arena =
  abase :: addr
  asize :: nat
  ablocks :: "nat \<Rightarrow> addr"  \<comment> \<open>\<open>ARENA_ORDERS\<close> list heads\<close>

type_synonym arena_state = "arena \<times> block_heap"

definition ARENA_ORDERS :: nat where
  "ARENA_ORDERS = 32"

definition BLOCK_SIZE :: nat where  \<comment> \<open>\<open>sizeof(struct arena_block)\<close> on a 64-bit machine\<close>
  "BLOCK_SIZE = 24"

text \<open>The int \<open>1 << n\<close> converted to \<open>size_t\<close>: for 31 it is negative and is sign-extended.\<close>

definition one_shl :: "nat \<Rightarrow> nat" where
  "one_shl n = (if n = 31 then 2 ^ 64 - 2 ^ 31 else 2 ^ n)"

definition block_link :: "nat \<Rightarrow> addr \<Rightarrow> arena_state \<Rightarrow> arena_state" where
  "block_link od blk = (\<lambda>(a, h).
     let h = h(blk := (h blk)\<lparr>next_blk := ablocks a od, prev_blk := NULL\<rparr>);
         h = (if next_blk (h blk) \<noteq> NULL then h(next_blk (h blk) := (h (next_blk (h blk)))\<lparr>prev_blk := blk\<rparr>) else h)
     in (a\<lparr>ablocks := (ablocks a)(od := blk)\<rparr>, h))"

definition block_unlink :: "nat \<Rightarrow> addr \<Rightarrow> arena_state \<Rightarrow> arena_state" where
  "block_unlink od blk = (\<lambda>(a, h).
     let h = (if next_blk (h blk) \<noteq> NULL
              then h(next_blk (h blk) := (h (next_blk (h blk)))\<lparr>prev_blk := prev_blk (h blk)\<rparr>) else h)
     in if prev_blk (h blk) \<noteq> NULL
        then (a, h(prev_blk (h blk) := (h (prev_blk (h blk)))\<lparr>next_blk := next_blk (h blk)\<rparr>))
        else (a\<lparr>ablocks := (ablocks a)(od := next_blk (h blk))\<rparr>, h))"

definition set_header :: "addr \<Rightarrow> nat \<Rightarrow> arena_state \<Rightarrow> arena_state" where
  "set_header blk od = (\<lambda>(a, h). (a, h(blk := (h blk)\<lparr>is_free := True, order := od\<rparr>)))"

lemma one_shl_pos: "0 < one_shl n"
  by (simp add: one_shl_def)

function init_loop :: "nat \<Rightarrow> addr \<Rightarrow> nat \<Rightarrow> arena_state \<Rightarrow> arena_state" where
  "init_loop od base sz st =
     (if one_shl od < BLOCK_SIZE then st
      else if one_shl od > sz then init_loop (od - 1) base sz st
      else init_loop od (base + one_shl od) (sz - one_shl od) (block_link od base (set_header base od st)))"
  by pat_completeness auto
termination
proof (relation "measure (\<lambda>(od, base, sz, st). od + sz)", goal_cases)
  case (2 od base sz st)
  then have "od \<noteq> 0"
    by (cases od) (auto simp: one_shl_def BLOCK_SIZE_def)
  then show ?case by simp
next
  case (3 od base sz st)
  then show ?case using one_shl_pos [of od] by simp
qed simp

definition arena_init :: "addr \<Rightarrow> nat \<Rightarrow> block_heap \<Rightarrow> arena_state" where
  "arena_init base sz h =
     init_loop (ARENA_ORDERS - 1) base sz (\<lparr>abase = base, asize = sz, ablocks = (\<lambda>_. NULL)\<rparr>, h)"

function order_loop :: "nat \<Rightarrow> nat \<Rightarrow> nat" where
  "order_loop od sz = (if od < ARENA_ORDERS \<and> one_shl od < sz + BLOCK_SIZE then order_loop (od + 1) sz else od)"
  by pat_completeness auto
termination
  by (relation "measure (\<lambda>(od, sz). ARENA_ORDERS - od)") auto

function fit_loop :: "nat \<Rightarrow> arena \<Rightarrow> nat" where
  "fit_loop i a = (if i < ARENA_ORDERS \<and> ablocks a i = NULL then fit_loop (i + 1) a else i)"
  by pat_completeness auto
termination
  by (relation "measure (\<lambda>(i, a). ARENA_ORDERS - i)") auto

text \<open>One turn of the splitting loop, which lowers \<open>i\<close> to \<open>j\<close>.\<close>

definition split_block :: "nat \<Rightarrow> arena_state \<Rightarrow> arena_state" where
  "split_block j st =
     (let b = ablocks (fst st) (Suc j);
          c = b + one_shl j;
          st = block_unlink (Suc j) b st;
          st = set_header c j st;
          st = (fst st, (snd st)(b := (snd st b)\<lparr>order := j\<rparr>))
      in block_link j c (block_link j b st))"

fun split_loop :: "nat \<Rightarrow> nat \<Rightarrow> arena_state \<Rightarrow> arena_state" where
  "split_loop 0 od st = st"
| "split_loop (Suc j) od st = (if Suc j > od then split_loop j od (split_block j st) else st)"

definition arena_alloc :: "nat \<Rightarrow> arena_state \<Rightarrow> addr \<times> arena_state" where
  "arena_alloc sz st =
     (if drop_bit (ARENA_ORDERS - 1) sz \<noteq> 0 then (NULL, st)
      else let od = order_loop 1 sz in
        if od \<ge> ARENA_ORDERS then (NULL, st)
        else let i = fit_loop od (fst st) in
          if i \<ge> ARENA_ORDERS then (NULL, st)
          else
            (let st = split_loop i od st;
                 b = ablocks (fst st) od;
                 (a, h) = block_unlink od b st
             in (b + BLOCK_SIZE, a, h(b := (h b)\<lparr>is_free := False\<rparr>))))"

definition buddy_of :: "addr \<Rightarrow> addr \<Rightarrow> nat \<Rightarrow> addr" where
  "buddy_of base b od = base + ((b - base) XOR one_shl od)"

function join_loop :: "nat \<Rightarrow> addr \<Rightarrow> arena_state \<Rightarrow> arena_state" where
  "join_loop od b st =
     (if od + 1 < ARENA_ORDERS then
        (let c = buddy_of (abase (fst st)) b od in
         if c + BLOCK_SIZE > abase (fst st) + asize (fst st) then st
         else if \<not> is_free (snd st c) \<or> order (snd st c) \<noteq> od then st
         else
           (let (b, c) = (if b > c then (c, b) else (b, c));
                (a, h) = block_unlink od c (block_unlink od b st);
                h = h(b := (h b)\<lparr>order := od + 1\<rparr>)
            in join_loop (od + 1) b (block_link (od + 1) b (a, h))))
      else st)"
  by pat_completeness auto
termination
  by (relation "measure (\<lambda>(od, b, st). ARENA_ORDERS - od)") auto

definition arena_free :: "addr \<Rightarrow> arena_state \<Rightarrow> arena_state" where
  "arena_free ptr = (\<lambda>(a, h).
     if ptr = NULL then (a, h)
     else
       (let b = ptr - BLOCK_SIZE;
            od = order (h b)
        in join_loop od b (block_link od b (a, h(b := (h b)\<lparr>is_free := True\<rparr>)))))"

definition arena_realloc :: "addr \<Rightarrow> nat \<Rightarrow> arena_state \<Rightarrow> mem \<Rightarrow> addr \<times> arena_state \<times> mem" where
  "arena_realloc ptr sz st m =
     (let b = ptr - BLOCK_SIZE in
      if ptr = NULL then (case arena_alloc sz st of (p, st) \<Rightarrow> (p, st, m))
      else if drop_bit (ARENA_ORDERS - 1) sz \<noteq> 0 then (NULL, st, m)
      else let od = order_loop 1 sz in
        if od \<ge> ARENA_ORDERS then (NULL, st, m)
        else if order (snd st b) = od \<or> od + 1 = order (snd st b) then (ptr, st, m)
        else
          (case arena_alloc sz st of (new_ptr, st) \<Rightarrow>
             if new_ptr = NULL then (NULL, st, m)
             else
               (let copy_size = one_shl (order (snd st b)) - BLOCK_SIZE;
                    copy_size = (if copy_size > sz then sz else copy_size)
                in (new_ptr, arena_free ptr st, memcpy new_ptr ptr copy_size m))))"

partial_function (option) count_list :: "block_heap \<Rightarrow> addr \<Rightarrow> nat \<Rightarrow> nat option" where
  "count_list h b c = (if b = NULL then Some c else count_list h (next_blk (h b)) (c + 1))"

declare count_list.simps [code]

fun count_loop :: "nat list \<Rightarrow> nat \<Rightarrow> arena_state \<Rightarrow> nat option" where
  "count_loop [] count st = Some count"
| "count_loop (i # is) count st =
     (case count_list (snd st) (ablocks (fst st) i) 0 of None \<Rightarrow> None
      | Some c \<Rightarrow> count_loop is (wrap64 (count + c * wrap64 (one_shl i + 2 ^ 64 - BLOCK_SIZE))) st)"

definition arena_count_free :: "arena_state \<Rightarrow> nat option" where
  "arena_count_free st = count_loop [0..<ARENA_ORDERS] 0 st"

section \<open>Block maps\<close>

text \<open>
  The blocks of an arena: a map from offsets to order and free flag. The blocks are aligned to their
  size, disjoint, and cover every aligned 32 bytes of the arena.
\<close>

type_synonym bmap = "nat \<rightharpoonup> nat \<times> bool"

definition covers :: "nat \<Rightarrow> nat \<Rightarrow> nat \<Rightarrow> bool" where
  "covers x k y \<longleftrightarrow> x \<le> y \<and> y < x + 2 ^ k"

definition aligned :: "nat \<Rightarrow> bmap \<Rightarrow> bool" where
  "aligned n B \<longleftrightarrow> (\<forall>x k f. B x = Some (k, f) \<longrightarrow> 5 \<le> k \<and> k < ARENA_ORDERS \<and> 2 ^ k dvd x \<and> x + 2 ^ k \<le> n)"

definition apart :: "bmap \<Rightarrow> bool" where
  "apart B \<longleftrightarrow> (\<forall>x k f y l g. B x = Some (k, f) \<longrightarrow> B y = Some (l, g) \<longrightarrow> x < y \<longrightarrow> x + 2 ^ k \<le> y)"

definition covered :: "nat \<Rightarrow> bmap \<Rightarrow> bool" where
  "covered n B \<longleftrightarrow> (\<forall>y. 32 dvd y \<longrightarrow> y + 32 \<le> n \<longrightarrow> (\<exists>x k f. B x = Some (k, f) \<and> covers x k y))"

definition tiled :: "nat \<Rightarrow> bmap \<Rightarrow> bool" where
  "tiled n B \<longleftrightarrow> aligned n B \<and> apart B \<and> covered n B"

lemma tiledD:
  assumes "tiled n B" "B x = Some (k, f)"
  shows "5 \<le> k" "k < ARENA_ORDERS" "2 ^ k dvd x" "x + 2 ^ k \<le> n"
  using assms by (auto simp: tiled_def aligned_def)

lemma tiled_apart: "tiled n B \<Longrightarrow> B x = Some (k, f) \<Longrightarrow> B y = Some (l, g) \<Longrightarrow> x < y \<Longrightarrow> x + 2 ^ k \<le> y"
  by (auto simp: tiled_def apart_def)

lemma tiled_flag:
  assumes "tiled n B" "B x = Some (k, f)"
  shows "tiled n (B(x \<mapsto> (k, g)))"
proof -
  have "covered n (B(x \<mapsto> (k, g)))"
    unfolding covered_def
  proof (intro allI impI)
    fix y :: nat assume "32 dvd y" "y + 32 \<le> n"
    then obtain z l e where z: "B z = Some (l, e)" "covers z l y"
      using assms(1) by (auto simp: tiled_def covered_def)
    then show "\<exists>x' k' f'. (B(x \<mapsto> (k, g))) x' = Some (k', f') \<and> covers x' k' y"
      using assms(2) by (intro exI [of _ z] exI [of _ l] exI [of _ "if z = x then g else e"]) auto
  qed
  moreover have "apart (B(x \<mapsto> (k, g)))"
    using assms by (auto simp: tiled_def apart_def split: if_splits)
  moreover have "aligned n (B(x \<mapsto> (k, g)))"
    using assms by (auto simp: tiled_def aligned_def)
  ultimately show ?thesis by (simp add: tiled_def)
qed

lemma tiled_split:
  assumes "tiled n B" "B x = Some (Suc k, f)" "5 \<le> k"
  shows "tiled n (B(x \<mapsto> (k, g), x + 2 ^ k \<mapsto> (k, g')))" "B (x + 2 ^ k) = None"
proof -
  note D = tiledD [OF assms(1,2)]
  have new: "B (x + 2 ^ k) = None"
  proof (rule ccontr)
    assume "B (x + 2 ^ k) \<noteq> None"
    then obtain l e where "B (x + 2 ^ k) = Some (l, e)" by auto
    from tiled_apart [OF assms(1,2) this] show False by simp
  qed
  then show "B (x + 2 ^ k) = None" .
  let ?B = "B(x \<mapsto> (k, g), x + 2 ^ k \<mapsto> (k, g'))"
  have "aligned n ?B"
    using assms D by (auto simp: tiled_def aligned_def elim: dvd_mult_left [of 2 "2 ^ k"] intro: dvd_trans [of "2 ^ k" "2 ^ Suc k"])
  moreover have "apart ?B"
    unfolding apart_def
  proof (intro allI impI)
    fix y l e z m c assume y: "?B y = Some (l, e)" and z: "?B z = Some (m, c)" and "y < z"
    have below: "y + 2 ^ l \<le> x" if "y < x"
      using that y tiled_apart [OF assms(1) _ assms(2), of y] by (auto split: if_splits)
    have above: "x + 2 ^ Suc k \<le> z" if "x < z" "z \<noteq> x + 2 ^ k"
      using that z tiled_apart [OF assms(1,2), of z] by (auto split: if_splits)
    show "y + 2 ^ l \<le> z"
    proof (cases "y = x \<or> y = x + 2 ^ k")
      case True
      with y \<open>y < z\<close> above show ?thesis by (fastforce split: if_splits)
    next
      case False
      then have By: "B y = Some (l, e)" using y by simp
      show ?thesis
      proof (cases "z = x \<or> z = x + 2 ^ k")
        case True
        have "\<not> x < y"
          using above [of ] True \<open>y < z\<close> tiled_apart [OF assms(1,2) By] by auto
        with False have "y < x" by simp
        with below True show ?thesis by auto
      next
        case zFalse: False
        then have "B z = Some (m, c)" using z by simp
        with tiled_apart [OF assms(1) By] \<open>y < z\<close> show ?thesis by blast
      qed
    qed
  qed
  moreover have "covered n ?B"
    unfolding covered_def
  proof (intro allI impI)
    fix y :: nat assume "32 dvd y" "y + 32 \<le> n"
    then obtain z l e where z: "B z = Some (l, e)" "covers z l y"
      using assms(1) by (auto simp: tiled_def covered_def)
    show "\<exists>x' k' f'. ?B x' = Some (k', f') \<and> covers x' k' y"
    proof (cases "z = x")
      case True
      with z assms(2) have "covers x k y \<or> covers (x + 2 ^ k) k y"
        by (auto simp: covers_def)
      then show ?thesis
        by (metis (no_types, lifting) fun_upd_other fun_upd_same)
    next
      case False
      then have "?B z = Some (l, e)"
        using z(1) new by auto
      with z(2) show ?thesis by blast
    qed
  qed
  ultimately show "tiled n ?B" by (simp add: tiled_def)
qed

lemma tiled_join:
  assumes "tiled n B" "B x = Some (k, f)" "B (x + 2 ^ k) = Some (k, f')" "2 ^ Suc k dvd x" "Suc k < ARENA_ORDERS"
  shows "tiled n (B(x \<mapsto> (Suc k, g), x + 2 ^ k := None))"
proof -
  let ?B = "B(x \<mapsto> (Suc k, g), x + 2 ^ k := None)"
  note D = tiledD [OF assms(1,2)] and E = tiledD [OF assms(1,3)]
  have "x + 2 ^ Suc k \<le> n"
    using E(4) by simp
  then have "aligned n ?B"
    using assms D by (auto simp: tiled_def aligned_def)
  moreover have "apart ?B"
    unfolding apart_def
  proof (intro allI impI)
    fix y l e z m c assume y: "?B y = Some (l, e)" and z: "?B z = Some (m, c)" and "y < z"
    show "y + 2 ^ l \<le> z"
    proof (cases "y = x")
      case True
      then have "B z = Some (m, c)" "z \<noteq> x + 2 ^ k" "l = Suc k"
        using y z \<open>y < z\<close> by (auto split: if_splits)
      with tiled_apart [OF assms(1,2), of z] tiled_apart [OF assms(1,3), of z] True \<open>y < z\<close> show ?thesis
        by fastforce
    next
      case False
      then have By: "B y = Some (l, e)" using y by (auto split: if_splits)
      then show ?thesis
        using tiled_apart [OF assms(1) By assms(2)] tiled_apart [OF assms(1) By, of z] z \<open>y < z\<close> by (auto split: if_splits)
    qed
  qed
  moreover have "covered n ?B"
    unfolding covered_def
  proof (intro allI impI)
    fix y :: nat assume "32 dvd y" "y + 32 \<le> n"
    then obtain z l e where z: "B z = Some (l, e)" "covers z l y"
      using assms(1) by (auto simp: tiled_def covered_def)
    show "\<exists>x' k' f'. ?B x' = Some (k', f') \<and> covers x' k' y"
    proof (cases "z = x \<or> z = x + 2 ^ k")
      case True
      with z assms(2,3) have "covers x (Suc k) y"
        by (auto simp: covers_def)
      moreover have "?B x = Some (Suc k, g)" by simp
      ultimately show ?thesis by blast
    next
      case False
      with z show ?thesis by (intro exI [of _ z] exI [of _ l] exI [of _ e]) auto
    qed
  qed
  ultimately show "tiled n ?B" by (simp add: tiled_def)
qed

section \<open>Buddies\<close>

lemma xor_power: "2 ^ k dvd (x :: nat) \<Longrightarrow> x XOR 2 ^ k = (if 2 ^ Suc k dvd x then x + 2 ^ k else x - 2 ^ k)"
proof -
  assume "2 ^ k dvd x"
  then obtain q where q: "x = 2 ^ k * q" ..
  have "x XOR 2 ^ k = push_bit k q XOR push_bit k 1"
    by (simp add: q push_bit_eq_mult mult.commute)
  also have "\<dots> = push_bit k (q XOR 1)"
    by (simp only: push_bit_xor)
  also have "q XOR 1 = (if even q then q + 1 else q - 1)"
    by (simp add: xor_Suc_0_eq)
  finally show ?thesis
    by (auto simp: q push_bit_eq_mult algebra_simps)
qed

lemma multiple_less: "d dvd a \<Longrightarrow> d dvd b \<Longrightarrow> a < b + d \<Longrightarrow> a \<le> (b :: nat)"
proof (rule ccontr)
  assume d: "d dvd a" "d dvd b" "a < b + d" and "\<not> a \<le> b"
  then have "d \<le> a - b"
    by (intro dvd_imp_le) (auto intro: dvd_diff_nat)
  with d(3) \<open>\<not> a \<le> b\<close> show False by simp
qed

lemma odd_part: "2 ^ k dvd (x :: nat) \<Longrightarrow> \<not> 2 ^ Suc k dvd x \<Longrightarrow> 2 ^ k \<le> x \<and> 2 ^ Suc k dvd x - 2 ^ k"
proof -
  assume x: "2 ^ k dvd x" "\<not> 2 ^ Suc k dvd x"
  then obtain q where "x = 2 ^ k * q" by auto
  with x have "odd q" "x = 2 ^ k * q" by auto
  then obtain r where "x = 2 ^ k * (2 * r + 1)"
    using oddE by blast
  then show ?thesis by (simp add: algebra_simps)
qed

text \<open>
  The buddy of a block lies in the same block of twice the size. When its header is inside of the
  arena, a block of at most the same order starts there, unless the arena ends with 24 to 31 bytes
  that no block covers.
\<close>

lemma buddy_block:
  assumes "tiled n B" "B x = Some (k, f)" "n mod 32 < 24" "c = x XOR 2 ^ k" "c + 24 \<le> n"
  obtains l g where "B c = Some (l, g)" "l \<le> k"
proof -
  note D = tiledD [OF assms(1,2)]
  have c: "c = (if 2 ^ Suc k dvd x then x + 2 ^ k else x - 2 ^ k)"
    using xor_power D(3) assms(4) by simp
  have "2 ^ k dvd c"
    using D(3) by (simp add: c)
  moreover have "(2 :: nat) ^ 5 dvd 2 ^ k"
    using D(1) by (rule le_imp_power_dvd)
  ultimately have c32: "32 dvd c"
    by (auto intro: dvd_trans)
  then obtain m where "c = 32 * m" ..
  then have "\<not> n div 32 \<le> m"
    using assms(3,5) mult_div_mod_eq [of 32 n] by linarith
  with \<open>c = 32 * m\<close> have "c + 32 \<le> n"
    using mult_div_mod_eq [of 32 n] by linarith
  with c32 obtain z l g where z: "B z = Some (l, g)" "covers z l c"
    using assms(1) by (auto simp: tiled_def covered_def)
  note Z = tiledD [OF assms(1) z(1)]
  have "l \<le> k"
  proof (rule ccontr)
    assume "\<not> l \<le> k"
    then have "(2 :: nat) ^ Suc k dvd 2 ^ l"
      by (intro le_imp_power_dvd) simp
    then have zl: "2 ^ Suc k dvd z" "2 ^ Suc k dvd z + 2 ^ l"
      using Z(3) by (auto intro: dvd_trans)
    define p where "p = (if 2 ^ Suc k dvd x then x else c)"
    have p: "2 ^ Suc k dvd p" "p \<le> x" "p \<le> c" "x < p + 2 ^ Suc k" "c < p + 2 ^ Suc k"
      using odd_part [OF D(3)] by (auto simp: p_def c intro: le_less_trans [of _ x])
    have "z \<le> p" "p + 2 ^ Suc k \<le> z + 2 ^ l"
      using z(2) p zl multiple_less [of "2 ^ Suc k"] by (auto simp: covers_def)
    then have "covers z l x"
      using p by (simp add: covers_def)
    moreover have "z \<noteq> x"
      using z(1) assms(2) \<open>\<not> l \<le> k\<close> by auto
    ultimately show False
      using tiled_apart [OF assms(1) z(1) assms(2)] by (auto simp: covers_def)
  qed
  then have "2 ^ l dvd c"
    using \<open>2 ^ k dvd c\<close> by (metis dvd_trans le_imp_power_dvd)
  then have "c \<le> z"
    using z(2) Z(3) multiple_less [of "2 ^ l"] by (simp add: covers_def)
  with z \<open>l \<le> k\<close> that show ?thesis by (simp add: covers_def)
qed

section \<open>The free lists\<close>

fun bseg :: "block_heap \<Rightarrow> addr \<Rightarrow> addr \<Rightarrow> addr list \<Rightarrow> addr \<Rightarrow> bool" where
  "bseg h q p [] e \<longleftrightarrow> p = e"
| "bseg h q p (x # xs) e \<longleftrightarrow> p = x \<and> x \<noteq> NULL \<and> prev_blk (h x) = q \<and> bseg h x (next_blk (h x)) xs e"

lemma bseg_append: "bseg h q p (xs @ ys) e \<longleftrightarrow> (\<exists>m. bseg h q p xs m \<and> bseg h (last (q # xs)) m ys e)"
  by (induction xs arbitrary: q p) auto

lemma bseg_cong:
  "(\<And>x. x \<in> set xs \<Longrightarrow> next_blk (h' x) = next_blk (h x) \<and> prev_blk (h' x) = prev_blk (h x)) \<Longrightarrow> bseg h' q p xs e = bseg h q p xs e"
  by (induction xs arbitrary: q p) auto

lemma bseg_upd [simp]: "x \<notin> set xs \<Longrightarrow> bseg (h(x := v)) q p xs e = bseg h q p xs e"
  by (rule bseg_cong) auto

lemma bseg_flags [simp]:
  "next_blk v = next_blk (h b) \<Longrightarrow> prev_blk v = prev_blk (h b) \<Longrightarrow> bseg (h(b := v)) q p xs e = bseg h q p xs e"
  by (rule bseg_cong) auto

text \<open>The list of every order, and that the lists share no block.\<close>

definition lists_ok :: "arena_state \<Rightarrow> (nat \<Rightarrow> addr list) \<Rightarrow> bool" where
  "lists_ok st F \<longleftrightarrow> (\<forall>k. bseg (snd st) NULL (ablocks (fst st) k) (F k) NULL \<and> distinct (F k)) \<and>
     (\<forall>k l. k \<noteq> l \<longrightarrow> set (F k) \<inter> set (F l) = {})"

lemma lists_okD:
  assumes "lists_ok st F"
  shows "bseg (snd st) NULL (ablocks (fst st) k) (F k) NULL" "distinct (F k)" "k \<noteq> l \<Longrightarrow> set (F k) \<inter> set (F l) = {}"
  using assms by (auto simp: lists_ok_def)

lemma lists_ok_null: "lists_ok st F \<Longrightarrow> ablocks (fst st) k = NULL \<longleftrightarrow> F k = []"
  "lists_ok st F \<Longrightarrow> F k \<noteq> [] \<Longrightarrow> hd (F k) = ablocks (fst st) k"
  by (cases "F k"; use lists_okD(1) [of st F k] in auto)+

lemma lists_ok_flags:
  "lists_ok (a, h) F \<Longrightarrow> lists_ok (a, h(b := (h b)\<lparr>is_free := f\<rparr>)) F" "lists_ok (a, h) F \<Longrightarrow> lists_ok (a, h(b := (h b)\<lparr>order := k\<rparr>)) F"
  "lists_ok st F \<Longrightarrow> lists_ok (set_header b k st) F"
  by (cases st; simp add: lists_ok_def set_header_def)+

text \<open>What linking does: the flags of all headers stay, and only the block and its neighbours are written.\<close>

definition relinked :: "addr set \<Rightarrow> arena_state \<Rightarrow> arena_state \<Rightarrow> bool" where
  "relinked X st st' \<longleftrightarrow> abase (fst st') = abase (fst st) \<and> asize (fst st') = asize (fst st) \<and>
     (\<forall>b. order (snd st' b) = order (snd st b) \<and> is_free (snd st' b) = is_free (snd st b)) \<and>
     (\<forall>b. b \<notin> X \<longrightarrow> snd st' b = snd st b)"

lemma block_link_ok:
  assumes "lists_ok st F" "b \<noteq> NULL" "\<And>k. b \<notin> set (F k)"
  shows "lists_ok (block_link k b st) (F(k := b # F k))" "relinked (insert b (set (F k))) st (block_link k b st)"
proof -
  obtain a h where st: "st = (a, h)" by (cases st)
  note L = lists_okD [OF assms(1)]
  show "relinked (insert b (set (F k))) st (block_link k b st)"
  proof (cases "F k")
    case Nil
    then show ?thesis
      using L(1) [of k] by (simp add: st relinked_def block_link_def Let_def)
  next
    case (Cons x xs)
    then show ?thesis
      using L(1) [of k] assms(3) [of k] by (auto simp: st relinked_def block_link_def Let_def)
  qed
  have "bseg (snd (block_link k b st)) NULL (ablocks (fst (block_link k b st)) l) ((F(k := b # F k)) l) NULL" for l
  proof (cases "F k")
    case Nil
    then show ?thesis
      using L(1) [of k] L(1) [of l] assms(2,3) by (auto simp: st block_link_def Let_def)
  next
    case (Cons x xs)
    have "x \<notin> set (F l)" if "l \<noteq> k"
      using L(3) [OF that] Cons by auto
    then show ?thesis
      using L(1,2) [of k] L(1) [of l] assms(2) assms(3) [of k] assms(3) [of l] Cons by (auto simp: st block_link_def Let_def)
  qed
  then show "lists_ok (block_link k b st) (F(k := b # F k))"
    using L(2,3) assms(3) by (auto simp: lists_ok_def)
qed

lemma block_unlink_ok:
  assumes "lists_ok st F" "b \<in> set (F k)"
  shows "lists_ok (block_unlink k b st) (F(k := remove1 b (F k)))" "relinked (set (F k) - {b}) st (block_unlink k b st)"
proof -
  obtain a h where st: "st = (a, h)" by (cases st)
  note L = lists_okD [OF assms(1)]
  obtain ys zs where xs: "F k = ys @ b # zs"
    using assms(2) by (meson split_list)
  have dj: "b \<notin> set ys" "b \<notin> set zs" "set ys \<inter> set zs = {}" "distinct ys" "distinct zs"
    using L(2) [of k] by (auto simp: xs)
  have rm: "remove1 b (F k) = ys @ zs"
    using dj by (simp add: xs remove1_append)
  have seg: "bseg h 0 (ablocks a k) ys b" "b \<noteq> 0" "prev_blk (h b) = last (0 # ys)" "bseg h b (next_blk (h b)) zs 0"
    using L(1) [of k] by (auto simp: st xs bseg_append)
  have other: "set ys \<inter> set (F l) = {}" "set zs \<inter> set (F l) = {}" if "l \<noteq> k" for l
    using L(3) [OF that] xs by auto
  show "relinked (set (F k) - {b}) st (block_unlink k b st)"
    using seg dj by (cases ys rule: rev_cases; cases zs) (auto simp: st relinked_def block_unlink_def Let_def xs bseg_append)
  have "bseg (snd (block_unlink k b st)) NULL (ablocks (fst (block_unlink k b st)) l) ((F(k := ys @ zs)) l) NULL" for l
    using seg dj L(1) [of l] other [of l]
    by (cases ys rule: rev_cases; cases zs; cases "l = k") (auto simp: st block_unlink_def Let_def bseg_append)
  moreover have "distinct ((F(k := ys @ zs)) l)" for l
    using L(2) [of l] dj by auto
  moreover have "set ((F(k := ys @ zs)) i) \<inter> set ((F(k := ys @ zs)) j) = {}" if "i \<noteq> j" for i j
    using L(3) [OF that] other [of i] other [of j] that by auto
  ultimately show "lists_ok (block_unlink k b st) (F(k := remove1 b (F k)))"
    unfolding rm lists_ok_def by blast
qed

section \<open>Representation\<close>

definition headers_ok :: "arena_state \<Rightarrow> bmap \<Rightarrow> bool" where
  "headers_ok st B \<longleftrightarrow> (\<forall>x k f. B x = Some (k, f) \<longrightarrow>
     order (snd st (abase (fst st) + x)) = k \<and> is_free (snd st (abase (fst st) + x)) = f)"

definition listed :: "addr \<Rightarrow> bmap \<Rightarrow> (nat \<Rightarrow> addr list) \<Rightarrow> bool" where
  "listed base B F \<longleftrightarrow> (\<forall>k b. b \<in> set (F k) \<longleftrightarrow> base \<le> b \<and> B (b - base) = Some (k, True))"

definition arep :: "arena_state \<Rightarrow> bmap \<Rightarrow> (nat \<Rightarrow> addr list) \<Rightarrow> bool" where
  "arep st B F \<longleftrightarrow> abase (fst st) \<noteq> NULL \<and> tiled (asize (fst st)) B \<and> headers_ok st B \<and>
     lists_ok st F \<and> listed (abase (fst st)) B F"

text \<open>Only the headers at the given offsets were written.\<close>

definition writes :: "nat set \<Rightarrow> arena_state \<Rightarrow> arena_state \<Rightarrow> bool" where
  "writes X st st' \<longleftrightarrow> abase (fst st') = abase (fst st) \<and> asize (fst st') = asize (fst st) \<and>
     (\<forall>b. b \<notin> (+) (abase (fst st)) ` X \<longrightarrow> snd st' b = snd st b)"

lemma writes_refl [simp]: "writes X st st"
  by (simp add: writes_def)

lemma writes_trans: "writes X st st' \<Longrightarrow> writes X st' st'' \<Longrightarrow> writes X st st''"
  by (simp add: writes_def)

lemma writes_mono: "writes X st st' \<Longrightarrow> X \<subseteq> Y \<Longrightarrow> writes Y st st'"
  by (auto simp: writes_def)

lemma relinked_writes: "relinked Z st st' \<Longrightarrow> Z \<subseteq> (+) (abase (fst st)) ` X \<Longrightarrow> writes X st st'"
  by (auto simp: relinked_def writes_def)

lemma listedD: "listed base B F \<Longrightarrow> b \<in> set (F k) \<Longrightarrow> b = base + (b - base) \<and> B (b - base) = Some (k, True)"
  by (auto simp: listed_def)

lemma listedI: "listed base B F \<Longrightarrow> B x = Some (k, True) \<Longrightarrow> base + x \<in> set (F k)"
  by (auto simp: listed_def)

lemma listed_starts: "listed base B F \<Longrightarrow> set (F k) \<subseteq> (+) base ` dom B"
proof
  fix b assume "listed base B F" "b \<in> set (F k)"
  then have "b = base + (b - base)" "b - base \<in> dom B"
    using listedD by blast+
  then show "b \<in> (+) base ` dom B" by (rule image_eqI)
qed

lemma split_block_ok:
  assumes rep: "arep st B F" and b: "F (Suc j) = b # bs" and j: "5 \<le> j" "j < 31"
  defines "x \<equiv> b - abase (fst st)"
  defines "B' \<equiv> B(x \<mapsto> (j, True), x + 2 ^ j \<mapsto> (j, True))"
  shows "b = abase (fst st) + x" "B x = Some (Suc j, True)" "B (x + 2 ^ j) = None"
    "arep (split_block j st) B' (F(Suc j := bs, j := (b + 2 ^ j) # b # F j))" "writes (dom B') st (split_block j st)"
proof -
  note R = rep [unfolded arep_def]
  show bx: "b = abase (fst st) + x" and Bx: "B x = Some (Suc j, True)"
    using listedD [of _ B F b "Suc j"] R b by (auto simp: x_def)
  from R Bx j have t: "tiled (asize (fst st)) B'" and new: "B (x + 2 ^ j) = None"
    unfolding B'_def by (auto intro: tiled_split)
  show "B (x + 2 ^ j) = None" by (rule new)
  define c where "c = b + 2 ^ j"
  have cb: "c \<noteq> b" "b \<noteq> NULL" "c \<noteq> NULL" "c = abase (fst st) + (x + 2 ^ j)"
    using bx R by (auto simp: c_def)
  have head: "ablocks (fst st) (Suc j) = b"
    using lists_ok_null(2) [of st F "Suc j"] R b by simp
  define st1 where "st1 = block_unlink (Suc j) b st"
  define st2 where "st2 = set_header c j st1"
  define st3 where "st3 = (fst st2, (snd st2)(b := (snd st2 b)\<lparr>order := j\<rparr>))"
  define st4 where "st4 = block_link j b st3"
  define st5 where "st5 = block_link j c st4"
  have st5: "split_block j st = st5"
    using j by (simp add: split_block_def st5_def st4_def st3_def st2_def st1_def head c_def one_shl_def Let_def)
  have l1: "lists_ok st1 (F(Suc j := bs))" "relinked (set (F (Suc j)) - {b}) st st1"
    using block_unlink_ok [of st F b "Suc j"] R b by (simp_all add: st1_def)
  then have l3: "lists_ok st3 (F(Suc j := bs))"
    unfolding st3_def st2_def by (metis lists_ok_flags(2,3) prod.collapse)
  have out: "b \<notin> set ((F(Suc j := bs)) k)" "c \<notin> set ((F(Suc j := bs)) k)" for k
  proof -
    have "lists_ok st F" "listed (abase (fst st)) B F"
      using R by auto
    from lists_okD(2) [OF this(1), of "Suc j"] lists_okD(3) [OF this(1), of k "Suc j"] listedD [OF this(2), of c k]
      listedD [OF this(2), of c "Suc j"] b new cb(4)
    show "b \<notin> set ((F(Suc j := bs)) k)" "c \<notin> set ((F(Suc j := bs)) k)"
      by auto
  qed
  have l4: "lists_ok st4 (F(Suc j := bs, j := b # F j))" "relinked (insert b (set (F j))) st3 st4"
    using block_link_ok [of st3 "F(Suc j := bs)" b j, OF l3 cb(2) out(1)] by (simp_all add: st4_def)
  have "c \<notin> set ((F(Suc j := bs, j := b # F j)) k)" for k
    using out(2) [of k] out(2) [of j] cb by auto
  from block_link_ok [of st4 "F(Suc j := bs, j := b # F j)" c j, OF l4(1) cb(3) this]
  have l5: "lists_ok st5 (F(Suc j := bs, j := c # b # F j))" "relinked (insert c (insert b (set (F j)))) st4 st5"
    by (simp_all add: st5_def)
  have bases: "abase (fst st1) = abase (fst st)" "abase (fst st2) = abase (fst st1)" "abase (fst st3) = abase (fst st2)"
    "abase (fst st4) = abase (fst st3)" "abase (fst st5) = abase (fst st4)"
    "asize (fst st1) = asize (fst st)" "asize (fst st2) = asize (fst st1)" "asize (fst st3) = asize (fst st2)"
    "asize (fst st4) = asize (fst st3)" "asize (fst st5) = asize (fst st4)"
    using l1 l4 l5 by (simp_all add: relinked_def st2_def st3_def set_header_def split: prod.splits)
  have flags: "order (snd st5 y) = (if y = b \<or> y = c then j else order (snd st y))"
    "is_free (snd st5 y) = (if y = c then True else is_free (snd st y))" for y
    using l1(2) l4(2) l5(2) cb by (simp_all add: relinked_def st2_def st3_def set_header_def split: prod.splits)
  have "headers_ok st5 B'"
    using R Bx bases flags bx cb by (auto simp: headers_ok_def B'_def)
  moreover have "listed (abase (fst st5)) B' (F(Suc j := bs, j := c # b # F j))"
  proof -
    have mem: "y \<in> set (F k) \<longleftrightarrow> abase (fst st) \<le> y \<and> B (y - abase (fst st)) = Some (k, True)" for k y
      using R by (simp add: listed_def)
    have bs: "y \<in> set bs \<longleftrightarrow> y \<in> set (F (Suc j)) \<and> y \<noteq> b" for y
      using out(1) [of "Suc j"] b by auto
    have "y \<in> set ((F(Suc j := bs, j := c # b # F j)) k) \<longleftrightarrow> abase (fst st) \<le> y \<and> B' (y - abase (fst st)) = Some (k, True)" for k y
    proof (cases "abase (fst st) \<le> y")
      case True
      then have "y = b \<longleftrightarrow> y - abase (fst st) = x" "y = c \<longleftrightarrow> y - abase (fst st) = x + 2 ^ j"
        using bx cb(4) by auto
      with True mem bs Bx new show ?thesis by (auto simp: B'_def)
    next
      case False
      with mem bs bx cb(4) show ?thesis by auto
    qed
    then show ?thesis
      using bases by (simp add: listed_def)
  qed
  ultimately show "arep (split_block j st) B' (F(Suc j := bs, j := (b + 2 ^ j) # b # F j))"
    using R t l5(1) bases by (simp add: arep_def st5 c_def)
  have F: "set (F k) \<subseteq> (+) (abase (fst st)) ` dom B'" for k
    using listed_starts [of "abase (fst st)" B F k] R by (auto simp: B'_def)
  have bc: "b \<in> (+) (abase (fst st)) ` dom B'" "c \<in> (+) (abase (fst st)) ` dom B'"
    using bx cb(4) by (auto simp: B'_def)
  have "snd st5 y = snd st y" if "y \<notin> (+) (abase (fst st)) ` dom B'" for y
  proof -
    have "y \<noteq> b" "y \<noteq> c" "\<And>k. y \<notin> set (F k)"
      using that bc F by blast+
    then show ?thesis
      using l1(2) l4(2) l5(2) by (simp add: relinked_def st2_def st3_def set_header_def split: prod.splits)
  qed
  then show "writes (dom B') st (split_block j st)"
    unfolding st5 writes_def using bases by simp
qed

section \<open>Allocation\<close>

text \<open>The allocated blocks with their orders.\<close>

definition live :: "bmap \<Rightarrow> nat \<rightharpoonup> nat" where
  "live B x = (case B x of Some (k, False) \<Rightarrow> Some k | _ \<Rightarrow> None)"

lemma live_upd [simp]:
  "live (B(x \<mapsto> (k, f))) = (live B)(x := if f then None else Some k)" "live (B(x := None)) = (live B)(x := None)"
  by (auto simp: live_def fun_eq_iff)

lemma live_free [simp]: "B x = Some (k, True) \<Longrightarrow> live B x = None" "B x = None \<Longrightarrow> live B x = None"
  by (auto simp: live_def)

lemma live_iff: "live B x = Some k \<longleftrightarrow> B x = Some (k, False)"
  by (auto simp: live_def split: option.splits bool.splits)

lemma fun_upd_None [simp]: "m x = None \<Longrightarrow> m(x := None) = m"
  by (rule fun_upd_idem)

lemma split_loop_ok:
  assumes "arep st B F" "F i \<noteq> []" "od \<le> i" "5 \<le> od" "i \<le> 31"
  shows "\<exists>B' F'. arep (split_loop i od st) B' F' \<and> F' od \<noteq> [] \<and> writes (dom B') st (split_loop i od st) \<and>
    dom B \<subseteq> dom B' \<and> live B' = live B"
  using assms
proof (induction i od st arbitrary: B F rule: split_loop.induct)
  case (1 od st)
  then show ?case by simp
next
  case (2 j od st)
  show ?case
  proof (cases "Suc j > od")
    case False
    then have "od = Suc j" using 2 by simp
    with 2 show ?thesis by (intro exI [of _ B] exI [of _ F]) simp
  next
    case True
    obtain b bs where b: "F (Suc j) = b # bs"
      using 2 by (cases "F (Suc j)") auto
    define x where "x = b - abase (fst st)"
    define B1 where "B1 = B(x \<mapsto> (j, True), x + 2 ^ j \<mapsto> (j, True))"
    have j: "5 \<le> j" "j < 31" using 2 True by auto
    note S = split_block_ok [OF "2.prems"(1) b j, folded x_def, folded B1_def]
    from "2.IH" [OF True S(4)] j True 2 obtain B' F' where
      r: "arep (split_loop j od (split_block j st)) B' F'" "F' od \<noteq> []"
        "writes (dom B') (split_block j st) (split_loop j od (split_block j st))" "dom B1 \<subseteq> dom B'" "live B' = live B1"
      by auto
    have "writes (dom B') st (split_loop j od (split_block j st))"
      using writes_trans [OF writes_mono [OF S(5) r(4)] r(3)] .
    moreover have "dom B \<subseteq> dom B'"
      using r(4) by (auto simp: B1_def)
    moreover have "live B' = live B"
      using r(5) S(2,3) by (simp add: B1_def)
    ultimately show ?thesis
      using r(1,2) True by auto
  qed
qed

declare order_loop.simps [simp del] fit_loop.simps [simp del] join_loop.simps [simp del] init_loop.simps [simp del]

text \<open>The order for a request: the least that suffices, up to 30; everything above ends at 31.\<close>

lemma order_loop_ok:
  assumes "sz < 2 ^ 31" "od \<le> 31"
  shows "order_loop od sz \<le> 31 \<and> (\<forall>k. od \<le> k \<longrightarrow> k < order_loop od sz \<longrightarrow> 2 ^ k < sz + BLOCK_SIZE) \<and>
     (order_loop od sz < 31 \<longrightarrow> sz + BLOCK_SIZE \<le> 2 ^ order_loop od sz)"
  using assms
proof (induction od sz rule: order_loop.induct)
  case (1 od sz)
  show ?case
  proof (cases "od < ARENA_ORDERS \<and> one_shl od < sz + BLOCK_SIZE")
    case True
    have "od \<noteq> 31"
      using True "1.prems" by (auto simp: one_shl_def BLOCK_SIZE_def)
    with 1 True have "order_loop (od + 1) sz \<le> 31" "\<forall>k. od + 1 \<le> k \<longrightarrow> k < order_loop (od + 1) sz \<longrightarrow> 2 ^ k < sz + BLOCK_SIZE"
        "order_loop (od + 1) sz < 31 \<longrightarrow> sz + BLOCK_SIZE \<le> 2 ^ order_loop (od + 1) sz"
      by auto
    moreover have "2 ^ od < sz + BLOCK_SIZE"
      using True \<open>od \<noteq> 31\<close> by (simp add: one_shl_def)
    moreover have "order_loop od sz = order_loop (od + 1) sz"
      using True by (simp add: order_loop.simps [of od])
    ultimately show ?thesis
      by (metis Suc_eq_plus1 le_antisym not_less_eq_eq)
  next
    case False
    then show ?thesis
      using "1.prems" by (subst (1 2 3 4) order_loop.simps) (auto simp: one_shl_def ARENA_ORDERS_def)
  qed
qed

lemma order_needed:
  assumes "sz < 2 ^ 31"
  shows "5 \<le> order_loop 1 sz" "order_loop 1 sz \<le> 31" "sz + BLOCK_SIZE \<le> 2 ^ 31 \<Longrightarrow> sz + BLOCK_SIZE \<le> 2 ^ order_loop 1 sz"
    "k < order_loop 1 sz \<Longrightarrow> 2 ^ k < sz + BLOCK_SIZE"
proof -
  note O = order_loop_ok [OF assms, of 1]
  show le: "order_loop 1 sz \<le> 31" using O by simp
  show "sz + BLOCK_SIZE \<le> 2 ^ 31 \<Longrightarrow> sz + BLOCK_SIZE \<le> 2 ^ order_loop 1 sz"
    using O by (cases "order_loop 1 sz = 31") auto
  show "k < order_loop 1 sz \<Longrightarrow> 2 ^ k < sz + BLOCK_SIZE"
    using O by (cases "k = 0") (auto simp: BLOCK_SIZE_def)
  show "5 \<le> order_loop 1 sz"
  proof (rule ccontr)
    assume "\<not> 5 \<le> order_loop 1 sz"
    then have "order_loop 1 sz < 31" "(2 :: nat) ^ order_loop 1 sz \<le> 2 ^ 4"
      by (simp, intro power_increasing) auto
    with O show False by (simp add: BLOCK_SIZE_def)
  qed
qed

lemma fit_loop_ok:
  "(fit_loop i a < ARENA_ORDERS \<longrightarrow> ablocks a (fit_loop i a) \<noteq> NULL) \<and> i \<le> fit_loop i a \<and>
     (\<forall>k. i \<le> k \<longrightarrow> k < fit_loop i a \<longrightarrow> ablocks a k = NULL)"
proof (induction i a rule: fit_loop.induct)
  case (1 i a)
  show ?case
  proof (cases "i < ARENA_ORDERS \<and> ablocks a i = NULL")
    case True
    have "fit_loop i a = fit_loop (i + 1) a"
      using True by (simp add: fit_loop.simps [of i])
    with 1 True show ?thesis
      by (metis Suc_eq_plus1 Suc_leD le_antisym not_less_eq_eq)
  next
    case False
    then show ?thesis by (subst (1 2 3 4) fit_loop.simps) auto
  qed
qed

text \<open>Taking the first block of a free list.\<close>

definition take_block :: "nat \<Rightarrow> arena_state \<Rightarrow> addr \<times> arena_state" where
  "take_block od st = (let b = ablocks (fst st) od; (a, h) = block_unlink od b st in (b + BLOCK_SIZE, a, h(b := (h b)\<lparr>is_free := False\<rparr>)))"

lemma arena_alloc_eq:
  "arena_alloc sz st =
     (let od = order_loop 1 sz; i = fit_loop od (fst st) in
      if sz < 2 ^ 31 \<and> od < ARENA_ORDERS \<and> i < ARENA_ORDERS then take_block od (split_loop i od st) else (NULL, st))"
proof -
  have "drop_bit (ARENA_ORDERS - 1) sz \<noteq> 0 \<longleftrightarrow> \<not> sz < 2 ^ 31"
    by (simp add: drop_bit_eq_div ARENA_ORDERS_def div_eq_0_iff)
  then show ?thesis
    by (simp add: arena_alloc_def take_block_def Let_def)
qed

lemma take_block_ok:
  assumes rep: "arep st B F" and b: "F od = b # bs"
  defines "x \<equiv> b - abase (fst st)"
  shows "B x = Some (od, True)" "fst (take_block od st) = abase (fst st) + x + BLOCK_SIZE"
    "arep (snd (take_block od st)) (B(x \<mapsto> (od, False))) (F(od := bs))" "writes (dom B) st (snd (take_block od st))"
proof -
  note R = rep [unfolded arep_def]
  show Bx: "B x = Some (od, True)"
    using listedD [of _ B F b od] R b by (auto simp: x_def)
  have bx: "b = abase (fst st) + x"
    using listedD [of _ B F b od] R b by (auto simp: x_def)
  have head: "ablocks (fst st) od = b"
    using lists_ok_null(2) [of st F od] R b by simp
  then show "fst (take_block od st) = abase (fst st) + x + BLOCK_SIZE"
    by (simp add: take_block_def bx Let_def split: prod.splits)
  define st1 where "st1 = block_unlink od b st"
  define st2 where "st2 = (fst st1, (snd st1)(b := (snd st1 b)\<lparr>is_free := False\<rparr>))"
  have st2: "snd (take_block od st) = st2"
    by (simp add: take_block_def st2_def st1_def head Let_def split: prod.splits)
  have l1: "lists_ok st1 (F(od := bs))" "relinked (set (F od) - {b}) st st1"
    using block_unlink_ok [of st F b od] R b by (simp_all add: st1_def)
  then have l2: "lists_ok st2 (F(od := bs))"
    unfolding st2_def by (metis lists_ok_flags(1) prod.collapse)
  have bases: "abase (fst st2) = abase (fst st)" "asize (fst st2) = asize (fst st)"
    using l1 by (simp_all add: relinked_def st2_def)
  have flags: "order (snd st2 y) = order (snd st y)" "is_free (snd st2 y) = (if y = b then False else is_free (snd st y))" for y
    using l1(2) by (simp_all add: relinked_def st2_def)
  have "headers_ok st2 (B(x \<mapsto> (od, False)))"
    using R Bx bases flags bx by (auto simp: headers_ok_def)
  moreover have "listed (abase (fst st2)) (B(x \<mapsto> (od, False))) (F(od := bs))"
  proof -
    have mem: "y \<in> set (F k) \<longleftrightarrow> abase (fst st) \<le> y \<and> B (y - abase (fst st)) = Some (k, True)" for k y
      using R by (simp add: listed_def)
    have "lists_ok st F" using R by simp
    from lists_okD(2) [OF this, of od] have bs: "y \<in> set bs \<longleftrightarrow> y \<in> set (F od) \<and> y \<noteq> b" for y
      using b by auto
    have "y \<in> set ((F(od := bs)) k) \<longleftrightarrow> abase (fst st) \<le> y \<and> (B(x \<mapsto> (od, False))) (y - abase (fst st)) = Some (k, True)" for k y
      using mem bs Bx bx by auto
    then show ?thesis
      using bases by (simp add: listed_def)
  qed
  moreover have "tiled (asize (fst st)) (B(x \<mapsto> (od, False)))"
    using R Bx by (blast intro: tiled_flag)
  ultimately show "arep (snd (take_block od st)) (B(x \<mapsto> (od, False))) (F(od := bs))"
    using R l2 bases by (simp add: arep_def st2)
  have "set (F od) \<subseteq> (+) (abase (fst st)) ` dom B" "b \<in> set (F od)"
    using listed_starts [of "abase (fst st)" B F od] R b by simp_all
  then show "writes (dom B) st (snd (take_block od st))"
    using l1(2) bases by (auto simp: st2 writes_def relinked_def st2_def)
qed

lemma arena_alloc_cases:
  assumes rep: "arep st B F"
  obtains (fails) "arena_alloc sz st = (NULL, st)" "sz < 2 ^ 31 \<Longrightarrow> \<forall>k \<ge> order_loop 1 sz. \<forall>x. B x \<noteq> Some (k, True)"
  | (allocates) x od st' B' F' where "arena_alloc sz st = (abase (fst st) + x + BLOCK_SIZE, st')" "sz < 2 ^ 31"
      "od = order_loop 1 sz" "arep st' B' F'" "live B x = None" "live B' = (live B)(x \<mapsto> od)" "writes (dom B') st st'" "dom B \<subseteq> dom B'"
proof (cases "sz < 2 ^ 31 \<and> fit_loop (order_loop 1 sz) (fst st) < ARENA_ORDERS")
  case False
  note R = rep [unfolded arep_def]
  have "B x \<noteq> Some (k, True)" if "sz < 2 ^ 31" "order_loop 1 sz \<le> k" for x k
  proof
    assume x: "B x = Some (k, True)"
    then have "k < ARENA_ORDERS" "F k \<noteq> []"
      using R tiledD(2) [of _ B x k True] listedI [of _ B F x k] by auto
    then have "ablocks (fst st) k \<noteq> NULL" "k < fit_loop (order_loop 1 sz) (fst st)"
      using R lists_ok_null(1) [of st F k] False that(1) by simp_all
    moreover have "\<forall>l. order_loop 1 sz \<le> l \<longrightarrow> l < fit_loop (order_loop 1 sz) (fst st) \<longrightarrow> ablocks (fst st) l = NULL"
      using fit_loop_ok by blast
    ultimately show False using that(2) by simp
  qed
  moreover have "arena_alloc sz st = (NULL, st)"
    using False by (auto simp: arena_alloc_eq Let_def)
  ultimately show ?thesis using fails by blast
next
  case True
  define od i where "od = order_loop 1 sz" and "i = fit_loop od (fst st)"
  have od: "5 \<le> od" "od \<le> 31"
    using order_needed True by (auto simp: od_def)
  have i: "od \<le> i" "i \<le> 31" "F i \<noteq> []"
    using fit_loop_ok [of od "fst st"] True lists_ok_null(1) [of st F i] rep [unfolded arep_def]
    by (auto simp: i_def od_def ARENA_ORDERS_def)
  obtain B1 F1 where S: "arep (split_loop i od st) B1 F1" "F1 od \<noteq> []" "writes (dom B1) st (split_loop i od st)"
      "dom B \<subseteq> dom B1" "live B1 = live B"
    using split_loop_ok [OF rep i(3,1) od(1) i(2)] by blast
  obtain b bs where b: "F1 od = b # bs"
    using S(2) by (cases "F1 od") auto
  define x where "x = b - abase (fst (split_loop i od st))"
  note T = take_block_ok [OF S(1) b, folded x_def]
  have base: "abase (fst (split_loop i od st)) = abase (fst st)"
    using S(3) by (simp add: writes_def)
  have dom: "dom (B1(x \<mapsto> (od, False))) = dom B1"
    using T(1) by auto
  show ?thesis
  proof (rule allocates)
    show "arena_alloc sz st = (abase (fst st) + x + BLOCK_SIZE, snd (take_block od (split_loop i od st)))"
    proof -
      have "arena_alloc sz st = take_block od (split_loop i od st)"
        using True od unfolding arena_alloc_eq Let_def od_def [symmetric] i_def [symmetric] by (simp add: ARENA_ORDERS_def)
      then show ?thesis
        using T(2) base by (simp add: prod_eq_iff)
    qed
    show "writes (dom (B1(x \<mapsto> (od, False)))) st (snd (take_block od (split_loop i od st)))"
      unfolding dom by (rule writes_trans [OF S(3) T(4)])
    show "dom B \<subseteq> dom (B1(x \<mapsto> (od, False)))"
      unfolding dom by (rule S(4))
    show "live B x = None" "live (B1(x \<mapsto> (od, False))) = (live B)(x \<mapsto> od)"
      using T(1) S(5) by (metis live_free(1), simp)
  qed (use True T(3) in \<open>simp_all add: od_def\<close>)
qed

section \<open>Freeing\<close>

lemma arep_header:
  assumes "arep st B F" "B x = Some (k, f)"
  shows "order (snd st (abase (fst st) + x)) = k" "is_free (snd st (abase (fst st) + x)) = f"
  using assms by (auto simp: arep_def headers_ok_def)

text \<open>One turn of the joining loop.\<close>

definition join_blocks :: "nat \<Rightarrow> addr \<Rightarrow> addr \<Rightarrow> arena_state \<Rightarrow> arena_state" where
  "join_blocks od b c st =
     (let (a, h) = block_unlink od c (block_unlink od b st)
      in block_link (od + 1) b (a, h(b := (h b)\<lparr>order := od + 1\<rparr>)))"

lemma join_blocks_ok:
  assumes rep: "arep st B F" and x: "B x = Some (k, True)" "B (x + 2 ^ k) = Some (k, True)" "2 ^ Suc k dvd x" "Suc k < ARENA_ORDERS"
  defines "B' \<equiv> B(x \<mapsto> (Suc k, True), x + 2 ^ k := None)"
    and "st' \<equiv> join_blocks k (abase (fst st) + x) (abase (fst st) + (x + 2 ^ k)) st"
  shows "\<exists>F'. arep st' B' F'" "writes (dom B) st st'"
proof -
  note R = rep [unfolded arep_def]
  define b c where "b = abase (fst st) + x" and "c = abase (fst st) + (x + 2 ^ k)"
  have bc: "b \<noteq> c" "b \<noteq> NULL" "b \<in> set (F k)" "c \<in> set (F k)"
    using R x listedI [of _ B F] by (auto simp: b_def c_def)
  define G where "G = remove1 c (remove1 b (F k))"
  define st1 where "st1 = block_unlink k b st"
  define st2 where "st2 = block_unlink k c st1"
  define st3 where "st3 = (fst st2, (snd st2)(b := (snd st2 b)\<lparr>order := Suc k\<rparr>))"
  define st4 where "st4 = block_link (Suc k) b st3"
  have st4: "st' = st4"
    by (simp add: st'_def join_blocks_def st4_def st3_def st2_def st1_def b_def c_def split: prod.splits)
  have L: "lists_ok st F" using R by simp
  note d = lists_okD(2) [OF L]
  have G: "y \<in> set G \<longleftrightarrow> y \<in> set (F k) \<and> y \<noteq> b \<and> y \<noteq> c" for y
    using d by (simp add: G_def)
  have l1: "lists_ok st1 (F(k := remove1 b (F k)))" "relinked (set (F k) - {b}) st st1"
    using block_unlink_ok [OF L bc(3)] by (simp_all add: st1_def)
  have "c \<in> set ((F(k := remove1 b (F k))) k)"
    using bc d [of k] by simp
  from block_unlink_ok [of st1 "F(k := remove1 b (F k))" c k, OF l1(1) this]
  have l2: "lists_ok st2 (F(k := G))" "relinked (set (F k)) st1 st2"
    using d [of k] by (simp_all add: st2_def G_def) (auto simp: relinked_def)
  then have l3: "lists_ok st3 (F(k := G))"
    unfolding st3_def by (metis lists_ok_flags(2) prod.collapse)
  have "b \<notin> set ((F(k := G)) l)" for l
    using lists_okD(3) [OF L, of l k] bc(3) G by auto
  from block_link_ok [of st3 "F(k := G)" b "Suc k", OF l3 bc(2) this]
  have l4: "lists_ok st4 (F(k := G, Suc k := b # F (Suc k)))" "relinked (insert b (set (F (Suc k)))) st3 st4"
    by (simp_all add: st4_def)
  have bases: "abase (fst st4) = abase (fst st)" "asize (fst st4) = asize (fst st)"
    using l1 l2 l4 by (simp_all add: relinked_def st3_def)
  have flags: "order (snd st4 y) = (if y = b then Suc k else order (snd st y))" "is_free (snd st4 y) = is_free (snd st y)" for y
    using l1(2) l2(2) l4(2) by (simp_all add: relinked_def st3_def)
  have "headers_ok st4 B'"
    using R x bases flags by (auto simp: headers_ok_def B'_def b_def)
  moreover have "listed (abase (fst st4)) B' (F(k := G, Suc k := b # F (Suc k)))"
  proof -
    have mem: "y \<in> set (F l) \<longleftrightarrow> abase (fst st) \<le> y \<and> B (y - abase (fst st)) = Some (l, True)" for l y
      using R by (simp add: listed_def)
    have "y \<in> set ((F(k := G, Suc k := b # F (Suc k))) l) \<longleftrightarrow> abase (fst st) \<le> y \<and> B' (y - abase (fst st)) = Some (l, True)" for l y
    proof (cases "abase (fst st) \<le> y")
      case True
      then have "y = b \<longleftrightarrow> y - abase (fst st) = x" "y = c \<longleftrightarrow> y - abase (fst st) = x + 2 ^ k"
        by (auto simp: b_def c_def)
      with True mem G x show ?thesis by (auto simp: B'_def)
    next
      case False
      with mem G show ?thesis by (auto simp: b_def)
    qed
    then show ?thesis
      using bases by (simp add: listed_def)
  qed
  moreover have "tiled (asize (fst st)) B'"
    unfolding B'_def using R x by (blast intro: tiled_join)
  ultimately have "arep st' B' (F(k := G, Suc k := b # F (Suc k)))"
    using R l4(1) bases by (simp add: arep_def st4)
  then show "\<exists>F'. arep st' B' F'" by blast
  have "set (F l) \<subseteq> (+) (abase (fst st)) ` dom B" for l
    using listed_starts [of "abase (fst st)" B F l] R by simp
  then have "y \<noteq> b" "y \<notin> set (F k)" "y \<notin> set (F (Suc k))" if "y \<notin> (+) (abase (fst st)) ` dom B" for y
    using that bc(3) by blast+
  then show "writes (dom B) st st'"
    using l1(2) l2(2) l4(2) bases unfolding st4 writes_def relinked_def st3_def by auto
qed


text \<open>
  What joining achieves: between two block maps, everything from \<open>x\<close> up has become part of one free
  block \<open>y\<close> of order \<open>l\<close> that cannot be joined any further, because it has the largest order or its
  buddy is not a free block of the same order. Outside of that block the maps agree. A map is
  \<^emph>\<open>joined\<close> when no free block can be joined.
\<close>

definition unjoinable :: "bmap \<Rightarrow> nat \<Rightarrow> nat \<Rightarrow> bool" where
  "unjoinable B y l \<longleftrightarrow> Suc l = ARENA_ORDERS \<or> B (y XOR 2 ^ l) \<noteq> Some (l, True)"

definition joined :: "bmap \<Rightarrow> bool" where
  "joined B \<longleftrightarrow> (\<forall>y l. B y = Some (l, True) \<longrightarrow> unjoinable B y l)"

definition joined_into :: "bmap \<Rightarrow> bmap \<Rightarrow> nat \<Rightarrow> nat \<Rightarrow> nat \<Rightarrow> nat \<Rightarrow> bool" where
  "joined_into B B' x k y l \<longleftrightarrow> y \<le> x \<and> x + 2 ^ k \<le> y + 2 ^ l \<and> B' y = Some (l, True) \<and> unjoinable B' y l \<and>
    (\<forall>z. \<not> covers y l z \<longrightarrow> B' z = B z)"

lemma joined_into_covers: "joined_into B B' x k y l \<Longrightarrow> covers y l x"
  using less_le_trans [of x "x + 2 ^ k" "y + 2 ^ l"] by (simp add: joined_into_def covers_def)

lemma joined_into_joined:
  assumes "joined_into B B' x k y l" "tiled n B'" "joined (B(x := None))"
  shows "joined B'"
  unfolding joined_def unjoinable_def
proof (intro allI impI)
  fix z m assume z: "B' z = Some (m, True)"
  define c where "c = z XOR 2 ^ m"
  have cz: "c XOR 2 ^ m = z" "c \<noteq> z"
    by (simp_all add: c_def xor.assoc) (metis xor.assoc xor_self_eq xor.left_neutral power_not_zero zero_neq_numeral)
  have only: "w = y" if "B' w = Some v" "covers y l w" for w v
    using tiled_apart [OF assms(2), of y l True w "fst v" "snd v"] assms(1) that
    by (cases "w = y") (auto simp: joined_into_def covers_def)
  have ny: "\<not> covers y l w" if "B' w = Some v" "w \<noteq> y" for w v
    using only that by blast
  have "B' c \<noteq> Some (m, True)" if m: "Suc m \<noteq> ARENA_ORDERS"
  proof
    assume c: "B' c = Some (m, True)"
    have "z \<noteq> y"
      using assms(1) z c m by (auto simp: joined_into_def unjoinable_def c_def)
    moreover have "c \<noteq> y"
      using assms(1) z c m cz(1) by (auto simp: joined_into_def unjoinable_def)
    ultimately have n: "\<not> covers y l z" "\<not> covers y l c"
      using ny z c by blast+
    then have "(B(x := None)) z = Some (m, True)" "(B(x := None)) c = Some (m, True)"
      using assms(1) z c joined_into_covers [OF assms(1)] by (auto simp: joined_into_def)
    with assms(3) m show False
      by (auto simp: joined_def unjoinable_def c_def)
  qed
  then show "Suc m = ARENA_ORDERS \<or> B' (z XOR 2 ^ m) \<noteq> Some (m, True)"
    by (auto simp: c_def)
qed

lemma join_loop_ok:
  assumes "arep st B F" "B x = Some (k, True)" "asize (fst st) mod 32 < BLOCK_SIZE"
  shows "\<exists>B' F' y l. arep (join_loop k (abase (fst st) + x) st) B' F' \<and> live B' = live B \<and> dom B' \<subseteq> dom B \<and>
    writes (dom B) st (join_loop k (abase (fst st) + x) st) \<and> joined_into B B' x k y l"
  using assms
proof (induction "ARENA_ORDERS - k" arbitrary: st B F x k rule: less_induct)
  case less
  note R = less.prems(1) [unfolded arep_def]
  define y where "y = x XOR 2 ^ k"
  note T = tiledD [of "asize (fst st)" B, OF _ less.prems(2)]
  have bud: "buddy_of (abase (fst st)) (abase (fst st) + x) k = abase (fst st) + y" if "Suc k < ARENA_ORDERS"
    using that by (simp add: buddy_of_def y_def one_shl_def ARENA_ORDERS_def)
  have stop: ?case if "join_loop k (abase (fst st) + x) st = st" "unjoinable B x k"
    using less.prems(1,2) that by (intro exI [of _ B] exI [of _ F] exI [of _ x] exI [of _ k]) (simp add: joined_into_def)
  show ?case
  proof (cases "Suc k < ARENA_ORDERS \<and> y + BLOCK_SIZE \<le> asize (fst st) \<and> B y = Some (k, True)")
    case False
    have "\<not> is_free (snd st (abase (fst st) + y)) \<or> order (snd st (abase (fst st) + y)) \<noteq> k"
      if y: "Suc k < ARENA_ORDERS" "y + BLOCK_SIZE \<le> asize (fst st)"
    proof -
      obtain l g where "B y = Some (l, g)"
        by (rule buddy_block [of "asize (fst st)" B x k True y]) (use R less.prems y(2) in \<open>simp_all add: y_def BLOCK_SIZE_def\<close>)
      with arep_header [OF less.prems(1) this] False y show ?thesis by auto
    qed
    then have "join_loop k (abase (fst st) + x) st = st"
      using bud by (subst join_loop.simps) (auto simp: Let_def)
    moreover have "y + BLOCK_SIZE \<le> asize (fst st)" if "B y = Some (k, True)"
      using tiledD(1,4) [of "asize (fst st)" B, OF _ that] power_increasing [of 5 k "2 :: nat"] R by (simp add: BLOCK_SIZE_def)
    then have "unjoinable B x k"
      using False T(2) R unfolding unjoinable_def y_def by fastforce
    ultimately show ?thesis by (rule stop)
  next
    case True
    define lo where "lo = (if 2 ^ Suc k dvd x then x else y)"
    have xy: "y = (if 2 ^ Suc k dvd x then x + 2 ^ k else x - 2 ^ k)"
      using xor_power T(3) R by (simp add: y_def)
    then have lo: "2 ^ Suc k dvd lo" "B lo = Some (k, True)" "B (lo + 2 ^ k) = Some (k, True)"
        "x = lo \<and> y = lo + 2 ^ k \<or> y = lo \<and> x = lo + 2 ^ k"
      using odd_part [of k x] T(3) R True less.prems(2) by (auto simp: lo_def split: if_splits)
    define st1 where "st1 = join_blocks k (abase (fst st) + lo) (abase (fst st) + (lo + 2 ^ k)) st"
    define B1 where "B1 = B(lo \<mapsto> (Suc k, True), lo + 2 ^ k := None)"
    obtain F1 where r1: "arep st1 B1 F1"
      using join_blocks_ok(1) [OF less.prems(1) lo(2,3,1)] True by (auto simp: st1_def B1_def)
    have w1: "writes (dom B) st st1"
      using join_blocks_ok(2) [OF less.prems(1) lo(2,3,1)] True by (simp add: st1_def)
    have bases: "abase (fst st1) = abase (fst st)" "asize (fst st1) = asize (fst st)"
      using w1 by (simp_all add: writes_def)
    have B1: "live B1 = live B" "dom B1 \<subseteq> dom B" "B1 lo = Some (Suc k, True)"
      using lo(2,3) by (auto simp: B1_def)
    have loop: "join_loop k (abase (fst st) + x) st = join_loop (Suc k) (abase (fst st) + lo) st1"
      using lo(4) True arep_header [OF less.prems(1), of y k True] bud
      by (subst join_loop.simps) (auto simp: Let_def join_blocks_def st1_def split: prod.splits)
    have "ARENA_ORDERS - Suc k < ARENA_ORDERS - k" "asize (fst st1) mod 32 < BLOCK_SIZE"
      using True less.prems(3) bases by (simp_all add: diff_less_mono2)
    from less.hyps [OF this(1) r1 B1(3) this(2)] obtain B' F' z l where
      "arep (join_loop (Suc k) (abase (fst st) + lo) st1) B' F'" "live B' = live B1" "dom B' \<subseteq> dom B1"
      "writes (dom B1) st1 (join_loop (Suc k) (abase (fst st) + lo) st1)" and j: "joined_into B1 B' lo (Suc k) z l"
      unfolding bases by blast
    moreover from this(4) have "writes (dom B) st (join_loop (Suc k) (abase (fst st) + lo) st1)"
      using w1 B1(2) by (blast intro: writes_trans writes_mono)
    moreover have "covers z l lo" "covers z l (lo + 2 ^ k)" "z \<le> x" "x + 2 ^ k \<le> z + 2 ^ l"
      using joined_into_covers [OF j] j lo(4) less_le_trans [of "lo + 2 ^ k" "lo + 2 ^ Suc k" "z + 2 ^ l"]
      by (auto simp: joined_into_def covers_def)
    with j have "joined_into B B' x k z l"
      unfolding joined_into_def B1_def by (metis fun_upd_other)
    ultimately show ?thesis
      unfolding loop using B1 by (intro exI [of _ B'] exI [of _ F'] exI [of _ z] exI [of _ l]) auto
  qed
qed


lemma give_back_ok:
  assumes rep: "arep st B F" and x: "B x = Some (k, False)"
  defines "b \<equiv> abase (fst st) + x"
  defines "st' \<equiv> block_link k b (fst st, (snd st)(b := (snd st b)\<lparr>is_free := True\<rparr>))"
  shows "arep st' (B(x \<mapsto> (k, True))) (F(k := b # F k))" "writes (dom B) st st'"
proof -
  note R = rep [unfolded arep_def]
  define st1 where "st1 = (fst st, (snd st)(b := (snd st b)\<lparr>is_free := True\<rparr>))"
  have l1: "lists_ok st1 F"
    unfolding st1_def using R by (metis lists_ok_flags(1) prod.collapse)
  have mem: "y \<in> set (F l) \<longleftrightarrow> abase (fst st) \<le> y \<and> B (y - abase (fst st)) = Some (l, True)" for l y
    using R by (simp add: listed_def)
  have out: "b \<notin> set (F l)" for l
    using mem x by (simp add: b_def)
  have "b \<noteq> NULL"
    using R by (simp add: b_def)
  from block_link_ok [of st1 F b k, OF l1 this out]
  have l2: "lists_ok st' (F(k := b # F k))" "relinked (insert b (set (F k))) st1 st'"
    by (simp_all add: st'_def st1_def)
  have bases: "abase (fst st') = abase (fst st)" "asize (fst st') = asize (fst st)"
    using l2 by (simp_all add: relinked_def st1_def)
  have flags: "order (snd st' y) = order (snd st y)" "is_free (snd st' y) = (y = b \<or> is_free (snd st y))" for y
    using l2(2) by (simp_all add: relinked_def st1_def)
  have "headers_ok st' (B(x \<mapsto> (k, True)))"
    using R x bases flags arep_header(1) [OF rep x] by (auto simp: headers_ok_def b_def)
  moreover have "listed (abase (fst st')) (B(x \<mapsto> (k, True))) (F(k := b # F k))"
  proof -
    have "y \<in> set ((F(k := b # F k)) l) \<longleftrightarrow> abase (fst st) \<le> y \<and> (B(x \<mapsto> (k, True))) (y - abase (fst st)) = Some (l, True)" for l y
      using mem x by (auto simp: b_def)
    then show ?thesis
      using bases by (simp add: listed_def)
  qed
  moreover have "tiled (asize (fst st)) (B(x \<mapsto> (k, True)))"
    using R x by (blast intro: tiled_flag)
  ultimately show "arep st' (B(x \<mapsto> (k, True))) (F(k := b # F k))"
    using R l2(1) bases by (simp add: arep_def)
  have "set (F k) \<subseteq> (+) (abase (fst st)) ` dom B" "b \<in> (+) (abase (fst st)) ` dom B"
    using listed_starts [of "abase (fst st)" B F k] R x by (auto simp: b_def)
  then have "y \<noteq> b" "y \<notin> set (F k)" if "y \<notin> (+) (abase (fst st)) ` dom B" for y
    using that by blast+
  then show "writes (dom B) st st'"
    using l2(2) bases by (simp add: writes_def relinked_def st1_def)
qed

lemma arena_free_ok:
  assumes rep: "arep st B F" and x: "live B x = Some k" and sz: "asize (fst st) mod 32 < BLOCK_SIZE"
  shows "\<exists>B' F' y l. arep (arena_free (abase (fst st) + x + BLOCK_SIZE) st) B' F' \<and> live B' = (live B)(x := None) \<and>
    dom B' \<subseteq> dom B \<and> writes (dom B) st (arena_free (abase (fst st) + x + BLOCK_SIZE) st) \<and>
    joined_into B B' x k y l \<and> (joined B \<longrightarrow> joined B')"
proof -
  have Bx: "B x = Some (k, False)"
    using x by (simp add: live_iff)
  define b where "b = abase (fst st) + x"
  define st1 where "st1 = block_link k b (fst st, (snd st)(b := (snd st b)\<lparr>is_free := True\<rparr>))"
  note G = give_back_ok [OF rep Bx, folded b_def, folded st1_def]
  have free: "arena_free (abase (fst st) + x + BLOCK_SIZE) st = join_loop k (abase (fst st1) + x) st1"
    using arep_header [OF rep Bx] G(2)
    by (cases st) (simp add: arena_free_def Let_def b_def st1_def writes_def BLOCK_SIZE_def)
  have dom: "dom (B(x \<mapsto> (k, True))) = dom B"
    using Bx by auto
  from join_loop_ok [OF G(1), of x k] sz G(2) obtain B' F' y l where
    new: "arep (join_loop k (abase (fst st1) + x) st1) B' F'" "live B' = live (B(x \<mapsto> (k, True)))" "dom B' \<subseteq> dom B"
    "writes (dom B) st1 (join_loop k (abase (fst st1) + x) st1)" "joined_into (B(x \<mapsto> (k, True))) B' x k y l"
    unfolding dom by (auto simp: writes_def)
  have into: "joined_into B B' x k y l"
    using new(5) joined_into_covers [OF new(5)] by (auto simp: joined_into_def)
  have "joined B'" if "joined B"
  proof (rule joined_into_joined [OF into])
    show "tiled (asize (fst (join_loop k (abase (fst st1) + x) st1))) B'"
      using new(1) by (simp add: arep_def)
    show "joined (B(x := None))"
      using that by (auto simp: joined_def unjoinable_def)
  qed
  with into new(1-4) writes_trans [OF G(2)] show ?thesis
    unfolding free by (intro exI [of _ B'] exI [of _ F'] exI [of _ y] exI [of _ l]) simp
qed

section \<open>Initialisation\<close>

lemma dvd_32: "5 \<le> k \<Longrightarrow> 2 ^ k dvd (x :: nat) \<Longrightarrow> 32 dvd x"
  using le_imp_power_dvd [of 5 k "2 :: nat"] by (auto intro: dvd_trans)

lemma tiled_extend:
  assumes "tiled n B" "2 ^ k dvd n" "5 \<le> k" "k < ARENA_ORDERS"
  shows "tiled (n + 2 ^ k) (B(n \<mapsto> (k, f)))" "B n = None"
proof -
  have below: "x + 2 ^ l \<le> n" if "B x = Some (l, g)" for x l g
    using tiledD(4) [OF assms(1) that] .
  show new: "B n = None"
  proof (cases "B n")
    case (Some kf)
    with below [of n "fst kf" "snd kf"] show ?thesis by simp
  qed
  let ?B = "B(n \<mapsto> (k, f))"
  have "aligned (n + 2 ^ k) ?B"
    using assms below by (auto simp: aligned_def tiled_def trans_le_add1)
  moreover have "apart ?B"
    using assms(1) below by (fastforce simp: apart_def tiled_def split: if_splits)
  moreover have "covered (n + 2 ^ k) ?B"
    unfolding covered_def
  proof (intro allI impI)
    fix y :: nat assume y: "32 dvd y" "y + 32 \<le> n + 2 ^ k"
    show "\<exists>x l g. ?B x = Some (l, g) \<and> covers x l y"
    proof (cases "y + 32 \<le> n")
      case True
      then obtain x l g where "B x = Some (l, g)" "covers x l y"
        using assms(1) y by (auto simp: tiled_def covered_def)
      with new show ?thesis by (intro exI [of _ x] exI [of _ l] exI [of _ g]) auto
    next
      case False
      then have "n \<le> y"
        using multiple_less [of 32 n y] dvd_32 [OF assms(3,2)] y(1) by simp
      then show ?thesis
        using y(2) by (intro exI [of _ n] exI [of _ k] exI [of _ f]) (simp add: covers_def)
    qed
  qed
  ultimately show "tiled (n + 2 ^ k) ?B" by (simp add: tiled_def)
qed

text \<open>While the arena is set up, the blocks cover its first \<open>n\<close> bytes and all of them are free.\<close>

definition irep :: "nat \<Rightarrow> arena_state \<Rightarrow> bmap \<Rightarrow> (nat \<Rightarrow> addr list) \<Rightarrow> bool" where
  "irep n st B F \<longleftrightarrow> abase (fst st) \<noteq> NULL \<and> tiled n B \<and> headers_ok st B \<and> lists_ok st F \<and>
     listed (abase (fst st)) B F \<and> live B = Map.empty"

lemma add_block_ok:
  assumes rep: "irep n st B F" and k: "2 ^ k dvd n" "5 \<le> k" "k < ARENA_ORDERS"
  defines "b \<equiv> abase (fst st) + n"
  defines "st' \<equiv> block_link k b (set_header b k st)"
  shows "irep (n + 2 ^ k) st' (B(n \<mapsto> (k, True))) (F(k := b # F k))"
    "abase (fst st') = abase (fst st)" "asize (fst st') = asize (fst st)"
proof -
  note R = rep [unfolded irep_def]
  have t: "tiled (n + 2 ^ k) (B(n \<mapsto> (k, True)))" "B n = None"
    using tiled_extend R k by blast+
  have mem: "y \<in> set (F l) \<longleftrightarrow> abase (fst st) \<le> y \<and> B (y - abase (fst st)) = Some (l, True)" for l y
    using R by (simp add: listed_def)
  have out: "b \<notin> set (F l)" for l
    using mem t(2) by (simp add: b_def)
  have "lists_ok (set_header b k st) F" "b \<noteq> NULL"
    using R lists_ok_flags(3) by (auto simp: b_def)
  from block_link_ok [of "set_header b k st" F b k, OF this out]
  have l: "lists_ok st' (F(k := b # F k))" "relinked (insert b (set (F k))) (set_header b k st) st'"
    by (simp_all add: st'_def)
  show bases: "abase (fst st') = abase (fst st)" "asize (fst st') = asize (fst st)"
    using l(2) by (simp_all add: relinked_def set_header_def split: prod.splits)
  have flags: "order (snd st' y) = (if y = b then k else order (snd st y))"
      "is_free (snd st' y) = (y = b \<or> is_free (snd st y))" for y
    using l(2) by (cases st; simp add: relinked_def set_header_def)+
  have "headers_ok st' (B(n \<mapsto> (k, True)))"
    using R bases flags t(2) by (auto simp: headers_ok_def b_def)
  moreover have "y \<in> set ((F(k := b # F k)) l) \<longleftrightarrow> abase (fst st) \<le> y \<and> (B(n \<mapsto> (k, True))) (y - abase (fst st)) = Some (l, True)" for l y
    using mem t(2) by (auto simp: b_def)
  then have "listed (abase (fst st')) (B(n \<mapsto> (k, True))) (F(k := b # F k))"
    using bases by (simp add: listed_def)
  ultimately show "irep (n + 2 ^ k) st' (B(n \<mapsto> (k, True))) (F(k := b # F k))"
    using R t(1) l(1) bases by (simp add: irep_def)
qed

lemma small_order: "od \<le> 4 \<Longrightarrow> one_shl od \<le> 16" "5 \<le> od \<Longrightarrow> 32 \<le> one_shl od"
proof -
  show "od \<le> 4 \<Longrightarrow> one_shl od \<le> 16"
    using power_increasing [of od 4 "2 :: nat"] by (simp add: one_shl_def)
  show "5 \<le> od \<Longrightarrow> 32 \<le> one_shl od"
    using power_increasing [of 5 od "2 :: nat"] by (simp add: one_shl_def)
qed

lemma init_loop_ok:
  assumes "irep n st B F" "od \<le> 31" "sz < 2 ^ 63" "2 ^ od dvd n" "32 dvd n" "30 \<le> od \<or> sz < 2 ^ Suc od" "b = abase (fst st) + n"
  shows "\<exists>m B' F'. irep m (init_loop od b sz st) B' F' \<and> 32 dvd m \<and> m \<le> n + sz \<and> n + sz < m + 32 \<and>
    abase (fst (init_loop od b sz st)) = abase (fst st) \<and> asize (fst (init_loop od b sz st)) = asize (fst st)"
  using assms
proof (induction od b sz st arbitrary: n B F rule: init_loop.induct)
  case (1 od b sz st)
  show ?case
  proof (cases "one_shl od < BLOCK_SIZE")
    case True
    then have "od \<le> 4"
      using small_order(2) [of od] by (cases "od \<le> 4") (auto simp: BLOCK_SIZE_def)
    then have "sz < 32"
      using "1.prems"(6) power_increasing [of "Suc od" 5 "2 :: nat"] by auto
    with 1 True show ?thesis
      by (intro exI [of _ n] exI [of _ B] exI [of _ F]) (simp add: init_loop.simps [of od])
  next
    case False
    then have od5: "5 \<le> od"
      using small_order(1) [of od] by (cases "od \<le> 4") (auto simp: BLOCK_SIZE_def)
    show ?thesis
    proof (cases "one_shl od > sz")
      case True
      have step: "init_loop od b sz st = init_loop (od - 1) b sz st"
        using False True by (simp add: init_loop.simps [of od])
      have "2 ^ (od - 1) dvd n"
        using "1.prems"(4) le_imp_power_dvd [of "od - 1" od "2 :: nat"] by (auto intro: dvd_trans)
      moreover have "30 \<le> od - 1 \<or> sz < 2 ^ Suc (od - 1)"
        using True od5 "1.prems"(2) by (cases "od = 31") (auto simp: one_shl_def)
      ultimately show ?thesis
        unfolding step using "1.IH"(1) [OF False True "1.prems"(1) _ "1.prems"(3) _ "1.prems"(5) _ "1.prems"(7)] "1.prems"(2) by auto
    next
      case fits: False
      then have "od \<noteq> 31"
        using "1.prems"(3) by (auto simp: one_shl_def)
      then have od: "od \<le> 30" "one_shl od = 2 ^ od"
        using "1.prems"(2) by (auto simp: one_shl_def)
      define st' where "st' = block_link od b (set_header b od st)"
      have step: "init_loop od b sz st = init_loop od (b + 2 ^ od) (sz - 2 ^ od) st'"
        using False fits od by (simp add: init_loop.simps [of od b] st'_def)
      note A = add_block_ok [OF "1.prems"(1,4) od5, folded "1.prems"(7), folded st'_def]
      have "32 dvd n + 2 ^ od"
        using "1.prems"(5) dvd_32 [OF od5, of "2 ^ od"] by simp
      then have "\<exists>m B' F'. irep m (init_loop od (b + 2 ^ od) (sz - 2 ^ od) st') B' F' \<and> 32 dvd m \<and> m \<le> n + 2 ^ od + (sz - 2 ^ od) \<and>
          n + 2 ^ od + (sz - 2 ^ od) < m + 32 \<and>
          abase (fst (init_loop od (b + 2 ^ od) (sz - 2 ^ od) st')) = abase (fst st') \<and>
          asize (fst (init_loop od (b + 2 ^ od) (sz - 2 ^ od) st')) = asize (fst st')"
      proof (intro "1.IH"(2) [OF False fits, folded st'_def, unfolded od(2)])
        show "irep (n + 2 ^ od) st' (B(n \<mapsto> (od, True))) (F(od := b # F od))"
          using A(1) od(1) by (simp add: ARENA_ORDERS_def)
        show "b + 2 ^ od = abase (fst st') + (n + 2 ^ od)"
          using A(2) od(1) "1.prems"(7) by (simp add: ARENA_ORDERS_def)
      qed (use "1.prems"(2-6) od(1) in auto)
      then show ?thesis
        unfolding step using A(2,3) od fits by (simp add: ARENA_ORDERS_def)
    qed
  qed
qed

lemma arena_init_ok:
  assumes "base \<noteq> NULL" "sz < 2 ^ 63"
  shows "\<exists>B F. arep (arena_init base sz h) B F \<and> live B = Map.empty \<and> abase (fst (arena_init base sz h)) = base \<and>
    asize (fst (arena_init base sz h)) = sz"
proof -
  define st0 :: arena_state where "st0 = (\<lparr>abase = base, asize = sz, ablocks = (\<lambda>_. NULL)\<rparr>, h)"
  have "irep 0 st0 Map.empty (\<lambda>_. [])"
    using assms(1) by (simp add: irep_def st0_def tiled_def aligned_def apart_def covered_def headers_ok_def lists_ok_def listed_def live_def fun_eq_iff)
  from init_loop_ok [OF this, of 31 sz base] assms obtain m B F where
    r: "irep m (arena_init base sz h) B F" "32 dvd m" "m \<le> sz" "sz < m + 32"
      "abase (fst (arena_init base sz h)) = base" "asize (fst (arena_init base sz h)) = sz"
    by (auto simp: arena_init_def ARENA_ORDERS_def st0_def)
  have t: "tiled m B"
    using r(1) by (simp add: irep_def)
  have "aligned sz B"
    using t r(3) by (fastforce simp: tiled_def aligned_def)
  moreover have "y + 32 \<le> m" if "32 dvd y" "y + 32 \<le> sz" for y
  proof -
    have "y + 32 < m + 32"
      using that(2) r(4) by simp
    then show ?thesis
      using multiple_less [of 32 "y + 32" m] that(1) r(2) by simp
  qed
  then have "covered sz B"
    using t by (auto simp: tiled_def covered_def)
  ultimately have "tiled sz B"
    using t by (simp add: tiled_def)
  then show ?thesis
    using r by (auto simp: arep_def irep_def)
qed

section \<open>The arena as an allocator\<close>

text \<open>
  What a client sees: the pointers it holds and the capacity behind each. The arena must not end with
  24 to 31 bytes that no block covers, see the lemma \<open>buddy_block\<close>.
\<close>

definition capacities :: "addr \<Rightarrow> bmap \<Rightarrow> addr \<rightharpoonup> nat" where
  "capacities base B p = (if base + BLOCK_SIZE \<le> p then map_option (\<lambda>k. 2 ^ k - BLOCK_SIZE) (live B (p - base - BLOCK_SIZE)) else None)"

definition arena_inv :: "arena_state \<Rightarrow> (addr \<rightharpoonup> nat) \<Rightarrow> bool" where
  "arena_inv st L \<longleftrightarrow> asize (fst st) mod 32 < BLOCK_SIZE \<and> (\<exists>B F. arep st B F \<and> L = capacities (abase (fst st)) B)"

lemma capacities_upd:
  "live B' = (live B)(x \<mapsto> k) \<Longrightarrow> capacities base B' = (capacities base B)(base + x + BLOCK_SIZE \<mapsto> 2 ^ k - BLOCK_SIZE)"
  "live B' = (live B)(x := None) \<Longrightarrow> capacities base B' = (capacities base B)(base + x + BLOCK_SIZE := None)"
  by (auto simp: capacities_def fun_eq_iff)

lemma capacities_Some:
  "capacities base B p = Some c \<Longrightarrow> \<exists>x k. p = base + x + BLOCK_SIZE \<and> B x = Some (k, False) \<and> c = 2 ^ k - BLOCK_SIZE"
  by (rule exI [of _ "p - base - BLOCK_SIZE"]) (auto simp: capacities_def live_iff split: if_splits)

lemma header_fits:
  assumes "tiled n B" "B x = Some (k, f)"
  shows "BLOCK_SIZE < 2 ^ k"
  using power_increasing [of 5 k "2 :: nat"] tiledD(1) [OF assms] by (simp add: BLOCK_SIZE_def)

lemma arena_inv_separated: "arena_inv st L \<Longrightarrow> separated (abase (fst st)) (asize (fst st)) L"
proof -
  assume "arena_inv st L"
  then obtain B F where r: "arep st B F" and L: "L = capacities (abase (fst st)) B"
    by (auto simp: arena_inv_def)
  have t: "tiled (asize (fst st)) B"
    using r by (simp add: arep_def)
  have range: "abase (fst st) \<le> p \<and> p + c \<le> abase (fst st) + asize (fst st)" if p: "L p = Some c" for p c
  proof -
    obtain x k where x: "p = abase (fst st) + x + BLOCK_SIZE" "B x = Some (k, False)" "c = 2 ^ k - BLOCK_SIZE"
      using capacities_Some p unfolding L by blast
    with tiledD(4) [OF t x(2)] header_fits [OF t x(2)] show ?thesis by simp
  qed
  moreover have "p + c \<le> q" if pq: "L p = Some c" "L q = Some d" "p < q" for p c q d
  proof -
    obtain x k y l where x: "p = abase (fst st) + x + BLOCK_SIZE" "B x = Some (k, False)" "c = 2 ^ k - BLOCK_SIZE"
      and y: "q = abase (fst st) + y + BLOCK_SIZE" "B y = Some (l, False)"
      using capacities_Some pq(1,2) unfolding L by metis
    with tiled_apart [OF t x(2) y(2)] header_fits [OF t x(2)] pq(3) show ?thesis by simp
  qed
  ultimately show ?thesis by (simp add: separated_def)
qed

lemma arena_alloc_inv:
  assumes "arena_inv st L" "arena_alloc n st = (p, st')"
  shows "abase (fst st') = abase (fst st) \<and> asize (fst st') = asize (fst st) \<and> (p = NULL \<longrightarrow> st' = st) \<and>
    (p \<noteq> NULL \<longrightarrow> L p = None \<and> (\<exists>c. arena_inv st' (L(p \<mapsto> c)) \<and> (n \<le> 2 ^ 31 - BLOCK_SIZE \<longrightarrow> n \<le> c)))"
proof -
  obtain B F where r: "arep st B F" "asize (fst st) mod 32 < BLOCK_SIZE" and L: "L = capacities (abase (fst st)) B"
    using assms(1) by (auto simp: arena_inv_def)
  from r(1) show ?thesis
  proof (cases rule: arena_alloc_cases [of _ _ _ n])
    case fails
    with assms(2) show ?thesis by simp
  next
    case (allocates x od st1 B' F')
    have p: "p = abase (fst st) + x + BLOCK_SIZE" "st' = st1" "p \<noteq> NULL"
      using assms(2) allocates(1) by (auto simp: BLOCK_SIZE_def)
    have bases: "abase (fst st') = abase (fst st)" "asize (fst st') = asize (fst st)"
      using allocates(7) p by (simp_all add: writes_def)
    have "L p = None"
      using allocates(5) by (simp add: L capacities_def p)
    moreover have "arena_inv st' (L(p \<mapsto> 2 ^ od - BLOCK_SIZE))"
      using r(2) allocates(4) capacities_upd(1) [OF allocates(6)] p(2) bases
      unfolding arena_inv_def L p(1) by auto
    moreover have "n \<le> 2 ^ od - BLOCK_SIZE" if "n \<le> 2 ^ 31 - BLOCK_SIZE"
      using order_needed(3) [OF allocates(2)] that allocates(3) by (simp add: BLOCK_SIZE_def)
    ultimately show ?thesis
      using bases p(3) by blast
  qed
qed

lemma arena_free_inv:
  assumes "arena_inv st L" "p \<in> dom L"
  shows "abase (fst (arena_free p st)) = abase (fst st) \<and> asize (fst (arena_free p st)) = asize (fst st) \<and>
    arena_inv (arena_free p st) (L(p := None))"
proof -
  obtain B F where r: "arep st B F" "asize (fst st) mod 32 < BLOCK_SIZE" and L: "L = capacities (abase (fst st)) B"
    using assms(1) by (auto simp: arena_inv_def)
  obtain x k where x: "p = abase (fst st) + x + BLOCK_SIZE" "live B x = Some k"
    using assms(2) capacities_Some L by (fastforce simp: live_iff)
  obtain B' F' where f: "arep (arena_free p st) B' F'" "live B' = (live B)(x := None)" "writes (dom B) st (arena_free p st)"
    using arena_free_ok [OF r(1) x(2) r(2)] x(1) by blast
  have bases: "abase (fst (arena_free p st)) = abase (fst st)" "asize (fst (arena_free p st)) = asize (fst st)"
    using f(3) by (simp_all add: writes_def)
  moreover have "arena_inv (arena_free p st) (L(p := None))"
    using r(2) f(1) capacities_upd(2) [OF f(2)] bases unfolding arena_inv_def L x(1) by auto
  ultimately show ?thesis by simp
qed

interpretation arena: allocator arena_inv arena_alloc arena_free "\<lambda>st. (abase (fst st), asize (fst st))" "2 ^ 31 - BLOCK_SIZE"
proof (unfold_locales, goal_cases)
  case (1 s L n p s')
  then show ?case using arena_alloc_inv by simp
next
  case (2 s L p)
  then show ?case using arena_free_inv by simp
next
  case (3 s L)
  then show ?case using arena_inv_separated by simp
qed

lemma arena_init_inv:
  assumes "base \<noteq> NULL" "sz < 2 ^ 63" "sz mod 32 < BLOCK_SIZE"
  shows "arena_inv (arena_init base sz h) Map.empty" "abase (fst (arena_init base sz h)) = base" "asize (fst (arena_init base sz h)) = sz"
proof -
  obtain B F where "arep (arena_init base sz h) B F" "live B = Map.empty" "abase (fst (arena_init base sz h)) = base"
      "asize (fst (arena_init base sz h)) = sz"
    using arena_init_ok [OF assms(1,2)] by blast
  moreover from this(2) have "capacities base B = Map.empty"
    by (simp add: capacities_def fun_eq_iff)
  ultimately show "arena_inv (arena_init base sz h) Map.empty" "abase (fst (arena_init base sz h)) = base"
      "asize (fst (arena_init base sz h)) = sz"
    using assms(3) by (auto simp: arena_inv_def)
qed

text \<open>
  C18: take an arena of \<open>sz < 2 ^ 63\<close> bytes that leaves less than 24 bytes behind its last 32-byte
  unit (\<open>sz mod 32 < 24\<close>: a larger rest is taken for a block header by \<open>arena_free\<close>, see
  \<open>free_joins_garbage\<close>), and requests of at most \<open>2 ^ 31 - 24\<close> bytes (a larger one is served with
  too small a block, see \<open>alloc_order_31\<close>). Whatever blocks a client allocates and frees there, in
  any order, the blocks it holds lie inside of the arena, are as long as requested, and do not
  overlap each other.
\<close>

theorem arena_blocks_separated:
  assumes "base \<noteq> NULL" "sz < 2 ^ 63" "sz mod 32 < BLOCK_SIZE" "\<forall>n. Malloc n \<in> set ops \<longrightarrow> n \<le> 2 ^ 31 - BLOCK_SIZE"
  shows "separated base sz (snd (run_ops arena_alloc arena_free ops (arena_init base sz h) Map.empty))"
proof -
  define s where "s = arena_init base sz h"
  note I = arena_init_inv [OF assms(1-3), of h, folded s_def]
  obtain s' H' where r: "run_ops arena_alloc arena_free ops s Map.empty = (s', H')"
    by (meson surj_pair)
  have "arena.holds s Map.empty"
    unfolding arena.holds_def using I(1) by (intro exI [of _ Map.empty]) simp
  with arena.run_ops_holds [OF _ assms(4) r] have "arena.holds s' H'" "abase (fst s') = base" "asize (fst s') = sz"
    using I by simp_all
  with arena.holds_separated [of s' H'] r show ?thesis
    by (simp add: s_def)
qed

text \<open>
  C19: on a request of at most \<open>2 ^ 31 - 24\<close> bytes (larger ones below \<open>2 ^ 31\<close> are served with too
  small a block, see \<open>alloc_order_31\<close>), \<open>arena_alloc\<close> fails only when no free block is large enough,
  and then changes nothing. Otherwise it returns a new block with at least the requested capacity
  and leaves all other allocated blocks as they are; it writes no byte of an allocated block.
\<close>

theorem arena_alloc_correct:
  assumes "arep st B F" "n \<le> 2 ^ 31 - BLOCK_SIZE" "arena_alloc n st = (p, st')"
  shows "if p = NULL then st' = st \<and> (\<forall>x k. B x = Some (k, True) \<longrightarrow> 2 ^ k < n + BLOCK_SIZE)
    else \<exists>x k B' F'. p = abase (fst st) + x + BLOCK_SIZE \<and> live B x = None \<and> n + BLOCK_SIZE \<le> 2 ^ k \<and>
      arep st' B' F' \<and> live B' = (live B)(x \<mapsto> k) \<and> writes (dom B') st st'"
proof -
  have n: "n < 2 ^ 31" "n + BLOCK_SIZE \<le> 2 ^ 31"
    using assms(2) by (simp_all add: BLOCK_SIZE_def)
  from assms(1) show ?thesis
  proof (cases rule: arena_alloc_cases [of _ _ _ n])
    case fails
    then have "2 ^ k < n + BLOCK_SIZE" if "B x = Some (k, True)" for x k
      using order_needed(4) [OF n(1), of k] that n(1) not_less by blast
    with fails(1) assms(3) show ?thesis by auto
  next
    case (allocates x od st1 B' F')
    then show ?thesis
      using assms(3) order_needed(3) [OF n(1) n(2)] by (auto simp: BLOCK_SIZE_def)
  qed
qed

text \<open>
  C20: in an arena whose size leaves less than 24 bytes behind its last 32-byte unit (a larger rest
  is taken for a block header by the joining loop, see \<open>free_joins_garbage\<close>), \<open>arena_free\<close> of an
  allocated block \<open>x\<close> of order \<open>k\<close> releases exactly that block. The block becomes part of a free
  block \<open>y\<close> of order \<open>l\<close> for which joining is complete: it has the largest order, or its buddy is
  not a free block of the same order. The block map is unchanged outside of \<open>y\<close>, an arena without
  free buddies has none afterwards, and no byte of an allocated block is written.
\<close>

theorem arena_free_correct:
  assumes "arep st B F" "live B x = Some k" "asize (fst st) mod 32 < BLOCK_SIZE"
  shows "\<exists>B' F' y l. arep (arena_free (abase (fst st) + x + BLOCK_SIZE) st) B' F' \<and> live B' = (live B)(x := None) \<and>
    writes (dom B) st (arena_free (abase (fst st) + x + BLOCK_SIZE) st) \<and>
    joined_into B B' x k y l \<and> (joined B \<longrightarrow> joined B')"
  using arena_free_ok [OF assms] by blast

text \<open>
  \<open>arena_realloc\<close> either fails without effect or returns a block with the requested capacity that
  starts with the bytes of the old block, as many as fit in both. The old block is released when
  the result is another one; no byte outside of the result is written.
\<close>

theorem arena_realloc_correct:
  assumes rep: "arep st B F" and x: "live B x = Some k" and sz: "asize (fst st) mod 32 < BLOCK_SIZE" and n: "n \<le> 2 ^ 31 - BLOCK_SIZE"
    and ptr: "ptr = abase (fst st) + x + BLOCK_SIZE" and r: "arena_realloc ptr n st m = (p, st', m')"
  shows "if p = NULL then st' = st \<and> m' = m
    else \<exists>y j B' F'. p = abase (fst st) + y + BLOCK_SIZE \<and> n + BLOCK_SIZE \<le> 2 ^ j \<and> arep st' B' F' \<and>
      live B' = (live B)(x := None, y \<mapsto> j) \<and> (\<forall>i < min n (2 ^ k - BLOCK_SIZE). m' (p + i) = m (ptr + i)) \<and>
      (\<forall>a. \<not> (p \<le> a \<and> a < p + n) \<longrightarrow> m' a = m a)"
proof -
  define od where "od = order_loop 1 n"
  have n': "n < 2 ^ 31" "n + BLOCK_SIZE \<le> 2 ^ 31"
    using n by (simp_all add: BLOCK_SIZE_def)
  have od: "od < ARENA_ORDERS" "n + BLOCK_SIZE \<le> 2 ^ od"
    using order_needed(2,3) [OF n'(1)] n'(2) by (simp_all add: od_def ARENA_ORDERS_def)
  have Bx: "B x = Some (k, False)"
    using x by (simp add: live_iff)
  have pb: "ptr \<noteq> NULL" "ptr - BLOCK_SIZE = abase (fst st) + x"
    by (simp_all add: ptr BLOCK_SIZE_def)
  have "drop_bit (ARENA_ORDERS - 1) n = 0"
    using n'(1) by (simp add: drop_bit_eq_div ARENA_ORDERS_def)
  then have unfold: "arena_realloc ptr n st m =
      (if k = od \<or> od + 1 = k then (ptr, st, m)
       else case arena_alloc n st of (q, st1) \<Rightarrow> if q = NULL then (NULL, st1, m)
         else let copy = one_shl (order (snd st1 (abase (fst st) + x))) - BLOCK_SIZE
           in (q, arena_free ptr st1, memcpy q ptr (if copy > n then n else copy) m))"
    using pb od(1) arep_header(1) [OF rep Bx] by (cases "arena_alloc n st") (simp add: arena_realloc_def od_def Let_def)
  show ?thesis
  proof (cases "k = od \<or> od + 1 = k")
    case True
    have "2 ^ od \<le> (2 :: nat) ^ k"
      using True by (intro power_increasing) auto
    then show ?thesis
      using r True unfold od(2) rep x pb(1) ptr by (auto intro!: exI [of _ x] exI [of _ k] exI [of _ B])
  next
    case False
    from rep show ?thesis
    proof (cases rule: arena_alloc_cases [of _ _ _ n])
      case fails
      then show ?thesis using r unfold False by auto
    next
      case (allocates y j st1 B1 F1)
      define q where "q = abase (fst st) + y + BLOCK_SIZE"
      have q: "q \<noteq> NULL" by (simp add: q_def BLOCK_SIZE_def)
      have yx: "y \<noteq> x" using allocates(5) x by auto
      then have x1: "live B1 x = Some k"
        using allocates(6) x by simp
      have bases: "abase (fst st1) = abase (fst st)" "asize (fst st1) = asize (fst st)"
        using allocates(7) by (simp_all add: writes_def)
      have ord: "order (snd st1 (abase (fst st) + x)) = k"
        using arep_header(1) [OF allocates(4), of x k False] x1 bases by (simp add: live_iff)
      define copy where "copy = (if one_shl k - BLOCK_SIZE > n then n else one_shl k - BLOCK_SIZE)"
      have res: "p = q" "st' = arena_free ptr st1" "m' = memcpy q ptr copy m"
        using r unfold False allocates(1) q ord by (auto simp: q_def copy_def Let_def)
      obtain B' F' where f: "arep st' B' F'" "live B' = (live B1)(x := None)"
        using arena_free_ok [OF allocates(4) x1] sz bases ptr res(2) by auto
      have "2 ^ k \<le> one_shl k"
        by (simp add: one_shl_def)
      then have copy: "min n (2 ^ k - BLOCK_SIZE) \<le> copy" "copy \<le> n"
        by (auto simp: copy_def)
      have "live B' = (live B)(x := None, y \<mapsto> j)"
        using f(2) allocates(6) yx by (simp add: fun_upd_twist)
      moreover have "n + BLOCK_SIZE \<le> 2 ^ j"
        using od(2) allocates(3) by (simp add: od_def)
      moreover have "m' (p + i) = m (ptr + i)" if "i < min n (2 ^ k - BLOCK_SIZE)" for i
        using less_le_trans [OF that copy(1)] by (simp add: res memcpy_def)
      moreover have "m' a = m a" if "\<not> (p \<le> a \<and> a < p + n)" for a
        using that copy(2) by (auto simp: res memcpy_def)
      ultimately show ?thesis
        using q res(1) f(1) by (auto simp: q_def intro!: exI [of _ y] exI [of _ j] exI [of _ B'])
    qed
  qed
qed

section \<open>Counting\<close>

lemma count_list_ok: "bseg h q p xs NULL \<Longrightarrow> count_list h p c = Some (c + length xs)"
  by (induction xs arbitrary: q p c; subst count_list.simps) auto

lemma count_loop_ok:
  assumes "lists_ok st F"
  shows "count_loop is c st = Some (fold (\<lambda>i c. wrap64 (c + length (F i) * wrap64 (one_shl i + 2 ^ 64 - BLOCK_SIZE))) is c)"
  using count_list_ok [OF lists_okD(1) [OF assms]] by (induction "is" arbitrary: c) simp_all

text \<open>The free bytes, headers not counted, when there is no block of order 31.\<close>

lemma arena_count_free_ok:
  assumes "arep st B F" "F 31 = []"
  shows "arena_count_free st = Some (wrap64 (\<Sum>k \<leftarrow> [0..<32]. length (F k) * (2 ^ k - BLOCK_SIZE)))"
proof -
  note R = assms(1) [unfolded arep_def]
  have val: "wrap64 (c + length (F k) * wrap64 (one_shl k + 2 ^ 64 - BLOCK_SIZE)) = wrap64 (c + length (F k) * (2 ^ k - BLOCK_SIZE))"
    if "k < 32" for c k
  proof (cases "F k = []")
    case False
    then obtain b where "b \<in> set (F k)" by fastforce
    then have B: "B (b - abase (fst st)) = Some (k, True)"
      using R listedD by blast
    have "k \<noteq> 31"
      using assms(2) False by blast
    moreover have "(2 :: nat) ^ k < 2 ^ 64"
      using that by (intro power_strict_increasing) simp_all
    moreover have "BLOCK_SIZE < 2 ^ k"
      using header_fits [of _ B, OF _ B] R by blast
    ultimately have "wrap64 (2 ^ k + 2 ^ 64 - BLOCK_SIZE) = 2 ^ k - BLOCK_SIZE"
      by (simp add: mod_if BLOCK_SIZE_def)
    with \<open>k \<noteq> 31\<close> show ?thesis by (simp add: one_shl_def)
  qed simp
  have "fold (\<lambda>i c. wrap64 (c + length (F i) * wrap64 (one_shl i + 2 ^ 64 - BLOCK_SIZE))) is c =
      wrap64 (c + (\<Sum>k \<leftarrow> is. length (F k) * (2 ^ k - BLOCK_SIZE)))" if "c < 2 ^ 64" "\<forall>i \<in> set is. i < 32" for "is" c
    using that
  proof (induction "is" arbitrary: c)
    case (Cons i "is")
    have "i < 32" "\<forall>i \<in> set is. i < 32"
      using Cons.prems(2) by auto
    with Cons.IH [of "wrap64 (c + length (F i) * (2 ^ i - BLOCK_SIZE))"] show ?case
      by (simp only: fold.simps comp_apply val) (simp add: mod_add_left_eq add.assoc)
  qed simp
  then show ?thesis
    using count_loop_ok [of st F "[0..<ARENA_ORDERS]" 0] R by (simp add: arena_count_free_def ARENA_ORDERS_def)
qed

section \<open>Small arenas\<close>

text \<open>An arena of two blocks of 32 bytes at address 64; the first is allocated, the second free.\<close>

definition small_heap :: block_heap where
  "small_heap = (\<lambda>b. \<lparr>prev_blk = NULL, next_blk = NULL, order = 5, is_free = (b = 96)\<rparr>)"

definition small_arena :: arena_state where
  "small_arena = (\<lparr>abase = 64, asize = 64, ablocks = (\<lambda>_. NULL)(5 := 96)\<rparr>, small_heap)"

definition small_map :: bmap where
  "small_map = [0 \<mapsto> (5, False), 32 \<mapsto> (5, True)]"

lemma small_ok: "arep small_arena small_map ((\<lambda>_. [])(5 := [96]))"
proof -
  have "aligned 64 small_map" "apart small_map"
    by (auto simp: aligned_def apart_def small_map_def ARENA_ORDERS_def split: if_splits)
  moreover have "covered 64 small_map"
    unfolding covered_def
  proof (intro allI impI)
    fix y :: nat assume "32 dvd y" "y + 32 \<le> 64"
    then obtain z where "y = 32 * z" "z \<le> 1" by (elim dvdE) simp
    then have "y = 0 \<or> y = 32" by (cases z) auto
    then show "\<exists>x k f. small_map x = Some (k, f) \<and> covers x k y"
    proof
      assume "y = 0"
      then show ?thesis by (intro exI [of _ 0] exI [of _ 5] exI [of _ False]) (simp add: small_map_def covers_def)
    next
      assume "y = 32"
      then show ?thesis by (intro exI [of _ 32] exI [of _ 5] exI [of _ True]) (simp add: small_map_def covers_def)
    qed
  qed
  moreover have "listed 64 small_map ((\<lambda>_. [])(5 := [96]))"
    by (auto simp: listed_def small_map_def)
  moreover have "headers_ok small_arena small_map" "lists_ok small_arena ((\<lambda>_. [])(5 := [96]))"
    by (auto simp: headers_ok_def lists_ok_def small_map_def small_arena_def small_heap_def)
  ultimately show ?thesis
    by (simp add: arep_def tiled_def small_arena_def)
qed

lemma small_live: "live small_map = [0 \<mapsto> 5]"
  by (auto simp: live_def small_map_def fun_eq_iff)

lemma small_base: "abase (fst small_arena) = 64" "asize (fst small_arena) = 64"
  by (simp_all add: small_arena_def)

theorem arena_blocks_separated_witness:
  "separated 64 128 (snd (run_ops arena_alloc arena_free [Malloc 8, Malloc 40, Release 88] (arena_init 64 128 small_heap) Map.empty))"
  by (rule arena_blocks_separated) (auto simp: BLOCK_SIZE_def)

lemma split_loop_self [simp]: "split_loop i i st = st"
  by (cases i) simp_all

lemma small_order_loop: "order_loop 1 8 = 5" "order_loop 1 100 = 7"
  by (simp_all add: order_loop.simps one_shl_def ARENA_ORDERS_def BLOCK_SIZE_def)

lemma small_fit_loop: "fit_loop 5 (fst small_arena) = 5" "fit_loop 7 (fst small_arena) = 32"
  by (simp_all add: fit_loop.simps small_arena_def ARENA_ORDERS_def)

lemma small_alloc: "arena_alloc 8 small_arena = (120, snd (arena_alloc 8 small_arena))"
proof -
  have "arena_alloc 8 small_arena = take_block 5 small_arena"
    unfolding arena_alloc_eq Let_def small_order_loop small_fit_loop by (simp add: ARENA_ORDERS_def)
  then have "fst (arena_alloc 8 small_arena) = 120"
    by (simp add: take_block_def small_arena_def BLOCK_SIZE_def split: prod.splits)
  then show ?thesis by (metis prod.collapse)
qed

theorem arena_alloc_correct_witness:
  "\<exists>x k B' F'. 120 = 64 + x + BLOCK_SIZE \<and> 8 + BLOCK_SIZE \<le> 2 ^ k \<and> arep (snd (arena_alloc 8 small_arena)) B' F' \<and>
     live B' = [0 \<mapsto> 5, x \<mapsto> k]"
  using arena_alloc_correct [OF small_ok _ small_alloc] unfolding small_base small_live by (auto simp: BLOCK_SIZE_def)

lemma small_join:
  assumes "joined_into small_map B' 0 5 y l" "arep st B' F'" "asize (fst st) = 64"
  shows "y = 0 \<and> B' 0 = Some (6, True)"
proof -
  have j: "y = 0" "32 \<le> (2 :: nat) ^ l" "B' 0 = Some (l, True)" "unjoinable B' 0 l" "\<not> covers 0 l 32 \<Longrightarrow> B' 32 = small_map 32"
    using assms(1) by (auto simp: joined_into_def)
  have "tiled 64 B'"
    using assms(2,3) by (simp add: arep_def)
  from tiledD [OF this j(3)] have l: "5 \<le> l" "(2 :: nat) ^ l \<le> 2 ^ 6"
    by simp_all
  then have "l \<le> 6"
    using power_le_imp_le_exp [of "2 :: nat" l 6] by simp
  with l(1) have "l = 5 \<or> l = 6"
    by auto
  with j show ?thesis
    by (auto simp: unjoinable_def covers_def small_map_def ARENA_ORDERS_def)
qed

theorem arena_free_correct_witness: "\<exists>B' F'. arep (arena_free 88 small_arena) B' F' \<and> live B' = Map.empty \<and> B' 0 = Some (6, True)"
proof -
  have "small_map 0 = Some (5, False)" "live small_map 0 = Some 5" "asize (fst small_arena) mod 32 < BLOCK_SIZE"
    by (simp_all add: small_map_def small_live small_base BLOCK_SIZE_def)
  with arena_free_correct [OF small_ok, of 0 5] obtain B' F' y l where
    f: "arep (arena_free 88 small_arena) B' F'" "live B' = Map.empty" "writes (dom small_map) small_arena (arena_free 88 small_arena)"
       "joined_into small_map B' 0 5 y l"
    unfolding small_base small_live by (auto simp: BLOCK_SIZE_def)
  moreover have "asize (fst (arena_free 88 small_arena)) = 64"
    using f(3) by (simp add: writes_def small_base)
  ultimately show ?thesis
    using small_join by blast
qed

definition small_mem :: mem where
  "small_mem = (\<lambda>a. word_of_nat a)"

lemma small_realloc: "arena_realloc 88 8 small_arena small_mem = (88, small_arena, small_mem)"
proof -
  have "drop_bit (ARENA_ORDERS - 1) (8 :: nat) = 0"
    by (simp add: drop_bit_eq_div ARENA_ORDERS_def)
  then show ?thesis
    unfolding arena_realloc_def Let_def small_order_loop by (simp add: ARENA_ORDERS_def small_arena_def small_heap_def)
qed

theorem arena_realloc_correct_witness:
  "\<exists>y j B' F'. 88 = 64 + y + BLOCK_SIZE \<and> 8 + BLOCK_SIZE \<le> 2 ^ j \<and> arep small_arena B' F' \<and> live B' = [0 \<mapsto> 5](0 := None, y \<mapsto> j)"
  using arena_realloc_correct [OF small_ok _ _ _ _ small_realloc, of 0 5] unfolding small_base small_live by (auto simp: BLOCK_SIZE_def)

text \<open>
  A request of more than \<open>2 ^ 31 - 24\<close> bytes that does not have bit 31 set is given a block of order
  31, which is too small for it together with the header.
\<close>

lemma alloc_order_31: "order_loop 1 (2 ^ 31 - 1) = 31" "2 ^ 31 < 2 ^ 31 - 1 + BLOCK_SIZE"
proof -
  have "2 ^ k < (2 ^ 31 - 1 :: nat) + BLOCK_SIZE" if "k < 31" for k
    using power_strict_increasing [OF that, of "2 :: nat"] by (simp add: BLOCK_SIZE_def)
  then have *: "order_loop 1 (2 ^ 31 - 1) < 31 \<Longrightarrow> False"
    using order_loop_ok [of "2 ^ 31 - 1" 1] by (force simp: not_le)
  moreover have "order_loop 1 (2 ^ 31 - 1) \<le> 31"
    by (rule order_needed(2)) simp
  ultimately show "order_loop 1 (2 ^ 31 - 1) = 31"
    using nat_less_le by blast
qed (simp add: BLOCK_SIZE_def)

text \<open>
  An arena of 56 bytes has one block and 24 bytes behind it. When these bytes look like the header of
  a free block of the same order, freeing the block makes a block of 64 bytes.
\<close>

definition stale_heap :: block_heap where
  "stale_heap = (\<lambda>_. \<lparr>prev_blk = NULL, next_blk = NULL, order = 5, is_free = True\<rparr>)"

lemma stale_init: "arena_init 64 56 stale_heap = (\<lparr>abase = 64, asize = 56, ablocks = (\<lambda>_. NULL)(5 := 64)\<rparr>, stale_heap)"
  by (simp add: arena_init_def init_loop.simps one_shl_def BLOCK_SIZE_def ARENA_ORDERS_def block_link_def set_header_def stale_heap_def fun_eq_iff)

lemma free_joins_garbage:
  defines "st \<equiv> arena_free 88 (snd (arena_alloc 8 (arena_init 64 56 stale_heap)))"
  shows "asize (fst st) = 56" "ablocks (fst st) 6 = 64" "order (snd st 64) = 6"
proof -
  have "fit_loop 5 \<lparr>abase = 64, asize = 56, ablocks = (\<lambda>_. NULL)(5 := 64)\<rparr> = 5"
    by (simp add: fit_loop.simps)
  then have "arena_alloc 8 (arena_init 64 56 stale_heap) =
      take_block 5 (\<lparr>abase = 64, asize = 56, ablocks = (\<lambda>_. NULL)(5 := 64)\<rparr>, stale_heap)"
    unfolding arena_alloc_eq Let_def small_order_loop stale_init by (simp add: ARENA_ORDERS_def)
  then have "snd (arena_alloc 8 (arena_init 64 56 stale_heap)) =
      (\<lparr>abase = 64, asize = 56, ablocks = (\<lambda>_. NULL)(5 := NULL)\<rparr>, stale_heap(64 := (stale_heap 64)\<lparr>is_free := False\<rparr>))"
    by (simp add: take_block_def block_unlink_def stale_heap_def)
  then have "st = join_loop 5 64 (block_link 5 64 (\<lparr>abase = 64, asize = 56, ablocks = (\<lambda>_. NULL)(5 := NULL)\<rparr>, stale_heap))"
    by (simp add: st_def arena_free_def stale_heap_def BLOCK_SIZE_def fun_upd_idem)
  then show "asize (fst st) = 56" "ablocks (fst st) 6 = 64" "order (snd st 64) = 6"
    by (simp_all add: join_loop.simps buddy_of_def block_link_def block_unlink_def stale_heap_def ARENA_ORDERS_def BLOCK_SIZE_def one_shl_def)
qed

end
