(* ===== verification/Dlb_Strbuf.thy ===== *)
theory Dlb_Strbuf
  imports Dlb_Vector "HOL-Library.Monad_Syntax"
begin

text \<open>
  The string buffer of \<^verbatim>\<open>src/src/strbuf.c\<close>. The text is the constant empty string, the null pointer (after
  destruction) or a block of the heap whose length is the capacity. Sizes are naturals, as
  \<open>size_t\<close> with its wrap-around written out where the code shifts. \<open>realloc\<close> is the parameter of the
  vectors; \<open>malloc\<close> is \<open>realloc\<close> of the null pointer.
\<close>

section \<open>The structure and its operations\<close>

datatype text_ptr = Blank | Freed | Heap block

record strbuf =
  stext :: text_ptr
  slength :: nat
  scapacity :: nat
  failed :: bool

definition strbuf_init :: strbuf where
  "strbuf_init = \<lparr>stext = Blank, slength = 0, scapacity = 0, failed = False\<rparr>"

definition strbuf_destroy :: "strbuf \<Rightarrow> strbuf" where
  "strbuf_destroy buf = \<lparr>stext = Freed, slength = 0, scapacity = 0, failed = False\<rparr>"

definition strbuf_clear :: "strbuf \<Rightarrow> strbuf" where
  "strbuf_clear buf = \<lparr>stext = Blank, slength = 0, scapacity = 0, failed = False\<rparr>"

definition strbuf_text :: "strbuf \<Rightarrow> text_ptr" where
  "strbuf_text buf = stext buf"

definition strbuf_len :: "strbuf \<Rightarrow> nat" where
  "strbuf_len buf = slength buf"

text \<open>\<open>while (new_cap < length + 1) new_cap <<= 1\<close>\<close>

partial_function (option) cap_loop :: "nat \<Rightarrow> nat \<Rightarrow> nat option" where
  "cap_loop new_cap len = (if new_cap < wrap64 (len + 1) then cap_loop (wrap64 (2 * new_cap)) len else Some new_cap)"

declare cap_loop.simps [code]

definition heap_block :: "text_ptr \<Rightarrow> block option" where
  "heap_block t = (case t of Heap b \<Rightarrow> Some b | _ \<Rightarrow> None)"

definition strbuf_capacity_hint :: "realloc_fn \<Rightarrow> nat \<Rightarrow> strbuf \<Rightarrow> (int \<times> strbuf) option" where
  "strbuf_capacity_hint ra len buf =
     (if len < slength buf then Some (0, buf)
      else do {
        new_cap \<leftarrow> cap_loop 32 len;
        if new_cap = scapacity buf then Some (0, buf)
        else case ra (heap_block (stext buf)) new_cap of
            None \<Rightarrow> Some (-1, buf)
          | Some b \<Rightarrow> Some (0, buf\<lparr>stext := Heap b, scapacity := new_cap\<rparr>)
      })"

text \<open>Writing into the text; writing through a pointer that is not a heap block is an error.\<close>

definition poke :: "nat \<Rightarrow> block \<Rightarrow> strbuf \<Rightarrow> strbuf option" where
  "poke off d buf = (case stext buf of
     Heap b \<Rightarrow> if off + length d \<le> length b then Some (buf\<lparr>stext := Heap (block_write b off d)\<rparr>) else None
   | _ \<Rightarrow> None)"

definition strbuf_resize :: "realloc_fn \<Rightarrow> nat \<Rightarrow> strbuf \<Rightarrow> (int \<times> strbuf) option" where
  "strbuf_resize ra new_length buf = do {
     (r, buf) \<leftarrow> if wrap64 (new_length + 1) > scapacity buf then strbuf_capacity_hint ra new_length buf else Some (0, buf);
     if r < 0 then Some (-1, buf\<lparr>failed := True\<rparr>)
     else do {
       buf \<leftarrow> poke new_length [0] (buf\<lparr>slength := new_length\<rparr>);
       (_, buf) \<leftarrow> if wrap64 ((new_length + 1) * 4) < scapacity buf then strbuf_capacity_hint ra (wrap64 (new_length + 1)) buf else Some (0, buf);
       Some (0, buf)
     }
   }"

text \<open>
  The bytes at the pointer \<open>text\<close> are a list; reading beyond its end is an error. So is \<open>strlen\<close> of bytes
  without a terminator.
\<close>

definition strlen :: "block \<Rightarrow> nat option" where
  "strlen s = (if 0 \<in> set s then Some (length (takeWhile (\<lambda>c. c \<noteq> 0) s)) else None)"

definition source_bytes :: "nat \<Rightarrow> block \<Rightarrow> block option" where
  "source_bytes n s = (if n \<le> length s then Some (take n s) else None)"

definition strbuf_add_string :: "realloc_fn \<Rightarrow> block \<Rightarrow> int \<Rightarrow> strbuf \<Rightarrow> (int \<times> strbuf) option" where
  "strbuf_add_string ra text len buf = do {
     len \<leftarrow> if len < 0 then map_option to_int32 (strlen text) else Some len;
     let n = nat (len mod 2 ^ 64);  \<comment> \<open>\<open>len\<close> as a \<open>size_t\<close>\<close>
     (r, buf) \<leftarrow> strbuf_capacity_hint ra (wrap64 (slength buf + n)) buf;
     if r < 0 then Some (-1, buf)
     else do {
       src \<leftarrow> source_bytes n text;
       buf \<leftarrow> poke (slength buf) src buf;
       let buf = buf\<lparr>slength := wrap64 (slength buf + n)\<rparr>;
       buf \<leftarrow> poke (slength buf) [0] buf;
       Some (len, buf)
     }
   }"

definition strbuf_add_char :: "realloc_fn \<Rightarrow> u32 \<Rightarrow> strbuf \<Rightarrow> (int \<times> strbuf) option" where
  "strbuf_add_char ra c buf = strbuf_add_string ra [ucast c] 1 buf"

text \<open>
  \<open>vsnprintf\<close>: the format and its arguments determine the text to print, or an encoding error. It
  writes as much as there is room for, and a terminator, and returns the length of the whole text.
\<close>

definition vsnprintf :: "block option \<Rightarrow> nat \<Rightarrow> nat \<Rightarrow> strbuf \<Rightarrow> (int \<times> strbuf) option" where
  "vsnprintf out off room buf = (case out of
     None \<Rightarrow> Some (-1, buf)
   | Some s \<Rightarrow> if room = 0 then Some (int (length s), buf)
       else do { buf \<leftarrow> poke off (take (room - 1) s @ [0]) buf; Some (int (length s), buf) })"

partial_function (option) printf_loop :: "realloc_fn \<Rightarrow> block option \<Rightarrow> strbuf \<Rightarrow> (int \<times> strbuf) option" where
  "printf_loop ra out buf = do {
     let room = to_int32 (scapacity buf - slength buf);
     (r, buf) \<leftarrow> vsnprintf out (slength buf) (nat (room mod 2 ^ 64)) buf;
     if r + 1 < room then Some (r, buf\<lparr>slength := nat ((int (slength buf) + r) mod 2 ^ 64)\<rparr>)
     else do {
       (r, buf) \<leftarrow> strbuf_capacity_hint ra (wrap64 (scapacity buf + 1)) buf;
       if r < 0 then Some (-1, buf\<lparr>failed := True\<rparr>)
       else printf_loop ra out buf
     }
   }"

declare printf_loop.simps [code]

definition strbuf_vprintf :: "realloc_fn \<Rightarrow> block option \<Rightarrow> strbuf \<Rightarrow> (int \<times> strbuf) option" where
  "strbuf_vprintf ra out buf = do {
     (r, buf) \<leftarrow> strbuf_capacity_hint ra 1 buf;
     if r < 0 then Some (-1, buf) else printf_loop ra out buf
   }"

definition strbuf_printf :: "realloc_fn \<Rightarrow> block option \<Rightarrow> strbuf \<Rightarrow> (int \<times> strbuf) option" where
  "strbuf_printf ra out buf = strbuf_vprintf ra out buf"

section \<open>Capacity\<close>

text \<open>The loop ends at the least doubling of 32 that holds the text and its terminator.\<close>

lemma cap_loop_ok:
  assumes "c = 32 * 2 ^ i" "i \<le> 58" "len + 1 \<le> 2 ^ 63" "i = 0 \<or> 16 * 2 ^ i < len + 1"
  shows "\<exists>j. cap_loop c len = Some (32 * 2 ^ j) \<and> j \<le> 58 \<and> len + 1 \<le> 32 * 2 ^ j \<and> (j = 0 \<or> 16 * 2 ^ j < len + 1)"
  using assms
proof (induction "58 - i" arbitrary: i c rule: less_induct)
  case less
  have len: "wrap64 (len + 1) = len + 1"
    using less.prems(3) by simp
  show ?case
  proof (cases "c < len + 1")
    case False
    then have "cap_loop c len = Some c"
      using len by (subst cap_loop.simps) simp
    with False less.prems show ?thesis by auto
  next
    case True
    have "i \<noteq> 58"
      using True less.prems(1,3) by auto
    then have i: "i < 58" using less.prems(2) by simp
    have "(2 :: nat) ^ i \<le> 2 ^ 57"
      using i by (intro power_increasing) auto
    then have "wrap64 (2 * c) = 32 * 2 ^ Suc i"
      using less.prems(1) by simp
    moreover have "cap_loop c len = cap_loop (wrap64 (2 * c)) len"
      using True len by (subst cap_loop.simps) simp
    ultimately show ?thesis
      using less.hyps [of "Suc i" "32 * 2 ^ Suc i"] True i less.prems by auto
  qed
qed

definition fit_cap :: "nat \<Rightarrow> nat" where
  "fit_cap len = the (cap_loop 32 len)"

lemma fit_cap:
  assumes "len < 2 ^ 62"
  shows "cap_loop 32 len = Some (fit_cap len)" "len < fit_cap len" "fit_cap len \<le> max 32 (2 * len)" "32 \<le> fit_cap len"
proof -
  obtain j where j: "cap_loop 32 len = Some (32 * 2 ^ j)" "len + 1 \<le> 32 * 2 ^ j" "j = 0 \<or> 16 * 2 ^ j < len + 1"
    using cap_loop_ok [of 32 0 len] assms by auto
  then show "cap_loop 32 len = Some (fit_cap len)" "len < fit_cap len" "fit_cap len \<le> max 32 (2 * len)" "32 \<le> fit_cap len"
    by (auto simp: fit_cap_def max_def)
qed

section \<open>Contents\<close>

definition strbuf_wf :: "strbuf \<Rightarrow> bool" where
  "strbuf_wf buf \<longleftrightarrow> scapacity buf < 2 ^ 62 \<and> (case stext buf of
     Blank \<Rightarrow> slength buf = 0 \<and> scapacity buf = 0
   | Freed \<Rightarrow> False
   | Heap b \<Rightarrow> length b = scapacity buf \<and> slength buf < scapacity buf)"

definition contents_of :: "strbuf \<Rightarrow> block" where
  "contents_of buf = (case stext buf of Heap b \<Rightarrow> take (slength buf) b | _ \<Rightarrow> [])"

definition terminated :: "strbuf \<Rightarrow> bool" where
  "terminated buf \<longleftrightarrow> (case stext buf of Blank \<Rightarrow> True | Freed \<Rightarrow> False | Heap b \<Rightarrow> b ! slength buf = 0)"

lemma length_contents_of: "strbuf_wf buf \<Longrightarrow> length (contents_of buf) = slength buf"
  by (auto simp: strbuf_wf_def contents_of_def split: text_ptr.splits)

lemma strbuf_capacity_hint_ok:
  assumes ra: "realloc_ok ra" and wf: "strbuf_wf buf" and len: "len < 2 ^ 60"
  shows "\<exists>r buf'. strbuf_capacity_hint ra len buf = Some (r, buf') \<and> r \<in> {-1, 0} \<and> (r = -1 \<longrightarrow> buf' = buf) \<and>
    (r = 0 \<longrightarrow> strbuf_wf buf' \<and> contents_of buf' = contents_of buf \<and> slength buf' = slength buf \<and> failed buf' = failed buf \<and>
      (len < slength buf \<longrightarrow> buf' = buf) \<and> (slength buf \<le> len \<longrightarrow> scapacity buf' = fit_cap len \<and> (\<exists>b. stext buf' = Heap b)))"
proof (cases "len < slength buf")
  case True
  with wf show ?thesis by (simp add: strbuf_capacity_hint_def)
next
  case False
  have l62: "len < 2 ^ 62" using len by simp
  note C = fit_cap [OF l62]
  have small: "fit_cap len < 2 ^ 62"
    using C(3) len by (simp add: max_def split: if_splits)
  show ?thesis
  proof (cases "fit_cap len = scapacity buf")
    case True
    then have "\<exists>b. stext buf = Heap b"
      using wf C(4) by (auto simp: strbuf_wf_def split: text_ptr.splits)
    with True False wf C(1) show ?thesis by (simp add: strbuf_capacity_hint_def)
  next
    case neq: False
    show ?thesis
    proof (cases "ra (heap_block (stext buf)) (fit_cap len)")
      case None
      with False neq C(1) show ?thesis by (simp add: strbuf_capacity_hint_def)
    next
      case (Some b)
      have b: "length b = fit_cap len"
        "\<And>old. stext buf = Heap old \<Longrightarrow> take (min (fit_cap len) (length old)) b = take (min (fit_cap len) (length old)) old"
        using ra Some by (auto simp: realloc_ok_def heap_block_def)
      define buf' where "buf' = buf\<lparr>stext := Heap b, scapacity := fit_cap len\<rparr>"
      have sl: "slength buf < fit_cap len"
        using False C(2) by simp
      have "take (slength buf) b = contents_of buf"
      proof (cases "stext buf")
        case (Heap old)
        have "slength buf \<le> min (fit_cap len) (length old)"
          using wf Heap sl by (simp add: strbuf_wf_def)
        then have "take (slength buf) b = take (slength buf) old"
          using arg_cong [OF b(2) [OF Heap], of "take (slength buf)"] by (simp add: min_absorb1)
        with Heap show ?thesis by (simp add: contents_of_def)
      qed (use wf in \<open>auto simp: contents_of_def strbuf_wf_def\<close>)
      then have "strbuf_wf buf'" "contents_of buf' = contents_of buf"
        using b(1) sl small by (simp_all add: buf'_def strbuf_wf_def contents_of_def)
      moreover have "strbuf_capacity_hint ra len buf = Some (0, buf')"
        using False neq C(1) Some by (simp add: strbuf_capacity_hint_def buf'_def)
      ultimately show ?thesis
        using False by (simp add: buf'_def)
    qed
  qed
qed

lemma poke_ok:
  assumes "stext buf = Heap b" "off + length d \<le> length b"
  shows "poke off d buf = Some (buf\<lparr>stext := Heap (block_write b off d)\<rparr>)"
  using assms by (simp add: poke_def)

lemma length_block_write [simp]: "off + length d \<le> length b \<Longrightarrow> length (block_write b off d) = length b"
  by (simp add: block_write_def)

lemma block_write_simps:
  assumes "off + length d \<le> length b"
  shows "k \<le> off \<Longrightarrow> take k (block_write b off d) = take k b" "take (off + length d) (block_write b off d) = take off b @ d"
    "d = [c] \<Longrightarrow> block_write b off d ! off = c"
  using assms by (simp_all add: block_write_def nth_append min_absorb2)

text \<open>A \<open>realloc\<close> that never fails.\<close>

definition ra_total :: "realloc_fn \<Rightarrow> bool" where
  "ra_total ra \<longleftrightarrow> (\<forall>p n. ra p n \<noteq> None)"

lemma hint_total: "ra_total ra \<Longrightarrow> strbuf_capacity_hint ra len buf = Some (r, buf') \<Longrightarrow> r = 0"
  by (auto simp: strbuf_capacity_hint_def bind_eq_Some_conv split: if_splits option.splits) (metis option.distinct(1) ra_total_def)

text \<open>The characters that are appended: up to the given length, or up to the terminator when it is negative.\<close>

definition appended :: "block \<Rightarrow> int \<Rightarrow> block" where
  "appended s len = (if len < 0 then takeWhile (\<lambda>c. c \<noteq> 0) s else take (nat len) s)"

definition readable :: "block \<Rightarrow> int \<Rightarrow> bool" where
  "readable s len \<longleftrightarrow> (if len < 0 then 0 \<in> set s else nat len \<le> length s)"

lemma appended_all [simp]: "appended s (int (length s)) = s" "readable s (int (length s))"
  by (simp_all add: appended_def readable_def)

lemma appended_length:
  assumes "readable s len" "length (appended s len) < 2 ^ 31"
  shows "(if len < 0 then map_option to_int32 (strlen s) else Some len) = Some (int (length (appended s len)))"
    "source_bytes (length (appended s len)) s = Some (appended s len)"
  using assms
  by (auto simp: readable_def appended_def strlen_def to_int32_small source_bytes_def length_takeWhile_le takeWhile_eq_take [symmetric] min_def)

lemma strbuf_add_string_ok:
  assumes "realloc_ok ra" "strbuf_wf buf" and d: "d = appended s len" and
    len: "readable s len" "length d < 2 ^ 31" "slength buf < 2 ^ 59"
  shows "strbuf_add_string ra s len buf = Some (-1, buf) \<and> \<not> ra_total ra \<or>
    (\<exists>buf'. strbuf_add_string ra s len buf = Some (int (length d), buf') \<and> strbuf_wf buf' \<and> terminated buf' \<and>
      contents_of buf' = contents_of buf @ d)"
proof -
  have n: "length d < 2 ^ 31" "(if len < 0 then map_option to_int32 (strlen s) else Some len) = Some (int (length d))"
      "source_bytes (length d) s = Some d"
    using appended_length [OF len(1)] len(2) by (simp_all add: d)
  then have m: "nat (int (length d) mod 2 ^ 64) = length d" "wrap64 (slength buf + length d) = slength buf + length d"
    using len(3) by (simp_all add: nat_mod_as_int)
  have "slength buf + length d < 2 ^ 60"
    using n(1) len(3) by simp
  from strbuf_capacity_hint_ok [OF assms(1,2) this] obtain r buf1 where
    h: "strbuf_capacity_hint ra (slength buf + length d) buf = Some (r, buf1)" "r \<in> {-1, 0}" "r = -1 \<Longrightarrow> buf1 = buf"
      "r = 0 \<Longrightarrow> strbuf_wf buf1 \<and> contents_of buf1 = contents_of buf \<and> slength buf1 = slength buf \<and>
        scapacity buf1 = fit_cap (slength buf + length d) \<and> (\<exists>b. stext buf1 = Heap b)"
    by auto
  have unfold: "strbuf_add_string ra s len buf = (if r < 0 then Some (-1, buf1) else do {
      buf \<leftarrow> poke (slength buf1) d buf1;
      let buf = buf\<lparr>slength := wrap64 (slength buf + length d)\<rparr>;
      buf \<leftarrow> poke (slength buf) [0] buf;
      Some (int (length d), buf)
    })"
    unfolding strbuf_add_string_def Let_def n(2) Option.bind.simps m(1) n(3) m(2) h(1) by simp
  show ?thesis
  proof (cases "r = 0")
    case False
    with h unfold hint_total [of ra _ buf r buf1] show ?thesis by auto
  next
    case True
    then obtain b where b: "strbuf_wf buf1" "contents_of buf1 = contents_of buf" "slength buf1 = slength buf"
        "scapacity buf1 = fit_cap (slength buf + length d)" "stext buf1 = Heap b"
      using h(4) by blast
    have room: "slength buf + length d < length b" "length b < 2 ^ 62"
      using b fit_cap(2) [of "slength buf + length d"] n(1) len(3) by (auto simp: strbuf_wf_def)
    define b1 where "b1 = block_write b (slength buf) d"
    define b2 where "b2 = block_write b1 (slength buf + length d) [0]"
    define buf' where "buf' = buf1\<lparr>stext := Heap b2, slength := slength buf + length d\<rparr>"
    have len2: "length b1 = length b" "length b2 = length b"
      using room by (simp_all add: b1_def b2_def)
    have "strbuf_add_string ra s len buf = Some (int (length d), buf')"
      using True unfold room b m(2) len2 by (simp add: poke_ok [of _ b] poke_ok [of _ b1] b1_def buf'_def b2_def)
    moreover have "strbuf_wf buf'"
      using b room len2 by (simp add: strbuf_wf_def buf'_def)
    moreover have "terminated buf'"
      using room len2 block_write_simps(3) [of "slength buf + length d" "[0]" b1 0] by (simp add: terminated_def buf'_def b2_def)
    moreover have "contents_of buf' = contents_of buf @ d"
      using b(2,3,5) room len2 block_write_simps(1) [of "slength buf + length d" "[0]" b1] block_write_simps(2) [of "slength buf" d b]
      by (simp add: contents_of_def buf'_def b2_def b1_def)
    ultimately show ?thesis by blast
  qed
qed

text \<open>
  C37: on readable bytes (as many as the length says, or with a terminator when the length is
  negative), \<open>strbuf_add_string\<close> ends without writing outside of its block. It fails, with -1 and the
  contents as they were, only when \<open>realloc\<close> fails. Otherwise it appends exactly the given bytes, those
  up to the first zero for a negative length, and a terminator, and returns their number. The
  addition is of less than \<open>2 ^ 31\<close> bytes, to a buffer of less than \<open>2 ^ 59\<close>.
\<close>

theorem strbuf_add_string_appends:
  assumes "realloc_ok ra" "strbuf_wf buf" "readable s len" "length (appended s len) < 2 ^ 31" "slength buf < 2 ^ 59"
  shows "\<exists>r buf'. strbuf_add_string ra s len buf = Some (r, buf') \<and> strbuf_wf buf' \<and>
    (if r = -1 then contents_of buf' = contents_of buf \<and> \<not> ra_total ra
     else r = int (length (appended s len)) \<and> terminated buf' \<and> contents_of buf' = contents_of buf @ appended s len)"
proof -
  from strbuf_add_string_ok [OF assms(1,2) refl assms(3-5)] consider
    "strbuf_add_string ra s len buf = Some (-1, buf)" "\<not> ra_total ra"
    | buf' where "strbuf_add_string ra s len buf = Some (int (length (appended s len)), buf')" "strbuf_wf buf'" "terminated buf'"
        "contents_of buf' = contents_of buf @ appended s len"
    by blast
  then show ?thesis
  proof cases
    case 1
    with assms(2) show ?thesis by (intro exI [of _ "-1"] exI [of _ buf]) simp
  next
    case (2 buf')
    then show ?thesis by (intro exI [of _ "int (length (appended s len))"] exI [of _ buf']) simp
  qed
qed

lemma strbuf_heap: "strbuf_wf buf \<Longrightarrow> 0 < scapacity buf \<Longrightarrow> \<exists>b. stext buf = Heap b \<and> length b = scapacity buf \<and> slength buf < length b"
  by (auto simp: strbuf_wf_def split: text_ptr.splits)

lemma vsnprintf_ok:
  assumes "strbuf_wf buf" "stext buf = Heap b"
  defines "room \<equiv> scapacity buf - slength buf"
  shows "\<exists>buf'. vsnprintf (Some s) (slength buf) room buf = Some (int (length s), buf') \<and> strbuf_wf buf' \<and>
    contents_of buf' = contents_of buf \<and> slength buf' = slength buf \<and> scapacity buf' = scapacity buf \<and> (\<exists>b. stext buf' = Heap b) \<and>
    failed buf' = failed buf \<and>
    (length s < room \<longrightarrow> strbuf_wf (buf'\<lparr>slength := slength buf + length s\<rparr>) \<and> terminated (buf'\<lparr>slength := slength buf + length s\<rparr>) \<and>
      contents_of (buf'\<lparr>slength := slength buf + length s\<rparr>) = contents_of buf @ s)"
proof -
  define d where "d = take (room - 1) s @ [0]"
  have b: "length b = scapacity buf" "slength buf < scapacity buf" "scapacity buf < 2 ^ 62"
    using assms(1,2) by (auto simp: strbuf_wf_def)
  have fits: "slength buf + length d \<le> length b" "room \<noteq> 0"
    using b by (auto simp: d_def room_def)
  define b' where "b' = block_write b (slength buf) d"
  have len: "length b' = length b"
    using fits by (simp add: b'_def)
  have pre: "take (slength buf) b' = take (slength buf) b"
    using block_write_simps(1) [OF fits(1)] by (simp add: b'_def)
  have full: "take (slength buf + length s) b' = take (slength buf) b @ s \<and> b' ! (slength buf + length s) = 0" if "length s < room"
  proof -
    have d: "d = s @ [0]" using that by (simp add: d_def)
    have "take (slength buf + length s) (take (slength buf + length d) b') = take (slength buf) b @ s"
      using block_write_simps(2) [OF fits(1)] b by (simp add: b'_def d)
    moreover have "b' ! (slength buf + length s) = (take (slength buf + length d) b') ! (slength buf + length s)"
      by (simp add: d)
    moreover have "\<dots> = 0"
      using block_write_simps(2) [OF fits(1)] b by (simp add: b'_def d nth_append)
    ultimately show ?thesis by (simp add: d min_def)
  qed
  have "vsnprintf (Some s) (slength buf) room buf = Some (int (length s), buf\<lparr>stext := Heap b'\<rparr>)"
    using fits assms(2) by (simp only: vsnprintf_def poke_def option.case text_ptr.case if_True if_False d_def [symmetric] b'_def Option.bind.simps)
  with fits b len pre full assms(2) show ?thesis
    by (intro exI [of _ "buf\<lparr>stext := Heap b'\<rparr>"])
      (auto simp: strbuf_wf_def contents_of_def terminated_def room_def)
qed

lemma printf_loop_ok:
  assumes "realloc_ok ra" "strbuf_wf buf" "0 < scapacity buf" "scapacity buf < 2 ^ 30" "slength buf + length s < 2 ^ 28"
  shows "\<exists>r buf'. printf_loop ra (Some s) buf = Some (r, buf') \<and> strbuf_wf buf' \<and>
    (if r = -1 then contents_of buf' = contents_of buf \<and> failed buf' \<and> \<not> ra_total ra
     else r = int (length s) \<and> contents_of buf' = contents_of buf @ s \<and> terminated buf')"
  using assms
proof (induction "2 ^ 30 - scapacity buf" arbitrary: buf rule: less_induct)
  case less
  obtain b where b: "stext buf = Heap b" "length b = scapacity buf" "slength buf < scapacity buf"
    using strbuf_heap [OF less.prems(2,3)] by auto
  define room where "room = scapacity buf - slength buf"
  have ri: "to_int32 (scapacity buf - slength buf) = int room" "nat (int room mod 2 ^ 64) = room"
    using less.prems(4) by (simp_all add: room_def to_int32_small nat_mod_as_int)
  obtain buf1 where v: "vsnprintf (Some s) (slength buf) room buf = Some (int (length s), buf1)" "strbuf_wf buf1"
      "contents_of buf1 = contents_of buf" "slength buf1 = slength buf" "scapacity buf1 = scapacity buf" "\<exists>b. stext buf1 = Heap b"
      and fit: "length s < room \<Longrightarrow> strbuf_wf (buf1\<lparr>slength := slength buf + length s\<rparr>) \<and>
        terminated (buf1\<lparr>slength := slength buf + length s\<rparr>) \<and>
        contents_of (buf1\<lparr>slength := slength buf + length s\<rparr>) = contents_of buf @ s"
    using vsnprintf_ok [OF less.prems(2) b(1), of s] unfolding room_def by blast
  have unfold: "printf_loop ra (Some s) buf =
      (if int (length s) + 1 < int room then Some (int (length s), buf1\<lparr>slength := nat ((int (slength buf) + int (length s)) mod 2 ^ 64)\<rparr>)
       else do {
         (r, buf) \<leftarrow> strbuf_capacity_hint ra (wrap64 (scapacity buf1 + 1)) buf1;
         if r < 0 then Some (-1, buf\<lparr>failed := True\<rparr>) else printf_loop ra (Some s) buf
       })"
    by (subst printf_loop.simps) (simp only: Let_def ri v(1,4) Option.bind.simps prod.case)
  show ?case
  proof (cases "int (length s) + 1 < int room")
    case True
    moreover have "nat ((int (slength buf) + int (length s)) mod 2 ^ 64) = slength buf + length s"
      using less.prems(5) by (simp add: nat_mod_as_int)
    ultimately show ?thesis
      using unfold fit by (simp add: nat_int_add)
  next
    case False
    have cap: "scapacity buf \<le> 2 ^ 28"
      using False less.prems(5) by (simp add: room_def)
    then have w: "wrap64 (scapacity buf1 + 1) = scapacity buf + 1" "scapacity buf + 1 < 2 ^ 60"
      using v(5) by simp_all
    from strbuf_capacity_hint_ok [OF less.prems(1) v(2) w(2)] obtain r buf2 where
      h: "strbuf_capacity_hint ra (scapacity buf + 1) buf1 = Some (r, buf2)" "r \<in> {-1, 0}" "r = -1 \<Longrightarrow> buf2 = buf1"
        "r = 0 \<Longrightarrow> strbuf_wf buf2 \<and> contents_of buf2 = contents_of buf1 \<and> slength buf2 = slength buf1 \<and> scapacity buf2 = fit_cap (scapacity buf + 1)"
      using v(4) b(3) by auto
    show ?thesis
    proof (cases "r = 0")
      case False
      then have "printf_loop ra (Some s) buf = Some (-1, buf1\<lparr>failed := True\<rparr>)"
        using unfold \<open>\<not> int (length s) + 1 < int room\<close> w(1) h by auto
      moreover have "strbuf_wf (buf1\<lparr>failed := True\<rparr>)" "contents_of (buf1\<lparr>failed := True\<rparr>) = contents_of buf1"
        using v(2) by (auto simp: strbuf_wf_def contents_of_def split: text_ptr.splits)
      moreover have "\<not> ra_total ra"
        using hint_total h(1) False by blast
      ultimately show ?thesis using v(3) by simp
    next
      case True
      note h2 = h(4) [OF True]
      have fc: "scapacity buf + 1 < fit_cap (scapacity buf + 1)" "fit_cap (scapacity buf + 1) \<le> max 32 (2 * (scapacity buf + 1))"
        using fit_cap(2,3) [of "scapacity buf + 1"] cap by auto
      have "printf_loop ra (Some s) buf = printf_loop ra (Some s) buf2"
        using unfold False w(1) h(1) True by simp
      moreover have "2 ^ 30 - scapacity buf2 < 2 ^ 30 - scapacity buf" "0 < scapacity buf2" "scapacity buf2 < 2 ^ 30"
        using h2 fc cap by (auto simp: max_def split: if_splits)
      moreover have "slength buf2 + length s < 2 ^ 28" "strbuf_wf buf2" "contents_of buf2 = contents_of buf"
        using h2 v(3,4) less.prems(5) by simp_all
      ultimately show ?thesis
        using less.hyps [of buf2, OF _ less.prems(1)] by (simp only:)
    qed
  qed
qed


text \<open>
  C38: take a buffer with a capacity below \<open>2 ^ 30\<close> and a format that produces a text (no encoding
  error), with less than \<open>2 ^ 28\<close> characters together with those of the buffer. Then \<open>strbuf_vprintf\<close>
  ends, however often the buffer has to grow. It returns -1, with the contents as they were, only
  when \<open>realloc\<close> fails; otherwise it appends exactly this text and a terminator and returns its
  length.
\<close>

theorem strbuf_vprintf_appends:
  assumes "realloc_ok ra" "strbuf_wf buf" "scapacity buf < 2 ^ 30" "slength buf + length s < 2 ^ 28"
  shows "\<exists>r buf'. strbuf_vprintf ra (Some s) buf = Some (r, buf') \<and> strbuf_wf buf' \<and>
    (if r = -1 then contents_of buf' = contents_of buf \<and> \<not> ra_total ra
     else r = int (length s) \<and> contents_of buf' = contents_of buf @ s \<and> terminated buf')"
proof -
  obtain r buf1 where h: "strbuf_capacity_hint ra 1 buf = Some (r, buf1)" "r \<in> {-1, 0}" "r = -1 \<Longrightarrow> buf1 = buf"
      "r = 0 \<Longrightarrow> strbuf_wf buf1 \<and> contents_of buf1 = contents_of buf \<and> slength buf1 = slength buf \<and>
        (1 < slength buf \<longrightarrow> buf1 = buf) \<and> (slength buf \<le> 1 \<longrightarrow> scapacity buf1 = fit_cap 1)"
    using strbuf_capacity_hint_ok [OF assms(1,2), of 1] by auto
  show ?thesis
  proof (cases "r = 0")
    case False
    with h assms(2) hint_total [OF _ h(1)] show ?thesis by (auto simp: strbuf_vprintf_def)
  next
    case True
    have "0 < scapacity buf1" "scapacity buf1 < 2 ^ 30"
      using h(4) [OF True] fit_cap(3,4) [of 1] assms(2,3)
      by (cases "1 < slength buf"; auto simp: strbuf_wf_def split: text_ptr.splits)+
    with printf_loop_ok [OF assms(1), of buf1 s] h(4) [OF True] assms(4) obtain r' buf' where
      "printf_loop ra (Some s) buf1 = Some (r', buf')" "strbuf_wf buf'"
      "if r' = -1 then contents_of buf' = contents_of buf \<and> failed buf' \<and> \<not> ra_total ra
       else r' = int (length s) \<and> contents_of buf' = contents_of buf @ s \<and> terminated buf'"
      by auto
    with h(1) True show ?thesis
      by (auto simp: strbuf_vprintf_def split: if_splits)
  qed
qed

lemma strbuf_init_wf: "strbuf_wf strbuf_init" "contents_of strbuf_init = []" "terminated strbuf_init"
  by (simp_all add: strbuf_init_def strbuf_wf_def contents_of_def terminated_def)

text \<open>Resizing keeps the common prefix and terminates the text.\<close>

lemma strbuf_resize_ok:
  assumes "realloc_ok ra" "strbuf_wf buf" "n < 2 ^ 59"
  shows "\<exists>r buf'. strbuf_resize ra n buf = Some (r, buf') \<and> (if r = -1 then buf' = buf\<lparr>failed := True\<rparr>
    else r = 0 \<and> strbuf_wf buf' \<and> slength buf' = n \<and>
      take (min n (slength buf)) (contents_of buf') = take (min n (slength buf)) (contents_of buf))"
proof -
  have w: "wrap64 (n + 1) = n + 1" "wrap64 ((n + 1) * 4) = (n + 1) * 4"
    using assms(3) by simp_all
  have grown: "\<exists>r buf1. (if wrap64 (n + 1) > scapacity buf then strbuf_capacity_hint ra n buf else Some (0, buf)) = Some (r, buf1) \<and>
      (if r < 0 then buf1 = buf else r = 0 \<and> strbuf_wf buf1 \<and> n < scapacity buf1 \<and> contents_of buf1 = contents_of buf \<and> slength buf1 = slength buf)"
  proof (cases "n + 1 > scapacity buf")
    case True
    then have "slength buf \<le> n"
      using assms(2) by (auto simp: strbuf_wf_def split: text_ptr.splits)
    then obtain r buf1 where "strbuf_capacity_hint ra n buf = Some (r, buf1)" "r = -1 \<and> buf1 = buf \<or> r = 0 \<and>
        strbuf_wf buf1 \<and> contents_of buf1 = contents_of buf \<and> slength buf1 = slength buf \<and> scapacity buf1 = fit_cap n"
      using strbuf_capacity_hint_ok [OF assms(1,2), of n] assms(3) by auto
    with True w(1) fit_cap(2) [of n] assms(3) show ?thesis
      by (intro exI [of _ r] exI [of _ buf1]) auto
  next
    case False
    with w(1) assms(2) show ?thesis by simp
  qed
  then obtain r buf1 where r: "(if wrap64 (n + 1) > scapacity buf then strbuf_capacity_hint ra n buf else Some (0, buf)) = Some (r, buf1)"
      "if r < 0 then buf1 = buf else r = 0 \<and> strbuf_wf buf1 \<and> n < scapacity buf1 \<and> contents_of buf1 = contents_of buf \<and> slength buf1 = slength buf"
    by blast
  show ?thesis
  proof (cases "r < 0")
    case True
    with r show ?thesis by (simp add: strbuf_resize_def del: split_paired_Ex)
  next
    case False
    then have b1: "strbuf_wf buf1" "n < scapacity buf1" "contents_of buf1 = contents_of buf" "slength buf1 = slength buf"
      using r(2) by auto
    obtain b where b: "stext buf1 = Heap b" "length b = scapacity buf1" "slength buf1 < length b"
      using strbuf_heap [OF b1(1)] b1(2) by auto
    define buf2 where "buf2 = buf1\<lparr>slength := n, stext := Heap (block_write b n [0])\<rparr>"
    have p: "poke n [0] (buf1\<lparr>slength := n\<rparr>) = Some buf2"
      using b b1(2) by (simp add: poke_def buf2_def)
    have wf2: "strbuf_wf buf2" "slength buf2 = n"
      using b b1 by (simp_all add: strbuf_wf_def buf2_def)
    have pre: "take (min n (slength buf)) (contents_of buf2) = take (min n (slength buf)) (contents_of buf)"
    proof -
      have "contents_of buf = take (slength buf) b"
        using b(1) b1(3,4) by (simp add: contents_of_def)
      moreover have "contents_of buf2 = take n b"
        using b(2) b1(2) block_write_simps(1) [of n "[0]" b n] by (simp add: contents_of_def buf2_def)
      ultimately show ?thesis by (simp add: min.commute)
    qed
    obtain r3 buf3 where "(if wrap64 ((n + 1) * 4) < scapacity buf2 then strbuf_capacity_hint ra (wrap64 (n + 1)) buf2 else Some (0, buf2)) = Some (r3, buf3)"
        "strbuf_wf buf3" "slength buf3 = n" "contents_of buf3 = contents_of buf2"
      using strbuf_capacity_hint_ok [OF assms(1) wf2(1), of "n + 1"] w wf2 assms(3) by (cases "(n + 1) * 4 < scapacity buf2") auto
    with False r(1) p pre show ?thesis
      unfolding strbuf_resize_def by (intro exI [of _ 0] exI [of _ buf3]) simp
  qed
qed


section \<open>Examples\<close>

text \<open>An allocator without limits, and one that serves no request below 64 bytes.\<close>

definition ra_big :: realloc_fn where
  "ra_big p n = (if n < 64 then None else ra_zero p n)"

lemma ra_big_ok: "realloc_ok ra_big"
  using ra_zero_ok by (simp add: realloc_ok_def ra_big_def)

lemma cap_eval: "n < 32 \<Longrightarrow> cap_loop 32 n = Some 32" "cap_loop 32 100 = Some 128"
proof -
  show "n < 32 \<Longrightarrow> cap_loop 32 n = Some 32"
    by (subst cap_loop.simps) simp
  have "cap_loop 32 100 = cap_loop 64 100"
    by (subst cap_loop.simps) simp
  also have "\<dots> = cap_loop 128 100"
    by (subst cap_loop.simps) simp
  also have "\<dots> = Some 128"
    by (subst cap_loop.simps) simp
  finally show "cap_loop 32 100 = Some 128" .
qed

lemma ra_zero_total: "ra_total ra_zero"
  by (simp add: ra_total_def ra_zero_def)

lemmas strbuf_eval = strbuf_capacity_hint_def cap_eval strbuf_add_string_def source_bytes_def strbuf_init_def heap_block_def ra_zero_def ra_big_def poke_def

theorem strbuf_add_string_appends_witness:
  "\<exists>buf'. strbuf_add_string ra_zero [104, 105, 0, 33] (-1) strbuf_init = Some (2, buf') \<and> contents_of buf' = [104, 105] \<and> terminated buf'"
proof -
  have "readable [104, 105, 0, 33] (-1)" "appended [104, 105, 0, 33] (-1) = [104, 105]" "slength strbuf_init = 0"
    by (simp_all add: readable_def appended_def strbuf_init_def)
  with strbuf_add_string_appends [OF ra_zero_ok strbuf_init_wf(1), of "[104, 105, 0, 33]" "-1"] ra_zero_total strbuf_init_wf(2)
  show ?thesis by (auto split: if_splits)
qed

theorem strbuf_vprintf_appends_witness:
  "\<exists>buf'. strbuf_vprintf ra_zero (Some (replicate 100 65)) strbuf_init = Some (100, buf') \<and>
    contents_of buf' = replicate 100 65 \<and> terminated buf'"
  using strbuf_vprintf_appends [OF ra_zero_ok strbuf_init_wf(1), of "replicate 100 65"] strbuf_init_wf(2) ra_zero_total
  by (auto simp: strbuf_init_def split: if_splits)

text \<open>
  \<open>strbuf.h\<close> promises that appending within a preallocation succeeds. But every append fits the
  capacity to the new length, and the smaller block may be refused; the flag \<open>failed\<close> is not set.
\<close>

lemma add_after_hint_fails:
  "strbuf_capacity_hint ra_big 100 strbuf_init = Some (0, \<lparr>stext = Heap (replicate 128 0), slength = 0, scapacity = 128, failed = False\<rparr>)"
  "strbuf_add_string ra_big [65] 1 \<lparr>stext = Heap (replicate 128 0), slength = 0, scapacity = 128, failed = False\<rparr> =
     Some (-1, \<lparr>stext = Heap (replicate 128 0), slength = 0, scapacity = 128, failed = False\<rparr>)"
  by (simp_all add: strbuf_eval)

text \<open>When the conversion fails, \<open>strbuf_vprintf\<close> drops the last character of the buffer.\<close>

lemma printf_error_drops:
  "\<exists>buf'. strbuf_vprintf ra_zero None \<lparr>stext = Heap ([65, 66] @ replicate 30 0), slength = 2, scapacity = 32, failed = False\<rparr> =
     Some (-1, buf') \<and> contents_of buf' = [65]"
proof -
  define buf where "buf = \<lparr>stext = Heap ([65, 66] @ replicate 30 0), slength = 2, scapacity = 32, failed = False\<rparr>"
  have "printf_loop ra_zero None buf = Some (-1, buf\<lparr>slength := 1\<rparr>)"
    by (subst printf_loop.simps) (simp add: buf_def vsnprintf_def to_int32_def)
  moreover have "strbuf_capacity_hint ra_zero 1 buf = Some (0, buf)"
    by (simp add: strbuf_capacity_hint_def buf_def)
  ultimately show ?thesis
    by (simp add: strbuf_vprintf_def buf_def [symmetric] contents_of_def) (simp add: buf_def)
qed

end
