(* ===== verification/Dlb_Slab.thy ===== *)
theory Dlb_Slab
  imports Dlb_List Dlb_Alloc
begin

text \<open>
  The slab allocator (\<^verbatim>\<open>src/src/slab.c\<close>). All its lists live in one heap of list nodes: the full and the
  partial list of the allocator, and the free list of every slab. The addresses are those of the
  layout: the slots of a slab start at its base, each followed by a pointer to the info block, and
  the info block is at the end. \<open>malloc\<close> is a parameter that sees the blocks in use; it may fail.
  The four sizes of the layout are ints of 32 bits, as in the source; the address computations read
  them as \<open>size_t\<close>.
\<close>

section \<open>State and operations\<close>

definition NODE_SIZE :: nat where  \<comment> \<open>\<open>sizeof(struct slab_free)\<close>\<close>
  "NODE_SIZE = 16"

definition INFO_SIZE :: nat where  \<comment> \<open>\<open>sizeof(struct slab_info)\<close>\<close>
  "INFO_SIZE = 40"

definition PTR_SIZE :: nat where  \<comment> \<open>\<open>sizeof(struct slab_info *)\<close>\<close>
  "PTR_SIZE = 8"

definition MIN_OBJ :: nat where
  "MIN_OBJ = 8"

definition MIN_SLAB :: nat where
  "MIN_SLAB = 32768"

record slab =
  objsize_int :: int  \<comment> \<open>the fields \<open>objsize\<close>, \<open>slabsize\<close>, \<open>count\<close> and \<open>info_offset\<close>\<close>
  slabsize_int :: int
  count_int :: int
  info_offset_int :: int
  full :: addr  \<comment> \<open>addresses of the two list heads\<close>
  partial :: addr

record slab_state =
  slab_of :: slab
  lists :: list_heap
  info_ptr :: "addr \<Rightarrow> addr"  \<comment> \<open>the pointer behind each object\<close>
  free_count :: "addr \<Rightarrow> int"  \<comment> \<open>field of the info blocks\<close>
  owned :: "(addr \<times> nat) list"  \<comment> \<open>blocks from \<open>malloc\<close> with their sizes\<close>

text \<open>
  The fields as they enter sizes and addresses, converted to \<open>size_t\<close>. A negative field becomes a
  number next to \<open>2 ^ 64\<close>, which is what \<open>malloc\<close> is then asked for.
\<close>

definition objsize :: "slab \<Rightarrow> nat" where
  "objsize S = to_size (objsize_int S)"

definition slabsize :: "slab \<Rightarrow> nat" where
  "slabsize S = to_size (slabsize_int S)"

definition count :: "slab \<Rightarrow> nat" where
  "count S = to_size (count_int S)"

definition info_offset :: "slab \<Rightarrow> nat" where
  "info_offset S = to_size (info_offset_int S)"

type_synonym malloc_fn = "(addr \<times> nat) list \<Rightarrow> nat \<Rightarrow> addr"

text \<open>The address of the free list of an info block.\<close>

definition free_list :: "addr \<Rightarrow> addr" where
  "free_list ib = ib + NODE_SIZE"

text \<open>
  The computations of the layout mix ints with sizes, so that they are made in \<open>size_t\<close> (a negative
  object size is not smaller than \<open>sizeof(struct slab_free)\<close>) and truncated when they are stored.
\<close>

definition slab_init :: "int \<Rightarrow> addr \<Rightarrow> addr \<Rightarrow> list_heap \<Rightarrow> (addr \<Rightarrow> addr) \<Rightarrow> (addr \<Rightarrow> int) \<Rightarrow> slab_state" where
  "slab_init size0 fl pl h ip fc =
     (let size1 = (if to_size size0 < NODE_SIZE then int NODE_SIZE else size0);
          size2 = to_int32 (to_size size1 + (PTR_SIZE - to_size size1 mod PTR_SIZE) mod PTR_SIZE);
          n0 = to_int32 ((MIN_SLAB - INFO_SIZE) div wrap64 (to_size size2 + PTR_SIZE));
          n = (if n0 < int MIN_OBJ then int MIN_OBJ else n0);
          off = to_int32 (wrap64 (wrap64 (to_size size2 + PTR_SIZE) * to_size n))
      in \<lparr>slab_of = \<lparr>objsize_int = size2, slabsize_int = to_int32 (wrap64 (to_size off + INFO_SIZE)), count_int = n,
            info_offset_int = off, full = fl, partial = pl\<rparr>,
          lists = list_init pl (list_init fl h), info_ptr = ip, free_count = fc, owned = []\<rparr>)"

definition free_slab :: "addr \<Rightarrow> slab_state \<Rightarrow> slab_state" where
  "free_slab ib s = s\<lparr>lists := list_remove ib (lists s),
     owned := filter (\<lambda>(p, n). p \<noteq> ib - info_offset (slab_of s)) (owned s)\<rparr>"

partial_function (option) free_all_slabs :: "addr \<Rightarrow> slab_state \<Rightarrow> slab_state option" where
  "free_all_slabs list s =
     (if list_is_empty list (lists s) then Some s else free_all_slabs list (free_slab (nxt (lists s) list) s))"

declare free_all_slabs.simps [code]

definition slab_free_all :: "slab_state \<Rightarrow> slab_state option" where
  "slab_free_all s = Option.bind (free_all_slabs (full (slab_of s)) s) (\<lambda>s. free_all_slabs (partial (slab_of s)) s)"

text \<open>The loop over the slots \<open>i, i + 1, ..., i + k - 1\<close>.\<close>

fun slot_loop :: "nat \<Rightarrow> nat \<Rightarrow> addr \<Rightarrow> addr \<Rightarrow> slab_state \<Rightarrow> slab_state" where
  "slot_loop i 0 base ib s = s"
| "slot_loop i (Suc k) base ib s =
     (let slot = base + i * (objsize (slab_of s) + PTR_SIZE) in
      slot_loop (i + 1) k base ib
        (s\<lparr>lists := list_insert slot (free_list ib) (lists s),
           info_ptr := (info_ptr s)(slot + objsize (slab_of s) := ib)\<rparr>))"

definition alloc_new_slab :: "malloc_fn \<Rightarrow> slab_state \<Rightarrow> int \<times> slab_state" where
  "alloc_new_slab malloc s =
     (let slab = malloc (owned s) (slabsize (slab_of s)) in
      if slab = NULL then (-1, s)
      else
        (let s = s\<lparr>owned := (slab, slabsize (slab_of s)) # owned s\<rparr>;
             ib = slab + info_offset (slab_of s);
             s = s\<lparr>lists := list_init (free_list ib) (lists s)\<rparr>;
             s = s\<lparr>free_count := (free_count s)(ib := int (count (slab_of s)))\<rparr>;
             s = slot_loop 0 (count (slab_of s)) slab ib s
         in (0, s\<lparr>lists := list_insert ib (partial (slab_of s)) (lists s)\<rparr>)))"

definition slab_alloc :: "malloc_fn \<Rightarrow> slab_state \<Rightarrow> addr \<times> slab_state" where
  "slab_alloc malloc s =
     (let (r, s) = (if list_is_empty (partial (slab_of s)) (lists s) then alloc_new_slab malloc s else (0, s)) in
      if r < 0 then (NULL, s)
      else
        (let ib = nxt (lists s) (partial (slab_of s));
             fr = nxt (lists s) (free_list ib);
             s = s\<lparr>lists := list_remove fr (lists s)\<rparr>;
             s = s\<lparr>free_count := (free_count s)(ib := free_count s ib - 1)\<rparr>;
             s = (if list_is_empty (free_list ib) (lists s)
                  then s\<lparr>lists := list_insert ib (full (slab_of s)) (list_remove ib (lists s))\<rparr> else s)
         in (fr, s)))"

definition slab_free :: "addr \<Rightarrow> slab_state \<Rightarrow> slab_state" where
  "slab_free obj s =
     (let ib = info_ptr s (obj + objsize (slab_of s));
          s = (if list_is_empty (free_list ib) (lists s)
               then s\<lparr>lists := list_insert ib (partial (slab_of s)) (list_remove ib (lists s))\<rparr> else s);
          s = s\<lparr>lists := list_insert obj (free_list ib) (lists s)\<rparr>;
          s = s\<lparr>free_count := (free_count s)(ib := free_count s ib + 1)\<rparr>
      in if free_count s ib \<ge> int (count (slab_of s)) then free_slab ib s else s)"

section \<open>Layout\<close>

definition stride :: "slab \<Rightarrow> nat" where
  "stride S = objsize S + PTR_SIZE"

definition slots :: "slab \<Rightarrow> addr \<Rightarrow> addr set" where
  "slots S b = (\<lambda>i. b + i * stride S) ` {..<count S}"

definition info_of :: "slab \<Rightarrow> addr \<Rightarrow> addr" where
  "info_of S b = b + info_offset S"

abbreviation flist :: "slab \<Rightarrow> addr \<Rightarrow> addr" where
  "flist S b \<equiv> free_list (info_of S b)"

definition area :: "slab \<Rightarrow> addr \<Rightarrow> addr set" where
  "area S b = {b..<b + slabsize S}"

definition layout_ok :: "slab \<Rightarrow> bool" where
  "layout_ok S \<longleftrightarrow> 0 < objsize S \<and> 0 < count S \<and> info_offset S = stride S * count S \<and> slabsize S = info_offset S + INFO_SIZE \<and>
     full S \<noteq> NULL \<and> partial S \<noteq> NULL \<and> full S \<noteq> partial S"

lemma slot_end:
  assumes "layout_ok S" "x \<in> slots S b"
  shows "b \<le> x" "x + stride S \<le> info_of S b"
proof -
  obtain i where i: "x = b + i * stride S" "i < count S"
    using assms(2) by (auto simp: slots_def)
  then show "b \<le> x" by simp
  have "Suc i * stride S \<le> count S * stride S"
    using i(2) by (intro mult_le_mono1) simp
  then show "x + stride S \<le> info_of S b"
    using i(1) assms(1) by (simp add: info_of_def layout_ok_def mult.commute)
qed

lemma in_area:
  assumes "layout_ok S"
  shows "x \<in> slots S b \<Longrightarrow> x \<in> area S b" "info_of S b \<in> area S b" "flist S b \<in> area S b"
    "info_of S b \<notin> slots S b" "flist S b \<notin> slots S b" "flist S b \<noteq> info_of S b" "b \<in> slots S b"
proof -
  note E = slot_end [OF assms, of _ b]
  have st: "0 < stride S" "slabsize S = info_offset S + 40"
    using assms by (auto simp: layout_ok_def stride_def PTR_SIZE_def INFO_SIZE_def)
  show "x \<in> slots S b \<Longrightarrow> x \<in> area S b"
    using E [of x] st by (auto simp: area_def info_of_def)
  show "info_of S b \<in> area S b" "flist S b \<in> area S b"
    using st by (auto simp: area_def info_of_def free_list_def NODE_SIZE_def)
  show "info_of S b \<notin> slots S b" "flist S b \<notin> slots S b"
    using E st by (fastforce simp: free_list_def NODE_SIZE_def)+
  show "flist S b \<noteq> info_of S b"
    by (simp add: free_list_def NODE_SIZE_def)
  show "b \<in> slots S b"
    using assms by (auto simp: slots_def layout_ok_def intro!: image_eqI [of _ _ 0])
qed

lemma slots_apart:
  assumes "layout_ok S" "x \<in> slots S b" "y \<in> slots S b" "x < y"
  shows "x + stride S \<le> y"
proof -
  obtain i j where ij: "x = b + i * stride S" "y = b + j * stride S"
    using assms(2,3) by (auto simp: slots_def)
  then have "Suc i \<le> j"
    using assms(4) by (metis Suc_leI add_less_cancel_left mult_less_cancel2)
  then have "Suc i * stride S \<le> j * stride S"
    by (rule mult_le_mono1)
  then show ?thesis by (simp add: ij)
qed

lemma slot_index_inj: "layout_ok S \<Longrightarrow> inj_on (\<lambda>i. b + i * stride S) A"
  by (auto simp: inj_on_def layout_ok_def stride_def PTR_SIZE_def)

section \<open>The invariant\<close>

definition heads :: "slab \<Rightarrow> addr set \<Rightarrow> addr set" where
  "heads S bs = {full S, partial S} \<union> flist S ` bs"

text \<open>The slabs have the given bases and the lists the given contents. No slab has more free objects than slots.\<close>

definition slab_lists :: "slab_state \<Rightarrow> addr set \<Rightarrow> (addr \<Rightarrow> addr list) \<Rightarrow> bool" where
  "slab_lists s bs L \<longleftrightarrow> (let S = slab_of s in
     family (lists s) (heads S bs) L \<and> set (L (full S)) \<union> set (L (partial S)) = info_of S ` bs \<and>
     (\<forall>b \<in> bs. set (L (flist S b)) \<subseteq> slots S b \<and> free_count s (info_of S b) = int (length (L (flist S b))) \<and>
       (info_of S b \<in> set (L (full S)) \<longleftrightarrow> L (flist S b) = []) \<and>
       (\<forall>x \<in> slots S b. info_ptr s (x + objsize S) = info_of S b)))"

definition slab_places :: "slab_state \<Rightarrow> addr set \<Rightarrow> bool" where
  "slab_places s bs \<longleftrightarrow> (let S = slab_of s in
     layout_ok S \<and> set (owned s) = (\<lambda>b. (b, slabsize S)) ` bs \<and> NULL \<notin> bs \<and> finite bs \<and>
     (\<forall>b \<in> bs. full S \<notin> area S b \<and> partial S \<notin> area S b \<and> b + slabsize S \<le> 2 ^ 64) \<and>
     (\<forall>b \<in> bs. \<forall>c \<in> bs. b \<noteq> c \<longrightarrow> area S b \<inter> area S c = {}))"

definition used :: "slab \<Rightarrow> addr set \<Rightarrow> (addr \<Rightarrow> addr list) \<Rightarrow> addr set" where
  "used S bs L = (\<Union>b \<in> bs. slots S b - set (L (flist S b)))"

lemma placesD:
  assumes "slab_places s bs" "b \<in> bs"
  shows "layout_ok (slab_of s)" "full (slab_of s) \<notin> area (slab_of s) b" "partial (slab_of s) \<notin> area (slab_of s) b"
    "b \<noteq> NULL" "b + slabsize (slab_of s) \<le> 2 ^ 64"
  using assms by (auto simp: slab_places_def Let_def)

lemma places_disjoint:
  assumes "slab_places s bs" "b \<in> bs" "c \<in> bs" "x \<in> area (slab_of s) b" "x \<in> area (slab_of s) c"
  shows "b = c"
proof (rule ccontr)
  assume "b \<noteq> c"
  then have "area (slab_of s) b \<inter> area (slab_of s) c = {}"
    using assms(1-3) unfolding slab_places_def Let_def by blast
  with assms(4,5) show False by blast
qed

lemma listsD:
  assumes "slab_lists s bs L" "b \<in> bs"
  shows "family (lists s) (heads (slab_of s) bs) L" "set (L (flist (slab_of s) b)) \<subseteq> slots (slab_of s) b"
    "free_count s (info_of (slab_of s) b) = int (length (L (flist (slab_of s) b)))"
    "info_of (slab_of s) b \<in> set (L (full (slab_of s))) \<longleftrightarrow> L (flist (slab_of s) b) = []"
    "x \<in> slots (slab_of s) b \<Longrightarrow> info_ptr s (x + objsize (slab_of s)) = info_of (slab_of s) b"
    "info_of (slab_of s) b \<in> set (L (full (slab_of s))) \<union> set (L (partial (slab_of s)))"
  using assms unfolding slab_lists_def Let_def by auto

lemma lists_family: "slab_lists s bs L \<Longrightarrow> family (lists s) (heads (slab_of s) bs) L"
  "slab_lists s bs L \<Longrightarrow> set (L (full (slab_of s))) \<union> set (L (partial (slab_of s))) = info_of (slab_of s) ` bs"
  by (simp_all add: slab_lists_def Let_def)

lemma info_of_inj: "info_of S b = info_of S c \<longleftrightarrow> b = c"
  by (simp add: info_of_def)

lemma flist_neq:
  assumes "slab_places s bs" "b \<in> bs"
  shows "flist (slab_of s) b \<noteq> full (slab_of s)" "flist (slab_of s) b \<noteq> partial (slab_of s)" "full (slab_of s) \<noteq> partial (slab_of s)"
  using placesD [OF assms] in_area(3) [OF placesD(1) [OF assms], of b] by (auto simp: layout_ok_def)

lemma flist_inj: "flist S b = flist S c \<longleftrightarrow> b = c"
  by (simp add: free_list_def info_of_def)

text \<open>Every node of the lists is a head of the allocator or lies in a slab.\<close>

lemma family_nodes_area:
  assumes "slab_places s bs" "slab_lists s bs L"
  shows "family_nodes (heads (slab_of s) bs) L \<subseteq> {full (slab_of s), partial (slab_of s)} \<union> (\<Union>b \<in> bs. area (slab_of s) b)"
proof -
  have "layout_ok (slab_of s)"
    using assms(1) by (simp add: slab_places_def Let_def)
  note A = in_area [OF this]
  have "set (L (flist (slab_of s) b)) \<subseteq> area (slab_of s) b" if "b \<in> bs" for b
    using listsD(2) [OF assms(2) that] A(1) by blast
  moreover have "info_of (slab_of s) ` bs \<subseteq> (\<Union>b \<in> bs. area (slab_of s) b)"
    using A(2) by auto
  then have "set (L (full (slab_of s))) \<union> set (L (partial (slab_of s))) \<subseteq> (\<Union>b \<in> bs. area (slab_of s) b)"
    by (simp only: lists_family(2) [OF assms(2)])
  ultimately have "set (a # L a) \<subseteq> {full (slab_of s), partial (slab_of s)} \<union> (\<Union>b \<in> bs. area (slab_of s) b)"
    if a: "a \<in> heads (slab_of s) bs" for a
  proof -
    consider "a = full (slab_of s)" | "a = partial (slab_of s)" | b where "b \<in> bs" "a = flist (slab_of s) b"
      using a by (auto simp: heads_def)
    then show ?thesis
    proof cases
      case (3 b)
      then have "set (a # L a) \<subseteq> area (slab_of s) b"
        using \<open>\<And>b. b \<in> bs \<Longrightarrow> set (L (flist (slab_of s) b)) \<subseteq> area (slab_of s) b\<close> A(3) by simp
      with 3(1) show ?thesis by blast
    qed (use \<open>set (L (full (slab_of s))) \<union> set (L (partial (slab_of s))) \<subseteq> (\<Union>b \<in> bs. area (slab_of s) b)\<close> in auto)
  qed
  then show ?thesis
    unfolding family_nodes_def by blast
qed

lemma list_first: "list_rep h a xs \<Longrightarrow> xs \<noteq> [] \<Longrightarrow> nxt h a = hd xs"
  by (cases xs) (auto simp: list_rep_def)

section \<open>A new slab\<close>

definition malloc_ok :: "malloc_fn \<Rightarrow> slab \<Rightarrow> bool" where
  "malloc_ok m S \<longleftrightarrow> (\<forall>own n. m own n \<noteq> NULL \<longrightarrow>
     m own n + n \<le> 2 ^ 64 \<and> full S \<notin> {m own n..<m own n + n} \<and> partial S \<notin> {m own n..<m own n + n} \<and>
     (\<forall>(p, k) \<in> set own. {m own n..<m own n + n} \<inter> {p..<p + k} = {}))"

lemma slot_loop_ok:
  assumes "family (lists s) H L" "free_list ib \<in> H" "b \<noteq> NULL" "layout_ok (slab_of s)"
    and "\<And>j. i \<le> j \<Longrightarrow> j < i + k \<Longrightarrow> b + j * stride (slab_of s) \<notin> family_nodes H L"
  shows "family (lists (slot_loop i k b ib s)) H (L(free_list ib := L (free_list ib) @ map (\<lambda>j. b + j * stride (slab_of s)) [i..<i + k])) \<and>
    slab_of (slot_loop i k b ib s) = slab_of s \<and> free_count (slot_loop i k b ib s) = free_count s \<and>
    owned (slot_loop i k b ib s) = owned s \<and>
    info_ptr (slot_loop i k b ib s) = (\<lambda>a. if \<exists>j \<in> {i..<i + k}. a = b + j * stride (slab_of s) + objsize (slab_of s) then ib else info_ptr s a)"
  using assms
proof (induction k arbitrary: i s L)
  case (Suc k)
  define slot where "slot = b + i * stride (slab_of s)"
  define s1 where "s1 = s\<lparr>lists := list_insert slot (free_list ib) (lists s),
     info_ptr := (info_ptr s)(slot + objsize (slab_of s) := ib)\<rparr>"
  define L1 where "L1 = L(free_list ib := L (free_list ib) @ [slot])"
  have new: "slot \<notin> family_nodes H L" "slot \<noteq> NULL"
    using Suc.prems(5) [of i] Suc.prems(3) by (auto simp: slot_def)
  have fam: "family (lists s1) H L1"
    using family_append [OF Suc.prems(1,2) new] by (simp add: s1_def L1_def)
  have nodes: "family_nodes H L1 \<subseteq> insert slot (family_nodes H L)"
    by (auto simp: family_nodes_def L1_def split: if_splits)
  have "b + j * stride (slab_of s1) \<notin> family_nodes H L1" if "i + 1 \<le> j" "j < i + 1 + k" for j
  proof -
    have "b + j * stride (slab_of s) \<noteq> slot"
      using that Suc.prems(4) by (auto simp: slot_def layout_ok_def stride_def PTR_SIZE_def)
    then show ?thesis
      using Suc.prems(5) [of j] that nodes by (auto simp: s1_def)
  qed
  moreover have "layout_ok (slab_of s1)"
    using Suc.prems(4) by (simp add: s1_def)
  note * = Suc.IH [OF fam Suc.prems(2,3) this calculation]
  then have IH: "family (lists (slot_loop (i + 1) k b ib s1)) H
        (L1(free_list ib := L1 (free_list ib) @ map (\<lambda>j. b + j * stride (slab_of s1)) [i + 1..<i + 1 + k]))"
      "slab_of (slot_loop (i + 1) k b ib s1) = slab_of s1" "free_count (slot_loop (i + 1) k b ib s1) = free_count s1"
      "owned (slot_loop (i + 1) k b ib s1) = owned s1"
      "info_ptr (slot_loop (i + 1) k b ib s1) =
        (\<lambda>a. if \<exists>j \<in> {i + 1..<i + 1 + k}. a = b + j * stride (slab_of s1) + objsize (slab_of s1) then ib else info_ptr s1 a)"
    by blast+
  have loop: "slot_loop i (Suc k) b ib s = slot_loop (i + 1) k b ib s1"
    by (simp add: s1_def slot_def stride_def Let_def)
  have xs: "[i..<i + Suc k] = i # [i + 1..<i + 1 + k]"
    by (simp add: upt_rec)
  have ys: "{i..<i + Suc k} = insert i {i + 1..<i + 1 + k}"
    by auto
  have "info_ptr (slot_loop i (Suc k) b ib s) =
      (\<lambda>a. if \<exists>j \<in> {i..<i + Suc k}. a = b + j * stride (slab_of s) + objsize (slab_of s) then ib else info_ptr s a)"
    unfolding loop IH(5) ys by (auto simp: s1_def slot_def fun_eq_iff)
  moreover have "L1(free_list ib := L1 (free_list ib) @ map (\<lambda>j. b + j * stride (slab_of s1)) [i + 1..<i + 1 + k]) =
      L(free_list ib := L (free_list ib) @ map (\<lambda>j. b + j * stride (slab_of s)) [i..<i + Suc k])"
    unfolding xs by (simp add: L1_def slot_def s1_def del: upt_Suc)
  moreover have "slab_of s1 = slab_of s" "free_count s1 = free_count s" "owned s1 = owned s"
    by (simp_all add: s1_def)
  ultimately show ?case
    using IH(1-4) unfolding loop by (simp del: fun_upd_apply)
qed simp

lemma ptr_in_area:
  assumes "layout_ok S" "x \<in> slots S b"
  shows "x + objsize S \<in> area S b"
  using slot_end [OF assms] assms(1) by (auto simp: area_def info_of_def stride_def PTR_SIZE_def layout_ok_def INFO_SIZE_def)

lemma set_slot_list: "set (map (\<lambda>j. b + j * stride S) [0..<count S]) = slots S b"
  by (auto simp: slots_def)

lemma malloc_fresh:
  assumes places: "slab_places s bs" and m: "malloc_ok m (slab_of s)" and b: "b = m (owned s) (slabsize (slab_of s))" "b \<noteq> NULL"
  shows "\<And>c. c \<in> bs \<Longrightarrow> area (slab_of s) b \<inter> area (slab_of s) c = {}" "b \<notin> bs" "slab_places (s\<lparr>owned := (b, slabsize (slab_of s)) # owned s\<rparr>) (insert b bs)"
proof -
  let ?S = "slab_of s"
  have own: "set (owned s) = (\<lambda>b. (b, slabsize ?S)) ` bs" and S: "layout_ok ?S"
    using places by (simp_all add: slab_places_def Let_def)
  have mb: "b + slabsize ?S \<le> 2 ^ 64" "full ?S \<notin> area ?S b" "partial ?S \<notin> area ?S b"
      "\<And>p k. (p, k) \<in> set (owned s) \<Longrightarrow> {b..<b + slabsize ?S} \<inter> {p..<p + k} = {}"
    using m b unfolding malloc_ok_def area_def by blast+
  show dj: "area ?S b \<inter> area ?S c = {}" if "c \<in> bs" for c
    using mb(4) [of c "slabsize ?S"] that own by (auto simp: area_def)
  have "b \<in> area ?S b"
    using in_area(1,7) [OF S, of b] by blast
  with dj show nb: "b \<notin> bs" by blast
  have "\<forall>d \<in> insert b bs. \<forall>c \<in> insert b bs. d \<noteq> c \<longrightarrow> area ?S d \<inter> area ?S c = {}"
    using places dj by (auto simp: slab_places_def Let_def)
  with places mb own b(2) show "slab_places (s\<lparr>owned := (b, slabsize ?S) # owned s\<rparr>) (insert b bs)"
    by (simp add: slab_places_def Let_def)
qed

lemma malloc_new_nodes:
  assumes "slab_places s bs" "slab_lists s bs L" "malloc_ok m (slab_of s)" "b = m (owned s) (slabsize (slab_of s))" "b \<noteq> NULL"
    and "x \<in> area (slab_of s) b"
  shows "x \<notin> family_nodes (heads (slab_of s) bs) L" "full (slab_of s) \<notin> area (slab_of s) b" "partial (slab_of s) \<notin> area (slab_of s) b"
proof -
  note M = malloc_fresh [OF assms(1,3-5)]
  show heads_b: "full (slab_of s) \<notin> area (slab_of s) b" "partial (slab_of s) \<notin> area (slab_of s) b"
    using placesD(2,3) [OF M(3), of b] by auto
  show "x \<notin> family_nodes (heads (slab_of s) bs) L"
  proof
    assume "x \<in> family_nodes (heads (slab_of s) bs) L"
    then have "x \<in> {full (slab_of s), partial (slab_of s)} \<union> (\<Union>c \<in> bs. area (slab_of s) c)"
      using family_nodes_area [OF assms(1,2)] by auto
    with assms(6) heads_b M(1) show False by blast
  qed
qed

lemma slab_listsI:
  assumes "slab_of s = S" "family (lists s) (heads S bs) L" "set (L (full S)) \<union> set (L (partial S)) = info_of S ` bs"
    and "\<And>b. b \<in> bs \<Longrightarrow> set (L (flist S b)) \<subseteq> slots S b"
    and "\<And>b. b \<in> bs \<Longrightarrow> free_count s (info_of S b) = int (length (L (flist S b)))"
    and "\<And>b. b \<in> bs \<Longrightarrow> info_of S b \<in> set (L (full S)) \<longleftrightarrow> L (flist S b) = []"
    and "\<And>b x. b \<in> bs \<Longrightarrow> x \<in> slots S b \<Longrightarrow> info_ptr s (x + objsize S) = info_of S b"
  shows "slab_lists s bs L"
  using assms by (simp add: slab_lists_def Let_def)

lemma alloc_new_slab_heap:
  assumes places: "slab_places s bs" and rep: "slab_lists s bs L" and m: "malloc_ok m (slab_of s)"
    and b: "b = m (owned s) (slabsize (slab_of s))" "b \<noteq> NULL" and S_def: "S = slab_of s" and ib_def: "ib = info_of S b"
  defines "L' \<equiv> L(flist S b := map (\<lambda>j. b + j * stride S) [0..<count S], partial S := L (partial S) @ [ib])"
  obtains s' where "alloc_new_slab m s = (0, s')" "slab_of s' = S" "family (lists s') (heads S (insert b bs)) L'"
    "free_count s' = (free_count s)(ib := int (count S))" "owned s' = (b, slabsize S) # owned s"
    "info_ptr s' = (\<lambda>a. if \<exists>j \<in> {0..<count S}. a = b + j * stride S + objsize S then ib else info_ptr s a)"
proof -
  have S: "layout_ok S"
    using places by (simp add: slab_places_def Let_def S_def)
  note A = in_area [OF S]
  note fresh = malloc_new_nodes(1) [OF places rep m b, folded S_def]
  note heads_b = malloc_new_nodes(2,3) [OF places rep m b, folded S_def, OF A(2)]
  define s1 where "s1 = s\<lparr>owned := (b, slabsize S) # owned s, lists := list_init (flist S b) (lists s),
      free_count := (free_count s)(ib := int (count S))\<rparr>"
  define L1 where "L1 = L(flist S b := [])"
  define s2 where "s2 = slot_loop 0 (count S) b (info_of S b) s1"
  define L2 where "L2 = L(flist S b := map (\<lambda>j. b + j * stride S) [0..<count S])"
  define s' where "s' = s2\<lparr>lists := list_insert ib (partial S) (lists s2)\<rparr>"
  have S1: "slab_of s1 = S"
    by (simp add: s1_def S_def)
  have res: "alloc_new_slab m s = (0, s')" if "slab_of s2 = S"
    using b that unfolding alloc_new_slab_def s'_def s2_def s1_def ib_def info_of_def S_def by (simp add: Let_def)
  have fam1: "family (lists s1) (insert (flist S b) (heads S bs)) L1"
    using family_new [OF lists_family(1) [OF rep, folded S_def] fresh [OF A(3)]] by (simp add: s1_def L1_def free_list_def NODE_SIZE_def)
  have nodes1: "family_nodes (insert (flist S b) (heads S bs)) L1 \<subseteq> insert (flist S b) (family_nodes (heads S bs) L)"
    by (auto simp: family_nodes_def L1_def split: if_splits)
  have "b + j * stride S \<notin> family_nodes (insert (flist S b) (heads S bs)) L1" if "j < count S" for j
  proof -
    have "b + j * stride S \<in> slots S b" using that by (auto simp: slots_def)
    then have "b + j * stride S \<notin> family_nodes (heads S bs) L" "b + j * stride S \<noteq> flist S b"
      using fresh [OF A(1) [of "b + j * stride S" b]] A(5) [of b] by auto
    with nodes1 show ?thesis by blast
  qed
  then have "family (lists s2) (insert (flist S b) (heads S bs)) L2 \<and> slab_of s2 = S \<and> free_count s2 = free_count s1 \<and> owned s2 = owned s1 \<and>
      info_ptr s2 = (\<lambda>a. if \<exists>j \<in> {0..<count S}. a = b + j * stride S + objsize S then ib else info_ptr s1 a)"
    using slot_loop_ok [OF fam1, of ib b 0 "count S"] b(2) S unfolding S1 ib_def s2_def [symmetric]
    by (simp add: L1_def L2_def)
  moreover have "info_ptr s1 = info_ptr s"
    by (simp add: s1_def)
  ultimately have loop: "family (lists s2) (insert (flist S b) (heads S bs)) L2" "slab_of s2 = S" "free_count s2 = free_count s1" "owned s2 = owned s1"
      "info_ptr s2 = (\<lambda>a. if \<exists>j \<in> {0..<count S}. a = b + j * stride S + objsize S then ib else info_ptr s a)"
    by (simp_all cong: if_cong)
  have H: "insert (flist S b) (heads S bs) = heads S (insert b bs)"
    by (auto simp: heads_def)
  have nodes2: "family_nodes (insert (flist S b) (heads S bs)) L2 \<subseteq> insert (flist S b) (slots S b \<union> family_nodes (heads S bs) L)"
    using set_slot_list [of b S] by (auto simp: family_nodes_def L2_def split: if_splits)
  have "ib \<notin> family_nodes (heads S (insert b bs)) L2"
    using nodes2 fresh [OF A(2)] A(4,6) [of b] unfolding H ib_def by (metis insert_iff subsetD UnE)
  moreover have "partial S \<in> heads S (insert b bs)" "ib \<noteq> NULL"
    using b(2) by (auto simp: heads_def ib_def info_of_def)
  ultimately have fam: "family (lists s') (heads S (insert b bs)) L'"
    using family_append [OF loop(1) [unfolded H], of "partial S" ib] A(3) heads_b(2)
    by (simp add: s'_def L'_def L2_def ib_def split: if_splits)
  show thesis
  proof (rule that [OF res])
    show "family (lists s') (heads S (insert b bs)) L'" by (rule fam)
  qed (use loop in \<open>simp_all add: s'_def s1_def\<close>)
qed

lemma alloc_new_slab_ok:
  assumes places: "slab_places s bs" and rep: "slab_lists s bs L" and m: "malloc_ok m (slab_of s)"
  defines "b \<equiv> m (owned s) (slabsize (slab_of s))"
  defines "S \<equiv> slab_of s"
  defines "L' \<equiv> L(flist S b := map (\<lambda>j. b + j * stride S) [0..<count S], partial S := L (partial S) @ [info_of S b])"
  shows "b = NULL \<Longrightarrow> alloc_new_slab m s = (-1, s)"
    and "b \<noteq> NULL \<Longrightarrow> b \<notin> bs \<and> (\<exists>s'. alloc_new_slab m s = (0, s') \<and> slab_of s' = S \<and> slab_places s' (insert b bs) \<and> slab_lists s' (insert b bs) L')"
proof -
  show "b = NULL \<Longrightarrow> alloc_new_slab m s = (-1, s)"
    by (simp add: alloc_new_slab_def b_def Let_def)
  assume False: "b \<noteq> NULL"
  note bm = b_def [THEN meta_eq_to_obj_eq] False
  note M = malloc_fresh [OF places m bm, folded S_def]
  have S: "layout_ok S"
    using places by (simp add: slab_places_def Let_def S_def)
  note A = in_area [OF S]
  note fresh = malloc_new_nodes(1) [OF places rep m bm, folded S_def]
  note heads_b = malloc_new_nodes(2,3) [OF places rep m bm, folded S_def, OF A(2)]
  define ib where "ib = info_of S b"
  obtain s' where s': "alloc_new_slab m s = (0, s')" "slab_of s' = S" "family (lists s') (heads S (insert b bs)) L'"
      "free_count s' = (free_count s)(ib := int (count S))" "owned s' = (b, slabsize S) # owned s"
      "info_ptr s' = (\<lambda>a. if \<exists>j \<in> {0..<count S}. a = b + j * stride S + objsize S then ib else info_ptr s a)"
    using alloc_new_slab_heap [OF places rep m bm S_def [THEN meta_eq_to_obj_eq] ib_def] unfolding L'_def ib_def by blast
  have L'c: "L' (flist S c) = L (flist S c)" "info_of S c \<noteq> ib" if "c \<in> bs" for c
  proof -
    have "c \<noteq> b" using M(2) that by blast
    then show "L' (flist S c) = L (flist S c)" "info_of S c \<noteq> ib"
      using flist_neq(2) [OF places that] by (simp_all add: L'_def flist_inj ib_def info_of_inj S_def)
  qed
  have pb: "flist S b \<noteq> partial S" "flist S b \<noteq> full S"
    using A(3) [of b] heads_b by auto
  have L'b: "L' (flist S b) = map (\<lambda>j. b + j * stride S) [0..<count S]" "L' (full S) = L (full S)" "L' (partial S) = L (partial S) @ [ib]"
    using pb S by (simp_all add: L'_def ib_def layout_ok_def)
  have ptrs: "info_ptr s' (x + objsize S) = info_of S c" if "c \<in> insert b bs" "x \<in> slots S c" for c x
  proof (cases "c = b")
    case True
    then show ?thesis
      using that(2) s'(6) by (auto simp: slots_def ib_def)
  next
    case False
    then have c: "c \<in> bs" using that(1) by simp
    have "x + objsize S \<in> area S c"
      by (rule ptr_in_area [OF S that(2)])
    then have "x + objsize S \<notin> area S b"
      using M(1) [OF c] by blast
    moreover have "b + j * stride S + objsize S \<in> area S b" if "j < count S" for j
      using that by (intro ptr_in_area [OF S]) (auto simp: slots_def)
    ultimately have "info_ptr s' (x + objsize S) = info_ptr s (x + objsize S)"
      using s'(6) by auto
    with listsD(5) [OF rep c, folded S_def] that(2) show ?thesis by simp
  qed
  have "slab_lists s' (insert b bs) L'"
  proof (rule slab_listsI [OF s'(2,3)])
    show "set (L' (full S)) \<union> set (L' (partial S)) = info_of S ` insert b bs"
      unfolding L'b image_insert lists_family(2) [OF rep, folded S_def, symmetric] by (simp add: ib_def Un_assoc [symmetric])
    fix c assume c: "c \<in> insert b bs"
    show "set (L' (flist S c)) \<subseteq> slots S c"
      using c listsD(2) [OF rep, folded S_def, of c] L'c L'b(1) set_slot_list [of b S] by (cases "c = b") auto
    show "free_count s' (info_of S c) = int (length (L' (flist S c)))"
      using c listsD(3) [OF rep, folded S_def, of c] L'c L'b(1) s'(4) by (cases "c = b") (auto simp: ib_def)
    show "info_of S c \<in> set (L' (full S)) \<longleftrightarrow> L' (flist S c) = []"
    proof (cases "c = b")
      case True
      have "ib \<notin> set (L (full S))"
        using fresh [OF A(2) [of b]] by (auto simp: family_nodes_def heads_def ib_def)
      with True L'b S show ?thesis by (auto simp: ib_def layout_ok_def)
    qed (use c listsD(4) [OF rep, folded S_def, of c] L'b(2) L'c in auto)
  qed (use ptrs in blast)
  moreover have "slab_places s' (insert b bs)"
    using M(3) s'(2,5) by (simp add: slab_places_def Let_def S_def)
  ultimately show "b \<notin> bs \<and> (\<exists>s'. alloc_new_slab m s = (0, s') \<and> slab_of s' = S \<and> slab_places s' (insert b bs) \<and> slab_lists s' (insert b bs) L')"
    using M(2) s'(1,2) by blast
qed

lemma used_iff:
  assumes "slab_places s bs" "b \<in> bs" "x \<in> slots (slab_of s) b"
  shows "x \<in> used (slab_of s) bs L \<longleftrightarrow> x \<notin> set (L (flist (slab_of s) b))"
proof -
  have "c = b" if "c \<in> bs" "x \<in> slots (slab_of s) c" for c
    using places_disjoint [OF assms(1) that(1) assms(2)] in_area(1) [OF placesD(1) [OF assms(1,2)]] assms(3) that(2) by blast
  with assms(2,3) show ?thesis
    unfolding used_def by blast
qed

lemma usedE:
  assumes "x \<in> used S bs L"
  obtains b where "b \<in> bs" "x \<in> slots S b" "x \<notin> set (L (flist S b))"
  using assms unfolding used_def by blast

lemma used_insert:
  assumes places: "slab_places s bs" and b: "b \<in> bs" "x \<in> slots (slab_of s) b"
    and L: "set (L (flist (slab_of s) b)) = insert x (set (L' (flist (slab_of s) b)))" "x \<notin> set (L' (flist (slab_of s) b))"
      "\<And>c. c \<in> bs \<Longrightarrow> c \<noteq> b \<Longrightarrow> L' (flist (slab_of s) c) = L (flist (slab_of s) c)"
  shows "used (slab_of s) bs L' = insert x (used (slab_of s) bs L)" "x \<notin> used (slab_of s) bs L"
proof -
  show "x \<notin> used (slab_of s) bs L"
    using used_iff [OF places b] L by simp
  have "y \<in> used (slab_of s) bs L' \<longleftrightarrow> y \<in> insert x (used (slab_of s) bs L)" if c: "c \<in> bs" "y \<in> slots (slab_of s) c" for c y
  proof (cases "c = b")
    case True
    then show ?thesis
      using used_iff [OF places c, of L] used_iff [OF places c, of L'] L(1,2) by auto
  next
    case False
    then have "y \<noteq> x"
      using places_disjoint [OF places c(1) b(1)] in_area(1) [OF placesD(1) [OF places b(1)]] c(2) b(2) by blast
    with False show ?thesis
      using used_iff [OF places c, of L] used_iff [OF places c, of L'] L(3) [OF c(1)] by simp
  qed
  then show "used (slab_of s) bs L' = insert x (used (slab_of s) bs L)"
    using b by (intro set_eqI) (metis usedE insert_iff)
qed

section \<open>Taking and returning objects\<close>

text \<open>The head of the partial list is a slab with a free object.\<close>

lemma partial_first:
  assumes places: "slab_places s bs" and rep: "slab_lists s bs L" and ne: "L (partial (slab_of s)) \<noteq> []"
  obtains b where "b \<in> bs" "nxt (lists s) (partial (slab_of s)) = info_of (slab_of s) b"
    "hd (L (partial (slab_of s))) = info_of (slab_of s) b"
    "L (flist (slab_of s) b) \<noteq> []" "nxt (lists s) (flist (slab_of s) b) = hd (L (flist (slab_of s) b))"
    "hd (L (flist (slab_of s) b)) \<in> slots (slab_of s) b"
proof -
  let ?S = "slab_of s"
  note fam = lists_family(1) [OF rep]
  have H: "partial ?S \<in> heads ?S bs" "full ?S \<in> heads ?S bs" "\<And>b. b \<in> bs \<Longrightarrow> flist ?S b \<in> heads ?S bs"
    by (auto simp: heads_def)
  have "hd (L (partial ?S)) \<in> info_of ?S ` bs"
    using lists_family(2) [OF rep] hd_in_set [OF ne] by blast
  then obtain b where b: "b \<in> bs" "hd (L (partial ?S)) = info_of ?S b" by blast
  have "info_of ?S b \<in> set (L (partial ?S))"
    using hd_in_set [OF ne] b(2) by simp
  then have "info_of ?S b \<notin> set (L (full ?S))"
    using familyD(2) [OF fam H(1,2)] flist_neq(3) [OF places b(1)] by auto
  then have free: "L (flist ?S b) \<noteq> []"
    using listsD(4) [OF rep b(1)] by blast
  moreover have "hd (L (flist ?S b)) \<in> slots ?S b"
    using listsD(2) [OF rep b(1)] hd_in_set [OF free] by blast
  ultimately show thesis
    using that [OF b(1)] b(2) list_first [OF familyD(1) [OF fam H(1)] ne] list_first [OF familyD(1) [OF fam H(3) [OF b(1)]] free] by simp
qed

text \<open>What \<open>slab_alloc\<close> does after it has made sure that there is a free object.\<close>

definition take_first :: "slab_state \<Rightarrow> addr \<times> slab_state" where
  "take_first s =
     (let ib = nxt (lists s) (partial (slab_of s));
          fr = nxt (lists s) (free_list ib);
          s = s\<lparr>lists := list_remove fr (lists s)\<rparr>;
          s = s\<lparr>free_count := (free_count s)(ib := free_count s ib - 1)\<rparr>;
          s = (if list_is_empty (free_list ib) (lists s)
               then s\<lparr>lists := list_insert ib (full (slab_of s)) (list_remove ib (lists s))\<rparr> else s)
      in (fr, s))"

lemma slab_alloc_take: "slab_alloc malloc s =
   (let (r, s) = (if list_is_empty (partial (slab_of s)) (lists s) then alloc_new_slab malloc s else (0, s)) in
    if r < 0 then (NULL, s) else take_first s)"
  by (simp only: slab_alloc_def take_first_def)

lemma list_empty_rep: "list_rep h a xs \<Longrightarrow> list_is_empty a h \<longleftrightarrow> xs = []"
  by (cases xs) (auto simp: list_rep_def list_is_empty_def)

lemma take_first_ok:
  assumes places: "slab_places s bs" and rep: "slab_lists s bs L" and ne: "L (partial (slab_of s)) \<noteq> []"
  obtains x s' L' where "take_first s = (x, s')" "slab_of s' = slab_of s" "owned s' = owned s" "slab_lists s' bs L'"
    "used (slab_of s) bs L' = insert x (used (slab_of s) bs L)" "x \<notin> used (slab_of s) bs L" "x \<noteq> NULL"
    "\<exists>b \<in> bs. info_of (slab_of s) b = hd (L (partial (slab_of s))) \<and> x \<in> slots (slab_of s) b"
proof -
  define S where "S = slab_of s"
  obtain b where b: "b \<in> bs" "nxt (lists s) (partial S) = info_of S b" "hd (L (partial S)) = info_of S b"
      "L (flist S b) \<noteq> []" "nxt (lists s) (flist S b) = hd (L (flist S b))" "hd (L (flist S b)) \<in> slots S b"
    using partial_first [OF assms] unfolding S_def by blast
  define ib x ys where "ib = info_of S b" and "x = hd (L (flist S b))" and "ys = tl (L (flist S b))"
  have Lb: "L (flist S b) = x # ys"
    using b(4) by (simp add: x_def ys_def)
  note fam = lists_family(1) [OF rep, folded S_def]
  note neq = flist_neq [OF places b(1), folded S_def]
  have H: "partial S \<in> heads S bs" "full S \<in> heads S bs" "flist S b \<in> heads S bs"
    using b(1) by (auto simp: heads_def)
  define s1 where "s1 = s\<lparr>lists := list_remove x (lists s), free_count := (free_count s)(ib := free_count s ib - 1)\<rparr>"
  define L1 where "L1 = L(flist S b := ys)"
  define s' where "s' = (if ys = [] then s1\<lparr>lists := list_insert ib (full S) (list_remove ib (lists s1))\<rparr> else s1)"
  define L' where "L' = (if ys = [] then L1(partial S := remove1 ib (L1 (partial S)), full S := L1 (full S) @ [ib]) else L1)"
  have fam1: "family (lists s1) (heads S bs) L1"
    using family_remove [OF fam H(3), of x] Lb by (simp add: s1_def L1_def)
  have ibp: "ib \<in> set (L (partial S))" "L (partial S) \<noteq> []"
    using ne b(3) hd_in_set [of "L (partial S)"] by (metis S_def ib_def, metis S_def)
  have ibf: "ib \<notin> set (L (full S))"
    using listsD(4) [OF rep b(1), folded S_def] b(4) by (simp add: ib_def)
  have fam': "family (lists s') (heads S bs) L'"
    using fam1 family_move [OF fam1 H(1) _ H(2), of ib] ibp neq unfolding s'_def L'_def
    by (cases "ys = []") (simp_all add: L1_def)
  have S': "slab_of s' = S" "owned s' = owned s" "free_count s' = (free_count s)(ib := free_count s ib - 1)" "info_ptr s' = info_ptr s"
    by (simp_all add: s'_def s1_def S_def)
  have res: "take_first s = (x, s')"
    using list_empty_rep [OF familyD(1) [OF fam1 H(3)]] b(2,5) unfolding take_first_def s'_def s1_def S_def [symmetric] ib_def [symmetric] x_def
    by (simp add: Let_def L1_def S_def ib_def)
  have L'c: "L' (flist S c) = (if c = b then ys else L (flist S c))" if "c \<in> bs" for c
    using flist_neq [OF places that, folded S_def] neq by (simp add: L'_def L1_def flist_inj)
  have L'f: "L' (full S) = (if ys = [] then L (full S) @ [ib] else L (full S))"
    using neq by (simp add: L'_def L1_def)
  have xys: "x \<notin> set ys"
    using familyD(5) [OF fam H(3)] Lb by simp
  show thesis
  proof (rule that [OF res])
    show "slab_lists s' bs L'"
    proof (rule slab_listsI [OF S'(1) fam'])
      show "set (L' (full S)) \<union> set (L' (partial S)) = info_of S ` bs"
        using lists_family(2) [OF rep, folded S_def] ibp neq familyD(5) [OF fam H(1)] by (auto simp: L'_def L1_def)
      fix c assume c: "c \<in> bs"
      show "set (L' (flist S c)) \<subseteq> slots S c"
        using listsD(2) [OF rep c, folded S_def] Lb by (auto simp: L'c [OF c])
      show "free_count s' (info_of S c) = int (length (L' (flist S c)))"
        using listsD(3) [OF rep c, folded S_def] Lb by (auto simp: L'c [OF c] S'(3) ib_def info_of_inj)
      show "info_of S c \<in> set (L' (full S)) \<longleftrightarrow> L' (flist S c) = []"
        using listsD(4) [OF rep c, folded S_def] ibf by (auto simp: L'c [OF c] L'f ib_def info_of_inj split: if_splits)
      show "\<And>y. y \<in> slots S c \<Longrightarrow> info_ptr s' (y + objsize S) = info_of S c"
        using listsD(5) [OF rep c, folded S_def] by (simp add: S'(4))
    qed
    show "used (slab_of s) bs L' = insert x (used (slab_of s) bs L)" "x \<notin> used (slab_of s) bs L"
      using used_insert [OF places b(1), folded S_def, of x L L'] b(6) [folded x_def] Lb xys L'c b(1) unfolding S_def [symmetric] by simp_all
    show "x \<noteq> NULL"
      using familyD(4) [OF fam H(3)] Lb by simp
  qed (use S' b x_def in \<open>auto simp: S_def\<close>)
qed

lemma used_not_node:
  assumes places: "slab_places s bs" and rep: "slab_lists s bs L" and b: "b \<in> bs"
    and x: "x \<in> slots (slab_of s) b" "x \<notin> set (L (flist (slab_of s) b))"
  shows "x \<notin> family_nodes (heads (slab_of s) bs) L"
proof -
  let ?S = "slab_of s"
  note S = placesD [OF places b]
  note A = in_area [OF S(1)]
  have area: "x \<in> area ?S b" by (rule A(1) [OF x(1)])
  have same: "c = b" if "c \<in> bs" "x \<in> area ?S c" for c
    by (rule places_disjoint [OF places that(1) b that(2) area])
  have info: "x \<notin> info_of ?S ` bs"
    using same A(2,4) x(1) by blast
  have "x \<notin> set (a # L a)" if a: "a \<in> heads ?S bs" for a
  proof -
    consider "a = full ?S \<or> a = partial ?S" | c where "c \<in> bs" "a = flist ?S c"
      using a by (auto simp: heads_def)
    then show ?thesis
    proof cases
      case 1
      with S(2,3) area info lists_family(2) [OF rep] show ?thesis by auto
    next
      case (2 c)
      then show ?thesis
        using same [OF 2(1)] A(1,3,5) listsD(2) [OF rep 2(1)] x by (metis set_ConsD subsetD)
    qed
  qed
  then show ?thesis
    unfolding family_nodes_def by blast
qed

text \<open>\<open>slab_free\<close> up to the point where it looks at the number of free objects.\<close>

definition put_back :: "addr \<Rightarrow> addr \<Rightarrow> slab_state \<Rightarrow> slab_state" where
  "put_back ib obj s =
     (let s = (if list_is_empty (free_list ib) (lists s)
               then s\<lparr>lists := list_insert ib (partial (slab_of s)) (list_remove ib (lists s))\<rparr> else s);
          s = s\<lparr>lists := list_insert obj (free_list ib) (lists s)\<rparr>
      in s\<lparr>free_count := (free_count s)(ib := free_count s ib + 1)\<rparr>)"

lemma slab_free_put: "slab_free obj s =
   (let ib = info_ptr s (obj + objsize (slab_of s)); s = put_back ib obj s
    in if free_count s ib \<ge> int (count (slab_of s)) then free_slab ib s else s)"
  by (simp only: slab_free_def put_back_def Let_def)

lemma put_back_ok:
  assumes places: "slab_places s bs" and rep: "slab_lists s bs L" and b: "b \<in> bs" and ib_def: "ib = info_of (slab_of s) b"
    and x: "x \<in> slots (slab_of s) b" "x \<notin> set (L (flist (slab_of s) b))"
  obtains L' where "slab_of (put_back ib x s) = slab_of s" "owned (put_back ib x s) = owned s" "slab_lists (put_back ib x s) bs L'"
    "L' (flist (slab_of s) b) = L (flist (slab_of s) b) @ [x]" "ib \<in> set (L' (partial (slab_of s)))"
    "used (slab_of s) bs L = insert x (used (slab_of s) bs L')" "x \<notin> used (slab_of s) bs L'"
proof -
  define S where "S = slab_of s"
  note fam = lists_family(1) [OF rep, folded S_def]
  note neq = flist_neq [OF places b, folded S_def]
  have H: "partial S \<in> heads S bs" "full S \<in> heads S bs" "flist S b \<in> heads S bs"
    using b by (auto simp: heads_def)
  define xs where "xs = L (flist S b)"
  define s1 where "s1 = (if xs = [] then s\<lparr>lists := list_insert ib (partial S) (list_remove ib (lists s))\<rparr> else s)"
  define L1 where "L1 = (if xs = [] then L(full S := remove1 ib (L (full S)), partial S := L (partial S) @ [ib]) else L)"
  define s' where "s' = s1\<lparr>lists := list_insert x (flist S b) (lists s1), free_count := (free_count s)(ib := free_count s ib + 1)\<rparr>"
  define L' where "L' = L1(flist S b := L1 (flist S b) @ [x])"
  have ibf: "ib \<in> set (L (full S)) \<longleftrightarrow> xs = []" "ib \<in> set (L (full S)) \<union> set (L (partial S))"
    using listsD(4,6) [OF rep b, folded S_def] by (simp_all add: ib_def xs_def S_def)
  have fam1: "family (lists s1) (heads S bs) L1"
    using fam family_move [OF fam H(2) _ H(1), of ib] ibf(1) neq by (simp add: s1_def L1_def)
  have "x \<notin> family_nodes (heads S bs) L"
    using used_not_node [OF places rep b x] by (simp add: S_def)
  moreover have "family_nodes (heads S bs) L1 \<subseteq> family_nodes (heads S bs) L"
    using family_nodes_move [OF H(2,1), of ib L] ibf by (simp add: L1_def)
  ultimately have new: "x \<notin> family_nodes (heads S bs) L1" "x \<noteq> NULL"
    using slot_end(1) [OF placesD(1) [OF places b] x(1)] placesD(4) [OF places b] by auto
  have fam': "family (lists s') (heads S bs) L'"
    using family_append [OF fam1 H(3) new] by (simp add: s'_def L'_def)
  have S': "slab_of s' = S" "owned s' = owned s" "free_count s' = (free_count s)(ib := free_count s ib + 1)" "info_ptr s' = info_ptr s"
    by (simp_all add: s'_def s1_def S_def)
  have res: "put_back ib x s = s'"
    using list_empty_rep [OF familyD(1) [OF fam H(3)]] unfolding put_back_def s'_def s1_def xs_def ib_def S_def
    by (simp add: Let_def)
  have L'c: "L' (flist S c) = (if c = b then xs @ [x] else L (flist S c))" if "c \<in> bs" for c
    using flist_neq [OF places that, folded S_def] neq by (simp add: L'_def L1_def flist_inj xs_def)
  have L'f: "L' (full S) = (if xs = [] then remove1 ib (L (full S)) else L (full S))"
      "L' (partial S) = (if xs = [] then L (partial S) @ [ib] else L (partial S))"
    using neq by (simp_all add: L'_def L1_def)
  have ib: "ib = info_of S b" and x': "x \<in> slots S b"
    using ib_def x by (simp_all add: S_def)
  have d: "distinct (L (full S))"
    by (rule familyD(5) [OF fam H(2)])
  have "slab_lists s' bs L'"
  proof (rule slab_listsI [OF S'(1) fam'])
    show "set (L' (full S)) \<union> set (L' (partial S)) = info_of S ` bs"
      using lists_family(2) [OF rep, folded S_def] ibf d by (auto simp: L'f)
    fix c assume c: "c \<in> bs"
    show "set (L' (flist S c)) \<subseteq> slots S c"
      using listsD(2) [OF rep c, folded S_def] x' by (auto simp: L'c [OF c] xs_def)
    show "free_count s' (info_of S c) = int (length (L' (flist S c)))"
      using listsD(3) [OF rep c, folded S_def] by (auto simp: L'c [OF c] S'(3) ib info_of_inj xs_def)
    show "info_of S c \<in> set (L' (full S)) \<longleftrightarrow> L' (flist S c) = []"
      using listsD(4) [OF rep c, folded S_def] ibf d by (auto simp: L'c [OF c] L'f ib info_of_inj xs_def split: if_splits)
    show "\<And>y. y \<in> slots S c \<Longrightarrow> info_ptr s' (y + objsize S) = info_of S c"
      using listsD(5) [OF rep c, folded S_def] by (simp add: S'(4))
  qed
  moreover have "used S bs L = insert x (used S bs L')" "x \<notin> used S bs L'"
    using used_insert [OF places b x(1), folded S_def, of L' L] x(2) L'c b unfolding S_def [symmetric]
    by (auto simp: xs_def used_iff [OF places b x(1), folded S_def])
  ultimately show thesis
    using S' L'c [OF b] L'f ibf by (intro that [of L']) (auto simp: res S_def xs_def split: if_splits)
qed

section \<open>Releasing slabs\<close>

lemma free_slab_ok:
  assumes places: "slab_places s bs" and rep: "slab_lists s bs L" and b: "b \<in> bs" and ib: "ib = info_of (slab_of s) b"
    and a: "a = full (slab_of s) \<or> a = partial (slab_of s)" "ib \<in> set (L a)"
  defines "L' \<equiv> L(a := remove1 ib (L a))"
  shows "slab_of (free_slab ib s) = slab_of s" "slab_places (free_slab ib s) (bs - {b})" "slab_lists (free_slab ib s) (bs - {b}) L'"
proof -
  define S where "S = slab_of s"
  note fam = lists_family(1) [OF rep, folded S_def]
  note neq = flist_neq [OF places, folded S_def]
  have H: "a \<in> heads S bs" "partial S \<in> heads S bs" "full S \<in> heads S bs"
    using a(1) by (auto simp: heads_def S_def)
  show S': "slab_of (free_slab ib s) = slab_of s"
    by (simp add: free_slab_def)
  have "set (owned (free_slab ib s)) = set (owned s) - {(b, slabsize S)}"
    using places ib by (auto simp: free_slab_def slab_places_def Let_def info_of_def S_def)
  moreover have "set (owned s) = (\<lambda>b. (b, slabsize S)) ` bs"
    using places by (simp add: slab_places_def Let_def S_def)
  ultimately have "set (owned (free_slab ib s)) = (\<lambda>b. (b, slabsize S)) ` (bs - {b})"
    by auto
  with places show "slab_places (free_slab ib s) (bs - {b})"
    by (simp add: slab_places_def Let_def S' S_def)
  have "family (lists (free_slab ib s)) (heads S bs) L'"
    unfolding L'_def using family_remove [OF fam H(1) a(2)] by (simp add: free_slab_def)
  then have fam': "family (lists (free_slab ib s)) (heads S (bs - {b})) L'"
    by (rule family_drop) (auto simp: heads_def)
  have dj: "set (L (full S)) \<inter> set (L (partial S)) = {}" "distinct (L (full S))" "distinct (L (partial S))"
    using familyD(2) [OF fam H(3,2)] familyD(5) [OF fam H(2)] familyD(5) [OF fam H(3)] neq(3) [OF b] by auto
  have ab: "set (L' (full S)) = set (L (full S)) - {ib}" "set (L' (partial S)) = set (L (partial S)) - {ib}"
    using a dj neq(3) [OF b] by (auto simp: L'_def S_def)
  have L'c: "L' (flist S c) = L (flist S c)" if "c \<in> bs" for c
    using a(1) neq(1,2) [OF that] by (auto simp: L'_def S_def)
  show "slab_lists (free_slab ib s) (bs - {b}) L'"
  proof (rule slab_listsI [OF _ fam'])
    have "info_of S ` (bs - {b}) = info_of S ` bs - {ib}"
      using ib by (auto simp: S_def info_of_inj)
    then show "set (L' (full S)) \<union> set (L' (partial S)) = info_of S ` (bs - {b})"
      using ab lists_family(2) [OF rep, folded S_def] by auto
    fix c assume "c \<in> bs - {b}"
    then have c: "c \<in> bs" and "info_of S c \<noteq> ib"
      using ib by (auto simp: info_of_inj S_def)
    then show "info_of S c \<in> set (L' (full S)) \<longleftrightarrow> L' (flist S c) = []"
      using listsD(4) [OF rep c, folded S_def] ab(1) by (simp add: L'c)
    show "set (L' (flist S c)) \<subseteq> slots S c" "free_count (free_slab ib s) (info_of S c) = int (length (L' (flist S c)))"
      "\<And>y. y \<in> slots S c \<Longrightarrow> info_ptr (free_slab ib s) (y + objsize S) = info_of S c"
      using listsD(2,3,5) [OF rep c, folded S_def] by (simp_all add: L'c c free_slab_def)
  qed (simp add: S' S_def)
qed

lemma used_drop:
  assumes "slab_places s bs" "b \<in> bs" "\<And>c. c \<in> bs \<Longrightarrow> L' (flist (slab_of s) c) = L (flist (slab_of s) c)"
  shows "used (slab_of s) (bs - {b}) L' = used (slab_of s) bs L - slots (slab_of s) b"
proof (intro set_eqI iffI)
  have other: "c = b" if "c \<in> bs" "x \<in> slots (slab_of s) c" "x \<in> slots (slab_of s) b" for c x
    using places_disjoint [OF assms(1) that(1) assms(2)] in_area(1) [OF placesD(1) [OF assms(1,2)]] that(2,3) by blast
  show "x \<in> used (slab_of s) bs L - slots (slab_of s) b" if "x \<in> used (slab_of s) (bs - {b}) L'" for x
    using that other assms(3) by (force simp: used_def)
  show "x \<in> used (slab_of s) (bs - {b}) L'" if "x \<in> used (slab_of s) bs L - slots (slab_of s) b" for x
    using that assms(3) by (force simp: used_def)
qed

lemma slots_all_free:
  assumes "layout_ok S" "set xs \<subseteq> slots S b" "distinct xs" "count S \<le> length xs"
  shows "set xs = slots S b"
proof (rule card_subset_eq)
  have "card (slots S b) = count S"
    unfolding slots_def using card_image [OF slot_index_inj [OF assms(1)]] by simp
  moreover have "card (set xs) \<le> card (slots S b)"
    using assms(2) by (intro card_mono) (auto simp: slots_def)
  ultimately show "card (set xs) = card (slots S b)"
    using assms(3,4) distinct_card [of xs] by simp
qed (use assms in \<open>auto simp: slots_def\<close>)

text \<open>\<open>slab_free_all\<close> returns every slab: the list it works on gets shorter at each step.\<close>

lemma free_all_slabs_ok:
  assumes "slab_places s bs" "slab_lists s bs L" "a = full (slab_of s) \<or> a = partial (slab_of s)" "length (L a) = n"
  shows "\<exists>s' bs' L'. free_all_slabs a s = Some s' \<and> slab_of s' = slab_of s \<and> slab_places s' bs' \<and> slab_lists s' bs' L' \<and>
    L' a = [] \<and> (\<forall>c. c \<noteq> a \<longrightarrow> L' c = L c)"
  using assms
proof (induction n arbitrary: s bs L)
  case 0
  have "a \<in> heads (slab_of s) bs"
    using 0(3) by (auto simp: heads_def)
  then have "list_is_empty a (lists s)"
    using 0 list_empty_rep [OF familyD(1) [OF lists_family(1) [OF 0(2)]]] by simp
  then have "free_all_slabs a s = Some s"
    by (subst free_all_slabs.simps) simp
  with 0 show ?case by (intro exI [of _ s] exI [of _ bs] exI [of _ L]) simp
next
  case (Suc n)
  have a: "a \<in> heads (slab_of s) bs"
    using Suc.prems(3) by (auto simp: heads_def)
  note fam = familyD [OF lists_family(1) [OF Suc.prems(2)] a]
  have ne: "L a \<noteq> []" using Suc.prems(4) by auto
  define ib where "ib = nxt (lists s) a"
  have ib: "ib \<in> set (L a)"
    using list_first [OF fam(1) ne] ne by (simp add: ib_def)
  then have "ib \<in> info_of (slab_of s) ` bs"
    using lists_family(2) [OF Suc.prems(2)] Suc.prems(3) by blast
  then obtain b where b: "b \<in> bs" "ib = info_of (slab_of s) b" by blast
  note F = free_slab_ok [OF Suc.prems(1,2) b Suc.prems(3) ib]
  have step: "free_all_slabs a s = free_all_slabs a (free_slab ib s)"
    using list_empty_rep [OF fam(1)] ne by (subst free_all_slabs.simps) (simp add: ib_def)
  have "length ((L(a := remove1 ib (L a))) a) = n"
    using ib Suc.prems(4) by (simp add: length_remove1)
  from Suc.IH [OF F(2,3) _ this] Suc.prems(3) obtain s' bs' L' where
    "free_all_slabs a s = Some s' \<and> slab_of s' = slab_of s \<and> slab_places s' bs' \<and> slab_lists s' bs' L' \<and>
      L' a = [] \<and> (\<forall>c. c \<noteq> a \<longrightarrow> L' c = (L(a := remove1 ib (L a))) c)"
    unfolding step F(1) by blast
  then show ?case
    by (intro exI [of _ s'] exI [of _ bs'] exI [of _ L']) simp
qed

section \<open>Correctness\<close>

text \<open>The objects in use are those of the given set, and every slab has one of them.\<close>

definition slab_inv :: "slab_state \<Rightarrow> addr set \<Rightarrow> bool" where
  "slab_inv s U \<longleftrightarrow> (\<exists>bs L. slab_places s bs \<and> slab_lists s bs L \<and> U = used (slab_of s) bs L \<and>
     (\<forall>b \<in> bs. \<exists>x \<in> slots (slab_of s) b. x \<in> U))"

lemma round_up: "(n + (8 - n mod 8) mod 8) mod 8 = (0::nat)"
proof -
  define q r where "q = n div 8" and "r = n mod 8"
  have "n = q * 8 + r" "r < 8"
    by (simp_all add: q_def r_def)
  then have "n + (8 - r) = 8 * (q + 1)" by simp
  then have "(n + (8 - n mod 8)) mod 8 = 0" by (simp add: r_def)
  then show ?thesis by (simp only: mod_add_right_eq)
qed

text \<open>
  The layout of objects of up to \<open>2 ^ 28 - 16\<close> bytes: no conversion truncates. From there on the
  offset of the info block does not fit into an int.
\<close>

lemma round_up_le:
  fixes n m :: nat
  assumes "n \<le> m" "m mod 8 = 0"
  shows "n + (8 - n mod 8) mod 8 \<le> m"
proof -
  define k where "k = n + (8 - n mod 8) mod 8"
  have "(8 - n mod 8) mod 8 < (8 :: nat)"
    by simp
  then have k: "k < m + 8" "8 dvd k"
    using assms(1) round_up [of n] by (simp_all add: k_def mod_eq_0_iff_dvd)
  obtain a b where ab: "m = 8 * a" "k = 8 * b"
    using assms(2) k(2) by (auto simp: mod_eq_0_iff_dvd elim!: dvdE)
  with k(1) have "b < Suc a"
    by simp
  then show ?thesis
    using ab by (simp add: k_def)
qed

definition rounded_size :: "nat \<Rightarrow> nat" where
  "rounded_size sz = (let n = max sz NODE_SIZE in n + (PTR_SIZE - n mod PTR_SIZE) mod PTR_SIZE)"

definition slot_count :: "nat \<Rightarrow> nat" where
  "slot_count sz = max MIN_OBJ ((MIN_SLAB - INFO_SIZE) div (rounded_size sz + PTR_SIZE))"

lemma rounded_size_bounds:
  assumes "sz \<le> 2 ^ 28 - 16"
  shows "sz \<le> rounded_size sz" "16 \<le> rounded_size sz" "rounded_size sz mod 8 = 0" "rounded_size sz \<le> 2 ^ 28 - 16"
proof -
  define n where "n = max sz 16"
  have "sz \<le> n" "16 \<le> n" "n \<le> 2 ^ 28 - 16"
    using assms by (simp_all add: n_def)
  moreover from this(3) have "n + (8 - n mod 8) mod 8 \<le> 2 ^ 28 - 16"
    by (rule round_up_le) simp
  ultimately show "sz \<le> rounded_size sz" "16 \<le> rounded_size sz" "rounded_size sz mod 8 = 0" "rounded_size sz \<le> 2 ^ 28 - 16"
    using round_up [of n] by (simp_all add: rounded_size_def Let_def NODE_SIZE_def PTR_SIZE_def n_def [symmetric])
qed

lemma slot_count_bounds:
  assumes "sz \<le> 2 ^ 28 - 16"
  shows "(rounded_size sz + PTR_SIZE) * slot_count sz + INFO_SIZE < 2 ^ 31" "slot_count sz < 2 ^ 31"
proof -
  define k where "k = rounded_size sz + 8"
  have "k \<le> 2 ^ 28 - 8"
    using rounded_size_bounds(4) [OF assms] by (simp add: k_def)
  moreover have "k * (32728 div k) \<le> 32728"
    by (metis div_times_less_eq_dividend mult.commute)
  then have "k * (32728 div k) \<le> 2 ^ 31 - 64"
    by (rule le_trans) simp
  ultimately have "k * max 8 (32728 div k) \<le> 2 ^ 31 - 64"
    by (simp add: max_def)
  moreover have "32728 div k < 2 ^ 31"
    by (rule le_less_trans [OF div_le_dividend]) simp
  ultimately show "(rounded_size sz + PTR_SIZE) * slot_count sz + INFO_SIZE < 2 ^ 31" "slot_count sz < 2 ^ 31"
    by (simp_all add: slot_count_def k_def PTR_SIZE_def INFO_SIZE_def MIN_OBJ_def MIN_SLAB_def)
qed

lemma slab_init_layout:
  fixes fl pl h ip fc
  assumes "sz \<le> 2 ^ 28 - 16"
  defines "S \<equiv> slab_of (slab_init (int sz) fl pl h ip fc)"
  shows "objsize S = rounded_size sz" "count S = slot_count sz" "info_offset S = (rounded_size sz + PTR_SIZE) * slot_count sz"
    "slabsize S = (rounded_size sz + PTR_SIZE) * slot_count sz + INFO_SIZE" "full S = fl" "partial S = pl"
proof -
  note r = rounded_size_bounds [OF assms(1)] and c = slot_count_bounds [OF assms(1)]
  define k where "k = rounded_size sz"
  have k: "k < 2 ^ 31" "to_size (int k) = k" "to_int32 k = int k" "wrap64 (k + PTR_SIZE) = k + PTR_SIZE"
    using r(4) by (simp_all add: k_def to_size_int to_int32_small PTR_SIZE_def)
  define n where "n = slot_count sz"
  define q where "q = (MIN_SLAB - INFO_SIZE) div (k + PTR_SIZE)"
  have "q \<le> MIN_SLAB - INFO_SIZE"
    unfolding q_def by (rule div_le_dividend)
  then have n0: "to_int32 q = int q"
    by (intro to_int32_small) (simp add: MIN_SLAB_def INFO_SIZE_def)
  have n1: "(if int q < int MIN_OBJ then int MIN_OBJ else int q) = int n" "to_size (int n) = n"
    using c(2) by (auto simp: n_def slot_count_def q_def k_def to_size_int)
  define m where "m = (k + PTR_SIZE) * n"
  have "m + INFO_SIZE < 2 ^ 31"
    using c(1) by (simp add: k_def n_def m_def)
  then have m: "wrap64 m = m" "to_int32 m = int m" "to_size (int m) = m" "to_int32 (wrap64 (m + INFO_SIZE)) = int (m + INFO_SIZE)"
      "to_size (int (m + INFO_SIZE)) = m + INFO_SIZE"
    using to_size_int [of m] to_int32_small [of m] to_size_int [of "m + INFO_SIZE"] to_int32_small [of "m + INFO_SIZE"] by auto
  have sz: "to_size (int sz) = sz"
    using assms(1) by (simp add: to_size_int)
  define one where "one = (if sz < NODE_SIZE then int NODE_SIZE else int sz)"
  have "to_size one = max sz NODE_SIZE"
    using sz to_size_int [of 16] by (simp add: one_def NODE_SIZE_def)
  then have two: "to_int32 (to_size one + (PTR_SIZE - to_size one mod PTR_SIZE) mod PTR_SIZE) = int k"
    using k(3) by (simp add: k_def rounded_size_def Let_def)
  have "S = \<lparr>objsize_int = int k, slabsize_int = int (m + INFO_SIZE), count_int = int n, info_offset_int = int m, full = fl, partial = pl\<rparr>"
    unfolding S_def slab_init_def Let_def sz one_def [symmetric] two k(2,4) q_def [symmetric] n0 n1 m_def [symmetric] m
    by simp
  then show "objsize S = rounded_size sz" "count S = slot_count sz" "info_offset S = (rounded_size sz + PTR_SIZE) * slot_count sz"
    "slabsize S = (rounded_size sz + PTR_SIZE) * slot_count sz + INFO_SIZE" "full S = fl" "partial S = pl"
    using k(2) n1(2) m(3,5)
    by (simp_all add: objsize_def count_def info_offset_def slabsize_def k_def [symmetric] n_def [symmetric] m_def [symmetric])
qed

lemma slab_init_owned: "owned (slab_init sz fl pl h ip fc) = []"
  by (simp only: slab_init_def Let_def slab_state.simps)

lemmas layout_values = rounded_size_def slot_count_def Let_def NODE_SIZE_def PTR_SIZE_def MIN_SLAB_def INFO_SIZE_def MIN_OBJ_def

lemma slab_init_truncates:
  fixes fl pl h ip fc
  defines "S \<equiv> slab_of (slab_init (2 ^ 28 - 8) fl pl h ip fc)"
  shows "info_offset_int S = - (2 ^ 31)" "slabsize_int S = - (2 ^ 31) + 40" "count_int S = 8"
proof -
  have 1: "to_size (2 ^ 28 - 8) = 2 ^ 28 - 8" "to_int32 (2 ^ 28 - 8) = 2 ^ 28 - 8"
      "to_int32 0 = 0" "to_size 8 = 8" "to_int32 (2 ^ 31) = - (2 ^ 31)" "to_size (- (2 ^ 31)) = 2 ^ 64 - 2 ^ 31"
      "to_int32 (2 ^ 64 - 2 ^ 31 + 40) = - (2 ^ 31) + 40"
    by (simp_all add: to_size_def to_int32_def)
  have 2: "\<not> 2 ^ 28 - 8 < NODE_SIZE" "2 ^ 28 - 8 + (PTR_SIZE - (2 ^ 28 - 8) mod PTR_SIZE) mod PTR_SIZE = 2 ^ 28 - 8"
      "(MIN_SLAB - INFO_SIZE) div wrap64 (2 ^ 28 - 8 + PTR_SIZE) = 0" "int MIN_OBJ = 8" "(0 :: int) < 8"
      "wrap64 (wrap64 (2 ^ 28 - 8 + PTR_SIZE) * 8) = 2 ^ 31" "wrap64 (2 ^ 64 - 2 ^ 31 + INFO_SIZE) = 2 ^ 64 - 2 ^ 31 + 40"
    by (simp_all add: NODE_SIZE_def PTR_SIZE_def MIN_SLAB_def INFO_SIZE_def MIN_OBJ_def)
  show "info_offset_int S = - (2 ^ 31)" "slabsize_int S = - (2 ^ 31) + 40" "count_int S = 8"
    by (simp_all only: S_def slab_init_def Let_def 1 2 if_True if_False slab_state.simps slab.simps)
qed

lemma slab_init_ok:
  assumes "fl \<noteq> NULL" "pl \<noteq> NULL" "fl \<noteq> pl" "sz \<le> 2 ^ 28 - 16"
  shows "slab_inv (slab_init (int sz) fl pl h ip fc) {}" "sz \<le> objsize (slab_of (slab_init (int sz) fl pl h ip fc))"
    "objsize (slab_of (slab_init (int sz) fl pl h ip fc)) mod PTR_SIZE = 0" "MIN_OBJ \<le> count (slab_of (slab_init (int sz) fl pl h ip fc))"
    "full (slab_of (slab_init (int sz) fl pl h ip fc)) = fl" "partial (slab_of (slab_init (int sz) fl pl h ip fc)) = pl"
proof -
  define s where "s = slab_init (int sz) fl pl h ip fc"
  note lay = slab_init_layout [OF assms(4), of fl pl h ip fc] and r = rounded_size_bounds [OF assms(4)]
  show sz: "sz \<le> objsize (slab_of (slab_init (int sz) fl pl h ip fc))" "MIN_OBJ \<le> count (slab_of (slab_init (int sz) fl pl h ip fc))"
    and fp: "full (slab_of (slab_init (int sz) fl pl h ip fc)) = fl" "partial (slab_of (slab_init (int sz) fl pl h ip fc)) = pl"
    and "objsize (slab_of (slab_init (int sz) fl pl h ip fc)) mod PTR_SIZE = 0"
    using r lay by (simp_all add: slot_count_def PTR_SIZE_def)
  have start: "owned s = []" "lists s = list_init pl (list_init fl h)"
    by (simp_all only: s_def slab_init_def Let_def slab_state.simps)
  have "0 < objsize (slab_of s)" "info_offset (slab_of s) = stride (slab_of s) * count (slab_of s)"
      "slabsize (slab_of s) = info_offset (slab_of s) + INFO_SIZE"
    using r(2) by (simp_all add: s_def lay stride_def)
  then have places: "slab_places s {}"
    using assms sz(2) fp start(1) by (simp add: slab_places_def Let_def layout_ok_def s_def MIN_OBJ_def)
  moreover have "family (list_init fl h) {fl} ((\<lambda>_. [])(fl := []))"
    using family_new [of h "{}" "\<lambda>_. []" fl] assms(1) by (simp add: family_def family_nodes_def)
  then have "family (list_init pl (list_init fl h)) (insert pl {fl}) ((\<lambda>_. [])(fl := [], pl := []))"
    using assms family_new [of "list_init fl h" "{fl}" "(\<lambda>_. [])(fl := [])" pl] by (simp add: family_nodes_def)
  ultimately have "slab_lists s {} (\<lambda>_. [])"
    using fp start by (intro slab_listsI [of _ "slab_of s"]) (simp_all add: heads_def s_def insert_commute fun_upd_idem)
  with places show "slab_inv (slab_init (int sz) fl pl h ip fc) {}"
    unfolding s_def [symmetric] slab_inv_def by (intro exI [of _ "{}"] exI [of _ "\<lambda>_. []"]) (simp add: used_def)
qed

lemma slab_inv_apart:
  assumes "slab_inv s U" "p \<in> U"
  shows "p \<noteq> NULL" "p + objsize (slab_of s) \<le> 2 ^ 64" "q \<in> U \<Longrightarrow> p < q \<Longrightarrow> p + objsize (slab_of s) \<le> q"
proof -
  let ?S = "slab_of s"
  obtain bs L where I: "slab_places s bs" "slab_lists s bs L" "U = used ?S bs L"
    using assms(1) by (auto simp: slab_inv_def)
  obtain b where b: "b \<in> bs" "p \<in> slots ?S b"
    using assms(2) I(3) by (auto elim: usedE)
  note S = placesD [OF I(1) b(1)]
  note e = slot_end [OF S(1) b(2)]
  have size: "slabsize ?S = info_offset ?S + INFO_SIZE" "objsize ?S \<le> stride ?S"
    using S(1) by (auto simp: layout_ok_def stride_def)
  show "p \<noteq> NULL" "p + objsize ?S \<le> 2 ^ 64"
    using e S(4,5) size by (auto simp: info_of_def)
  assume q: "q \<in> U" "p < q"
  then obtain c where c: "c \<in> bs" "q \<in> slots ?S c"
    using I(3) by (auto elim: usedE)
  show "p + objsize ?S \<le> q"
  proof (cases "c = b")
    case True
    then show ?thesis
      using slots_apart [OF S(1) b(2) _ q(2)] c(2) size(2) by simp
  next
    case False
    have "c \<notin> area ?S b"
      using False places_disjoint [OF I(1) b(1) c(1)] in_area(1,7) [OF S(1)] by blast
    moreover have "p \<notin> area ?S c"
      using False places_disjoint [OF I(1) b(1) c(1)] in_area(1) [OF S(1) b(2)] by blast
    ultimately show ?thesis
      using e slot_end [OF S(1) c(2)] q(2) size by (auto simp: area_def info_of_def)
  qed
qed

lemma slab_inv_owned: "slab_inv s {} \<Longrightarrow> owned s = []"
  by (auto simp: slab_inv_def slab_places_def Let_def)

text \<open>
  Allocation: the result is a new object and everything else stays in use; the call fails only when
  there is no partial slab and \<open>malloc\<close> fails, and then changes nothing.
\<close>

lemma slab_alloc_ok:
  assumes "slab_inv s U" "malloc_ok m (slab_of s)" "slab_alloc m s = (p, s')"
  shows "slab_of s' = slab_of s \<and>
    (p = NULL \<longrightarrow> s' = s \<and> list_is_empty (partial (slab_of s)) (lists s) \<and> m (owned s) (slabsize (slab_of s)) = NULL) \<and>
    (p \<noteq> NULL \<longrightarrow> p \<notin> U \<and> slab_inv s' (insert p U))"
proof -
  define S where "S = slab_of s"
  obtain bs L where I: "slab_places s bs" "slab_lists s bs L" "U = used S bs L" "\<forall>b \<in> bs. \<exists>x \<in> slots S b. x \<in> U"
    using assms(1) by (auto simp: slab_inv_def S_def)
  have emp: "list_is_empty (partial S) (lists s) \<longleftrightarrow> L (partial S) = []"
    using list_empty_rep familyD(1) [OF lists_family(1) [OF I(2)]] by (simp add: heads_def S_def)
  have fin: ?thesis if t: "slab_places t bs'" "slab_lists t bs' L1" "slab_of t = S" "L1 (partial S) \<noteq> []" "used S bs' L1 = U"
      "slab_alloc m s = take_first t" "\<forall>b \<in> bs' - {c}. \<exists>x \<in> slots S b. x \<in> U" "info_of S c = hd (L1 (partial S))" for t bs' L1 c
  proof -
    have "L1 (partial (slab_of t)) \<noteq> []" using t(3,4) by simp
    then obtain x t' L' where "take_first t = (x, t')" "slab_of t' = slab_of t" "owned t' = owned t" "slab_lists t' bs' L'"
        "used (slab_of t) bs' L' = insert x (used (slab_of t) bs' L1)" "x \<notin> used (slab_of t) bs' L1" "x \<noteq> NULL"
        "\<exists>b \<in> bs'. info_of (slab_of t) b = hd (L1 (partial (slab_of t))) \<and> x \<in> slots (slab_of t) b"
      by (rule take_first_ok [OF t(1,2)])
    note * = this [unfolded t(3) t(5)]
    have "x \<in> slots S c"
      using *(8) t(8) info_of_inj by metis
    have "\<exists>y \<in> slots S b. y \<in> insert x U" if "b \<in> bs'" for b
      using that t(7) \<open>x \<in> slots S c\<close> by (cases "b = c") auto
    moreover have "slab_places t' bs'"
      using t(1,3) *(2,3) by (simp add: slab_places_def Let_def)
    ultimately have "slab_inv t' (insert x U)"
      using *(2,4,5) unfolding slab_inv_def by (intro exI [of _ bs'] exI [of _ L']) simp
    with * t(6) assms(3) show ?thesis by (simp add: S_def)
  qed
  show ?thesis
  proof (cases "L (partial S) = []")
    case False
    obtain c where "info_of S c = hd (L (partial S))"
      using partial_first [OF I(1,2)] False by (metis S_def)
    with fin [OF I(1,2)] False I(3,4) emp show ?thesis
      by (auto simp: slab_alloc_take S_def)
  next
    case True
    define b where "b = m (owned s) (slabsize S)"
    note new = alloc_new_slab_ok [OF I(1,2) assms(2), folded S_def, folded b_def]
    show ?thesis
    proof (cases "b = NULL")
      case True
      with new(1) \<open>L (partial S) = []\<close> emp assms(3) show ?thesis
        by (auto simp: slab_alloc_take S_def b_def)
    next
      case False
      define L1 where "L1 = L(flist S b := map (\<lambda>j. b + j * stride S) [0..<count S], partial S := L (partial S) @ [info_of S b])"
      obtain t where t: "b \<notin> bs" "alloc_new_slab m s = (0, t)" "slab_of t = S" "slab_places t (insert b bs)" "slab_lists t (insert b bs) L1"
        using new(2) [OF False] by (auto simp: L1_def)
      note neq = flist_neq [OF t(4), unfolded t(3)]
      have "L1 (flist S b) = map (\<lambda>j. b + j * stride S) [0..<count S]" "\<And>c. c \<in> bs \<Longrightarrow> L1 (flist S c) = L (flist S c)"
        using neq t(1) by (auto simp: L1_def flist_inj)
      then have "used S (insert b bs) L1 = U"
        using I(3) set_slot_list [of b S] t(1) unfolding used_def by auto
      then show ?thesis
        using fin [OF t(4,5,3), of b] t(2) True I(4) emp by (auto simp: slab_alloc_take S_def L1_def)
    qed
  qed
qed

text \<open>A cache with fewer objects in use than fit into one slab has a slab with free objects.\<close>

lemma slab_room:
  assumes "slab_inv s U" "U \<noteq> {}" "finite U" "card U < count (slab_of s)"
  shows "\<not> list_is_empty (partial (slab_of s)) (lists s)"
proof
  assume e: "list_is_empty (partial (slab_of s)) (lists s)"
  define S where "S = slab_of s"
  obtain bs L where I: "slab_places s bs" "slab_lists s bs L" "U = used S bs L"
    using assms(1) by (auto simp: slab_inv_def S_def)
  have "list_rep (lists s) (partial S) (L (partial S))"
    using familyD(1) [OF lists_family(1) [OF I(2)], of "partial S"] by (simp add: heads_def S_def)
  then have "L (partial S) = []"
    using e list_empty_rep by (simp add: S_def)
  moreover obtain b where b: "b \<in> bs"
    using assms(2) unfolding I(3) used_def by blast
  ultimately have "L (flist S b) = []"
    using listsD(4,6) [OF I(2) b] by (simp add: S_def)
  then have "slots S b \<subseteq> U"
    using used_iff [OF I(1) b, of _ L] I(3) by (auto simp: S_def)
  moreover have "card (slots S b) = count S"
    unfolding slots_def using card_image [OF slot_index_inj [OF placesD(1) [OF I(1) b]]] by (simp add: S_def)
  ultimately show False
    using card_mono [OF assms(3), of "slots S b"] assms(4) by (simp add: S_def)
qed

text \<open>Returning an object: it is no longer in use, the others stay, and its slab is released with its last object.\<close>

lemma slab_free_ok:
  assumes "slab_inv s U" "p \<in> U"
  shows "slab_of (slab_free p s) = slab_of s \<and> slab_inv (slab_free p s) (U - {p})"
proof -
  define S where "S = slab_of s"
  obtain bs L where I: "slab_places s bs" "slab_lists s bs L" "U = used S bs L" "\<forall>b \<in> bs. \<exists>x \<in> slots S b. x \<in> U"
    using assms(1) by (auto simp: slab_inv_def S_def)
  obtain b where b: "b \<in> bs" "p \<in> slots (slab_of s) b" "p \<notin> set (L (flist (slab_of s) b))"
    using assms(2) unfolding I(3) S_def by (rule usedE)
  define ib where "ib = info_of (slab_of s) b"
  define t where "t = put_back ib p s"
  obtain L' where L': "slab_of t = slab_of s" "owned t = owned s" "slab_lists t bs L'"
      "L' (flist (slab_of s) b) = L (flist (slab_of s) b) @ [p]" "ib \<in> set (L' (partial (slab_of s)))"
      "used (slab_of s) bs L = insert p (used (slab_of s) bs L')" "p \<notin> used (slab_of s) bs L'"
    unfolding t_def by (rule put_back_ok [OF I(1,2) b(1) ib_def b(2,3)])
  note L' = L' [folded S_def]
  have U': "used S bs L' = U - {p}"
    using L'(6,7) I(3) by (simp add: S_def)
  have places: "slab_places t bs"
    using I(1) L'(1,2) by (simp add: slab_places_def Let_def S_def)
  have ip: "info_ptr s (p + objsize (slab_of s)) = ib"
    using listsD(5) [OF I(2) b(1,2)] by (simp add: ib_def)
  have fc: "free_count t ib = int (length (L' (flist S b)))"
    using listsD(3) [OF L'(3) b(1)] by (simp add: L'(1) S_def ib_def)
  have bp: "\<exists>x \<in> slots S c. x \<in> U - {p}" if c: "c \<in> bs" "c \<noteq> b" for c
  proof -
    obtain x where "x \<in> slots S c" "x \<in> U" using I(4) c(1) by blast
    moreover have "p \<notin> slots S c"
      using places_disjoint [OF I(1) c(1) b(1)] c(2) in_area(1) [OF placesD(1) [OF I(1) b(1)]] b(2) by (metis S_def)
    ultimately show ?thesis by blast
  qed
  have nodes: "set (L' (flist S b)) \<subseteq> slots S b" "distinct (L' (flist S b))"
    using listsD(2) [OF L'(3) b(1)] familyD(5) [OF lists_family(1) [OF L'(3)], of "flist S b"] b(1) by (simp_all add: L'(1) heads_def)
  have lay: "layout_ok S"
    using placesD(1) [OF I(1) b(1)] by (simp add: S_def)
  show ?thesis
  proof (cases "int (count S) \<le> free_count t ib")
    case True
    have res: "slab_free p s = free_slab ib t"
      using True by (simp add: slab_free_put Let_def ip t_def [symmetric] L'(1))
    have "set (L' (flist S b)) = slots S b"
      using True fc by (intro slots_all_free [OF lay nodes]) simp
    then have "(U - {p}) \<inter> slots S b = {}"
      using used_iff [OF places b(1), of _ L'] U' by (auto simp: L'(1))
    moreover note F = free_slab_ok [OF places L'(3) b(1), of ib "partial S", unfolded L'(1)]
    have "used S (bs - {b}) (L'(partial S := remove1 ib (L' (partial S)))) = used S bs L' - slots S b"
      using used_drop [OF places b(1), unfolded L'(1), of "L'(partial S := remove1 ib (L' (partial S)))" L'] flist_neq(2) [OF places, unfolded L'(1)] by auto
    ultimately have "used S (bs - {b}) (L'(partial S := remove1 ib (L' (partial S)))) = U - {p}"
      using U' by blast
    then have "slab_inv (free_slab ib t) (U - {p})"
      unfolding slab_inv_def using F L'(5) bp
      by (intro exI [of _ "bs - {b}"] exI [of _ "L'(partial S := remove1 ib (L' (partial S)))"]) (simp add: ib_def S_def)
    then show ?thesis
      using F(1) L'(5) res by (simp add: ib_def S_def)
  next
    case False
    have res: "slab_free p s = t"
      using False by (simp add: slab_free_put Let_def ip t_def [symmetric] L'(1))
    have "set (L' (flist S b)) \<noteq> slots S b"
    proof
      assume "set (L' (flist S b)) = slots S b"
      then have "length (L' (flist S b)) = card (slots S b)"
        using distinct_card [OF nodes(2)] by simp
      also have "\<dots> = count S"
        unfolding slots_def using card_image [OF slot_index_inj [OF lay]] by simp
      finally show False using False fc by simp
    qed
    then obtain x where "x \<in> slots S b" "x \<notin> set (L' (flist S b))"
      using nodes(1) by blast
    then have "\<exists>x \<in> slots S b. x \<in> U - {p}"
      using used_iff [OF places b(1), unfolded L'(1)] U' by blast
    then have "slab_inv t (U - {p})"
      unfolding slab_inv_def using places L'(1,3) U' bp by (intro exI [of _ bs] exI [of _ L']) auto
    then show ?thesis
      using res L'(1) by (simp add: S_def)
  qed
qed

section \<open>The slab allocator as an allocator\<close>

text \<open>All objects have the size of the cache; the requests of the clients must not be larger.\<close>

definition slab_rep :: "malloc_fn \<Rightarrow> nat \<Rightarrow> slab_state \<Rightarrow> (addr \<rightharpoonup> nat) \<Rightarrow> bool" where
  "slab_rep m sz s L \<longleftrightarrow> malloc_ok m (slab_of s) \<and> sz \<le> objsize (slab_of s) \<and> slab_inv s (dom L) \<and>
     (\<forall>p \<in> dom L. L p = Some (objsize (slab_of s)))"

lemma slab_rep_separated:
  assumes "slab_rep m sz s L"
  shows "separated 0 (2 ^ 64) L"
proof -
  have I: "slab_inv s (dom L)" and v: "\<And>p. p \<in> dom L \<Longrightarrow> L p = Some (objsize (slab_of s))"
    using assms by (simp_all add: slab_rep_def)
  have "p \<in> dom L \<and> c = objsize (slab_of s)" if "L p = Some c" for p c
    using v [of p] that by auto
  then show ?thesis
    unfolding separated_def using slab_inv_apart [OF I] by (metis add_0 le0)
qed

interpretation slab_cache: allocator "slab_rep m sz" "\<lambda>_. slab_alloc m" slab_free "\<lambda>_. (0, 2 ^ 64)" sz for m sz
proof (unfold_locales, goal_cases)
  case (1 s L n p s')
  then have "slab_inv s (dom L)" "malloc_ok m (slab_of s)"
    by (simp_all add: slab_rep_def)
  note A = slab_alloc_ok [OF this 1(2)]
  have "L p = None \<and> slab_rep m sz s' (L(p \<mapsto> objsize (slab_of s))) \<and> (n \<le> sz \<longrightarrow> n \<le> objsize (slab_of s))" if "p \<noteq> NULL"
    using A that 1(1) by (auto simp: slab_rep_def)
  then show ?case
    using A by blast
next
  case (2 s L p)
  then show ?case
    using slab_free_ok [of s "dom L" p] by (auto simp: slab_rep_def)
next
  case (3 s L)
  then show ?case using slab_rep_separated by simp
qed

text \<open>
  C21: take a slab cache for objects of at most \<open>2 ^ 28 - 16\<close> bytes (for larger ones the layout does
  not fit into the int fields, see \<open>slab_init_truncates\<close>) and a \<open>malloc\<close> that returns fresh memory or
  fails. Whatever objects a client takes from the cache and returns to it, in any order and with
  any failures of \<open>malloc\<close>, the objects it holds do not overlap each other and are as long as
  requested.
\<close>

theorem slab_objects_separated:
  assumes "fl \<noteq> NULL" "pl \<noteq> NULL" "fl \<noteq> pl" "sz \<le> 2 ^ 28 - 16" "malloc_ok m (slab_of (slab_init (int sz) fl pl h ip fc))"
    and "\<forall>n. Malloc n \<in> set ops \<longrightarrow> n \<le> sz"
  shows "separated 0 (2 ^ 64) (snd (run_ops (\<lambda>_. slab_alloc m) slab_free ops (slab_init (int sz) fl pl h ip fc) Map.empty))"
proof -
  define s where "s = slab_init (int sz) fl pl h ip fc"
  obtain s' H' where r: "run_ops (\<lambda>_. slab_alloc m) slab_free ops s Map.empty = (s', H')"
    by (meson surj_pair)
  have "slab_rep m sz s Map.empty"
    using slab_init_ok [OF assms(1-4)] assms(5) by (simp add: slab_rep_def s_def)
  then have "slab_cache.holds m sz s Map.empty"
    unfolding slab_cache.holds_def by (intro exI [of _ Map.empty]) simp
  with slab_cache.run_ops_holds [OF _ assms(6) r] have "slab_cache.holds m sz s' H'" by simp
  with slab_cache.holds_separated [of m sz s' H'] r show ?thesis
    by (simp add: s_def)
qed

text \<open>A \<open>malloc\<close> that can serve one request.\<close>

definition malloc_once :: malloc_fn where
  "malloc_once own n = (if own = [] \<and> n \<le> 2 ^ 20 then 2 ^ 20 else NULL)"

lemma malloc_once_ok: "full S < 2 ^ 20 \<Longrightarrow> partial S < 2 ^ 20 \<Longrightarrow> malloc_ok malloc_once S"
  by (auto simp: malloc_ok_def malloc_once_def split: if_splits)

abbreviation cache0 :: slab_state where
  "cache0 \<equiv> slab_init 100 8 24 \<lparr>nxt = \<lambda>_. 0, prv = \<lambda>_. 0\<rparr> (\<lambda>_. 0) (\<lambda>_. 0)"

lemma cache0_ok: "slab_inv cache0 {}" "malloc_ok malloc_once (slab_of cache0)"
  using slab_init_ok(1,5,6) [of 8 24 100] by (simp_all add: malloc_once_ok)

theorem slab_objects_separated_witness:
  "separated 0 (2 ^ 64) (snd (run_ops (\<lambda>_. slab_alloc malloc_once) slab_free [Malloc 100, Malloc 60, Malloc 3] cache0 Map.empty))"
  using slab_objects_separated [of 8 24 100 malloc_once _ _ _ "[Malloc 100, Malloc 60, Malloc 3]"] cache0_ok(2) by simp

text \<open>
  C22: \<open>slab_alloc\<close> fails only when there is no partial slab and \<open>malloc\<close> fails, and then changes
  nothing. Otherwise it returns an object that overlaps no object in use, and exactly that object is
  in use in addition.
\<close>

theorem slab_alloc_correct:
  assumes "slab_inv s U" "malloc_ok m (slab_of s)" "slab_alloc m s = (p, s')"
  shows "if p = NULL then s' = s \<and> list_is_empty (partial (slab_of s)) (lists s) \<and> m (owned s) (slabsize (slab_of s)) = NULL
    else slab_inv s' (insert p U) \<and> (\<forall>q \<in> U. p + objsize (slab_of s) \<le> q \<or> q + objsize (slab_of s) \<le> p)"
proof (cases "p = NULL")
  case False
  then have A: "p \<notin> U" "slab_inv s' (insert p U)" "slab_of s' = slab_of s"
    using slab_alloc_ok [OF assms] by simp_all
  have "p + objsize (slab_of s) \<le> q \<or> q + objsize (slab_of s) \<le> p" if "q \<in> U" for q
    using slab_inv_apart(3) [OF A(2), of p q] slab_inv_apart(3) [OF A(2), of q p] A(1,3) that
    by (cases p q rule: linorder_cases) auto
  with False A(2) show ?thesis by simp
qed (use slab_alloc_ok [OF assms] in simp)

lemma cache0_alloc:
  obtains p s where "slab_alloc malloc_once cache0 = (p, s)" "p \<noteq> NULL" "slab_inv s {p}"
proof -
  obtain p s where r: "slab_alloc malloc_once cache0 = (p, s)" by force
  have "malloc_once (owned cache0) (slabsize (slab_of cache0)) \<noteq> NULL"
    using slab_init_layout(4) [of 100 8 24] by (simp add: malloc_once_def slab_init_owned layout_values)
  with slab_alloc_ok [OF cache0_ok r] r that show thesis by auto
qed

theorem slab_alloc_correct_witness: "\<exists>p s'. slab_alloc malloc_once cache0 = (p, s') \<and> p \<noteq> NULL \<and> slab_inv s' {p}"
proof -
  obtain p s where r: "slab_alloc malloc_once cache0 = (p, s)" "p \<noteq> NULL" by (rule cache0_alloc)
  from slab_alloc_correct [OF cache0_ok r(1)] r show ?thesis by auto
qed

text \<open>
  C23: \<open>slab_free\<close> of an object in use takes exactly that object out of use, and no memory stays
  allocated when it was the last one. \<open>slab_free_all\<close> terminates and returns all memory.
\<close>

theorem slab_free_correct:
  assumes "slab_inv s U" "p \<in> U"
  shows "slab_inv (slab_free p s) (U - {p}) \<and> (U = {p} \<longrightarrow> owned (slab_free p s) = []) \<and>
    (\<exists>s'. slab_free_all s = Some s' \<and> slab_inv s' {} \<and> owned s' = [])"
proof -
  define S where "S = slab_of s"
  have free: "slab_inv (slab_free p s) (U - {p})"
    using slab_free_ok [OF assms] by simp
  obtain bs L where I: "slab_places s bs" "slab_lists s bs L"
    using assms(1) by (auto simp: slab_inv_def)
  from free_all_slabs_ok [OF I, of "full S"] obtain s1 bs1 L1 where
    1: "free_all_slabs (full S) s = Some s1" "slab_of s1 = S" "slab_places s1 bs1" "slab_lists s1 bs1 L1" "L1 (full S) = []"
    by (auto simp: S_def)
  from free_all_slabs_ok [OF 1(3,4), of "partial S"] obtain s2 bs2 L2 where
    2: "free_all_slabs (partial S) s1 = Some s2" "slab_of s2 = S" "slab_places s2 bs2" "slab_lists s2 bs2 L2" "L2 (partial S) = []"
      "\<forall>c. c \<noteq> partial S \<longrightarrow> L2 c = L1 c"
    using 1(2) by auto
  have "full S \<noteq> partial S"
    using I(1) by (simp add: slab_places_def Let_def layout_ok_def S_def)
  then have "bs2 = {}"
    using lists_family(2) [OF 2(4)] 1(5) 2(2,5,6) by simp
  then have "slab_inv s2 {}"
    using 2(3,4) unfolding slab_inv_def by (intro exI [of _ "{}"] exI [of _ L2]) (simp add: used_def)
  moreover have "slab_free_all s = Some s2"
    using 1(1,2) 2(1) by (simp add: slab_free_all_def S_def)
  ultimately show ?thesis
    using free slab_inv_owned by auto
qed

theorem slab_free_correct_witness:
  "\<exists>p s. slab_alloc malloc_once cache0 = (p, s) \<and> p \<noteq> NULL \<and> slab_inv (slab_free p s) {} \<and> owned (slab_free p s) = []"
proof -
  obtain p s where r: "slab_alloc malloc_once cache0 = (p, s)" "p \<noteq> NULL" "slab_inv s {p}" by (rule cache0_alloc)
  from slab_free_correct [OF r(3)] r show ?thesis by auto
qed

end
