(* ===== verification/Dlb_Ioq.thy ===== *)
theory Dlb_Ioq
  imports Dlb_Waitq
begin

text \<open>
  The I/O queue on Linux (\<^verbatim>\<open>src/io/ioq_linux.c\<close>). It owns a run queue and a wait queue, a list of descriptors
  whose registration with the kernel has to change, and a pipe that interrupts \<open>epoll_wait\<close>. A descriptor
  object, its task and its list node are one address, as they are one structure in C.

  The kernel is a parameter: \<open>epoll_ctl\<close> is a function on the set of registered descriptors and
  \<open>epoll_wait\<close> one from the timeout and the queue to a list of events or an error. The pipe is
  its number of unread bytes. The hooks of the run queue and of the wait queue, which their models count,
  become calls of \<open>ioq_notify\<close> here.
\<close>

section \<open>State\<close>

unbundle bit_operations_syntax

definition IOQ_FLAG_MOD_LIST :: u32 where "IOQ_FLAG_MOD_LIST = 1"
definition IOQ_FLAG_EPOLL :: u32 where "IOQ_FLAG_EPOLL = 2"
definition IOQ_FLAG_WAITING :: u32 where "IOQ_FLAG_WAITING = 4"

definition EINTR :: int where "EINTR = 4"

record ioq_fd =
  fd :: int
  ready :: u32
  err :: int
  flags :: u32
  requested :: u32

type_synonym interest = "int \<rightharpoonup> u32 \<times> addr"  \<comment> \<open>registered descriptors: events and user pointer\<close>

record ioq =
  wq :: waitq  \<comment> \<open>with the run queue\<close>
  fds :: "addr \<Rightarrow> ioq_fd"
  mod_list :: slist_state
  pipe :: nat  \<comment> \<open>unread bytes\<close>
  intr_state :: int
  epoll :: interest
  open_fds :: "int set"  \<comment> \<open>descriptors of the queue itself\<close>

datatype epoll_op = EPOLL_CTL_ADD | EPOLL_CTL_MOD | EPOLL_CTL_DEL

text \<open>The result is 0 or the error code.\<close>

type_synonym epoll_ctl_fn = "epoll_op \<Rightarrow> int \<Rightarrow> u32 \<times> addr \<Rightarrow> interest \<Rightarrow> int \<times> interest"
type_synonym epoll_wait_fn = "int \<Rightarrow> ioq \<Rightarrow> int + (u32 \<times> addr) list"

definition upd_fd :: "addr \<Rightarrow> (ioq_fd \<Rightarrow> ioq_fd) \<Rightarrow> ioq \<Rightarrow> ioq" where
  "upd_fd f g q = q\<lparr>fds := (fds q)(f := g (fds q f))\<rparr>"

section \<open>Notification\<close>

text \<open>The critical section of \<open>ioq_notify\<close> tells whether to write to the pipe.\<close>

definition notify_locked :: "ioq \<Rightarrow> bool \<times> ioq" where
  "notify_locked q = (intr_state q = 0, q\<lparr>intr_state := 1\<rparr>)"

definition pipe_write :: "ioq \<Rightarrow> ioq" where
  "pipe_write q = q\<lparr>pipe := pipe q + 1\<rparr>"

definition ioq_notify :: "ioq \<Rightarrow> ioq" where
  "ioq_notify q = (case notify_locked q of (first, q) \<Rightarrow> if first then pipe_write q else q)"

text \<open>Reading 128 bytes at a time until the pipe is empty and \<open>read\<close> fails.\<close>

fun drain_pipe :: "nat \<Rightarrow> nat" where
  "drain_pipe n = (if n = 0 then 0 else drain_pipe (n - min 128 n))"

definition ack_locked :: "ioq \<Rightarrow> ioq" where
  "ack_locked q = q\<lparr>intr_state := 0\<rparr>"

definition intr_ack :: "ioq \<Rightarrow> ioq" where
  "intr_ack q = ack_locked (q\<lparr>pipe := drain_pipe (pipe q)\<rparr>)"

definition wakeup_runq :: "ioq \<Rightarrow> ioq" where
  "wakeup_runq q = ioq_notify q"

definition wakeup_waitq :: "ioq \<Rightarrow> ioq" where
  "wakeup_waitq q = ioq_notify q"

text \<open>New states of the run queue and the wait queue, with the calls of their hooks.\<close>

definition set_run :: "runq \<Rightarrow> ioq \<Rightarrow> ioq" where
  "set_run r q = (wakeup_runq ^^ (hook_calls r - hook_calls (run (wq q)))) (q\<lparr>wq := (wq q)\<lparr>run := r\<rparr>\<rparr>)"

definition set_wq :: "waitq \<Rightarrow> ioq \<Rightarrow> ioq" where
  "set_wq w q = (wakeup_runq ^^ (hook_calls (run w) - hook_calls (run (wq q))))
     ((wakeup_waitq ^^ (wakeups w - wakeups (wq q))) (q\<lparr>wq := w\<rparr>))"

section \<open>Initialisation\<close>

text \<open>
  The results of the system calls are parameters: \<open>rq_ret\<close> and the run queue from \<open>runq_init\<close>, the two
  ends of the pipe, the descriptor of the interest set, each with its return value or error code.
\<close>

definition ioq_init :: "int \<times> runq \<Rightarrow> nat \<Rightarrow> int + int \<times> int \<Rightarrow> int + int \<Rightarrow> epoll_ctl_fn \<Rightarrow> int
    \<Rightarrow> rbt_heap \<Rightarrow> (addr \<Rightarrow> u64) \<Rightarrow> slist_heap \<Rightarrow> (addr \<Rightarrow> ioq_fd) \<Rightarrow> int \<times> int \<times> ioq" where
  "ioq_init rq_ret bg_threads pipe_ret create_ret ctl rq_err th dl h fs = (case rq_ret of (ret, r) \<Rightarrow>
     (let q = \<lparr>wq = waitq_init th dl r, fds = fs, mod_list = (h, slist_init), pipe = 0, intr_state = 0,
               epoll = Map.empty, open_fds = {}\<rparr> in
      if ret < 0 then (-1, rq_err, q)
      else
        (let r = (if bg_threads = 0 then r\<lparr>hook := True\<rparr> else r);
             q = q\<lparr>wq := (waitq_init th dl r)\<lparr>wq_wakeup := True\<rparr>\<rparr>
         in case pipe_ret of
           Inl e \<Rightarrow> (-1, e, q\<lparr>wq := (wq q)\<lparr>run := runq_destroy r\<rparr>\<rparr>)
         | Inr (rd, wr) \<Rightarrow>
             (let q = q\<lparr>open_fds := {rd, wr}\<rparr> in
              case create_ret of
                Inl e \<Rightarrow> (-1, e, q\<lparr>open_fds := open_fds q - {rd} - {wr}, wq := (wq q)\<lparr>run := runq_destroy r\<rparr>\<rparr>)
              | Inr ep \<Rightarrow>
                  (let q = q\<lparr>open_fds := insert ep (open_fds q)\<rparr> in
                   case ctl EPOLL_CTL_ADD rd (1, NULL) (epoll q) of (e, ps) \<Rightarrow>
                     if e \<noteq> 0 then (-1, e, q\<lparr>open_fds := open_fds q - {ep} - {rd} - {wr}, wq := (wq q)\<lparr>run := runq_destroy r\<rparr>\<rparr>)
                     else (0, 0, q\<lparr>epoll := ps\<rparr>))))))"

definition ioq_destroy :: "int \<Rightarrow> int \<Rightarrow> int \<Rightarrow> ioq \<Rightarrow> ioq" where
  "ioq_destroy rd wr ep q = q\<lparr>wq := (wq q)\<lparr>run := runq_destroy (run (wq q))\<rparr>, open_fds := open_fds q - {rd} - {wr} - {ep}\<rparr>"

section \<open>The list of modifications\<close>

definition mod_enqueue_nolock :: "addr \<Rightarrow> ioq \<Rightarrow> bool \<times> ioq" where
  "mod_enqueue_nolock f q =
     (if flags (fds q f) AND IOQ_FLAG_MOD_LIST = 0
      then (slist_is_empty (snd (mod_list q)),
            (upd_fd f (\<lambda>x. x\<lparr>flags := flags x OR IOQ_FLAG_MOD_LIST\<rparr>) q)\<lparr>mod_list := slist_append f (mod_list q)\<rparr>)
      else (False, q))"

text \<open>The descriptor with copies of its flags and its requested events.\<close>

definition mod_dequeue :: "ioq \<Rightarrow> (addr \<times> u32 \<times> u32) \<times> ioq" where
  "mod_dequeue q = (case slist_pop (mod_list q) of (n, l) \<Rightarrow>
     if n \<noteq> NULL
     then (let q = upd_fd n (\<lambda>x. x\<lparr>flags := flags x AND NOT IOQ_FLAG_MOD_LIST\<rparr>) (q\<lparr>mod_list := l\<rparr>)
           in ((n, flags (fds q n), requested (fds q n)), q))
     else ((NULL, 0, 0), q\<lparr>mod_list := l\<rparr>))"

text \<open>The descriptor is no longer waiting; it goes to the list for its task to be submitted.\<close>

definition end_wait :: "addr \<Rightarrow> u32 \<Rightarrow> ioq \<Rightarrow> ioq" where
  "end_wait f rd q = snd (mod_enqueue_nolock f
     (upd_fd f (\<lambda>x. x\<lparr>flags := flags x AND NOT (IOQ_FLAG_EPOLL OR IOQ_FLAG_WAITING)\<rparr>) (upd_fd f (\<lambda>x. x\<lparr>ready := rd\<rparr>) q)))"

text \<open>One event of the loop in \<open>do_wait\<close>.\<close>

definition wait_event :: "epoll_ctl_fn \<Rightarrow> u32 \<times> addr \<Rightarrow> ioq \<Rightarrow> ioq" where
  "wait_event ctl e q = (case e of (events, f) \<Rightarrow>
     if f = NULL then q
     else end_wait f events (q\<lparr>epoll := snd (ctl EPOLL_CTL_DEL (fd (fds q f)) (0, NULL) (epoll q))\<rparr>))"

definition do_wait :: "epoll_wait_fn \<Rightarrow> epoll_ctl_fn \<Rightarrow> u64 \<Rightarrow> ioq \<Rightarrow> (int \<times> ioq) option" where
  "do_wait ew ctl now q = do {
     timeout \<leftarrow> waitq_next_deadline now (wq q);
     case ew timeout q of
       Inl e \<Rightarrow> if e = EINTR then Some (0, q) else Some (-1, q)
     | Inr evts \<Rightarrow> Some (0, fold (wait_event ctl) evts (intr_ack q))
   }"

text \<open>The body of the loop in \<open>dispatch_mods\<close>, for a descriptor with the copied flags and request.\<close>

definition handle_mod :: "epoll_ctl_fn \<Rightarrow> addr \<Rightarrow> u32 \<Rightarrow> u32 \<Rightarrow> ioq \<Rightarrow> ioq" where
  "handle_mod ctl f flgs req q =
     (if flgs AND IOQ_FLAG_WAITING = 0 then set_run (runq_task_exec f (funcs (run (wq q)) f) (run (wq q))) q
      else if req = 0 then
        end_wait f 0
          (if flgs AND IOQ_FLAG_EPOLL \<noteq> 0 then q\<lparr>epoll := snd (ctl EPOLL_CTL_DEL (fd (fds q f)) (0, NULL) (epoll q))\<rparr> else q)
      else
        (case ctl (if flgs AND IOQ_FLAG_EPOLL \<noteq> 0 then EPOLL_CTL_MOD else EPOLL_CTL_ADD) (fd (fds q f)) (req, f) (epoll q) of (e, ps) \<Rightarrow>
           if e \<noteq> 0 then snd (mod_enqueue_nolock f (upd_fd f (\<lambda>x. x\<lparr>requested := 0\<rparr>) (upd_fd f (\<lambda>x. x\<lparr>err := e\<rparr>) (q\<lparr>epoll := ps\<rparr>))))
           else upd_fd f (\<lambda>x. x\<lparr>flags := flags x OR IOQ_FLAG_EPOLL\<rparr>) (q\<lparr>epoll := ps\<rparr>)))"

partial_function (option) dispatch_mods :: "epoll_ctl_fn \<Rightarrow> ioq \<Rightarrow> ioq option" where
  "dispatch_mods ctl q = (case mod_dequeue q of ((f, flgs, req), q) \<Rightarrow>
     if f = NULL then Some q else dispatch_mods ctl (handle_mod ctl f flgs req q))"

declare dispatch_mods.simps [code]

text \<open>\<open>runq_dispatch\<close> without a limit, with task functions that may use the whole queue.\<close>

partial_function (option) run_tasks :: "(addr \<Rightarrow> ioq \<Rightarrow> ioq) \<Rightarrow> ioq \<Rightarrow> ioq option" where
  "run_tasks cb q = (case run_one (run (wq q)) of (result, n, r) \<Rightarrow>
     if result \<le> 0 then Some (set_run r q) else run_tasks cb (cb n (set_run r q)))"

declare run_tasks.simps [code]

definition ioq_iterate :: "epoll_wait_fn \<Rightarrow> epoll_ctl_fn \<Rightarrow> (addr \<Rightarrow> ioq \<Rightarrow> ioq) \<Rightarrow> u64 \<Rightarrow> u64 \<Rightarrow> ioq \<Rightarrow> (int \<times> ioq) option" where
  "ioq_iterate ew ctl cb now now' q = do {
     (r, q) \<leftarrow> do_wait ew ctl now q;
     if r < 0 then Some (-1, q)
     else do {
       q \<leftarrow> dispatch_mods ctl q;
       (_, w) \<leftarrow> waitq_dispatch 0 now' (wq q);
       q \<leftarrow> run_tasks cb (set_wq w q);
       Some (0, q)
     }
   }"

section \<open>Descriptors\<close>

definition ioq_fd_init :: "addr \<Rightarrow> int \<Rightarrow> ioq \<Rightarrow> ioq" where
  "ioq_fd_init f n q = upd_fd f (\<lambda>_. \<lparr>fd = n, ready = 0, err = 0, flags = 0, requested = 0\<rparr>) q"

definition ioq_fd_get_fd :: "addr \<Rightarrow> ioq \<Rightarrow> int" where
  "ioq_fd_get_fd f q = fd (fds q f)"

definition ioq_fd_set_fd :: "addr \<Rightarrow> int \<Rightarrow> ioq \<Rightarrow> ioq" where
  "ioq_fd_set_fd f n q = upd_fd f (\<lambda>x. x\<lparr>fd := n\<rparr>) q"

definition ioq_fd_ready :: "addr \<Rightarrow> ioq \<Rightarrow> u32" where
  "ioq_fd_ready f q = ready (fds q f)"

definition ioq_fd_error :: "addr \<Rightarrow> ioq \<Rightarrow> int" where
  "ioq_fd_error f q = err (fds q f)"

text \<open>Everything that \<open>ioq_fd_wait\<close> does before it looks at the set.\<close>

definition begin_wait :: "addr \<Rightarrow> u32 \<Rightarrow> nat \<Rightarrow> ioq \<Rightarrow> ioq" where
  "begin_wait f ev func q =
     upd_fd f (\<lambda>x. x\<lparr>ready := 0, err := 0, flags := IOQ_FLAG_WAITING, requested := ev\<rparr>)
       (q\<lparr>wq := (wq q)\<lparr>run := set_func f func (run (wq q))\<rparr>\<rparr>)"

definition ioq_fd_wait :: "addr \<Rightarrow> u32 \<Rightarrow> nat \<Rightarrow> ioq \<Rightarrow> ioq" where
  "ioq_fd_wait f ev func q =
     (let q = begin_wait f ev func q in
      if ev = 0 then set_run (runq_task_exec f func (run (wq q))) q
      else case mod_enqueue_nolock f q of (need_wakeup, q) \<Rightarrow> if need_wakeup then ioq_notify q else q)"

definition rewait_locked :: "addr \<Rightarrow> u32 \<Rightarrow> ioq \<Rightarrow> bool \<times> ioq" where
  "rewait_locked f ev q =
     (if flags (fds q f) AND IOQ_FLAG_WAITING \<noteq> 0
      then mod_enqueue_nolock f (upd_fd f (\<lambda>x. x\<lparr>requested := ev\<rparr>) q)
      else (False, q))"

definition ioq_fd_rewait :: "addr \<Rightarrow> u32 \<Rightarrow> ioq \<Rightarrow> ioq" where
  "ioq_fd_rewait f ev q = (case rewait_locked f ev q of (need_wakeup, q) \<Rightarrow> if need_wakeup then ioq_notify q else q)"

definition ioq_fd_cancel :: "addr \<Rightarrow> ioq \<Rightarrow> ioq" where
  "ioq_fd_cancel f q = ioq_fd_rewait f 0 q"

section \<open>Flags\<close>

abbreviation inlist :: "ioq \<Rightarrow> addr \<Rightarrow> bool" where
  "inlist q f \<equiv> flags (fds q f) AND IOQ_FLAG_MOD_LIST \<noteq> 0"

abbreviation registered :: "ioq \<Rightarrow> addr \<Rightarrow> bool" where
  "registered q f \<equiv> flags (fds q f) AND IOQ_FLAG_EPOLL \<noteq> 0"

abbreviation waiting :: "ioq \<Rightarrow> addr \<Rightarrow> bool" where
  "waiting q f \<equiv> flags (fds q f) AND IOQ_FLAG_WAITING \<noteq> 0"

lemma flag_bit:
  "x AND IOQ_FLAG_MOD_LIST = 0 \<longleftrightarrow> \<not> bit x 0" "x AND IOQ_FLAG_EPOLL = 0 \<longleftrightarrow> \<not> bit x 1" "x AND IOQ_FLAG_WAITING = 0 \<longleftrightarrow> \<not> bit x 2"
  using and_exp_eq_0_iff_not_bit [of x 0] and_exp_eq_0_iff_not_bit [of x 1] and_exp_eq_0_iff_not_bit [of x 2]
  by (simp_all add: IOQ_FLAG_MOD_LIST_def IOQ_FLAG_EPOLL_def IOQ_FLAG_WAITING_def)

lemma bit_flag: "bit IOQ_FLAG_MOD_LIST n \<longleftrightarrow> n = 0" "bit IOQ_FLAG_EPOLL n \<longleftrightarrow> n = 1" "bit IOQ_FLAG_WAITING n \<longleftrightarrow> n = 2"
proof -
  have F: "IOQ_FLAG_MOD_LIST = 2 ^ 0" "IOQ_FLAG_EPOLL = 2 ^ 1" "IOQ_FLAG_WAITING = 2 ^ 2"
    by (simp_all add: IOQ_FLAG_MOD_LIST_def IOQ_FLAG_EPOLL_def IOQ_FLAG_WAITING_def)
  have B: "bit (2 ^ k :: u32) n \<longleftrightarrow> n = k" if "k < 32" for k
    using that bit_exp_iff [where 'a=u32, of k n] by (auto simp: possible_bit_word)
  show "bit IOQ_FLAG_MOD_LIST n \<longleftrightarrow> n = 0" unfolding F by (rule B) simp
  show "bit IOQ_FLAG_EPOLL n \<longleftrightarrow> n = 1" unfolding F by (rule B) simp
  show "bit IOQ_FLAG_WAITING n \<longleftrightarrow> n = 2" unfolding F by (rule B) simp
qed

lemma flag_nonzero [simp]: "IOQ_FLAG_MOD_LIST \<noteq> 0" "IOQ_FLAG_EPOLL \<noteq> 0" "IOQ_FLAG_WAITING \<noteq> 0"
  by (simp_all add: IOQ_FLAG_MOD_LIST_def IOQ_FLAG_EPOLL_def IOQ_FLAG_WAITING_def)

lemma flag_ops [simp]:
  "(x OR IOQ_FLAG_MOD_LIST) AND IOQ_FLAG_MOD_LIST \<noteq> 0"
  "(x OR IOQ_FLAG_MOD_LIST) AND IOQ_FLAG_EPOLL = 0 \<longleftrightarrow> x AND IOQ_FLAG_EPOLL = 0"
  "(x OR IOQ_FLAG_MOD_LIST) AND IOQ_FLAG_WAITING = 0 \<longleftrightarrow> x AND IOQ_FLAG_WAITING = 0"
  "(x OR IOQ_FLAG_EPOLL) AND IOQ_FLAG_MOD_LIST = 0 \<longleftrightarrow> x AND IOQ_FLAG_MOD_LIST = 0"
  "(x OR IOQ_FLAG_EPOLL) AND IOQ_FLAG_EPOLL \<noteq> 0"
  "(x OR IOQ_FLAG_EPOLL) AND IOQ_FLAG_WAITING = 0 \<longleftrightarrow> x AND IOQ_FLAG_WAITING = 0"
  "(x AND NOT IOQ_FLAG_MOD_LIST) AND IOQ_FLAG_MOD_LIST = 0"
  "(x AND NOT IOQ_FLAG_MOD_LIST) AND IOQ_FLAG_EPOLL = 0 \<longleftrightarrow> x AND IOQ_FLAG_EPOLL = 0"
  "(x AND NOT IOQ_FLAG_MOD_LIST) AND IOQ_FLAG_WAITING = 0 \<longleftrightarrow> x AND IOQ_FLAG_WAITING = 0"
  "(x AND NOT (IOQ_FLAG_EPOLL OR IOQ_FLAG_WAITING)) AND IOQ_FLAG_MOD_LIST = 0 \<longleftrightarrow> x AND IOQ_FLAG_MOD_LIST = 0"
  "(x AND NOT (IOQ_FLAG_EPOLL OR IOQ_FLAG_WAITING)) AND IOQ_FLAG_EPOLL = 0"
  "(x AND NOT (IOQ_FLAG_EPOLL OR IOQ_FLAG_WAITING)) AND IOQ_FLAG_WAITING = 0"
  "(x AND NOT IOQ_FLAG_EPOLL AND NOT IOQ_FLAG_WAITING) AND IOQ_FLAG_MOD_LIST = 0 \<longleftrightarrow> x AND IOQ_FLAG_MOD_LIST = 0"
  "(x AND NOT IOQ_FLAG_EPOLL AND NOT IOQ_FLAG_WAITING) AND IOQ_FLAG_EPOLL = 0"
  "(x AND NOT IOQ_FLAG_EPOLL AND NOT IOQ_FLAG_WAITING) AND IOQ_FLAG_WAITING = 0"
  "IOQ_FLAG_WAITING AND IOQ_FLAG_WAITING \<noteq> 0" "IOQ_FLAG_WAITING AND IOQ_FLAG_EPOLL = 0" "IOQ_FLAG_WAITING AND IOQ_FLAG_MOD_LIST = 0"
  unfolding flag_bit by (simp_all add: bit_or_iff bit_and_iff bit_not_iff bit_flag)

section \<open>What the operations change\<close>

lemma enqueue_fields [simp]:
  fixes q :: ioq and f :: addr
  defines "q' \<equiv> snd (mod_enqueue_nolock f q)"
  shows "inlist q' g \<longleftrightarrow> g = f \<or> inlist q g" "registered q' g = registered q g" "waiting q' g = waiting q g"
    "fd (fds q' g) = fd (fds q g)" "requested (fds q' g) = requested (fds q g)"
    "wq q' = wq q" "pipe q' = pipe q" "intr_state q' = intr_state q" "epoll q' = epoll q"
  by (auto simp: q'_def mod_enqueue_nolock_def upd_fd_def)

lemma enqueue_rep:
  assumes "slist_rep (mod_list q) xs" "inlist q f \<longleftrightarrow> f \<in> set xs" "f \<noteq> NULL"
  shows "slist_rep (mod_list (snd (mod_enqueue_nolock f q))) (if f \<in> set xs then xs else xs @ [f])"
    "fst (mod_enqueue_nolock f q) \<longleftrightarrow> xs = []"
proof -
  have "slist_is_empty (snd (mod_list q)) \<longleftrightarrow> xs = []"
    using slist_is_empty_rep [of "fst (mod_list q)" "snd (mod_list q)" xs] assms(1) by simp
  with assms slist_append_rep [of "mod_list q" xs f]
  show "slist_rep (mod_list (snd (mod_enqueue_nolock f q))) (if f \<in> set xs then xs else xs @ [f])"
      "fst (mod_enqueue_nolock f q) \<longleftrightarrow> xs = []"
    by (auto simp: mod_enqueue_nolock_def)
qed

lemma end_wait_fields [simp]:
  fixes q :: ioq and f :: addr and rd :: u32
  defines "q' \<equiv> end_wait f rd q"
  shows "inlist q' g \<longleftrightarrow> g = f \<or> inlist q g" "registered q' g \<longleftrightarrow> g \<noteq> f \<and> registered q g" "waiting q' g \<longleftrightarrow> g \<noteq> f \<and> waiting q g"
    "fd (fds q' g) = fd (fds q g)" "requested (fds q' g) = requested (fds q g)"
    "wq q' = wq q" "pipe q' = pipe q" "intr_state q' = intr_state q" "epoll q' = epoll q"
  by (auto simp: q'_def end_wait_def) (auto simp: upd_fd_def split: if_splits)

lemma end_wait_rep:
  assumes "slist_rep (mod_list q) xs" "inlist q f \<longleftrightarrow> f \<in> set xs" "f \<noteq> NULL"
  shows "slist_rep (mod_list (end_wait f rd q)) (if f \<in> set xs then xs else xs @ [f])"
  unfolding end_wait_def by (rule enqueue_rep(1)) (use assms in \<open>auto simp: upd_fd_def\<close>)

lemma dequeue_empty: "slist_rep (mod_list q) [] \<Longrightarrow> mod_dequeue q = ((NULL, 0, 0), q)"
  using slist_pop_empty [of "mod_list q"] by (simp add: mod_dequeue_def)

lemma dequeue_fields:
  assumes "slist_rep (mod_list q) (x # xs)"
  obtains q' where "mod_dequeue q = ((x, flags (fds q' x), requested (fds q' x)), q')" "slist_rep (mod_list q') xs"
    "\<And>g. inlist q' g \<longleftrightarrow> g \<noteq> x \<and> inlist q g" "\<And>g. registered q' g = registered q g" "\<And>g. waiting q' g = waiting q g"
    "\<And>g. fd (fds q' g) = fd (fds q g)" "\<And>g. requested (fds q' g) = requested (fds q g)"
    "wq q' = wq q" "pipe q' = pipe q" "intr_state q' = intr_state q" "epoll q' = epoll q" "x \<noteq> NULL"
proof -
  have x: "x \<noteq> NULL"
    using slist_fifo.rep_distinct [OF assms] by auto
  obtain l where l: "slist_pop (mod_list q) = (x, l)" "slist_rep l xs"
    using slist_pop_rep [OF assms] by blast
  show thesis
    by (rule that [of "upd_fd x (\<lambda>x. x\<lparr>flags := flags x AND NOT IOQ_FLAG_MOD_LIST\<rparr>) (q\<lparr>mod_list := l\<rparr>)"])
      (use l x in \<open>auto simp: mod_dequeue_def upd_fd_def Let_def\<close>)
qed

lemma notify_fields [simp]:
  "fds (ioq_notify q) = fds q" "wq (ioq_notify q) = wq q" "mod_list (ioq_notify q) = mod_list q" "epoll (ioq_notify q) = epoll q"
  "intr_state (ioq_notify q) = 1" "pipe (ioq_notify q) = (if intr_state q = 0 then pipe q + 1 else pipe q)"
  by (auto simp: ioq_notify_def notify_locked_def pipe_write_def)

lemma notify_iter:
  "fds ((ioq_notify ^^ n) q) = fds q \<and> wq ((ioq_notify ^^ n) q) = wq q \<and> mod_list ((ioq_notify ^^ n) q) = mod_list q \<and>
   epoll ((ioq_notify ^^ n) q) = epoll q \<and> (intr_state ((ioq_notify ^^ n) q) \<noteq> 0 \<longrightarrow> intr_state q \<noteq> 0 \<or> 0 < pipe ((ioq_notify ^^ n) q)) \<and>
   pipe q \<le> pipe ((ioq_notify ^^ n) q)"
  by (induction n) auto

lemma set_run_fields [simp]:
  "fds (set_run r q) = fds q" "wq (set_run r q) = (wq q)\<lparr>run := r\<rparr>" "mod_list (set_run r q) = mod_list q" "epoll (set_run r q) = epoll q"
  and set_run_intr: "intr_state (set_run r q) \<noteq> 0 \<Longrightarrow> intr_state q \<noteq> 0 \<or> 0 < pipe (set_run r q)" "pipe q \<le> pipe (set_run r q)"
proof -
  have w: "wakeup_runq = ioq_notify"
    by (simp add: fun_eq_iff wakeup_runq_def)
  show "fds (set_run r q) = fds q" "wq (set_run r q) = (wq q)\<lparr>run := r\<rparr>" "mod_list (set_run r q) = mod_list q" "epoll (set_run r q) = epoll q"
    "intr_state (set_run r q) \<noteq> 0 \<Longrightarrow> intr_state q \<noteq> 0 \<or> 0 < pipe (set_run r q)" "pipe q \<le> pipe (set_run r q)"
    unfolding set_run_def w using notify_iter [of _ "q\<lparr>wq := (wq q)\<lparr>run := r\<rparr>\<rparr>"] by simp_all
qed

lemma drain_pipe [simp]: "drain_pipe n = 0"
  by (induction n rule: drain_pipe.induct) simp

section \<open>Dispatching the modifications\<close>

text \<open>What the code relies on of the kernel: a failing call changes nothing, a registration replaces the entry, and removal removes it.\<close>

definition epoll_ok :: "epoll_ctl_fn \<Rightarrow> bool" where
  "epoll_ok ctl \<longleftrightarrow> (\<forall>d x ps.
     (\<forall>p. p \<noteq> EPOLL_CTL_DEL \<longrightarrow> snd (ctl p d x ps) = (if fst (ctl p d x ps) = 0 then ps(d \<mapsto> x) else ps)) \<and>
     snd (ctl EPOLL_CTL_DEL d x ps) = ps(d := None))"

definition weight :: "ioq \<Rightarrow> addr \<Rightarrow> nat" where
  "weight q f = (if \<not> waiting q f then 1 else if requested (fds q f) = 0 then 2 else 3)"

text \<open>The modification list, the tasks in the run queue, and that no descriptor is in both.\<close>

definition mods_rep :: "ioq \<Rightarrow> addr list \<Rightarrow> addr list \<Rightarrow> bool" where
  "mods_rep q xs ys \<longleftrightarrow> slist_rep (mod_list q) xs \<and> slist_rep (job_list (run (wq q))) ys \<and> (\<forall>f. inlist q f \<longleftrightarrow> f \<in> set xs) \<and>
     set xs \<inter> set ys = {} \<and> inj_on (\<lambda>f. fd (fds q f)) (set xs)"

lemma epoll_okD:
  assumes "epoll_ok ctl"
  shows "ctl p d x ps = (e, ps') \<Longrightarrow> p \<noteq> EPOLL_CTL_DEL \<Longrightarrow> ps' = (if e = 0 then ps(d \<mapsto> x) else ps)"
    "snd (ctl EPOLL_CTL_DEL d x ps) = ps(d := None)"
proof -
  have *: "snd (ctl p d x ps) = (if fst (ctl p d x ps) = 0 then ps(d \<mapsto> x) else ps)" if "p \<noteq> EPOLL_CTL_DEL"
    using assms that unfolding epoll_ok_def by blast
  then show "ctl p d x ps = (e, ps') \<Longrightarrow> p \<noteq> EPOLL_CTL_DEL \<Longrightarrow> ps' = (if e = 0 then ps(d \<mapsto> x) else ps)"
    by simp
  show "snd (ctl EPOLL_CTL_DEL d x ps) = ps(d := None)"
    using assms unfolding epoll_ok_def by blast
qed

lemma weight_cong:
  "(\<And>g. g \<in> set xs \<Longrightarrow> waiting q' g = waiting q g \<and> requested (fds q' g) = requested (fds q g)) \<Longrightarrow>
     map (weight q') xs = map (weight q) xs"
  by (simp add: weight_def)

text \<open>The outcome for a list of descriptors, those whose tasks are submitted and those that are registered.\<close>

definition dispatched :: "ioq \<Rightarrow> addr list \<Rightarrow> addr list \<Rightarrow> ioq \<Rightarrow> addr list \<Rightarrow> bool" where
  "dispatched q xs ys q' zs \<longleftrightarrow> mods_rep q' [] (ys @ zs) \<and> set zs \<subseteq> set xs \<and>
     (\<forall>f \<in> set xs. \<not> waiting q f \<or> requested (fds q f) = 0 \<longrightarrow> f \<in> set zs) \<and>
     (\<forall>f \<in> set xs - set zs. epoll q' (fd (fds q f)) = Some (requested (fds q f), f)) \<and>
     (\<forall>d. d \<notin> (\<lambda>f. fd (fds q f)) ` set xs \<longrightarrow> epoll q' d = epoll q d)"

lemma mods_repI:
  assumes "slist_rep (mod_list q) xs" "slist_rep (job_list (run (wq q))) ys" "\<And>f. inlist q f \<longleftrightarrow> f \<in> set xs"
    "set xs \<inter> set ys = {}" "inj_on (\<lambda>f. fd (fds q f)) (set xs)"
  shows "mods_rep q xs ys"
  using assms by (simp add: mods_rep_def)

text \<open>One turn of the loop: the descriptor is submitted, or registered, or comes back with a smaller weight.\<close>

definition handled :: "ioq \<Rightarrow> addr \<Rightarrow> addr list \<Rightarrow> addr list \<Rightarrow> ioq \<Rightarrow> bool" where
  "handled q x xs ys q2 \<longleftrightarrow>
     (\<forall>g. fd (fds q2 g) = fd (fds q g)) \<and> (\<forall>g. g \<noteq> x \<longrightarrow> waiting q2 g = waiting q g \<and> requested (fds q2 g) = requested (fds q g)) \<and>
     (\<forall>d. d \<noteq> fd (fds q x) \<longrightarrow> epoll q2 d = epoll q d) \<and>
     (if \<not> waiting q x then mods_rep q2 xs (ys @ [x])
      else mods_rep q2 (xs @ [x]) ys \<and> weight q2 x < weight q x \<and> (\<not> waiting q2 x \<or> requested (fds q2 x) = 0) \<or>
        requested (fds q x) \<noteq> 0 \<and> mods_rep q2 xs ys \<and> epoll q2 (fd (fds q x)) = Some (requested (fds q x), x))"

lemma handle_mod_ok:
  assumes ok: "epoll_ok ctl" and rep: "mods_rep q (x # xs) ys"
  obtains q1 where "mod_dequeue q = ((x, flags (fds q1 x), requested (fds q1 x)), q1)" "x \<noteq> NULL"
    "handled q x xs ys (handle_mod ctl x (flags (fds q1 x)) (requested (fds q1 x)) q1)"
proof -
  have r: "slist_rep (mod_list q) (x # xs)" "slist_rep (job_list (run (wq q))) ys" "\<And>f. inlist q f \<longleftrightarrow> f \<in> set (x # xs)"
      "set (x # xs) \<inter> set ys = {}" "inj_on (\<lambda>f. fd (fds q f)) (set (x # xs))"
    using rep by (simp_all add: mods_rep_def)
  have "x \<notin> set xs" "x \<noteq> NULL"
    using slist_fifo.rep_distinct [OF r(1)] by auto
  obtain q1 where q1: "mod_dequeue q = ((x, flags (fds q1 x), requested (fds q1 x)), q1)" "slist_rep (mod_list q1) xs"
      "\<And>g. inlist q1 g \<longleftrightarrow> g \<noteq> x \<and> inlist q g" "\<And>g. registered q1 g = registered q g" "\<And>g. waiting q1 g = waiting q g"
      "\<And>g. fd (fds q1 g) = fd (fds q g)" "\<And>g. requested (fds q1 g) = requested (fds q g)"
      "wq q1 = wq q" "pipe q1 = pipe q" "intr_state q1 = intr_state q" "epoll q1 = epoll q" "x \<noteq> NULL"
    by (rule dequeue_fields [OF r(1)]) (metis that)
  define q2 where "q2 = handle_mod ctl x (flags (fds q1 x)) (requested (fds q1 x)) q1"
  have l1: "inlist q1 g \<longleftrightarrow> g \<in> set xs" for g
    using q1(3) r(3) \<open>x \<notin> set xs\<close> by auto
  have inj: "inj_on (\<lambda>f. fd (fds q f)) (set xs)" "inj_on (\<lambda>f. fd (fds q f)) (set (xs @ [x]))"
    using r(5) by simp_all
  consider "\<not> waiting q x" | "waiting q x" "requested (fds q x) = 0" | e ps where "waiting q x" "requested (fds q x) \<noteq> 0"
      "ctl (if registered q x then EPOLL_CTL_MOD else EPOLL_CTL_ADD) (fd (fds q x)) (requested (fds q x), x) (epoll q) = (e, ps)"
    by (metis surj_pair)
  then have "handled q x xs ys q2"
  proof cases
    case 1
    have "q2 = set_run (runq_task_exec x (funcs (run (wq q1)) x) (run (wq q1))) q1"
      using 1 q1(5) by (simp add: q2_def handle_mod_def)
    moreover from this have "mods_rep q2 xs (ys @ [x])"
      using q1 r l1 inj \<open>x \<notin> set xs\<close> runq_task_exec_rep [OF r(2), of x] by (intro mods_repI) auto
    ultimately show ?thesis
      using 1 q1 by (simp add: handled_def)
  next
    case 2
    have q2: "q2 = end_wait x 0 (if registered q1 x then q1\<lparr>epoll := snd (ctl EPOLL_CTL_DEL (fd (fds q1 x)) (0, NULL) (epoll q1))\<rparr> else q1)"
      using 2 q1(5,7) by (simp add: q2_def handle_mod_def)
    note del = epoll_okD(2) [OF ok]
    have "slist_rep (mod_list q2) (xs @ [x])"
      using end_wait_rep [of q1 xs x 0] end_wait_rep [of "q1\<lparr>epoll := (epoll q)(fd (fds q x) := None)\<rparr>" xs x 0] q1 l1 \<open>x \<notin> set xs\<close>
      by (simp add: q2 del)
    then have "mods_rep q2 (xs @ [x]) ys"
      using q1 r l1 inj by (intro mods_repI) (auto simp: q2)
    moreover have "\<not> waiting q2 x" "\<forall>g. fd (fds q2 g) = fd (fds q g)" "\<forall>g. g \<noteq> x \<longrightarrow> waiting q2 g = waiting q g \<and> requested (fds q2 g) = requested (fds q g)"
        "\<forall>d. d \<noteq> fd (fds q x) \<longrightarrow> epoll q2 d = epoll q d"
      using q1 by (auto simp: q2 del)
    ultimately show ?thesis
      using 2 by (simp add: handled_def weight_def)
  next
    case (3 e ps)
    show ?thesis
    proof (cases "e = 0")
      case True
      then have q2: "q2 = upd_fd x (\<lambda>x. x\<lparr>flags := flags x OR IOQ_FLAG_EPOLL\<rparr>) (q1\<lparr>epoll := ps\<rparr>)"
        using 3 q1(4-7,11) by (simp add: q2_def handle_mod_def)
      have ps: "ps = (epoll q)(fd (fds q x) \<mapsto> (requested (fds q x), x))"
        using epoll_okD(1) [OF ok 3(3)] True by (simp split: if_splits)
      have F: "fd (fds q2 g) = fd (fds q g)" "inlist q2 g \<longleftrightarrow> g \<in> set xs" "waiting q2 g = waiting q g" "requested (fds q2 g) = requested (fds q g)" for g
        using q1(5-7) l1 by (simp_all add: q2 upd_fd_def)
      have "mods_rep q2 xs ys"
        using q1(2,8) r inj(1) by (simp add: mods_rep_def F) (simp add: q2 upd_fd_def)
      moreover have "epoll q2 = ps"
        by (simp add: q2 upd_fd_def)
      ultimately show ?thesis
        using 3 by (simp add: handled_def F ps)
    next
      case False
      define q3 where "q3 = upd_fd x (\<lambda>x. x\<lparr>requested := 0\<rparr>) (upd_fd x (\<lambda>x. x\<lparr>err := e\<rparr>) (q1\<lparr>epoll := ps\<rparr>))"
      then have q2: "q2 = snd (mod_enqueue_nolock x q3)"
        using 3 False q1(4-7,11) by (simp add: q2_def handle_mod_def)
      have ps: "ps = epoll q"
        using epoll_okD(1) [OF ok 3(3)] False by (simp split: if_splits)
      have "slist_rep (mod_list q2) (xs @ [x])"
        using enqueue_rep(1) [of q3 xs x] q1(2,12) l1 \<open>x \<notin> set xs\<close> by (simp add: q2 q3_def upd_fd_def)
      moreover have F: "fd (fds q2 g) = fd (fds q g)" "inlist q2 g \<longleftrightarrow> g \<in> set (xs @ [x])" "waiting q2 g = waiting q g" for g
        using q1(5,6) l1 by (auto simp: q2 q3_def upd_fd_def)
      ultimately have "mods_rep q2 (xs @ [x]) ys"
        using q1(8) r(2,4) inj(2) by (simp add: mods_rep_def F) (simp add: q2 q3_def upd_fd_def)
      moreover have "epoll q2 = epoll q" "requested (fds q2 g) = (if g = x then 0 else requested (fds q g))" for g
        using q1(7) by (simp_all add: q2 q3_def upd_fd_def ps)
      ultimately show ?thesis
        using 3 by (simp add: handled_def F weight_def)
    qed
  qed
  then show thesis
    using that q1(1,12) unfolding q2_def by blast
qed

lemma dispatchedI:
  assumes "mods_rep q' [] (ys @ zs)" "set zs \<subseteq> set xs" "\<And>f. f \<in> set xs \<Longrightarrow> \<not> waiting q f \<or> requested (fds q f) = 0 \<Longrightarrow> f \<in> set zs"
    "\<And>f. f \<in> set xs \<Longrightarrow> f \<notin> set zs \<Longrightarrow> epoll q' (fd (fds q f)) = Some (requested (fds q f), f)"
    "\<And>d. d \<notin> (\<lambda>f. fd (fds q f)) ` set xs \<Longrightarrow> epoll q' d = epoll q d"
  shows "dispatched q xs ys q' zs"
  using assms unfolding dispatched_def by blast

lemma dispatchedD:
  assumes "dispatched q xs ys q' zs"
  shows "mods_rep q' [] (ys @ zs)" "set zs \<subseteq> set xs" "\<And>f. f \<in> set xs \<Longrightarrow> \<not> waiting q f \<or> requested (fds q f) = 0 \<Longrightarrow> f \<in> set zs"
    "\<And>f. f \<in> set xs \<Longrightarrow> f \<notin> set zs \<Longrightarrow> epoll q' (fd (fds q f)) = Some (requested (fds q f), f)"
    "\<And>d. d \<notin> (\<lambda>f. fd (fds q f)) ` set xs \<Longrightarrow> epoll q' d = epoll q d"
  using assms unfolding dispatched_def by blast+

lemma dispatched_step:
  assumes rep: "mods_rep q (x # xs) ys" and h: "handled q x xs ys q2"
    and IH: "\<And>xs' ys'. mods_rep q2 xs' ys' \<Longrightarrow> sum_list (map (weight q2) xs') < sum_list (map (weight q) (x # xs)) \<Longrightarrow>
      \<exists>q' zs. D = Some q' \<and> dispatched q2 xs' ys' q' zs"
  shows "\<exists>q' zs. D = Some q' \<and> dispatched q (x # xs) ys q' zs"
proof -
  have dis: "x \<notin> set xs" "inj_on (\<lambda>f. fd (fds q f)) (set (x # xs))"
    using rep slist_fifo.rep_distinct [of "mod_list q" "x # xs"] by (simp_all add: mods_rep_def)
  have F: "\<And>g. fd (fds q2 g) = fd (fds q g)" "\<And>g. g \<noteq> x \<Longrightarrow> waiting q2 g = waiting q g" "\<And>g. g \<noteq> x \<Longrightarrow> requested (fds q2 g) = requested (fds q g)"
      "\<And>d. d \<noteq> fd (fds q x) \<Longrightarrow> epoll q2 d = epoll q d"
    using h unfolding handled_def by blast+
  have W: "map (weight q2) xs = map (weight q) xs"
    using dis(1) F(2,3) by (intro weight_cong) metis
  have x1: "0 < weight q x"
    by (simp add: weight_def)
  have fdx: "fd (fds q x) \<notin> (\<lambda>f. fd (fds q f)) ` set xs"
    using dis by auto
  consider (sub) "\<not> waiting q x" "mods_rep q2 xs (ys @ [x])"
    | (again) "waiting q x" "mods_rep q2 (xs @ [x]) ys" "weight q2 x < weight q x" "\<not> waiting q2 x \<or> requested (fds q2 x) = 0"
    | (reg) "waiting q x" "requested (fds q x) \<noteq> 0" "mods_rep q2 xs ys" "epoll q2 (fd (fds q x)) = Some (requested (fds q x), x)"
    using h unfolding handled_def by (metis (full_types))
  then show ?thesis
  proof cases
    case sub
    then obtain q' zs where D: "D = Some q'" and "dispatched q2 xs (ys @ [x]) q' zs"
      using IH [of xs "ys @ [x]"] W x1 by auto
    note E = dispatchedD [OF this(2)]
    have "dispatched q (x # xs) ys q' (x # zs)"
    proof (rule dispatchedI)
      show "f \<in> set (x # zs)" if "f \<in> set (x # xs)" "\<not> waiting q f \<or> requested (fds q f) = 0" for f
        using that E(3) [of f] F(2,3) [of f] by (cases "f = x") auto
      show "epoll q' (fd (fds q f)) = Some (requested (fds q f), f)" if "f \<in> set (x # xs)" "f \<notin> set (x # zs)" for f
        using that E(4) [of f] F(1,3) [of f] by (cases "f = x") auto
      show "epoll q' d = epoll q d" if "d \<notin> (\<lambda>f. fd (fds q f)) ` set (x # xs)" for d
        using that E(5) [of d] F(1,4) by auto
    qed (use E(1,2) in auto)
    with D show ?thesis by blast
  next
    case again
    then obtain q' zs where D: "D = Some q'" and "dispatched q2 (xs @ [x]) ys q' zs"
      using IH [of "xs @ [x]" ys] W by auto
    note E = dispatchedD [OF this(2)]
    have x: "x \<in> set zs"
      using E(3) [of x] again(4) by simp
    have "dispatched q (x # xs) ys q' zs"
    proof (rule dispatchedI)
      show "f \<in> set zs" if "f \<in> set (x # xs)" "\<not> waiting q f \<or> requested (fds q f) = 0" for f
        using that x E(3) [of f] F(2,3) [of f] by (cases "f = x") auto
      show "epoll q' (fd (fds q f)) = Some (requested (fds q f), f)" if "f \<in> set (x # xs)" "f \<notin> set zs" for f
        using that x E(4) [of f] F(1,3) [of f] by (cases "f = x") auto
      show "epoll q' d = epoll q d" if "d \<notin> (\<lambda>f. fd (fds q f)) ` set (x # xs)" for d
        using that E(5) [of d] F(1,4) by auto
    qed (use E(1,2) in auto)
    with D show ?thesis by blast
  next
    case reg
    then obtain q' zs where D: "D = Some q'" and "dispatched q2 xs ys q' zs"
      using IH [of xs ys] W x1 by auto
    note E = dispatchedD [OF this(2)]
    have "dispatched q (x # xs) ys q' zs"
    proof (rule dispatchedI)
      show "f \<in> set zs" if "f \<in> set (x # xs)" "\<not> waiting q f \<or> requested (fds q f) = 0" for f
        using that reg E(3) [of f] F(2,3) [of f] by (cases "f = x") auto
      show "epoll q' (fd (fds q f)) = Some (requested (fds q f), f)" if "f \<in> set (x # xs)" "f \<notin> set zs" for f
        using that reg(4) fdx E(4) [of f] E(5) [of "fd (fds q x)"] F(1,3) [of f] F(1) by (cases "f = x") auto
      show "epoll q' d = epoll q d" if "d \<notin> (\<lambda>f. fd (fds q f)) ` set (x # xs)" for d
        using that E(5) [of d] F(1,4) by auto
    qed (use E(1,2) in auto)
    with D show ?thesis by blast
  qed
qed

lemma dispatch_mods_ok:
  assumes "epoll_ok ctl" "mods_rep q xs ys"
  shows "\<exists>q' zs. dispatch_mods ctl q = Some q' \<and> dispatched q xs ys q' zs"
  using assms(2)
proof (induction "sum_list (map (weight q) xs)" arbitrary: q xs ys rule: less_induct)
  case less
  show ?case
  proof (cases xs)
    case Nil
    then have "slist_rep (mod_list q) []"
      using less.prems by (simp add: mods_rep_def)
    then have "dispatch_mods ctl q = Some q"
      by (subst dispatch_mods.simps) (simp add: dequeue_empty)
    moreover have "dispatched q xs ys q []"
      using less.prems Nil by (intro dispatchedI) auto
    ultimately show ?thesis by blast
  next
    case (Cons x xs')
    obtain q1 where q1: "mod_dequeue q = ((x, flags (fds q1 x), requested (fds q1 x)), q1)" "x \<noteq> NULL"
        "handled q x xs' ys (handle_mod ctl x (flags (fds q1 x)) (requested (fds q1 x)) q1)"
      by (rule handle_mod_ok [OF assms(1) less.prems [unfolded Cons]])
    define q2 where "q2 = handle_mod ctl x (flags (fds q1 x)) (requested (fds q1 x)) q1"
    have step: "dispatch_mods ctl q = dispatch_mods ctl q2"
      using q1(1,2) by (subst dispatch_mods.simps) (simp add: q2_def)
    have "\<exists>q' zs. dispatch_mods ctl q2 = Some q' \<and> dispatched q (x # xs') ys q' zs"
      by (rule dispatched_step [OF less.prems [unfolded Cons] q1(3) [folded q2_def]]) (rule less.hyps [unfolded Cons])
    then show ?thesis
      unfolding step Cons .
  qed
qed

text \<open>
  C17: \<open>dispatch_mods\<close> ends and empties the list. It submits exactly once the task of every listed
  descriptor whose wait has ended or was cancelled, or that the kernel refuses; every other one is registered with the
  kernel for the events it requests, and no other registration changes.
\<close>

theorem dispatch_mods_correct:
  assumes "epoll_ok ctl" "mods_rep q xs ys"
  shows "\<exists>q' zs. dispatch_mods ctl q = Some q' \<and> mods_rep q' [] (ys @ zs) \<and> set zs \<subseteq> set xs \<and>
    (\<forall>f \<in> set xs. \<not> waiting q f \<or> requested (fds q f) = 0 \<longrightarrow> f \<in> set zs) \<and>
    (\<forall>f \<in> set xs - set zs. epoll q' (fd (fds q f)) = Some (requested (fds q f), f)) \<and>
    (\<forall>d. d \<notin> (\<lambda>f. fd (fds q f)) ` set xs \<longrightarrow> epoll q' d = epoll q d)"
  using dispatch_mods_ok [OF assms] unfolding dispatched_def .

text \<open>A kernel that knows the descriptors from 0.\<close>

definition small_epoll :: epoll_ctl_fn where
  "small_epoll p d x ps = (case p of
     EPOLL_CTL_DEL \<Rightarrow> (if ps d = None then 2 else 0, ps(d := None))
   | EPOLL_CTL_ADD \<Rightarrow> if d < 0 then (9, ps) else if ps d \<noteq> None then (17, ps) else (0, ps(d \<mapsto> x))
   | EPOLL_CTL_MOD \<Rightarrow> if ps d = None then (2, ps) else (0, ps(d \<mapsto> x)))"

lemma small_epoll_ok: "epoll_ok small_epoll"
proof -
  have "snd (small_epoll p d x ps) = (if fst (small_epoll p d x ps) = 0 then ps(d \<mapsto> x) else ps)" if "p \<noteq> EPOLL_CTL_DEL" for p d x ps
    using that by (cases p) (simp_all add: small_epoll_def)
  then show ?thesis
    by (simp add: epoll_ok_def) (simp add: small_epoll_def)
qed

definition blank_fd :: ioq_fd where
  "blank_fd = \<lparr>fd = -1, ready = 0, err = 0, flags = 0, requested = 0\<rparr>"

definition ioq0 :: ioq where
  "ioq0 = snd (snd (ioq_init (0, idle_runq) 0 (Inr (3, 4)) (Inr 5) small_epoll 0 three_heap (\<lambda>_. 0) (\<lambda>_. 0) (\<lambda>_. blank_fd)))"

lemma ioq0_fields:
  "fds ioq0 = (\<lambda>_. blank_fd)" "mod_list ioq0 = (\<lambda>_. 0, slist_init)" "pipe ioq0 = 0" "intr_state ioq0 = 0" "epoll ioq0 = [3 \<mapsto> (1, NULL)]"
  "run (wq ioq0) = idle_runq\<lparr>hook := True\<rparr>" "open_fds ioq0 = {3, 4, 5}"
  by (simp_all add: ioq0_def ioq_init_def Let_def waitq_init_def small_epoll_def insert_commute)

lemma blank_flags [simp]: "flags blank_fd = 0"
  by (simp add: blank_fd_def)

lemma ioq0_rep: "mods_rep ioq0 [] []"
  using idle_runq_rep slist_init_rep by (simp add: mods_rep_def ioq0_fields)

definition one_wait :: ioq where
  "one_wait = ioq_fd_wait 20 1 0 (ioq_fd_init 20 7 ioq0)"

lemma one_wait_rep: "mods_rep one_wait [20] []" "waiting one_wait 20" "requested (fds one_wait 20) = 1" "fd (fds one_wait 20) = 7"
proof -
  define q where "q = begin_wait 20 1 0 (ioq_fd_init 20 7 ioq0)"
  have q: "flags (fds q g) = (if g = 20 then IOQ_FLAG_WAITING else 0)" "requested (fds q 20) = 1" "fd (fds q 20) = 7"
      "job_list (run (wq q)) = job_list idle_runq" "slist_rep (mod_list q) []" for g
    by (simp_all add: q_def begin_wait_def ioq_fd_init_def upd_fd_def ioq0_fields set_func_def slist_init_rep)
  have w: "one_wait = (if fst (mod_enqueue_nolock 20 q) then ioq_notify (snd (mod_enqueue_nolock 20 q)) else snd (mod_enqueue_nolock 20 q))"
    by (simp add: one_wait_def ioq_fd_wait_def Let_def q_def split: prod.splits)
  have r: "slist_rep (mod_list (snd (mod_enqueue_nolock 20 q))) [20]"
    using enqueue_rep(1) [of q "[]" 20] q by simp
  show "mods_rep one_wait [20] []" "waiting one_wait 20" "requested (fds one_wait 20) = 1" "fd (fds one_wait 20) = 7"
    using r q idle_runq_rep by (simp_all add: w mods_rep_def)
qed

theorem dispatch_mods_correct_witness:
  "\<exists>q' zs. dispatch_mods small_epoll one_wait = Some q' \<and> mods_rep q' [] zs \<and> set zs \<subseteq> {20} \<and> (zs = [] \<longrightarrow> epoll q' 7 = Some (1, 20))"
proof -
  from dispatch_mods_correct [OF small_epoll_ok one_wait_rep(1)] obtain q' zs where
    *: "dispatch_mods small_epoll one_wait = Some q'" "mods_rep q' [] ([] @ zs)" "set zs \<subseteq> set [20]"
      "\<forall>f \<in> set [20] - set zs. epoll q' (fd (fds one_wait f)) = Some (requested (fds one_wait f), f)"
    by (elim exE conjE)
  with one_wait_rep(3,4) show ?thesis
    by (intro exI [of _ q'] exI [of _ zs]) auto
qed

section \<open>Initialisation and a wait for nothing\<close>

text \<open>A failing initialisation leaves no descriptor open, and a successful one three of them, with the pipe registered.\<close>

lemma ioq_init_ok:
  assumes "ioq_init (ret, r) bg pr cr ctl e th dl h fs = (res, er, q)" "epoll_ok ctl" "ret \<le> 0"
  shows "if res < 0 then open_fds q = {} \<and> (ret = 0 \<longrightarrow> run (wq q) = runq_destroy (if bg = 0 then r\<lparr>hook := True\<rparr> else r))
    else res = 0 \<and> ret = 0 \<and> (\<exists>rd wr ep. pr = Inr (rd, wr) \<and> cr = Inr ep \<and> open_fds q = {rd, wr, ep} \<and> epoll q = [rd \<mapsto> (1, NULL)])"
proof -
  have add: "ps = [d \<mapsto> (1, NULL)]" if "ctl EPOLL_CTL_ADD d (1, NULL) Map.empty = (0, ps)" for d ps
    using epoll_okD(1) [OF assms(2) that] by simp
  show ?thesis
    using assms(1,3) by (auto simp: ioq_init_def Let_def waitq_init_def split: sum.splits prod.splits if_splits dest: add)
qed

text \<open>
  A wait for the empty set of events submits the task at once but leaves the descriptor marked as
  waiting. Cancelling it before its callback runs makes the dispatch loop submit the task a second time.
\<close>

definition empty_wait :: ioq where
  "empty_wait = ioq_fd_cancel 20 (ioq_fd_wait 20 0 0 (ioq_fd_init 20 7 ioq0))"

lemma empty_wait_listed: "slist_rep (job_list (run (wq empty_wait))) [20]" "slist_rep (mod_list empty_wait) [20]" "waiting empty_wait 20"
proof -
  define q where "q = begin_wait 20 0 0 (ioq_fd_init 20 7 ioq0)"
  define q1 where "q1 = ioq_fd_wait 20 0 0 (ioq_fd_init 20 7 ioq0)"
  have q: "flags (fds q 20) = IOQ_FLAG_WAITING" "job_list (run (wq q)) = job_list idle_runq" "slist_rep (mod_list q) []"
    by (simp_all add: q_def begin_wait_def ioq_fd_init_def upd_fd_def ioq0_fields set_func_def slist_init_rep)
  have q1: "q1 = set_run (runq_task_exec 20 0 (run (wq q))) q"
    by (simp add: q1_def ioq_fd_wait_def Let_def q_def)
  have j: "slist_rep (job_list (run (wq q1))) [20]"
    using runq_task_exec_rep [of "run (wq q)" "[]" 20 0] q(2) idle_runq_rep by (simp add: q1)
  define q2 where "q2 = upd_fd 20 (\<lambda>x. x\<lparr>requested := 0\<rparr>) q1"
  have q2: "flags (fds q2 20) = IOQ_FLAG_WAITING" "slist_rep (mod_list q2) []" "wq q2 = wq q1"
    using q by (simp_all add: q2_def q1 upd_fd_def)
  have e: "empty_wait = (if fst (mod_enqueue_nolock 20 q2) then ioq_notify (snd (mod_enqueue_nolock 20 q2)) else snd (mod_enqueue_nolock 20 q2))"
    using q(1) by (simp add: empty_wait_def ioq_fd_cancel_def ioq_fd_rewait_def rewait_locked_def q1_def [symmetric] q2_def split: prod.splits)
      (simp add: q1)
  show "slist_rep (job_list (run (wq empty_wait))) [20]" "slist_rep (mod_list empty_wait) [20]" "waiting empty_wait 20"
    using enqueue_rep(1) [of q2 "[]" 20] q2 j by (simp_all add: e)
qed

end
