(* ===== verification/Dlb_Ioq_Steps.thy ===== *)
theory Dlb_Ioq_Steps
  imports Dlb_Ioq
begin

text \<open>
  The I/O queue under interleaving. Clients begin and change waits, other threads notify the queue and
  submit and take tasks, while one thread iterates \<^verbatim>\<open>ioq_iterate\<close>. Every critical section of
  \<^verbatim>\<open>src/io/ioq_linux.c\<close> is one step, as is each system call on the pipe. The kernel may
  report any set of registered descriptors. Clients follow the rules of \<^verbatim>\<open>ioq_linux.h\<close>: one wait per
  descriptor object at a time, no two objects for one descriptor. A wait for the empty set of events, which
  submits the task at once, is recorded: after it the code may submit a task twice.
  The parameters of the system are the kernel, the read end of the pipe and the set of descriptor objects.
\<close>


section \<open>The system\<close>

text \<open>Where the thread is that iterates the queue.\<close>

datatype dpc = Blocked | Draining "(u32 \<times> addr) list" | Acking "(u32 \<times> addr) list" | Events "(u32 \<times> addr) list"
  | Dispatching | Handling addr u32 u32

record ioq_sys =
  ioq_of :: ioq
  dispatcher :: dpc
  notifying :: nat  \<comment> \<open>threads about to call \<open>ioq_notify\<close>\<close>
  writing :: nat  \<comment> \<open>threads about to write to the pipe\<close>
  pending :: "addr set"  \<comment> \<open>descriptors with a wait whose callback has not begun\<close>
  emptied :: bool  \<comment> \<open>some wait was for the empty set of events\<close>

definition set_job :: "runq \<Rightarrow> ioq \<Rightarrow> ioq" where
  "set_job r q = q\<lparr>wq := (wq q)\<lparr>run := r\<rparr>\<rparr>"

text \<open>The steps of the queue itself, of notifying threads and of unrelated tasks.\<close>

inductive ioq_internal :: "epoll_ctl_fn \<Rightarrow> addr set \<Rightarrow> ioq_sys \<Rightarrow> ioq_sys \<Rightarrow> bool" for ctl F where
  call_notify: "ioq_internal ctl F s (s\<lparr>notifying := notifying s + 1\<rparr>)"
| notify: "0 < notifying s \<Longrightarrow> notify_locked (ioq_of s) = (first, q) \<Longrightarrow>
     ioq_internal ctl F s (s\<lparr>ioq_of := q, notifying := notifying s - 1, writing := writing s + fires first\<rparr>)"
| wr: "0 < writing s \<Longrightarrow> ioq_internal ctl F s (s\<lparr>ioq_of := pipe_write (ioq_of s), writing := writing s - 1\<rparr>)"
| other: "slist_rep (job_list (run (wq (ioq_of s)))) ys \<Longrightarrow> t \<notin> F \<Longrightarrow> t \<noteq> NULL \<Longrightarrow> t \<notin> set ys \<Longrightarrow>
     ioq_internal ctl F s (s\<lparr>ioq_of := set_run (runq_task_exec t cb (run (wq (ioq_of s)))) (ioq_of s)\<rparr>)"
| interrupted: "dispatcher s = Blocked \<Longrightarrow> ioq_internal ctl F s (s\<lparr>dispatcher := Dispatching\<rparr>)"
| woken: "dispatcher s = Blocked \<Longrightarrow> distinct (map snd evts) \<Longrightarrow>
     \<forall>(ev, f) \<in> set evts. \<exists>d e. epoll (ioq_of s) d = Some (e, f) \<Longrightarrow>
     ioq_internal ctl F s (s\<lparr>dispatcher := Draining evts\<rparr>)"
| read: "dispatcher s = Draining evts \<Longrightarrow> 0 < pipe (ioq_of s) \<Longrightarrow>
     ioq_internal ctl F s (s\<lparr>ioq_of := (ioq_of s)\<lparr>pipe := pipe (ioq_of s) - min 128 (pipe (ioq_of s))\<rparr>\<rparr>)"
| drained: "dispatcher s = Draining evts \<Longrightarrow> pipe (ioq_of s) = 0 \<Longrightarrow> ioq_internal ctl F s (s\<lparr>dispatcher := Acking evts\<rparr>)"
| ack: "dispatcher s = Acking evts \<Longrightarrow> ioq_internal ctl F s (s\<lparr>ioq_of := ack_locked (ioq_of s), dispatcher := Events evts\<rparr>)"
| event: "dispatcher s = Events (e # evts) \<Longrightarrow>
     ioq_internal ctl F s (s\<lparr>ioq_of := wait_event ctl e (ioq_of s), dispatcher := Events evts\<rparr>)"
| events_done: "dispatcher s = Events [] \<Longrightarrow> ioq_internal ctl F s (s\<lparr>dispatcher := Dispatching\<rparr>)"
| dequeue: "dispatcher s = Dispatching \<Longrightarrow> mod_dequeue (ioq_of s) = ((f, flgs, req), q) \<Longrightarrow>
     ioq_internal ctl F s (s\<lparr>ioq_of := q, dispatcher := (if f = NULL then Blocked else Handling f flgs req)\<rparr>)"
| handle: "dispatcher s = Handling f flgs req \<Longrightarrow>
     ioq_internal ctl F s (s\<lparr>ioq_of := handle_mod ctl f flgs req (ioq_of s), dispatcher := Dispatching\<rparr>)"

text \<open>The moves of a client: \<open>ioq_fd_wait\<close>, \<open>ioq_fd_rewait\<close> and \<open>ioq_fd_init\<close> up to the notification, and the start of a task.\<close>

definition wait_sys :: "nat \<Rightarrow> addr \<Rightarrow> u32 \<Rightarrow> ioq_sys \<Rightarrow> ioq_sys" where
  "wait_sys cb f ev s =
     (let q = begin_wait f ev cb (ioq_of s) in
      if ev = 0 then s\<lparr>ioq_of := set_run (runq_task_exec f cb (run (wq q))) q, pending := insert f (pending s), emptied := True\<rparr>
      else case mod_enqueue_nolock f q of (need, q) \<Rightarrow>
        s\<lparr>ioq_of := q, notifying := notifying s + fires need, pending := insert f (pending s)\<rparr>)"

definition rewait_sys :: "addr \<Rightarrow> u32 \<Rightarrow> ioq_sys \<Rightarrow> ioq_sys" where
  "rewait_sys f ev s = (case rewait_locked f ev (ioq_of s) of (need, q) \<Rightarrow> s\<lparr>ioq_of := q, notifying := notifying s + fires need\<rparr>)"

definition take_sys :: "addr \<Rightarrow> runq \<Rightarrow> ioq_sys \<Rightarrow> ioq_sys" where
  "take_sys t r s = s\<lparr>ioq_of := set_job r (ioq_of s), pending := pending s - {t}\<rparr>"

definition init_sys :: "addr \<Rightarrow> int \<Rightarrow> ioq_sys \<Rightarrow> ioq_sys" where
  "init_sys f n s = s\<lparr>ioq_of := ioq_fd_init f n (ioq_of s)\<rparr>"

inductive ioq_step :: "epoll_ctl_fn \<Rightarrow> int \<Rightarrow> addr set \<Rightarrow> ioq_sys \<Rightarrow> ioq_sys \<Rightarrow> bool" for ctl rd F where
  start: "f \<in> F \<Longrightarrow> f \<notin> pending s \<Longrightarrow> fd (fds (ioq_of s) f) \<noteq> rd \<Longrightarrow>
     \<forall>g \<in> pending s. fd (fds (ioq_of s) g) \<noteq> fd (fds (ioq_of s) f) \<Longrightarrow> ioq_step ctl rd F s (wait_sys cb f ev s)"
| rewait: "f \<in> F \<Longrightarrow> ioq_step ctl rd F s (rewait_sys f ev s)"
| take: "run_one (run (wq (ioq_of s))) = (1, t, r) \<Longrightarrow> ioq_step ctl rd F s (take_sys t r s)"
| init_fd: "f \<in> F \<Longrightarrow> f \<notin> pending s \<Longrightarrow> ioq_step ctl rd F s (init_sys f n s)"
| internal: "ioq_internal ctl F s s' \<Longrightarrow> ioq_step ctl rd F s s'"

inductive ioq_reach :: "epoll_ctl_fn \<Rightarrow> int \<Rightarrow> addr set \<Rightarrow> ioq_sys \<Rightarrow> bool" for ctl rd F where
  init: "NULL \<notin> F \<Longrightarrow> \<forall>f. flags (fds q f) = 0 \<Longrightarrow> slist_rep (mod_list q) [] \<Longrightarrow> slist_rep (job_list (run (wq q))) ys \<Longrightarrow>
     F \<inter> set ys = {} \<Longrightarrow> pipe q = 0 \<Longrightarrow> intr_state q = 0 \<Longrightarrow> epoll q = [rd \<mapsto> (1, NULL)] \<Longrightarrow>
     ioq_reach ctl rd F \<lparr>ioq_of = q, dispatcher = Blocked, notifying = 0, writing = 0, pending = {}, emptied = False\<rparr>"
| step: "ioq_reach ctl rd F s \<Longrightarrow> ioq_step ctl rd F s s' \<Longrightarrow> ioq_reach ctl rd F s'"

section \<open>The invariant\<close>

definition handling :: "dpc \<Rightarrow> addr \<Rightarrow> bool" where
  "handling p f \<longleftrightarrow> (case p of Handling g _ _ \<Rightarrow> g = f | _ \<Rightarrow> False)"

definition evts_of :: "dpc \<Rightarrow> (u32 \<times> addr) list" where
  "evts_of p = (case p of Draining es \<Rightarrow> es | Acking es \<Rightarrow> es | Events es \<Rightarrow> es | _ \<Rightarrow> [])"

definition draining :: "dpc \<Rightarrow> bool" where
  "draining p \<longleftrightarrow> (case p of Draining _ \<Rightarrow> True | Acking _ \<Rightarrow> True | _ \<Rightarrow> False)"

text \<open>One descriptor: where its wait is, and what the kernel knows of it.\<close>

definition fd_ok :: "int \<Rightarrow> ioq \<Rightarrow> dpc \<Rightarrow> addr set \<Rightarrow> addr list \<Rightarrow> addr list \<Rightarrow> addr \<Rightarrow> bool" where
  "fd_ok rd q p P xs ys f \<longleftrightarrow>
     (waiting q f \<or> f \<in> set xs \<or> handling p f \<or> f \<in> set ys \<longleftrightarrow> f \<in> P) \<and>
     (f \<in> set ys \<longrightarrow> \<not> waiting q f \<and> f \<notin> set xs \<and> \<not> handling p f) \<and>
     (registered q f \<longrightarrow> waiting q f \<and> (\<exists>e. epoll q (fd (fds q f)) = Some (e, f))) \<and>
     (f \<in> P \<longrightarrow> fd (fds q f) \<noteq> rd) \<and>
     (waiting q f \<longrightarrow> f \<notin> set xs \<longrightarrow> \<not> handling p f \<longrightarrow>
        requested (fds q f) \<noteq> 0 \<and> epoll q (fd (fds q f)) = Some (requested (fds q f), f))"

definition disp_ok :: "ioq \<Rightarrow> dpc \<Rightarrow> addr set \<Rightarrow> addr list \<Rightarrow> bool" where
  "disp_ok q p F xs \<longleftrightarrow> (case p of
     Handling f flgs req \<Rightarrow> f \<in> F \<and> (flgs AND IOQ_FLAG_WAITING = 0 \<longleftrightarrow> \<not> waiting q f) \<and> (flgs AND IOQ_FLAG_EPOLL = 0 \<longleftrightarrow> \<not> registered q f) \<and>
       (f \<notin> set xs \<longrightarrow> req = requested (fds q f)) \<and> (\<not> waiting q f \<longrightarrow> f \<notin> set xs)
   | _ \<Rightarrow> distinct (map snd (evts_of p)) \<and> (\<forall>(ev, f) \<in> set (evts_of p). f \<noteq> NULL \<longrightarrow> f \<in> F \<and> registered q f))"

definition kernel_ok :: "int \<Rightarrow> ioq \<Rightarrow> addr set \<Rightarrow> bool" where
  "kernel_ok rd q F \<longleftrightarrow> epoll q rd = Some (1, NULL) \<and>
     (\<forall>d e f. epoll q d = Some (e, f) \<longrightarrow> (if f = NULL then d = rd else f \<in> F \<and> registered q f \<and> fd (fds q f) = d))"

definition signal_ok :: "ioq \<Rightarrow> dpc \<Rightarrow> nat \<Rightarrow> nat \<Rightarrow> addr list \<Rightarrow> bool" where
  "signal_ok q p n w xs \<longleftrightarrow>
     (intr_state q \<noteq> 0 \<longrightarrow> 0 < pipe q \<or> 0 < w \<or> draining p) \<and>
     (xs \<noteq> [] \<longrightarrow> p \<noteq> Blocked \<or> 0 < n \<or> 0 < w \<or> 0 < pipe q)"

definition ioq_inv :: "int \<Rightarrow> addr set \<Rightarrow> ioq \<Rightarrow> dpc \<Rightarrow> nat \<Rightarrow> nat \<Rightarrow> addr set \<Rightarrow> addr list \<Rightarrow> addr list \<Rightarrow> bool" where
  "ioq_inv rd F q p n w P xs ys \<longleftrightarrow>
     NULL \<notin> F \<and> P \<subseteq> F \<and> slist_rep (mod_list q) xs \<and> slist_rep (job_list (run (wq q))) ys \<and> set xs \<subseteq> F \<and>
     (\<forall>f. inlist q f \<longleftrightarrow> f \<in> set xs) \<and> (\<forall>f \<in> F. fd_ok rd q p P xs ys f) \<and>
     (\<forall>f \<in> P. \<forall>g \<in> P. fd (fds q f) = fd (fds q g) \<longrightarrow> f = g) \<and>
     disp_ok q p F xs \<and> kernel_ok rd q F \<and> signal_ok q p n w xs"

lemma ioq_invI:
  assumes "NULL \<notin> F" "P \<subseteq> F" "slist_rep (mod_list q) xs" "slist_rep (job_list (run (wq q))) ys" "set xs \<subseteq> F"
    "\<And>f. inlist q f \<longleftrightarrow> f \<in> set xs" "\<And>f. f \<in> F \<Longrightarrow> fd_ok rd q p P xs ys f"
    "\<And>f g. f \<in> P \<Longrightarrow> g \<in> P \<Longrightarrow> fd (fds q f) = fd (fds q g) \<Longrightarrow> f = g"
    "disp_ok q p F xs" "kernel_ok rd q F" "signal_ok q p n w xs"
  shows "ioq_inv rd F q p n w P xs ys"
  using assms unfolding ioq_inv_def by blast

lemma ioq_invD:
  assumes "ioq_inv rd F q p n w P xs ys"
  shows "NULL \<notin> F" "P \<subseteq> F" "slist_rep (mod_list q) xs" "slist_rep (job_list (run (wq q))) ys" "set xs \<subseteq> F"
    "\<And>f. inlist q f \<longleftrightarrow> f \<in> set xs" "\<And>f. f \<in> F \<Longrightarrow> fd_ok rd q p P xs ys f"
    "\<And>f g. f \<in> P \<Longrightarrow> g \<in> P \<Longrightarrow> fd (fds q f) = fd (fds q g) \<Longrightarrow> f = g"
    "disp_ok q p F xs" "kernel_ok rd q F" "signal_ok q p n w xs"
  using assms unfolding ioq_inv_def by blast+

text \<open>A step that leaves a descriptor alone keeps its part of the invariant.\<close>

lemma fd_ok_frame:
  assumes "fd_ok rd q p P xs ys g" "waiting q' g = waiting q g" "registered q' g = registered q g" "fd (fds q' g) = fd (fds q g)"
    "requested (fds q' g) = requested (fds q g)" "g \<in> P \<Longrightarrow> epoll q' (fd (fds q g)) = epoll q (fd (fds q g))"
    "g \<in> P' \<longleftrightarrow> g \<in> P" "g \<in> set xs' \<longleftrightarrow> g \<in> set xs" "g \<in> set ys' \<longleftrightarrow> g \<in> set ys" "handling p' g = handling p g"
  shows "fd_ok rd q' p' P' xs' ys' g"
  using assms unfolding fd_ok_def by (metis (no_types, lifting))

lemma fd_okD:
  assumes "fd_ok rd q p P xs ys f"
  shows "f \<in> P \<longleftrightarrow> waiting q f \<or> f \<in> set xs \<or> handling p f \<or> f \<in> set ys"
    "f \<in> set ys \<Longrightarrow> \<not> waiting q f \<and> f \<notin> set xs \<and> \<not> handling p f"
    "registered q f \<Longrightarrow> waiting q f" "registered q f \<Longrightarrow> \<exists>e. epoll q (fd (fds q f)) = Some (e, f)" "f \<in> P \<Longrightarrow> fd (fds q f) \<noteq> rd"
  using assms unfolding fd_ok_def by blast+

lemma disp_ok_cong:
  assumes "\<And>g. g \<in> F \<Longrightarrow> waiting q' g = waiting q g \<and> registered q' g = registered q g \<and> requested (fds q' g) = requested (fds q g)" "disp_ok q p F xs"
  shows "disp_ok q' p F xs"
  using assms unfolding disp_ok_def by (cases p) auto

text \<open>Steps that change neither the descriptors nor the list, but only the signalling.\<close>

lemma quiet_step:
  assumes inv: "ioq_inv rd F q p n w P xs ys"
    and same: "fds q' = fds q" "mod_list q' = mod_list q" "job_list (run (wq q')) = job_list (run (wq q))" "epoll q' = epoll q"
    and p: "\<And>f. handling p' f = handling p f" "disp_ok q' p' F xs" and sig: "signal_ok q' p' n' w' xs"
  shows "ioq_inv rd F q' p' n' w' P xs ys"
proof (rule ioq_invI)
  note I = ioq_invD [OF inv]
  show "fd_ok rd q' p' P xs ys f" if "f \<in> F" for f
    by (rule fd_ok_frame [OF I(7) [OF that]]) (simp_all add: same p)
  show "kernel_ok rd q' F"
    using I(10) by (simp add: kernel_ok_def same)
  show "\<And>f g. f \<in> P \<Longrightarrow> g \<in> P \<Longrightarrow> fd (fds q' f) = fd (fds q' g) \<Longrightarrow> f = g"
    using I(8) by (simp add: same)
qed (use ioq_invD [OF inv] same p sig in \<open>simp_all\<close>)

lemma start_inv:
  assumes inv: "ioq_inv rd F q p n w P xs ys" and f: "f \<in> F" "f \<notin> P" "ev \<noteq> 0" "fd (fds q f) \<noteq> rd" "\<forall>g \<in> P. fd (fds q g) \<noteq> fd (fds q f)"
    and q: "mod_enqueue_nolock f (begin_wait f ev cb q) = (need, q')"
  shows "ioq_inv rd F q' p (n + fires need) w (insert f P) (xs @ [f]) ys"
proof -
  note I = ioq_invD [OF inv]
  note O = fd_okD [OF I(7) [OF f(1)]]
  have idle: "\<not> waiting q f" "f \<notin> set xs" "\<not> handling p f" "f \<notin> set ys" "\<not> registered q f"
    using O(1,3) f(2) by blast+
  have f0: "f \<noteq> NULL"
    using f(1) I(1) by metis
  define b where "b = begin_wait f ev cb q"
  have q': "q' = snd (mod_enqueue_nolock f b)" "need = fst (mod_enqueue_nolock f b)"
    using q by (simp_all add: b_def)
  have b: "flags (fds b g) = (if g = f then IOQ_FLAG_WAITING else flags (fds q g))" "fd (fds b g) = fd (fds q g)"
      "requested (fds b g) = (if g = f then ev else requested (fds q g))" "mod_list b = mod_list q" "epoll b = epoll q"
      "job_list (run (wq b)) = job_list (run (wq q))" "pipe b = pipe q" "intr_state b = intr_state q" for g
    by (simp_all add: b_def begin_wait_def upd_fd_def set_func_def)
  have rep: "slist_rep (mod_list q') (xs @ [f])" "need \<longleftrightarrow> xs = []"
    using enqueue_rep [of b xs f] I(3) idle f0 by (simp_all add: q' b)
  have fl: "waiting q' g \<longleftrightarrow> g = f \<or> waiting q g" "registered q' g = registered q g" "fd (fds q' g) = fd (fds q g)"
      "requested (fds q' g) = (if g = f then ev else requested (fds q g))" "epoll q' = epoll q" "inlist q' g \<longleftrightarrow> g = f \<or> inlist q g" for g
    using idle by (auto simp: q' b)
  show ?thesis
  proof (rule ioq_invI)
    show "fd_ok rd q' p (insert f P) (xs @ [f]) ys g" if g: "g \<in> F" for g
    proof (cases "g = f")
      case True
      then show ?thesis
        using idle f(4) by (simp add: fd_ok_def fl)
    next
      case False
      show ?thesis
        by (rule fd_ok_frame [OF I(7) [OF g]]) (use False in \<open>simp_all add: fl\<close>)
    qed
    show "disp_ok q' p F (xs @ [f])"
      using I(9) idle by (auto simp: disp_ok_def fl handling_def split: dpc.splits)
    show "kernel_ok rd q' F"
      using I(10) by (simp add: kernel_ok_def fl)
    show "signal_ok q' p (n + fires need) w (xs @ [f])"
      using I(11) rep(2) by (auto simp: signal_ok_def q' b)
    show "inlist q' g \<longleftrightarrow> g \<in> set (xs @ [f])" for g
      using I(6) by (auto simp: fl)
    show "slist_rep (job_list (run (wq q'))) ys"
      using I(4) by (simp add: q' b)
    show "\<And>g h. g \<in> insert f P \<Longrightarrow> h \<in> insert f P \<Longrightarrow> fd (fds q' g) = fd (fds q' h) \<Longrightarrow> g = h"
      using I(8) f(5) unfolding fl by (metis insert_iff)
  qed (use I(1,2,5) f(1) rep in auto)
qed

lemma rewait_inv:
  assumes inv: "ioq_inv rd F q p n w P xs ys" and f: "f \<in> F" and q: "rewait_locked f ev q = (need, q')"
  shows "\<exists>xs'. ioq_inv rd F q' p (n + fires need) w P xs' ys"
proof (cases "waiting q f")
  case False
  then have "q' = q" "\<not> need"
    using q by (simp_all add: rewait_locked_def)
  with inv show ?thesis by auto
next
  case True
  note I = ioq_invD [OF inv]
  note O = fd_okD [OF I(7) [OF f]]
  have f0: "f \<noteq> NULL"
    using f I(1) by metis
  have P: "f \<in> P" "f \<notin> set ys"
    using O(1,2) True by blast+
  define b where "b = upd_fd f (\<lambda>x. x\<lparr>requested := ev\<rparr>) q"
  define xs' where "xs' = (if f \<in> set xs then xs else xs @ [f])"
  have q': "q' = snd (mod_enqueue_nolock f b)" "need = fst (mod_enqueue_nolock f b)"
    using q True by (simp_all add: b_def rewait_locked_def)
  have b: "flags (fds b g) = flags (fds q g)" "fd (fds b g) = fd (fds q g)"
      "requested (fds b g) = (if g = f then ev else requested (fds q g))" "mod_list b = mod_list q" "epoll b = epoll q"
      "wq b = wq q" "pipe b = pipe q" "intr_state b = intr_state q" for g
    by (simp_all add: b_def upd_fd_def)
  have rep: "slist_rep (mod_list q') xs'" "need \<longleftrightarrow> xs = []"
    using enqueue_rep [of b xs f] I(3,6) f0 by (simp_all add: q' b xs'_def)
  have fl: "waiting q' g = waiting q g" "registered q' g = registered q g" "fd (fds q' g) = fd (fds q g)"
      "requested (fds q' g) = (if g = f then ev else requested (fds q g))" "epoll q' = epoll q" "inlist q' g \<longleftrightarrow> g = f \<or> inlist q g" for g
    by (simp_all add: q' b)
  have set': "set xs' = insert f (set xs)"
    by (auto simp: xs'_def)
  have "ioq_inv rd F q' p (n + fires need) w P xs' ys"
  proof (rule ioq_invI)
    show "fd_ok rd q' p P xs' ys g" if g: "g \<in> F" for g
    proof (cases "g = f")
      case True
      then show ?thesis
        using \<open>waiting q f\<close> P O(3-5) by (simp add: fd_ok_def fl set')
    next
      case False
      show ?thesis
        by (rule fd_ok_frame [OF I(7) [OF g]]) (use False in \<open>simp_all add: fl set'\<close>)
    qed
    show "disp_ok q' p F xs'"
      using I(9) True by (auto simp: disp_ok_def fl set' split: dpc.splits)
    show "kernel_ok rd q' F"
      using I(10) by (simp add: kernel_ok_def fl)
    show "signal_ok q' p (n + fires need) w xs'"
      using I(11) rep(2) by (auto simp: signal_ok_def q' b)
    show "inlist q' g \<longleftrightarrow> g \<in> set xs'" for g
      using I(6) by (auto simp: fl set')
    show "slist_rep (job_list (run (wq q'))) ys"
      using I(4) by (simp add: q' b)
    show "\<And>g h. g \<in> P \<Longrightarrow> h \<in> P \<Longrightarrow> fd (fds q' g) = fd (fds q' h) \<Longrightarrow> g = h"
      using I(8) by (simp add: fl)
  qed (use I(1,2,5) f rep in \<open>auto simp: set'\<close>)
  then show ?thesis ..
qed

text \<open>The end of a wait, by an event or by cancellation, for a descriptor that is being handled or whose event is being processed.\<close>

lemma end_wait_inv:
  assumes inv: "ioq_inv rd F q p n w P xs ys" and f: "f \<in> F" "waiting q f"
    and ep: "ps = (if registered q f then (epoll q)(fd (fds q f) := None) else epoll q)"
    and p: "p \<noteq> Blocked" "\<And>g. handling p' g \<longleftrightarrow> handling p g \<and> g \<noteq> f" "draining p' = draining p" "p' \<noteq> Blocked"
      "evts_of p' = evts_of p \<or> (\<exists>e. evts_of p = (e, f) # evts_of p')" "f \<notin> snd ` set (evts_of p')" "\<forall>g a c. p' \<noteq> Handling g a c"
  shows "\<exists>xs'. ioq_inv rd F (end_wait f r (q\<lparr>epoll := ps\<rparr>)) p' n w P xs' ys"
proof -
  note I = ioq_invD [OF inv]
  note O = fd_okD [OF I(7) [OF f(1)]]
  have f0: "f \<noteq> NULL"
    using f I(1) by metis
  have P: "f \<in> P" "f \<notin> set ys"
    using O(1,2) f(2) by blast+
  define q' where "q' = end_wait f r (q\<lparr>epoll := ps\<rparr>)"
  define xs' where "xs' = (if f \<in> set xs then xs else xs @ [f])"
  have rep: "slist_rep (mod_list q') xs'"
    using end_wait_rep [of "q\<lparr>epoll := ps\<rparr>" xs f r] I(3,6) f0 by (simp add: q'_def xs'_def)
  have fl: "waiting q' g \<longleftrightarrow> g \<noteq> f \<and> waiting q g" "registered q' g \<longleftrightarrow> g \<noteq> f \<and> registered q g" "fd (fds q' g) = fd (fds q g)"
      "requested (fds q' g) = requested (fds q g)" "epoll q' = ps" "inlist q' g \<longleftrightarrow> g = f \<or> inlist q g" for g
    by (simp_all add: q'_def)
  have set': "set xs' = insert f (set xs)"
    by (auto simp: xs'_def)
  have other: "ps (fd (fds q g)) = epoll q (fd (fds q g))" if "g \<in> P" "g \<noteq> f" for g
    using I(8) [OF that(1) P(1)] that(2) by (auto simp: ep)
  have "ioq_inv rd F q' p' n w P xs' ys"
  proof (rule ioq_invI)
    show "fd_ok rd q' p' P xs' ys g" if g: "g \<in> F" for g
    proof (cases "g = f")
      case True
      then show ?thesis
        using P O(5) p(2) by (simp add: fd_ok_def fl set')
    next
      case False
      show ?thesis
        by (rule fd_ok_frame [OF I(7) [OF g]]) (use False p(2) other in \<open>simp_all add: fl set'\<close>)
    qed
    show "disp_ok q' p' F xs'"
    proof -
      have D: "distinct (map snd (evts_of p))" "\<forall>(ev, g) \<in> set (evts_of p). g \<noteq> NULL \<longrightarrow> g \<in> F \<and> registered q g"
        using I(9) by (auto simp: disp_ok_def evts_of_def split: dpc.splits)
      have "set (evts_of p') \<subseteq> set (evts_of p)" "distinct (map snd (evts_of p'))"
        using p(5) D(1) by (auto simp del: split_paired_Ex)
      moreover have "g \<in> F \<and> registered q' g" if g: "(ev, g) \<in> set (evts_of p')" "g \<noteq> NULL" for ev g
      proof -
        have "(ev, g) \<in> set (evts_of p)" "g \<noteq> f"
          using g(1) \<open>set (evts_of p') \<subseteq> set (evts_of p)\<close> p(6) by (blast, force)
        with D(2) g(2) show ?thesis
          unfolding fl by blast
      qed
      then have "\<forall>(ev, g) \<in> set (evts_of p'). g \<noteq> NULL \<longrightarrow> g \<in> F \<and> registered q' g"
        by blast
      ultimately show ?thesis
        using p(7) by (cases p') (simp_all add: disp_ok_def)
    qed
    have k: "epoll q rd = Some (1, NULL)" "\<And>d e g. epoll q d = Some (e, g) \<Longrightarrow> if g = NULL then d = rd else g \<in> F \<and> registered q g \<and> fd (fds q g) = d"
      using I(10) unfolding kernel_ok_def by blast+
    show "kernel_ok rd q' F"
      unfolding kernel_ok_def fl
    proof (intro conjI allI impI)
      show "ps rd = Some (1, NULL)"
        using k(1) O(5) [OF P(1)] by (auto simp: ep)
      fix d e g assume g: "ps d = Some (e, g)"
      then have e: "epoll q d = Some (e, g)" "registered q f \<Longrightarrow> d \<noteq> fd (fds q f)"
        by (auto simp: ep split: if_splits)
      then show "if g = NULL then d = rd else g \<in> F \<and> (g \<noteq> f \<and> registered q g) \<and> fd (fds q g) = d"
        using k(2) [OF e(1)] f0 by (auto split: if_splits)
    qed
    show "signal_ok q' p' n w xs'"
      using I(11) p(3,4) by (auto simp: signal_ok_def q'_def)
    show "inlist q' g \<longleftrightarrow> g \<in> set xs'" for g
      using I(6) by (auto simp: fl set')
    show "slist_rep (job_list (run (wq q'))) ys"
      using I(4) by (simp add: q'_def)
    show "\<And>g h. g \<in> P \<Longrightarrow> h \<in> P \<Longrightarrow> fd (fds q' g) = fd (fds q' h) \<Longrightarrow> g = h"
      using I(8) by (simp add: fl)
  qed (use I(1,2,5) f rep in \<open>auto simp: set'\<close>)
  then show ?thesis
    unfolding q'_def ..
qed

lemma dequeue_inv:
  assumes inv: "ioq_inv rd F q Dispatching n w P xs ys" and q: "mod_dequeue q = ((f, flgs, req), q')"
  shows "\<exists>xs'. ioq_inv rd F q' (if f = NULL then Blocked else Handling f flgs req) n w P xs' ys"
proof (cases xs)
  case Nil
  note I = ioq_invD [OF inv]
  have "f = NULL" "q' = q"
    using q dequeue_empty [of q] I(3) Nil by simp_all
  moreover have "ioq_inv rd F q Blocked n w P [] ys"
    using I(9,11) Nil by (intro quiet_step [OF inv [unfolded Nil]]) (auto simp: handling_def disp_ok_def evts_of_def signal_ok_def draining_def)
  ultimately show ?thesis by auto
next
  case (Cons x xs')
  note I = ioq_invD [OF inv]
  obtain q1 where q1: "mod_dequeue q = ((x, flags (fds q1 x), requested (fds q1 x)), q1)" "slist_rep (mod_list q1) xs'"
      "\<And>g. inlist q1 g \<longleftrightarrow> g \<noteq> x \<and> inlist q g" "\<And>g. registered q1 g = registered q g" "\<And>g. waiting q1 g = waiting q g"
      "\<And>g. fd (fds q1 g) = fd (fds q g)" "\<And>g. requested (fds q1 g) = requested (fds q g)"
      "wq q1 = wq q" "pipe q1 = pipe q" "intr_state q1 = intr_state q" "epoll q1 = epoll q" "x \<noteq> NULL"
    by (rule dequeue_fields [OF I(3) [unfolded Cons]]) (metis that)
  have e: "f = x" "q' = q1" "flgs = flags (fds q1 x)" "req = requested (fds q1 x)"
    using q q1(1) by auto
  have x: "x \<notin> set xs'" "x \<in> F"
    using slist_fifo.rep_distinct [OF I(3)] I(5) Cons by auto
  have hd: "handling Dispatching g = False" "handling (Handling x flgs req) g \<longleftrightarrow> g = x" for g
    by (auto simp: handling_def)
  have "ioq_inv rd F q1 (Handling x flgs req) n w P xs' ys"
  proof (rule ioq_invI)
    show "fd_ok rd q1 (Handling x flgs req) P xs' ys g" if g: "g \<in> F" for g
    proof (cases "g = x")
      case True
      then show ?thesis
        using I(7) [OF x(2)] by (simp add: fd_ok_def q1 hd Cons)
    next
      case False
      show ?thesis
        by (rule fd_ok_frame [OF I(7) [OF g]]) (use False in \<open>simp_all add: q1 hd Cons\<close>)
    qed
    show "disp_ok q1 (Handling x flgs req) F xs'"
      using x by (simp add: disp_ok_def e)
    show "kernel_ok rd q1 F"
      using I(10) by (simp add: kernel_ok_def q1)
    show "signal_ok q1 (Handling x flgs req) n w xs'"
      using I(11) by (auto simp: signal_ok_def q1 draining_def)
    show "inlist q1 g \<longleftrightarrow> g \<in> set xs'" for g
      using I(6) x(1) Cons by (auto simp: q1)
    show "\<And>g h. g \<in> P \<Longrightarrow> h \<in> P \<Longrightarrow> fd (fds q1 g) = fd (fds q1 h) \<Longrightarrow> g = h"
      using I(8) by (simp add: q1)
  qed (use I(1,2,4,5) q1 Cons in auto)
  then show ?thesis
    using q1(12) e by auto
qed

lemma submit_inv_ioq:
  assumes inv: "ioq_inv rd F q p n w P xs ys" and t: "t \<noteq> NULL" "t \<notin> set ys"
    and own: "t \<in> F \<Longrightarrow> t \<in> P \<and> \<not> waiting q t \<and> t \<notin> set xs \<and> \<not> handling p' t"
    and p: "\<And>g. g \<noteq> t \<Longrightarrow> handling p' g = handling p g" "t \<notin> F \<Longrightarrow> handling p' t = handling p t" "draining p' = draining p"
      "p' = Blocked \<Longrightarrow> p = Blocked" "disp_ok q p' F xs"
  shows "ioq_inv rd F (set_run (runq_task_exec t cb (run (wq q))) q) p' n w P xs (ys @ [t])"
proof (rule ioq_invI)
  note I = ioq_invD [OF inv]
  define q' where "q' = set_run (runq_task_exec t cb (run (wq q))) q"
  have fl: "fds q' = fds q" "epoll q' = epoll q" "mod_list q' = mod_list q"
    by (simp_all add: q'_def)
  show "fd_ok rd q' p' P xs (ys @ [t]) g" if g: "g \<in> F" for g
  proof (cases "g = t")
    case True
    then show ?thesis
      using own g I(7) [OF g] by (simp add: fd_ok_def fl)
  next
    case False
    show ?thesis
      by (rule fd_ok_frame [OF I(7) [OF g]]) (use False p(1) in \<open>simp_all add: fl\<close>)
  qed
  show "slist_rep (job_list (run (wq q'))) (ys @ [t])"
    using runq_task_exec_rep [OF I(4) t(2,1)] by (simp add: q'_def)
  show "disp_ok q' p' F xs"
    using p(5) by (rule disp_ok_cong [rotated]) (simp add: fl)
  show "kernel_ok rd q' F"
    using I(10) by (simp add: kernel_ok_def fl)
  show "signal_ok q' p' n w xs"
    using I(11) p(3,4) set_run_intr [where r = "runq_task_exec t cb (run (wq q))" and q = q] unfolding q'_def [symmetric]
    by (auto simp: signal_ok_def)
  show "\<And>g h. g \<in> P \<Longrightarrow> h \<in> P \<Longrightarrow> fd (fds q' g) = fd (fds q' h) \<Longrightarrow> g = h"
    using I(8) by (simp add: fl)
qed (use ioq_invD [OF inv] in simp_all)

text \<open>The kernel accepts or refuses a registration.\<close>

lemma register_inv:
  assumes inv: "ioq_inv rd F q (Handling f flgs req) n w P xs ys" and f: "waiting q f" "req \<noteq> 0"
  shows "ioq_inv rd F (upd_fd f (\<lambda>x. x\<lparr>flags := flags x OR IOQ_FLAG_EPOLL\<rparr>) (q\<lparr>epoll := (epoll q)(fd (fds q f) \<mapsto> (req, f))\<rparr>))
    Dispatching n w P xs ys"
proof -
  note I = ioq_invD [OF inv]
  have D: "f \<in> F" "f \<notin> set xs \<longrightarrow> req = requested (fds q f)"
    using I(9) by (simp_all add: disp_ok_def)
  note O = fd_okD [OF I(7) [OF D(1)]]
  have P: "f \<in> P" "f \<notin> set ys" "f \<noteq> NULL"
    using O(1,2) f(1) D(1) I(1) by (blast, blast, metis)
  define ps where "ps = (epoll q)(fd (fds q f) \<mapsto> (req, f))"
  define q' where "q' = upd_fd f (\<lambda>x. x\<lparr>flags := flags x OR IOQ_FLAG_EPOLL\<rparr>) (q\<lparr>epoll := ps\<rparr>)"
  have fl: "waiting q' g = waiting q g" "registered q' g \<longleftrightarrow> g = f \<or> registered q g" "inlist q' g = inlist q g" "fd (fds q' g) = fd (fds q g)"
      "requested (fds q' g) = requested (fds q g)" "epoll q' = ps" "mod_list q' = mod_list q" "wq q' = wq q" "pipe q' = pipe q" "intr_state q' = intr_state q" for g
    by (simp_all add: q'_def upd_fd_def)
  have other: "ps (fd (fds q g)) = epoll q (fd (fds q g))" if "g \<in> P" "g \<noteq> f" for g
    using I(8) [OF that(1) P(1)] that(2) by (auto simp: ps_def)
  have hd: "handling Dispatching g = False" "handling (Handling f flgs req) g \<longleftrightarrow> g = f" for g
    by (auto simp: handling_def)
  have "ioq_inv rd F q' Dispatching n w P xs ys"
  proof (rule ioq_invI)
    show "fd_ok rd q' Dispatching P xs ys g" if g: "g \<in> F" for g
    proof (cases "g = f")
      case True
      then show ?thesis
        using P f D(2) O(5) by (auto simp: fd_ok_def fl hd ps_def)
    next
      case False
      show ?thesis
        by (rule fd_ok_frame [OF I(7) [OF g]]) (use False other in \<open>simp_all add: fl hd\<close>)
    qed
    show "kernel_ok rd q' F"
      using I(10) O(5) [OF P(1)] D(1) P(3) by (auto simp: kernel_ok_def fl ps_def split: if_splits)
    show "signal_ok q' Dispatching n w xs"
      using I(11) by (auto simp: signal_ok_def fl draining_def)
    show "\<And>g h. g \<in> P \<Longrightarrow> h \<in> P \<Longrightarrow> fd (fds q' g) = fd (fds q' h) \<Longrightarrow> g = h"
      using I(8) by (simp add: fl)
  qed (use I(1-6) in \<open>simp_all add: fl disp_ok_def evts_of_def\<close>)
  then show ?thesis
    by (simp add: q'_def ps_def)
qed

lemma refuse_inv:
  assumes inv: "ioq_inv rd F q (Handling f flgs req) n w P xs ys" and f: "waiting q f"
  shows "\<exists>xs'. ioq_inv rd F (snd (mod_enqueue_nolock f (upd_fd f (\<lambda>x. x\<lparr>requested := 0\<rparr>) (upd_fd f (\<lambda>x. x\<lparr>err := e\<rparr>) q))))
    Dispatching n w P xs' ys"
proof -
  note I = ioq_invD [OF inv]
  have D: "f \<in> F"
    using I(9) by (simp add: disp_ok_def)
  note O = fd_okD [OF I(7) [OF D(1)]]
  have P: "f \<in> P" "f \<notin> set ys" "f \<noteq> NULL"
    using O(1,2) f(1) D(1) I(1) by (blast, blast, metis)
  define b where "b = upd_fd f (\<lambda>x. x\<lparr>requested := 0\<rparr>) (upd_fd f (\<lambda>x. x\<lparr>err := e\<rparr>) q)"
  define q' where "q' = snd (mod_enqueue_nolock f b)"
  define xs' where "xs' = (if f \<in> set xs then xs else xs @ [f])"
  have b: "flags (fds b g) = flags (fds q g)" "fd (fds b g) = fd (fds q g)"
      "requested (fds b g) = (if g = f then 0 else requested (fds q g))" "mod_list b = mod_list q" "epoll b = epoll q"
      "wq b = wq q" "pipe b = pipe q" "intr_state b = intr_state q" for g
    by (simp_all add: b_def upd_fd_def)
  have rep: "slist_rep (mod_list q') xs'"
    using enqueue_rep(1) [of b xs f] I(3,6) P(3) by (simp add: q'_def b xs'_def)
  have fl: "waiting q' g = waiting q g" "registered q' g = registered q g" "fd (fds q' g) = fd (fds q g)"
      "requested (fds q' g) = (if g = f then 0 else requested (fds q g))" "epoll q' = epoll q" "inlist q' g \<longleftrightarrow> g = f \<or> inlist q g"
      "wq q' = wq q" "pipe q' = pipe q" "intr_state q' = intr_state q" for g
    by (simp_all add: q'_def b)
  have set': "set xs' = insert f (set xs)"
    by (auto simp: xs'_def)
  have hd: "handling Dispatching g = False" "handling (Handling f flgs req) g \<longleftrightarrow> g = f" for g
    by (auto simp: handling_def)
  have "ioq_inv rd F q' Dispatching n w P xs' ys"
  proof (rule ioq_invI)
    show "fd_ok rd q' Dispatching P xs' ys g" if g: "g \<in> F" for g
    proof (cases "g = f")
      case True
      then show ?thesis
        using P f O(3-5) by (simp add: fd_ok_def fl hd set')
    next
      case False
      show ?thesis
        by (rule fd_ok_frame [OF I(7) [OF g]]) (use False in \<open>simp_all add: fl hd set'\<close>)
    qed
    show "kernel_ok rd q' F"
      using I(10) by (simp add: kernel_ok_def fl)
    show "signal_ok q' Dispatching n w xs'"
      using I(11) by (auto simp: signal_ok_def fl draining_def)
    show "inlist q' g \<longleftrightarrow> g \<in> set xs'" for g
      using I(6) by (auto simp: fl set')
    show "\<And>g h. g \<in> P \<Longrightarrow> h \<in> P \<Longrightarrow> fd (fds q' g) = fd (fds q' h) \<Longrightarrow> g = h"
      using I(8) by (simp add: fl)
  qed (use I(1,2,4,5) rep D in \<open>auto simp: fl set' disp_ok_def evts_of_def\<close>)
  then show ?thesis
    unfolding q'_def b_def ..
qed

lemma handle_inv:
  assumes ok: "epoll_ok ctl" and inv: "ioq_inv rd F q (Handling f flgs req) n w P xs ys"
  shows "\<exists>xs' ys'. ioq_inv rd F (handle_mod ctl f flgs req q) Dispatching n w P xs' ys'"
proof -
  note I = ioq_invD [OF inv]
  have D: "f \<in> F" "flgs AND IOQ_FLAG_WAITING = 0 \<longleftrightarrow> \<not> waiting q f" "flgs AND IOQ_FLAG_EPOLL = 0 \<longleftrightarrow> \<not> registered q f"
      "\<not> waiting q f \<longrightarrow> f \<notin> set xs"
    using I(9) by (simp_all add: disp_ok_def)
  note O = fd_okD [OF I(7) [OF D(1)]]
  have hd: "handling Dispatching g = False" "handling (Handling f flgs req) g \<longleftrightarrow> g = f" "\<not> draining Dispatching" "\<not> draining (Handling f flgs req)"
      "disp_ok q Dispatching F xs" "evts_of Dispatching = []" "evts_of (Handling f flgs req) = []" for g
    by (auto simp: handling_def draining_def disp_ok_def evts_of_def)
  have f: "f \<in> P" "f \<notin> set ys" "f \<noteq> NULL"
    using O(1,2) hd(2) D(1) I(1) by (blast, blast, metis)
  consider "\<not> waiting q f" | "waiting q f" "req = 0" | e ps where "waiting q f" "req \<noteq> 0"
      "ctl (if registered q f then EPOLL_CTL_MOD else EPOLL_CTL_ADD) (fd (fds q f)) (req, f) (epoll q) = (e, ps)"
    by (metis surj_pair)
  then show ?thesis
  proof cases
    case 1
    then have "handle_mod ctl f flgs req q = set_run (runq_task_exec f (funcs (run (wq q)) f) (run (wq q))) q"
      using D(2) by (simp add: handle_mod_def)
    moreover have "ioq_inv rd F (set_run (runq_task_exec f (funcs (run (wq q)) f) (run (wq q))) q) Dispatching n w P xs (ys @ [f])"
      by (rule submit_inv_ioq [OF inv f(3,2)]) (use 1 D f(1) hd in auto)
    ultimately show ?thesis by auto
  next
    case 2
    define ps where "ps = (if registered q f then (epoll q)(fd (fds q f) := None) else epoll q)"
    have "handle_mod ctl f flgs req q = end_wait f 0 (q\<lparr>epoll := ps\<rparr>)"
      using 2 D(2,3) epoll_okD(2) [OF ok] by (simp add: handle_mod_def ps_def)
    moreover have "\<exists>xs'. ioq_inv rd F (end_wait f 0 (q\<lparr>epoll := ps\<rparr>)) Dispatching n w P xs' ys"
      by (rule end_wait_inv [OF inv D(1) 2(1) ps_def]) (simp_all add: hd)
    ultimately show ?thesis by auto
  next
    case (3 e ps)
    have ps: "ps = (if e = 0 then (epoll q)(fd (fds q f) \<mapsto> (req, f)) else epoll q)"
      by (rule epoll_okD(1) [OF ok 3(3)]) simp
    show ?thesis
    proof (cases "e = 0")
      case True
      then have "handle_mod ctl f flgs req q = upd_fd f (\<lambda>x. x\<lparr>flags := flags x OR IOQ_FLAG_EPOLL\<rparr>) (q\<lparr>epoll := (epoll q)(fd (fds q f) \<mapsto> (req, f))\<rparr>)"
        using 3 D(2,3) ps by (simp add: handle_mod_def)
      with register_inv [OF inv 3(1,2)] show ?thesis by auto
    next
      case False
      then have "handle_mod ctl f flgs req q = snd (mod_enqueue_nolock f (upd_fd f (\<lambda>x. x\<lparr>requested := 0\<rparr>) (upd_fd f (\<lambda>x. x\<lparr>err := e\<rparr>) q)))"
        using 3 D(2,3) ps by (simp add: handle_mod_def)
      with refuse_inv [OF inv 3(1), of e] show ?thesis by auto
    qed
  qed
qed

lemma event_inv:
  assumes ok: "epoll_ok ctl" and inv: "ioq_inv rd F q (Events (e # evts)) n w P xs ys"
  shows "\<exists>xs'. ioq_inv rd F (wait_event ctl e q) (Events evts) n w P xs' ys"
proof -
  note I = ioq_invD [OF inv]
  obtain ev f where e: "e = (ev, f)" by (metis surj_pair)
  have hd: "handling (Events es) g = False" "\<not> draining (Events es)" "evts_of (Events es) = es" for g es
    by (auto simp: handling_def draining_def evts_of_def)
  have D: "f \<notin> snd ` set evts" "f \<noteq> NULL \<Longrightarrow> f \<in> F \<and> registered q f"
    using I(9) e by (auto simp: disp_ok_def hd)
  show ?thesis
  proof (cases "f = NULL")
    case True
    then have "wait_event ctl e q = q"
      by (simp add: wait_event_def e)
    moreover have "ioq_inv rd F q (Events evts) n w P xs ys"
      using I(9,11) by (intro quiet_step [OF inv]) (auto simp: hd disp_ok_def signal_ok_def)
    ultimately show ?thesis by auto
  next
    case False
    with D(2) have r: "f \<in> F" "registered q f" by simp_all
    define ps where "ps = (if registered q f then (epoll q)(fd (fds q f) := None) else epoll q)"
    have "wait_event ctl e q = end_wait f ev (q\<lparr>epoll := ps\<rparr>)"
      using False r epoll_okD(2) [OF ok] by (simp add: wait_event_def e ps_def)
    moreover have "\<exists>xs'. ioq_inv rd F (end_wait f ev (q\<lparr>epoll := ps\<rparr>)) (Events evts) n w P xs' ys"
      by (rule end_wait_inv [OF inv r(1) fd_okD(3) [OF I(7) [OF r(1)] r(2)] ps_def]) (use D(1) e in \<open>simp_all add: hd\<close>)
    ultimately show ?thesis by simp
  qed
qed

lemma take_inv:
  assumes inv: "ioq_inv rd F q p n w P xs ys" and r: "run_one (run (wq q)) = (1, t, r)"
  shows "\<exists>ys'. ioq_inv rd F (set_job r q) p n w (P - {t}) xs ys'"
proof -
  note I = ioq_invD [OF inv]
  from I(4) show ?thesis
  proof (cases rule: run_one_result)
    case (task x zs l)
    then have t: "t = x" "r = (run (wq q))\<lparr>job_list := l\<rparr>" "slist_rep l zs" "ys = x # zs"
      using r by auto
    have xz: "x \<notin> set zs"
      using slist_fifo.rep_distinct [OF I(4)] t(4) by simp
    have fl: "fds (set_job r q) = fds q" "epoll (set_job r q) = epoll q" "mod_list (set_job r q) = mod_list q" "job_list (run (wq (set_job r q))) = l"
        "pipe (set_job r q) = pipe q" "intr_state (set_job r q) = intr_state q"
      by (simp_all add: set_job_def t(2))
    have "ioq_inv rd F (set_job r q) p n w (P - {t}) xs zs"
    proof (rule ioq_invI)
      show "fd_ok rd (set_job r q) p (P - {t}) xs zs g" if g: "g \<in> F" for g
      proof (cases "g = x")
        case True
        then show ?thesis
          using I(7) [OF g] xz t(1,4) by (auto simp: fd_ok_def fl)
      next
        case False
        show ?thesis
          by (rule fd_ok_frame [OF I(7) [OF g]]) (use False t(1,4) in \<open>simp_all add: fl\<close>)
      qed
      show "disp_ok (set_job r q) p F xs"
        using I(9) by (rule disp_ok_cong [rotated]) (simp add: fl)
      show "kernel_ok rd (set_job r q) F" "signal_ok (set_job r q) p n w xs"
        using I(10,11) by (simp_all add: kernel_ok_def signal_ok_def fl)
      show "\<And>g h. g \<in> P - {t} \<Longrightarrow> h \<in> P - {t} \<Longrightarrow> fd (fds (set_job r q) g) = fd (fds (set_job r q) h) \<Longrightarrow> g = h"
        using I(8) by (simp add: fl)
    qed (use I(1-6) t(3) in \<open>auto simp: fl\<close>)
    then show ?thesis ..
  qed (use r in auto)
qed

lemma init_fd_inv:
  assumes inv: "ioq_inv rd F q p n w P xs ys" and f: "f \<in> F" "f \<notin> P"
  shows "ioq_inv rd F (ioq_fd_init f k q) p n w P xs ys"
proof -
  note I = ioq_invD [OF inv]
  note O = fd_okD [OF I(7) [OF f(1)]]
  define q' where "q' = ioq_fd_init f k q"
  have fl: "waiting q' g \<longleftrightarrow> g \<noteq> f \<and> waiting q g" "registered q' g \<longleftrightarrow> g \<noteq> f \<and> registered q g" "inlist q' g \<longleftrightarrow> g \<noteq> f \<and> inlist q g"
      "g \<noteq> f \<Longrightarrow> fd (fds q' g) = fd (fds q g) \<and> requested (fds q' g) = requested (fds q g)" "epoll q' = epoll q" "mod_list q' = mod_list q" "wq q' = wq q" "pipe q' = pipe q"
      "intr_state q' = intr_state q" for g
    by (simp_all add: q'_def ioq_fd_init_def upd_fd_def)
  have nf: "\<not> waiting q f" "\<not> registered q f" "f \<notin> set xs" "f \<notin> set ys" "\<not> handling p f"
    using O(1,3) f(2) by blast+
  have "ioq_inv rd F q' p n w P xs ys"
  proof (rule ioq_invI)
    show "fd_ok rd q' p P xs ys g" if g: "g \<in> F" for g
    proof (cases "g = f")
      case True
      then show ?thesis
        using nf f(2) fl(1,2) by (auto simp: fd_ok_def)
    next
      case False
      show ?thesis
        by (rule fd_ok_frame [OF I(7) [OF g]]) (use False fl in simp_all)
    qed
    show "\<And>g. inlist q' g \<longleftrightarrow> g \<in> set xs"
      using I(6) nf(3) fl(3) by blast
    show "disp_ok q' p F xs"
    proof (cases p)
      case (Handling g flgs req)
      then have "g \<noteq> f"
        using nf(5) by (auto simp: handling_def)
      then show ?thesis
        using I(9) Handling fl(1,2,4) by (simp add: disp_ok_def)
    qed (use I(9) nf(2) fl(2) in \<open>auto simp: disp_ok_def evts_of_def\<close>)
    show "kernel_ok rd q' F"
      unfolding kernel_ok_def
    proof (intro conjI allI impI)
      show "epoll q' rd = Some (1, NULL)"
        using I(10) by (simp add: kernel_ok_def fl)
      fix d e g assume "epoll q' d = Some (e, g)"
      then have "if g = NULL then d = rd else g \<in> F \<and> registered q g \<and> fd (fds q g) = d"
        using I(10) unfolding kernel_ok_def fl(5) by blast
      then show "if g = NULL then d = rd else g \<in> F \<and> registered q' g \<and> fd (fds q' g) = d"
        using nf(2) fl(2,4) [of g] by (auto split: if_splits)
    qed
    show "\<And>g h. g \<in> P \<Longrightarrow> h \<in> P \<Longrightarrow> fd (fds q' g) = fd (fds q' h) \<Longrightarrow> g = h"
      using I(8) f(2) fl(4) by metis
    show "signal_ok q' p n w xs"
      using I(11) by (simp add: signal_ok_def fl)
  qed (use I(1-5) in \<open>simp_all add: fl\<close>)
  then show ?thesis by (simp add: q'_def)
qed

abbreviation sys_ok :: "int \<Rightarrow> addr set \<Rightarrow> ioq_sys \<Rightarrow> bool" where
  "sys_ok rd F s \<equiv> \<exists>xs ys. ioq_inv rd F (ioq_of s) (dispatcher s) (notifying s) (writing s) (pending s) xs ys"

lemma signal_step_inv:
  assumes inv: "ioq_inv rd F q p n w P xs ys"
    and q: "fds q' = fds q" "mod_list q' = mod_list q" "wq q' = wq q" "epoll q' = epoll q" and sig: "signal_ok q' p n' w' xs"
  shows "ioq_inv rd F q' p n' w' P xs ys"
proof (rule quiet_step [OF inv])
  show "disp_ok q' p F xs"
    using ioq_invD(9) [OF inv] by (rule disp_ok_cong [rotated]) (simp add: q)
qed (use q sig in simp_all)

lemma ioq_internal_inv:
  assumes "ioq_internal ctl F s s'" "epoll_ok ctl" "ioq_inv rd F (ioq_of s) (dispatcher s) (notifying s) (writing s) (pending s) xs ys"
  shows "sys_ok rd F s'"
  using assms
proof (induction rule: ioq_internal.induct)
  case (call_notify s)
  then have "ioq_inv rd F (ioq_of s) (dispatcher s) (notifying s + 1) (writing s) (pending s) xs ys"
    using ioq_invD(11) [OF call_notify(2)] by (intro signal_step_inv [OF call_notify(2)]) (auto simp: signal_ok_def)
  then show ?case by (intro exI [of _ xs] exI [of _ ys]) simp
next
  case (notify s first q)
  then have "ioq_inv rd F q (dispatcher s) (notifying s - 1) (writing s + fires first) (pending s) xs ys"
    using ioq_invD(11) [OF notify(4)] by (intro signal_step_inv [OF notify(4)]) (auto simp: signal_ok_def notify_locked_def draining_def)
  then show ?case by (intro exI [of _ xs] exI [of _ ys]) simp
next
  case (wr s)
  then have "ioq_inv rd F (pipe_write (ioq_of s)) (dispatcher s) (notifying s) (writing s - 1) (pending s) xs ys"
    by (intro signal_step_inv [OF wr(3)]) (auto simp: signal_ok_def pipe_write_def)
  then show ?case by (intro exI [of _ xs] exI [of _ ys]) simp
next
  case (other s zs t cb)
  then have "zs = ys"
    using slist_rep_unique ioq_invD(4) [OF other(6)] by blast
  with other submit_inv_ioq [OF other(6), of t "dispatcher s" cb] ioq_invD(9) [OF other(6)] show ?case by fastforce
next
  case (interrupted s)
  then have "ioq_inv rd F (ioq_of s) Dispatching (notifying s) (writing s) (pending s) xs ys"
    using ioq_invD(11) [OF interrupted(3)]
    by (intro quiet_step [OF interrupted(3)]) (auto simp: handling_def disp_ok_def evts_of_def signal_ok_def draining_def)
  then show ?case by (intro exI [of _ xs] exI [of _ ys]) simp
next
  case (woken s evts)
  note I = ioq_invD [OF woken(5)]
  have "f \<in> F \<and> registered (ioq_of s) f" if e: "(ev, f) \<in> set evts" "f \<noteq> NULL" for ev f
  proof -
    obtain d e where "epoll (ioq_of s) d = Some (e, f)"
      using woken(3) e(1) by blast
    with I(10) e(2) show ?thesis
      unfolding kernel_ok_def by metis
  qed
  then have "disp_ok (ioq_of s) (Draining evts) F xs"
    using woken(2) by (auto simp: disp_ok_def evts_of_def)
  then have "ioq_inv rd F (ioq_of s) (Draining evts) (notifying s) (writing s) (pending s) xs ys"
    using woken(1) I(11) by (intro quiet_step [OF woken(5)]) (auto simp: handling_def signal_ok_def draining_def)
  then show ?case by (intro exI [of _ xs] exI [of _ ys]) simp
next
  case (read s evts)
  note I = ioq_invD [OF read(4)]
  have "ioq_inv rd F ((ioq_of s)\<lparr>pipe := pipe (ioq_of s) - min 128 (pipe (ioq_of s))\<rparr>) (dispatcher s) (notifying s) (writing s) (pending s) xs ys"
    using read(1) I(11) by (intro signal_step_inv [OF read(4)]) (auto simp: signal_ok_def draining_def)
  then show ?case by (intro exI [of _ xs] exI [of _ ys]) simp
next
  case (drained s evts)
  note I = ioq_invD [OF drained(4)]
  have "ioq_inv rd F (ioq_of s) (Acking evts) (notifying s) (writing s) (pending s) xs ys"
    using drained(1,2) I(9,11) by (intro quiet_step [OF drained(4)]) (auto simp: handling_def disp_ok_def evts_of_def signal_ok_def draining_def)
  then show ?case by (intro exI [of _ xs] exI [of _ ys]) simp
next
  case (ack s evts)
  note I = ioq_invD [OF ack(3)]
  have "ioq_inv rd F (ack_locked (ioq_of s)) (Events evts) (notifying s) (writing s) (pending s) xs ys"
    using ack(1) I(9,11) by (intro quiet_step [OF ack(3)]) (auto simp: handling_def disp_ok_def evts_of_def signal_ok_def draining_def ack_locked_def)
  then show ?case by (intro exI [of _ xs] exI [of _ ys]) simp
next
  case (event s e evts)
  then show ?case using event_inv [OF event(2) event(3) [unfolded event(1)]] by auto
next
  case (events_done s)
  note I = ioq_invD [OF events_done(3)]
  have "ioq_inv rd F (ioq_of s) Dispatching (notifying s) (writing s) (pending s) xs ys"
    using events_done(1) I(11) by (intro quiet_step [OF events_done(3)]) (auto simp: handling_def disp_ok_def evts_of_def signal_ok_def draining_def)
  then show ?case by (intro exI [of _ xs] exI [of _ ys]) simp
next
  case (dequeue s f flgs req q)
  obtain xs' where "ioq_inv rd F q (if f = NULL then Blocked else Handling f flgs req) (notifying s) (writing s) (pending s) xs' ys"
    using dequeue_inv [OF dequeue(4) [unfolded dequeue(1)] dequeue(2)] by blast
  then show ?case by (intro exI [of _ xs'] exI [of _ ys]) simp
next
  case (handle s f flgs req)
  then show ?case using handle_inv [OF handle(2) handle(3) [unfolded handle(1)]] by auto
qed

lemma emptied_mono:
  assumes "ioq_step ctl rd F s s'" "emptied s"
  shows "emptied s'"
  using assms
proof cases
  case (internal)
  then show ?thesis using assms(2) by cases simp_all
qed (use assms(2) in \<open>auto simp: wait_sys_def rewait_sys_def take_sys_def init_sys_def Let_def split: prod.splits\<close>)

lemma ioq_step_inv:
  assumes "ioq_step ctl rd F s s'" "epoll_ok ctl" "\<not> emptied s'"
    "ioq_inv rd F (ioq_of s) (dispatcher s) (notifying s) (writing s) (pending s) xs ys"
  shows "sys_ok rd F s'"
  using assms
proof (induction rule: ioq_step.induct)
  case (start f s cb ev)
  then have ev: "ev \<noteq> 0" by (auto simp: wait_sys_def Let_def)
  then show ?case
    using start start_inv [OF start.prems(3) start(1,2) ev start(3,4)] by (fastforce simp: wait_sys_def Let_def split: prod.split)
next
  case (rewait f s ev)
  then show ?case using rewait_inv [OF rewait.prems(3)] by (fastforce simp: rewait_sys_def split: prod.split)
next
  case (take s t r)
  then show ?case using take_inv [OF take.prems(3) take(1)] by (auto simp: take_sys_def)
next
  case (init_fd f s n)
  then show ?case using init_fd_inv [OF init_fd.prems(3) init_fd(1,2)] by (auto simp: init_sys_def)
next
  case (internal s s')
  then show ?case using ioq_internal_inv by blast
qed

lemma ioq_reach_inv:
  assumes "ioq_reach ctl rd F s" "epoll_ok ctl" "\<not> emptied s"
  shows "sys_ok rd F s"
  using assms
proof (induction rule: ioq_reach.induct)
  case (init q ys)
  then have "ioq_inv rd F q Blocked 0 0 {} [] ys"
    by (intro ioq_invI) (auto simp: fd_ok_def handling_def disp_ok_def evts_of_def kernel_ok_def signal_ok_def split: if_splits)
  then show ?case by auto
next
  case (step s s')
  then have "\<not> emptied s"
    using emptied_mono by blast
  with step show ?case using ioq_step_inv by blast
qed

section \<open>Properties\<close>

text \<open>
  C13: under every interleaving of clients, notifying threads, task execution and the iterating thread, as long as
  no client has begun a wait for the empty set of events, a wait that has begun and whose callback has not is in exactly one place: with the queue, which still waits
  or has its modification listed or in hand, or with the run queue, once. So its callback runs exactly once,
  for every timing of events, changes of the request and cancellation.
\<close>

theorem ioq_wait_exactly_once:
  assumes "ioq_reach ctl rd F s" "epoll_ok ctl" "\<not> emptied s" "f \<in> F"
  shows "\<exists>xs ys. slist_rep (mod_list (ioq_of s)) xs \<and> slist_rep (job_list (run (wq (ioq_of s)))) ys \<and>
    (let with_queue = waiting (ioq_of s) f \<or> f \<in> set xs \<or> handling (dispatcher s) f in
     fires with_queue + count_list ys f = fires (f \<in> pending s))"
proof -
  obtain xs ys where inv: "ioq_inv rd F (ioq_of s) (dispatcher s) (notifying s) (writing s) (pending s) xs ys"
    using ioq_reach_inv [OF assms(1-3)] by blast
  note I = ioq_invD [OF inv]
  note O = fd_okD(1,2) [OF I(7) [OF assms(4)]]
  have "distinct ys"
    using slist_fifo.rep_distinct [OF I(4)] by simp
  then have "count_list ys f = fires (f \<in> set ys)"
    by (induction ys) auto
  with O I(3,4) show ?thesis
    by (intro exI [of _ xs] exI [of _ ys]) (auto simp: Let_def)
qed

text \<open>
  C14: as long as no client has begun a wait for the empty set of events, no wait is lost. While the iterating thread may sleep in \<open>epoll_wait\<close>, every wait that has begun is
  registered with the kernel for the events it requests, or its task is in the run queue, or its
  modification is listed and a wakeup is on its way: some thread is about to notify, or the pipe,
  which is registered, has or is about to get a byte.
\<close>

theorem ioq_no_lost_wait:
  assumes "ioq_reach ctl rd F s" "epoll_ok ctl" "\<not> emptied s" "f \<in> pending s" "dispatcher s = Blocked"
  shows "\<exists>xs ys. slist_rep (mod_list (ioq_of s)) xs \<and> slist_rep (job_list (run (wq (ioq_of s)))) ys \<and>
    (requested (fds (ioq_of s) f) \<noteq> 0 \<and> epoll (ioq_of s) (fd (fds (ioq_of s) f)) = Some (requested (fds (ioq_of s) f), f) \<or>
     f \<in> set ys \<or>
     f \<in> set xs \<and> (0 < notifying s \<or> 0 < writing s \<or> 0 < pipe (ioq_of s) \<and> epoll (ioq_of s) rd = Some (1, NULL)))"
proof -
  obtain xs ys where inv: "ioq_inv rd F (ioq_of s) (dispatcher s) (notifying s) (writing s) (pending s) xs ys"
    using ioq_reach_inv [OF assms(1-3)] by blast
  note I = ioq_invD [OF inv]
  have f: "f \<in> F" "\<not> handling (dispatcher s) f"
    using I(2) assms(4,5) by (auto simp: handling_def)
  have "epoll (ioq_of s) rd = Some (1, NULL)"
    using I(10) by (simp add: kernel_ok_def)
  moreover have "f \<in> set xs \<Longrightarrow> 0 < notifying s \<or> 0 < writing s \<or> 0 < pipe (ioq_of s)"
    using I(11) assms(5) by (auto simp: signal_ok_def)
  ultimately show ?thesis
    using I(3,4) I(7) [OF f(1)] f(2) assms(4) by (intro exI [of _ xs] exI [of _ ys]) (auto simp: fd_ok_def)
qed

lemma ioq0_reach: "ioq_reach small_epoll 3 {20} \<lparr>ioq_of = ioq0, dispatcher = Blocked, notifying = 0, writing = 0, pending = {}, emptied = False\<rparr>"
  using idle_runq_rep by (intro ioq_reach.init [where ys = "[]"]) (simp_all add: ioq0_fields slist_init_rep)

lemma one_wait_reach: "\<exists>s. ioq_reach small_epoll 3 {20} s \<and> pending s = {20} \<and> dispatcher s = Blocked \<and> \<not> emptied s"
proof -
  let ?s = "\<lparr>ioq_of = ioq0, dispatcher = Blocked, notifying = 0, writing = 0, pending = {}, emptied = False\<rparr>"
  have "ioq_step small_epoll 3 {20} ?s (wait_sys 0 20 1 ?s)"
    by (rule ioq_step.start) (simp_all add: ioq0_fields blank_fd_def)
  moreover have "pending (wait_sys 0 20 1 ?s) = {20}" "dispatcher (wait_sys 0 20 1 ?s) = Blocked" "\<not> emptied (wait_sys 0 20 1 ?s)"
    by (simp_all add: wait_sys_def split: prod.split)
  ultimately show ?thesis
    using ioq_reach.step [OF ioq0_reach] by blast
qed

theorem ioq_wait_exactly_once_witness:
  "\<exists>s xs ys. ioq_reach small_epoll 3 {20} s \<and> slist_rep (mod_list (ioq_of s)) xs \<and> slist_rep (job_list (run (wq (ioq_of s)))) ys \<and>
     fires (waiting (ioq_of s) 20 \<or> 20 \<in> set xs \<or> handling (dispatcher s) 20) + count_list ys 20 = 1"
proof -
  obtain s where s: "ioq_reach small_epoll 3 {20} s" "pending s = {20}" "\<not> emptied s"
    using one_wait_reach by blast
  from ioq_wait_exactly_once [OF s(1) small_epoll_ok s(3), of 20] s show ?thesis
    unfolding Let_def by fastforce
qed

theorem ioq_no_lost_wait_witness:
  "\<exists>s xs ys. ioq_reach small_epoll 3 {20} s \<and> slist_rep (mod_list (ioq_of s)) xs \<and> slist_rep (job_list (run (wq (ioq_of s)))) ys \<and>
     (epoll (ioq_of s) (fd (fds (ioq_of s) 20)) = Some (requested (fds (ioq_of s) 20), 20) \<or> 20 \<in> set ys \<or> 20 \<in> set xs)"
proof -
  obtain s where s: "ioq_reach small_epoll 3 {20} s" "20 \<in> pending s" "dispatcher s = Blocked" "\<not> emptied s"
    using one_wait_reach by blast
  from ioq_no_lost_wait [OF s(1) small_epoll_ok s(4,2,3)] s(1) show ?thesis by blast
qed

end
