(* ===== verification/Dlb_Ioq_Client.thy ===== *)
theory Dlb_Ioq_Client
  imports Dlb_Ioq_Steps
begin

text \<open>
  The contract between the I/O queue and the objects built on it, files and sockets. Such an object keeps
  a set of operations under a lock of its own, has a wait in progress while the set is not empty, changes
  the events of the wait when an operation is added, and learns in a callback that the wait has ended.
  The locale states what the queue promises; the client's part of the invariant is proved once inside.
\<close>

definition takes :: "ioq_sys \<Rightarrow> addr \<Rightarrow> ioq_sys \<Rightarrow> bool" where
  "takes s t s' \<longleftrightarrow> (\<exists>r. run_one (run (wq (ioq_of s))) = (1, t, r) \<and> s' = take_sys t r s)"

section \<open>The contract\<close>

text \<open>
  \<open>busy\<close> are the objects with a wait whose callback has not begun, \<open>request\<close> the events while the wait has not ended.
  The queue may end a wait, or withdraw its request when the kernel refuses it. An object is \<open>free\<close> to wait when no other
  wait is on its descriptor.
\<close>

locale wait_service =
  fixes A :: "addr set" and good :: "'i \<Rightarrow> bool" and busy :: "'i \<Rightarrow> addr set" and request :: "'i \<Rightarrow> addr \<Rightarrow> u32 option"
    and free :: "'i \<Rightarrow> addr \<Rightarrow> bool" and init :: "addr \<Rightarrow> int \<Rightarrow> 'i \<Rightarrow> 'i" and start rewait :: "addr \<Rightarrow> u32 \<Rightarrow> 'i \<Rightarrow> 'i" and take :: "'i \<Rightarrow> addr \<Rightarrow> 'i \<Rightarrow> bool" and quiet :: "'i \<Rightarrow> 'i \<Rightarrow> bool"
  assumes init: "good i \<Longrightarrow> f \<in> A \<Longrightarrow> f \<notin> busy i \<Longrightarrow>
      good (init f n i) \<and> busy (init f n i) = busy i \<and> request (init f n i) = request i"
    and start: "good i \<Longrightarrow> f \<in> A \<Longrightarrow> f \<notin> busy i \<Longrightarrow> free i f \<Longrightarrow> ev \<noteq> 0 \<Longrightarrow>
      good (start f ev i) \<and> busy (start f ev i) = insert f (busy i) \<and> request (start f ev i) = (request i)(f \<mapsto> ev)"
    and rewait: "good i \<Longrightarrow> f \<in> A \<Longrightarrow>
      good (rewait f ev i) \<and> busy (rewait f ev i) = busy i \<and>
      request (rewait f ev i) = (if request i f = None then request i else (request i)(f \<mapsto> ev))"
    and take: "good i \<Longrightarrow> take i t i' \<Longrightarrow>
      good i' \<and> busy i' = busy i - {t} \<and> (t \<in> A \<longrightarrow> t \<in> busy i \<and> request i t = None) \<and> request i' = request i"
    and quiet: "good i \<Longrightarrow> quiet i i' \<Longrightarrow>
      good i' \<and> busy i' = busy i \<and> (\<forall>f. request i' f = request i f \<or> request i' f = None \<or> request i' f = Some 0 \<and> request i f \<noteq> None)"
    and request_busy: "good i \<Longrightarrow> f \<in> A \<Longrightarrow> request i f \<noteq> None \<Longrightarrow> f \<in> busy i"

text \<open>
  What a client keeps: the operations of an object are not empty as long as its wait is in progress or its callback is about to
  run, never both, and a wait that has not ended asks for events that cover the operations, or is cancelled.
\<close>

definition client_ok :: "(u32 \<Rightarrow> u32 \<Rightarrow> bool) \<Rightarrow> addr set \<Rightarrow> addr set \<Rightarrow> (addr \<Rightarrow> u32 option) \<Rightarrow> addr set \<Rightarrow> (addr \<Rightarrow> u32) \<Rightarrow> bool" where
  "client_ok cov A B R E ops \<longleftrightarrow> E \<subseteq> A \<and> (\<forall>a \<in> A. (ops a \<noteq> 0 \<longleftrightarrow> a \<in> B \<or> a \<in> E) \<and> \<not> (a \<in> B \<and> a \<in> E) \<and>
     (\<forall>ev. R a = Some ev \<longrightarrow> ev = 0 \<or> cov (ops a) ev))"

context wait_service
begin

lemma client_init:
  assumes "good i" "client_ok cov A (busy i) (request i) E ops" "a \<in> A" "ops a = 0"
  shows "good (init a n i) \<and> client_ok cov A (busy (init a n i)) (request (init a n i)) E ops"
proof -
  have "a \<notin> busy i"
    using assms(2-4) by (auto simp: client_ok_def)
  with init [OF assms(1,3)] assms(2) show ?thesis by simp
qed

text \<open>The first operation starts a wait, later ones change it.\<close>

lemma client_start:
  assumes "good i" "client_ok cov A (busy i) (request i) E ops" "a \<in> A" "ops a = 0" "x \<noteq> 0" "free i a" "ev \<noteq> 0" "cov x ev"
  shows "good (start a ev i) \<and> client_ok cov A (busy (start a ev i)) (request (start a ev i)) E (ops(a := x))"
proof -
  have "a \<notin> busy i" "a \<notin> E"
    using assms(2-4) by (auto simp: client_ok_def)
  with start [OF assms(1,3) _ assms(6,7)] assms(2-) show ?thesis
    by (auto simp: client_ok_def)
qed

lemma client_rewait:
  assumes "good i" "client_ok cov A (busy i) (request i) E ops" "a \<in> A" "ops a \<noteq> 0" "x \<noteq> 0" "ev = 0 \<or> cov x ev"
  shows "good (rewait a ev i) \<and> client_ok cov A (busy (rewait a ev i)) (request (rewait a ev i)) E (ops(a := x))"
  using rewait [OF assms(1,3), of ev] assms(2-) by (auto simp: client_ok_def)

lemma client_rewait_idle:
  assumes "good i" "client_ok cov A (busy i) (request i) E ops" "a \<in> A" "ops a = 0"
  shows "good (rewait a ev i) \<and> client_ok cov A (busy (rewait a ev i)) (request (rewait a ev i)) E ops"
proof -
  have "a \<notin> busy i"
    using assms(2-4) by (auto simp: client_ok_def)
  then have "request i a = None"
    using request_busy [OF assms(1,3)] by blast
  with rewait [OF assms(1,3), of ev] assms(2) show ?thesis by simp
qed

text \<open>The callback: it begins; then, under the client's lock, it waits again or leaves no operation.\<close>

lemma client_take:
  assumes "good i" "client_ok cov A (busy i) (request i) E ops" "take i t i'"
  shows "good i' \<and> client_ok cov A (busy i') (request i') (E \<union> (A \<inter> {t})) ops"
  using take [OF assms(1,3)] assms(2) by (auto simp: client_ok_def)

lemma client_again:
  assumes "good i" "client_ok cov A (busy i) (request i) E ops" "a \<in> E" "x \<noteq> 0" "free i a" "ev \<noteq> 0" "cov x ev"
  shows "good (start a ev i) \<and> client_ok cov A (busy (start a ev i)) (request (start a ev i)) (E - {a}) (ops(a := x))"
proof -
  have "a \<notin> busy i" "a \<in> A"
    using assms(2,3) by (auto simp: client_ok_def)
  with start [OF assms(1) _ _ assms(5,6)] assms(2-) show ?thesis
    by (auto simp: client_ok_def)
qed

lemma client_finish:
  assumes "good i" "client_ok cov A (busy i) (request i) E ops" "a \<in> E"
  shows "client_ok cov A (busy i) (request i) (E - {a}) (ops(a := 0))"
proof -
  have "a \<notin> busy i" "a \<in> A"
    using assms(2,3) by (auto simp: client_ok_def)
  then have "request i a = None"
    using request_busy [OF assms(1)] by blast
  with assms(2,3) \<open>a \<notin> busy i\<close> show ?thesis
    by (auto simp: client_ok_def)
qed

lemma client_quiet:
  assumes "good i" "client_ok cov A (busy i) (request i) E ops" "quiet i i'"
  shows "good i' \<and> client_ok cov A (busy i') (request i') E ops"
proof -
  note Q = quiet [OF assms(1,3)]
  have "ev = 0 \<or> cov (ops a) ev" if "a \<in> A" "request i' a = Some ev" for a ev
  proof -
    have "\<And>ev. request i a = Some ev \<Longrightarrow> ev = 0 \<or> cov (ops a) ev"
      using assms(2) that(1) by (simp add: client_ok_def)
    moreover have "request i' a = request i a \<or> request i' a = Some 0"
      using Q that(2) by (metis option.distinct(1))
    ultimately show ?thesis
      using that(2) by (metis option.inject)
  qed
  then show ?thesis
    using Q assms(2) by (simp add: client_ok_def)
qed

end

section \<open>The queue keeps the contract\<close>

definition request_of :: "ioq_sys \<Rightarrow> addr \<Rightarrow> u32 option" where
  "request_of s f = (if waiting (ioq_of s) f then Some (requested (fds (ioq_of s) f)) else None)"

definition queue_good :: "epoll_ctl_fn \<Rightarrow> int \<Rightarrow> addr set \<Rightarrow> ioq_sys \<Rightarrow> bool" where
  "queue_good ctl rd A s \<longleftrightarrow> epoll_ok ctl \<and> ioq_reach ctl rd A s \<and> \<not> emptied s"

definition queue_free :: "int \<Rightarrow> ioq_sys \<Rightarrow> addr \<Rightarrow> bool" where
  "queue_free rd s f \<longleftrightarrow> fd (fds (ioq_of s) f) \<noteq> rd \<and> (\<forall>g \<in> pending s. fd (fds (ioq_of s) g) \<noteq> fd (fds (ioq_of s) f))"

lemma queue_good_step: "queue_good ctl rd A s \<Longrightarrow> ioq_step ctl rd A s s' \<Longrightarrow> emptied s' = emptied s \<Longrightarrow> queue_good ctl rd A s'"
  using ioq_reach.step by (auto simp: queue_good_def)

lemma wait_sys_fields [simp]:
  "pending (wait_sys cb f ev s) = insert f (pending s)" "dispatcher (wait_sys cb f ev s) = dispatcher s"
  "fd (fds (ioq_of (wait_sys cb f ev s)) a) = fd (fds (ioq_of s) a)" "emptied (wait_sys cb f ev s) \<longleftrightarrow> emptied s \<or> ev = 0"
  "request_of (wait_sys cb f ev s) = (request_of s)(f \<mapsto> ev)"
proof -
  define q where "q = begin_wait f ev cb (ioq_of s)"
  have q: "waiting q g \<longleftrightarrow> g = f \<or> waiting (ioq_of s) g" "requested (fds q g) = (if g = f then ev else requested (fds (ioq_of s) g))"
      "fd (fds q g) = fd (fds (ioq_of s) g)" for g
    by (simp_all add: q_def begin_wait_def upd_fd_def)
  have w: "wait_sys cb f ev s = (if ev = 0
      then s\<lparr>ioq_of := set_run (runq_task_exec f cb (run (wq q))) q, pending := insert f (pending s), emptied := True\<rparr>
      else s\<lparr>ioq_of := snd (mod_enqueue_nolock f q), notifying := notifying s + fires (fst (mod_enqueue_nolock f q)), pending := insert f (pending s)\<rparr>)"
    by (simp add: wait_sys_def q_def split_beta Let_def)
  show "pending (wait_sys cb f ev s) = insert f (pending s)" "dispatcher (wait_sys cb f ev s) = dispatcher s"
      "fd (fds (ioq_of (wait_sys cb f ev s)) a) = fd (fds (ioq_of s) a)" "emptied (wait_sys cb f ev s) \<longleftrightarrow> emptied s \<or> ev = 0"
    by (simp_all add: w q)
  have wf: "fds (ioq_of (wait_sys cb f ev s)) = (if ev = 0 then fds q else fds (snd (mod_enqueue_nolock f q)))"
    by (simp add: w)
  have "request_of (wait_sys cb f ev s) g = ((request_of s)(f \<mapsto> ev)) g" for g
    unfolding request_of_def wf using enqueue_fields(3,5) [of f q g] q(1,2) [of g] by (cases "ev = 0") auto
  then show "request_of (wait_sys cb f ev s) = (request_of s)(f \<mapsto> ev)" ..
qed

lemma rewait_sys_fields [simp]:
  "pending (rewait_sys f ev s) = pending s" "dispatcher (rewait_sys f ev s) = dispatcher s"
  "fd (fds (ioq_of (rewait_sys f ev s)) a) = fd (fds (ioq_of s) a)" "emptied (rewait_sys f ev s) = emptied s"
  "request_of (rewait_sys f ev s) = (if request_of s f = None then request_of s else (request_of s)(f \<mapsto> ev))"
proof -
  define q where "q = upd_fd f (\<lambda>x. x\<lparr>requested := ev\<rparr>) (ioq_of s)"
  have q: "waiting q g = waiting (ioq_of s) g" "requested (fds q g) = (if g = f then ev else requested (fds (ioq_of s) g))"
      "fd (fds q g) = fd (fds (ioq_of s) g)" for g
    by (simp_all add: q_def upd_fd_def)
  have w: "rewait_sys f ev s = (if waiting (ioq_of s) f then
      s\<lparr>ioq_of := snd (mod_enqueue_nolock f q), notifying := notifying s + fires (fst (mod_enqueue_nolock f q))\<rparr> else s)"
    by (simp add: rewait_sys_def rewait_locked_def q_def split_beta)
  show "pending (rewait_sys f ev s) = pending s" "dispatcher (rewait_sys f ev s) = dispatcher s"
      "fd (fds (ioq_of (rewait_sys f ev s)) a) = fd (fds (ioq_of s) a)" "emptied (rewait_sys f ev s) = emptied s"
    by (simp_all add: w q)
  show "request_of (rewait_sys f ev s) = (if request_of s f = None then request_of s else (request_of s)(f \<mapsto> ev))"
  proof (cases "waiting (ioq_of s) f")
    case True
    then have "request_of (rewait_sys f ev s) g = ((request_of s)(f \<mapsto> ev)) g" for g
      using enqueue_fields(3,5) [of f q g] by (auto simp: w request_of_def q)
    with True show ?thesis by (auto simp: request_of_def)
  qed (simp add: w request_of_def)
qed

lemma take_sys_fields [simp]:
  "pending (take_sys t r s) = pending s - {t}" "dispatcher (take_sys t r s) = dispatcher s" "fds (ioq_of (take_sys t r s)) = fds (ioq_of s)"
  "request_of (take_sys t r s) = request_of s" "emptied (take_sys t r s) = emptied s"
  by (simp_all add: take_sys_def set_job_def request_of_def fun_eq_iff)

lemma init_sys_fields [simp]: "emptied (init_sys f n s) = emptied s"
  "pending (init_sys f n s) = pending s" "dispatcher (init_sys f n s) = dispatcher s"
  "fd (fds (ioq_of (init_sys f n s)) a) = (if a = f then n else fd (fds (ioq_of s) a))"
  by (simp_all add: init_sys_def ioq_fd_init_def upd_fd_def)

text \<open>Steps of the queue keep the descriptors; a wait may end, and a request may be withdrawn.\<close>

lemma dequeue_keeps:
  assumes "mod_dequeue q = (x, q')"
  shows "waiting q' f = waiting q f" "requested (fds q' f) = requested (fds q f)" "fd (fds q' f) = fd (fds q f)"
  using assms by (auto simp: mod_dequeue_def upd_fd_def Let_def split: prod.splits if_splits)

lemma handle_keeps:
  "fd (fds (handle_mod ctl g flgs req q) f) = fd (fds q f)"
  "waiting (handle_mod ctl g flgs req q) f \<Longrightarrow> waiting q f"
  "requested (fds (handle_mod ctl g flgs req q) f) = requested (fds q f) \<or> requested (fds (handle_mod ctl g flgs req q) f) = 0"
  by (auto simp: handle_mod_def upd_fd_def split: prod.splits if_splits)

lemma internal_keeps:
  assumes "ioq_internal ctl F s s'"
  shows "pending s' = pending s \<and> emptied s' = emptied s \<and> fd (fds (ioq_of s') f) = fd (fds (ioq_of s) f) \<and>
    (request_of s' f = request_of s f \<or> request_of s' f = None \<or> request_of s' f = Some 0 \<and> request_of s f \<noteq> None)"
  using assms
proof cases
  case (notify first q)
  then show ?thesis by (auto simp: notify_locked_def request_of_def)
next
  case wr
  then show ?thesis by (simp add: pipe_write_def request_of_def)
next
  case (event e evts)
  then show ?thesis by (auto simp: wait_event_def request_of_def split: prod.splits)
next
  case (dequeue g flgs req q)
  then show ?thesis using dequeue_keeps [of "ioq_of s" _ q f] by (simp add: request_of_def)
next
  case (handle g flgs req)
  then show ?thesis using handle_keeps [of ctl g flgs req "ioq_of s" f] by (auto simp: request_of_def)
qed (simp_all add: request_of_def ack_locked_def)

interpretation ioq_svc: wait_service A "queue_good ctl rd A" pending request_of "queue_free rd" init_sys "wait_sys cb" rewait_sys takes "ioq_internal ctl A"
  for ctl rd A cb
proof
  fix i i' :: ioq_sys and f t :: addr and ev :: u32 and n :: int
  assume good: "queue_good ctl rd A i"
  obtain xs ys where inv: "ioq_inv rd A (ioq_of i) (dispatcher i) (notifying i) (writing i) (pending i) xs ys"
    using good ioq_reach_inv unfolding queue_good_def by blast
  note I = ioq_invD [OF inv]
  show "request_of i f \<noteq> None \<Longrightarrow> f \<in> A \<Longrightarrow> f \<in> pending i"
    using fd_okD(1) [OF I(7)] by (auto simp: request_of_def split: if_splits)
  show "queue_good ctl rd A (init_sys f n i) \<and> pending (init_sys f n i) = pending i \<and> request_of (init_sys f n i) = request_of i"
    if f: "f \<in> A" "f \<notin> pending i"
  proof -
    have "\<not> waiting (ioq_of i) f"
      using fd_okD(1) [OF I(7) [OF f(1)]] f(2) by blast
    then have "request_of (init_sys f n i) = request_of i"
      by (auto simp: request_of_def init_sys_def ioq_fd_init_def upd_fd_def)
    moreover have "ioq_step ctl rd A i (init_sys f n i)"
      by (rule ioq_step.init_fd [OF f])
    ultimately show ?thesis
      using good by (simp add: queue_good_step)
  qed
  show "queue_good ctl rd A (wait_sys cb f ev i) \<and> pending (wait_sys cb f ev i) = insert f (pending i) \<and>
      request_of (wait_sys cb f ev i) = (request_of i)(f \<mapsto> ev)" if f: "f \<in> A" "f \<notin> pending i" "queue_free rd i f" "ev \<noteq> 0"
  proof -
    have "fd (fds (ioq_of i) f) \<noteq> rd" "\<forall>g \<in> pending i. fd (fds (ioq_of i) g) \<noteq> fd (fds (ioq_of i) f)"
      using f(3) by (simp_all add: queue_free_def)
    from ioq_step.start [OF f(1,2) this] have "ioq_step ctl rd A i (wait_sys cb f ev i)" .
    with good f(4) show ?thesis by (simp add: queue_good_step)
  qed
  show "queue_good ctl rd A (rewait_sys f ev i) \<and> pending (rewait_sys f ev i) = pending i \<and>
      request_of (rewait_sys f ev i) = (if request_of i f = None then request_of i else (request_of i)(f \<mapsto> ev))" if "f \<in> A"
  proof -
    have "ioq_step ctl rd A i (rewait_sys f ev i)"
      by (rule ioq_step.rewait [OF that])
    with good show ?thesis by (simp add: queue_good_step)
  qed
  show "queue_good ctl rd A i' \<and> pending i' = pending i - {t} \<and> (t \<in> A \<longrightarrow> t \<in> pending i \<and> request_of i t = None) \<and>
      request_of i' = request_of i" if t: "takes i t i'"
  proof -
    obtain r where r: "run_one (run (wq (ioq_of i))) = (1, t, r)" "i' = take_sys t r i"
      using t by (auto simp: takes_def)
    then have "ioq_step ctl rd A i i'"
      by (auto intro: ioq_step.take)
    moreover have "t \<in> set ys"
      using I(4) by (cases rule: run_one_result) (use r in auto)
    ultimately show ?thesis
      using good r fd_okD(1,2) [OF I(7)] by (auto simp: queue_good_step request_of_def)
  qed
  show "queue_good ctl rd A i' \<and> pending i' = pending i \<and>
      (\<forall>f. request_of i' f = request_of i f \<or> request_of i' f = None \<or> request_of i' f = Some 0 \<and> request_of i f \<noteq> None)"
    if "ioq_internal ctl A i i'"
    using good that internal_keeps [OF that] queue_good_step ioq_step.internal by metis
qed

text \<open>A wakeup of the iterating thread is on its way.\<close>

definition wakeup_due :: "int \<Rightarrow> ioq_sys \<Rightarrow> bool" where
  "wakeup_due rd s \<longleftrightarrow> 0 < notifying s \<or> 0 < writing s \<or> 0 < pipe (ioq_of s) \<and> epoll (ioq_of s) rd = Some (1, NULL)"

text \<open>Where a wait is while the iterating thread sleeps.\<close>

lemma blocked_wait:
  assumes "queue_good ctl rd A s" "f \<in> pending s" "dispatcher s = Blocked"
  shows "\<exists>xs ys. slist_rep (mod_list (ioq_of s)) xs \<and> slist_rep (job_list (run (wq (ioq_of s)))) ys \<and>
    (f \<in> set ys \<or> f \<in> set xs \<and> wakeup_due rd s \<or>
     (\<exists>ev. ev \<noteq> 0 \<and> request_of s f = Some ev \<and> epoll (ioq_of s) (fd (fds (ioq_of s) f)) = Some (ev, f)))"
proof -
  obtain xs ys where inv: "ioq_inv rd A (ioq_of s) (dispatcher s) (notifying s) (writing s) (pending s) xs ys"
    using assms(1) ioq_reach_inv unfolding queue_good_def by blast
  note I = ioq_invD [OF inv]
  have f: "f \<in> A" "\<not> handling (dispatcher s) f"
    using I(2) assms(2,3) by (auto simp: handling_def)
  have "f \<in> set xs \<Longrightarrow> wakeup_due rd s"
    using I(10,11) assms(3) by (auto simp: signal_ok_def kernel_ok_def wakeup_due_def)
  then show ?thesis
    using I(3,4) I(7) [OF f(1)] f(2) assms(2) by (intro exI [of _ xs] exI [of _ ys]) (auto simp: fd_ok_def request_of_def)
qed

end
