(* ===== verification/Dlb_Afile.thy ===== *)
theory Dlb_Afile
  imports Dlb_Ioq_Client Dlb_Cbuf
begin

text \<open>
  Asynchronous files (\<^verbatim>\<open>src/io/afile_posix.c\<close>, \<^verbatim>\<open>src/io/afile.h\<close>): one read and one write at a time on a
  descriptor of the I/O queue. A file and its descriptor object are one address. First the operations,
  then the system in which clients, the threads that run the callback and the I/O queue interleave at the
  critical sections. Every descriptor object of the queue is that of a file.
\<close>

unbundle bit_operations_syntax

section \<open>Operations\<close>

definition IOQ_EVENT_IN :: u32 where "IOQ_EVENT_IN = 1"
definition IOQ_EVENT_OUT :: u32 where "IOQ_EVENT_OUT = 4"
definition IOQ_EVENT_ERR :: u32 where "IOQ_EVENT_ERR = 8"
definition IOQ_EVENT_HUP :: u32 where "IOQ_EVENT_HUP = 16"

definition F_WANT_READ :: u32 where "F_WANT_READ = 1"
definition F_WANT_WRITE :: u32 where "F_WANT_WRITE = 2"
definition F_WANT_CANCEL :: u32 where "F_WANT_CANCEL = 4"

record afile_op =
  op_func :: nat
  op_buffer :: addr
  op_size :: nat
  op_error :: int

record afile =
  read_op :: afile_op
  write_op :: afile_op
  aflags :: u32

text \<open>
  The system calls: the result and \<open>errno\<close>, for \<open>read\<close> with the bytes that were read.
\<close>

type_synonym sys_read = "int \<Rightarrow> nat \<Rightarrow> int \<times> u8 list \<times> int"
type_synonym sys_write = "int \<Rightarrow> u8 list \<Rightarrow> int \<times> int"

definition put_bytes :: "addr \<Rightarrow> u8 list \<Rightarrow> mem \<Rightarrow> mem" where
  "put_bytes p bs m = (\<lambda>x. if p \<le> x \<and> x < p + length bs then bs ! (x - p) else m x)"

text \<open>The choice under the lock in \<open>end_wait\<close>: what to perform, the error, the flags that remain and the events to wait for.\<close>

definition end_wait_write :: "u32 \<Rightarrow> u32 \<Rightarrow> u32 \<times> u32 \<times> u32" where
  "end_wait_write rdy fl =
     (if fl AND F_WANT_WRITE \<noteq> 0 then
        if rdy AND (IOQ_EVENT_OUT OR IOQ_EVENT_ERR OR IOQ_EVENT_HUP) \<noteq> 0 then (F_WANT_WRITE, fl AND NOT F_WANT_WRITE, 0)
        else (0, fl, IOQ_EVENT_OUT)
      else (0, fl, 0))"

definition end_wait_read :: "u32 \<Rightarrow> u32 \<Rightarrow> u32 \<times> u32 \<times> u32" where
  "end_wait_read rdy fl =
     (if fl AND F_WANT_READ \<noteq> 0 then
        if rdy AND (IOQ_EVENT_IN OR IOQ_EVENT_ERR OR IOQ_EVENT_HUP) \<noteq> 0 then (F_WANT_READ, fl AND NOT F_WANT_READ, 0)
        else (0, fl, IOQ_EVENT_IN)
      else (0, fl, 0))"

definition end_wait_choice :: "int \<Rightarrow> u32 \<Rightarrow> u32 \<Rightarrow> u32 \<times> int \<times> u32 \<times> u32" where
  "end_wait_choice er rdy fl =
     (if er \<noteq> 0 then (fl OR F_WANT_CANCEL, er, 0, 0)
      else if fl AND F_WANT_CANCEL \<noteq> 0 then (fl OR F_WANT_CANCEL, 0, 0, 0)
      else case end_wait_write rdy fl of (p1, fl, m1) \<Rightarrow> case end_wait_read rdy fl of (p2, fl, m2) \<Rightarrow>
        (p1 OR p2, 0, fl, m1 OR m2))"

text \<open>The state of the files: the queue, the files and the memory. \<open>cbk\<close> is the code of \<open>ioq_cb\<close>.\<close>

record afiles =
  io_q :: ioq
  files :: "addr \<Rightarrow> afile"
  amem :: mem

definition upd_file :: "addr \<Rightarrow> (afile \<Rightarrow> afile) \<Rightarrow> (addr \<Rightarrow> afile) \<Rightarrow> addr \<Rightarrow> afile" where
  "upd_file a g fs = fs(a := g (fs a))"

definition afile_end_wait :: "nat \<Rightarrow> addr \<Rightarrow> afiles \<Rightarrow> (u32 \<times> int) \<times> afiles" where
  "afile_end_wait cbk a s =
     (case end_wait_choice (ioq_fd_error a (io_q s)) (ioq_fd_ready a (io_q s)) (aflags (files s a)) of (perform, e, fl, m) \<Rightarrow>
        ((perform, e), s\<lparr>files := upd_file a (\<lambda>x. x\<lparr>aflags := fl\<rparr>) (files s),
                         io_q := (if m \<noteq> 0 then ioq_fd_wait a m cbk (io_q s) else io_q s)\<rparr>))"

text \<open>The completion of a read, and of a write, before the call of the client's function.\<close>

definition finish_read :: "sys_read \<Rightarrow> int \<Rightarrow> u32 \<Rightarrow> int \<Rightarrow> afile \<times> mem \<Rightarrow> afile \<times> mem" where
  "finish_read rd n perform e x = (case x of (f, m) \<Rightarrow>
     if perform AND F_WANT_CANCEL \<noteq> 0 then (f\<lparr>read_op := (read_op f)\<lparr>op_size := 0, op_error := e\<rparr>\<rparr>, m)
     else (case rd n (op_size (read_op f)) of (ret, bs, errno) \<Rightarrow>
       let m = put_bytes (op_buffer (read_op f)) bs m; r = sint (word_of_int ret :: u32) in
       if r < 0 then (f\<lparr>read_op := (read_op f)\<lparr>op_size := 0, op_error := errno\<rparr>\<rparr>, m)
       else (f\<lparr>read_op := (read_op f)\<lparr>op_size := nat r, op_error := 0\<rparr>\<rparr>, m)))"

definition finish_write :: "sys_write \<Rightarrow> int \<Rightarrow> u32 \<Rightarrow> int \<Rightarrow> afile \<times> mem \<Rightarrow> afile \<times> mem" where
  "finish_write wrt n perform e x = (case x of (f, m) \<Rightarrow>
     if perform AND F_WANT_CANCEL \<noteq> 0 then (f\<lparr>write_op := (write_op f)\<lparr>op_size := 0, op_error := e\<rparr>\<rparr>, m)
     else (case wrt n (bytes_at m (op_buffer (write_op f)) (op_size (write_op f))) of (ret, errno) \<Rightarrow>
       let r = sint (word_of_int ret :: u32) in
       if r < 0 then (f\<lparr>read_op := (read_op f)\<lparr>op_size := 0, op_error := errno\<rparr>\<rparr>, m)
       else (f\<lparr>read_op := (read_op f)\<lparr>op_size := nat r, op_error := 0\<rparr>\<rparr>, m)))"

text \<open>The callback of the descriptor; \<open>cl\<close> are the client's functions.\<close>

definition afile_ioq_cb :: "sys_read \<Rightarrow> sys_write \<Rightarrow> (nat \<Rightarrow> addr \<Rightarrow> afiles \<Rightarrow> afiles) \<Rightarrow> nat \<Rightarrow> addr \<Rightarrow> afiles \<Rightarrow> afiles" where
  "afile_ioq_cb rd wrt cl cbk a s = (case afile_end_wait cbk a s of ((perform, e), s) \<Rightarrow>
     let s = (if perform AND F_WANT_READ \<noteq> 0 then
                (case finish_read rd (fd (fds (io_q s) a)) perform e (files s a, amem s) of (f, m) \<Rightarrow>
                   cl (op_func (read_op f)) a (s\<lparr>files := (files s)(a := f), amem := m\<rparr>))
              else s)
     in if perform AND F_WANT_WRITE \<noteq> 0 then
          (case finish_write wrt (fd (fds (io_q s) a)) perform e (files s a, amem s) of (f, m) \<Rightarrow>
             cl (op_func (write_op f)) a (s\<lparr>files := (files s)(a := f), amem := m\<rparr>))
        else s)"

definition blank_op :: afile_op where
  "blank_op = \<lparr>op_func = 0, op_buffer = NULL, op_size = 0, op_error = 0\<rparr>"

definition afile_init :: "addr \<Rightarrow> int \<Rightarrow> afiles \<Rightarrow> afiles" where
  "afile_init a h s = s\<lparr>io_q := ioq_fd_init a h (io_q s),
     files := (files s)(a := \<lparr>read_op = blank_op, write_op = blank_op, aflags = 0\<rparr>)\<rparr>"

definition set_write :: "addr \<Rightarrow> nat \<Rightarrow> nat \<Rightarrow> afile \<Rightarrow> afile" where
  "set_write buf len func f = f\<lparr>write_op := (write_op f)\<lparr>op_buffer := buf, op_size := len, op_func := func\<rparr>\<rparr>"

definition set_read :: "addr \<Rightarrow> nat \<Rightarrow> nat \<Rightarrow> afile \<Rightarrow> afile" where
  "set_read buf len func f = f\<lparr>read_op := (read_op f)\<lparr>op_buffer := buf, op_size := len, op_func := func\<rparr>\<rparr>"

definition add_flags :: "u32 \<Rightarrow> afile \<Rightarrow> afile" where
  "add_flags w f = f\<lparr>aflags := aflags f OR w\<rparr>"

definition afile_write :: "nat \<Rightarrow> addr \<Rightarrow> addr \<Rightarrow> nat \<Rightarrow> nat \<Rightarrow> afiles \<Rightarrow> afiles" where
  "afile_write cbk a buf len func s =
     (let s = s\<lparr>files := upd_file a (set_write buf len func) (files s)\<rparr>;
          s = s\<lparr>io_q := (if aflags (files s a) \<noteq> 0 then ioq_fd_rewait a (IOQ_EVENT_IN OR IOQ_EVENT_OUT) (io_q s)
                         else ioq_fd_wait a IOQ_EVENT_OUT cbk (io_q s))\<rparr>
      in s\<lparr>files := upd_file a (add_flags F_WANT_WRITE) (files s)\<rparr>)"

definition afile_read :: "nat \<Rightarrow> addr \<Rightarrow> addr \<Rightarrow> nat \<Rightarrow> nat \<Rightarrow> afiles \<Rightarrow> afiles" where
  "afile_read cbk a buf len func s =
     (let s = s\<lparr>files := upd_file a (set_read buf len func) (files s)\<rparr>;
          s = s\<lparr>io_q := (if aflags (files s a) \<noteq> 0 then ioq_fd_rewait a (IOQ_EVENT_IN OR IOQ_EVENT_OUT) (io_q s)
                         else ioq_fd_wait a IOQ_EVENT_IN cbk (io_q s))\<rparr>
      in s\<lparr>files := upd_file a (add_flags F_WANT_READ) (files s)\<rparr>)"

definition afile_cancel :: "addr \<Rightarrow> afiles \<Rightarrow> afiles" where
  "afile_cancel a s = s\<lparr>io_q := ioq_fd_cancel a (io_q s), files := upd_file a (add_flags F_WANT_CANCEL) (files s)\<rparr>"

definition afile_read_size :: "afile \<Rightarrow> nat" where "afile_read_size f = op_size (read_op f)"
definition afile_read_error :: "afile \<Rightarrow> int" where "afile_read_error f = op_error (read_op f)"
definition afile_write_size :: "afile \<Rightarrow> nat" where "afile_write_size f = op_size (write_op f)"
definition afile_write_error :: "afile \<Rightarrow> int" where "afile_write_error f = op_error (write_op f)"

definition afile_get_handle :: "addr \<Rightarrow> afiles \<Rightarrow> int" where
  "afile_get_handle a s = ioq_fd_get_fd a (io_q s)"

definition afile_set_handle :: "addr \<Rightarrow> int \<Rightarrow> afiles \<Rightarrow> afiles" where
  "afile_set_handle a h s = s\<lparr>io_q := ioq_fd_set_fd a h (io_q s)\<rparr>"

section \<open>The system\<close>

datatype dir = Read | Write

primrec dir_flag :: "dir \<Rightarrow> u32" where
  "dir_flag Read = F_WANT_READ"
| "dir_flag Write = F_WANT_WRITE"

primrec dir_event :: "dir \<Rightarrow> u32" where
  "dir_event Read = IOQ_EVENT_IN"
| "dir_event Write = IOQ_EVENT_OUT"

text \<open>
  \<open>entering\<close> are the files whose callback has been taken from the run queue and has not yet got the lock,
  \<open>acts\<close> the threads after it, with what they still have to perform. \<open>asked\<close> are the requests that have not completed.
\<close>

record afile_sys =
  io :: ioq_sys
  afl :: "addr \<Rightarrow> afile"
  smem :: mem
  entering :: "addr set"
  acts :: "(addr \<times> u32 \<times> int) list"
  asked :: "(addr \<times> dir) set"
  idle_cancels :: "addr set"  \<comment> \<open>files that were cancelled while no operation was marked\<close>

text \<open>The critical section of \<open>afile_read\<close> and \<open>afile_write\<close>, for the events of the direction.\<close>

definition begin_request :: "nat \<Rightarrow> addr \<Rightarrow> dir \<Rightarrow> u32 \<Rightarrow> ioq_sys \<Rightarrow> ioq_sys" where
  "begin_request cbk a d fl i =
     (if fl \<noteq> 0 then rewait_sys a (IOQ_EVENT_IN OR IOQ_EVENT_OUT) i else wait_sys cbk a (dir_event d) i)"

inductive afile_step :: "epoll_ctl_fn \<Rightarrow> nat \<Rightarrow> addr set \<Rightarrow> afile_sys \<Rightarrow> afile_sys \<Rightarrow> bool" for ctl cbk A where
  rd: "a \<in> A \<Longrightarrow> (a, Read) \<notin> asked s \<Longrightarrow> afile_step ctl cbk A s (s\<lparr>
     io := begin_request cbk a Read (aflags (afl s a)) (io s),
     afl := upd_file a (\<lambda>x. add_flags F_WANT_READ (set_read p n func x)) (afl s), asked := insert (a, Read) (asked s)\<rparr>)"
| wr: "a \<in> A \<Longrightarrow> (a, Write) \<notin> asked s \<Longrightarrow> afile_step ctl cbk A s (s\<lparr>
     io := begin_request cbk a Write (aflags (afl s a)) (io s),
     afl := upd_file a (\<lambda>x. add_flags F_WANT_WRITE (set_write p n func x)) (afl s), asked := insert (a, Write) (asked s)\<rparr>)"
| cancel: "a \<in> A \<Longrightarrow> afile_step ctl cbk A s (s\<lparr>
     io := rewait_sys a 0 (io s), afl := upd_file a (add_flags F_WANT_CANCEL) (afl s),
     idle_cancels := (if aflags (afl s a) = 0 then insert a (idle_cancels s) else idle_cancels s)\<rparr>)"
| take: "takes (io s) t i \<Longrightarrow> afile_step ctl cbk A s (s\<lparr>
     io := i, entering := entering s \<union> (A \<inter> {t})\<rparr>)"
| enter: "a \<in> entering s \<Longrightarrow>
     end_wait_choice (ioq_fd_error a (ioq_of (io s))) (ioq_fd_ready a (ioq_of (io s))) (aflags (afl s a)) = (perform, e, fl, m) \<Longrightarrow>
     afile_step ctl cbk A s (s\<lparr>
     io := (if m \<noteq> 0 then wait_sys cbk a m (io s) else io s), afl := upd_file a (\<lambda>x. x\<lparr>aflags := fl\<rparr>) (afl s),
     entering := entering s - {a}, acts := (a, perform, e) # acts s\<rparr>)"
| done_rd: "acts s = xs @ (a, perform, e) # ys \<Longrightarrow> perform AND F_WANT_READ \<noteq> 0 \<Longrightarrow>
     finish_read sr (fd (fds (ioq_of (io s)) a)) perform e (afl s a, smem s) = (f, m) \<Longrightarrow>
     afile_step ctl cbk A s (s\<lparr>
     afl := (afl s)(a := f), smem := m, acts := xs @ (a, perform AND NOT F_WANT_READ, e) # ys, asked := asked s - {(a, Read)}\<rparr>)"
| done_wr: "acts s = xs @ (a, perform, e) # ys \<Longrightarrow> perform AND F_WANT_READ = 0 \<Longrightarrow> perform AND F_WANT_WRITE \<noteq> 0 \<Longrightarrow>
     finish_write sw (fd (fds (ioq_of (io s)) a)) perform e (afl s a, smem s) = (f, m) \<Longrightarrow>
     afile_step ctl cbk A s (s\<lparr>
     afl := (afl s)(a := f), smem := m, acts := xs @ (a, perform AND NOT F_WANT_WRITE, e) # ys, asked := asked s - {(a, Write)}\<rparr>)"
| queue: "ioq_internal ctl A (io s) i \<Longrightarrow> afile_step ctl cbk A s (s\<lparr>io := i\<rparr>)"

text \<open>Files on distinct descriptors, none of them the queue's own.\<close>

inductive afile_reach :: "epoll_ctl_fn \<Rightarrow> int \<Rightarrow> nat \<Rightarrow> addr set \<Rightarrow> afile_sys \<Rightarrow> bool" for ctl rd cbk A where
  init: "ioq_reach ctl rd A i \<Longrightarrow> pending i = {} \<Longrightarrow> \<not> emptied i \<Longrightarrow> inj_on (\<lambda>a. fd (fds (ioq_of i) a)) A \<Longrightarrow>
     \<forall>a \<in> A. fd (fds (ioq_of i) a) \<noteq> rd \<Longrightarrow> \<forall>a. aflags (fs a) = 0 \<Longrightarrow>
     afile_reach ctl rd cbk A \<lparr>io = i, afl = fs, smem = mm, entering = {}, acts = [], asked = {}, idle_cancels = {}\<rparr>"
| step: "afile_reach ctl rd cbk A s \<Longrightarrow> afile_step ctl cbk A s s' \<Longrightarrow> afile_reach ctl rd cbk A s'"

section \<open>The invariant\<close>

lemma want_bits:
  "x AND F_WANT_READ = 0 \<longleftrightarrow> \<not> bit x 0" "x AND F_WANT_WRITE = 0 \<longleftrightarrow> \<not> bit x 1" "x AND F_WANT_CANCEL = 0 \<longleftrightarrow> \<not> bit x 2"
  "bit F_WANT_READ n \<longleftrightarrow> n = 0" "bit F_WANT_WRITE n \<longleftrightarrow> n = 1" "bit F_WANT_CANCEL n \<longleftrightarrow> n = 2"
  using flag_bit [of x] bit_flag [of n]
  by (simp_all add: F_WANT_READ_def F_WANT_WRITE_def F_WANT_CANCEL_def IOQ_FLAG_MOD_LIST_def IOQ_FLAG_EPOLL_def IOQ_FLAG_WAITING_def)

lemma want_zero: "(x :: u32) = 0 \<longleftrightarrow> \<not> bit x 0 \<and> \<not> bit x 1 \<and> \<not> bit x 2" if "\<forall>n. bit x n \<longrightarrow> n < 3"
proof -
  have "bit x n \<longleftrightarrow> bit x n \<and> (n = 0 \<or> n = 1 \<or> n = 2)" for n
    using that by (metis One_nat_def less_Suc0 less_Suc_eq numeral_2_eq_2 numeral_3_eq_3)
  then show ?thesis
    by (metis bit_0_eq bit_eqI bot_apply bot_bool_def)
qed

text \<open>Flags that say something else than the three bits do not occur.\<close>

definition three_bits :: "u32 \<Rightarrow> bool" where
  "three_bits x \<longleftrightarrow> (\<forall>n. bit x n \<longrightarrow> n < 3)"

lemma event_bits:
  "x AND IOQ_EVENT_IN = 0 \<longleftrightarrow> \<not> bit x 0" "x AND IOQ_EVENT_OUT = 0 \<longleftrightarrow> \<not> bit x 2"
  "bit IOQ_EVENT_IN n \<longleftrightarrow> n = 0" "bit IOQ_EVENT_OUT n \<longleftrightarrow> n = 2"
  using want_bits(1,3) [of x] want_bits(4,6) [of n] by (simp_all add: F_WANT_READ_def F_WANT_CANCEL_def IOQ_EVENT_IN_def IOQ_EVENT_OUT_def)

text \<open>The events cover the operations: each flag has its event.\<close>

definition covers :: "u32 \<Rightarrow> u32 \<Rightarrow> bool" where
  "covers fl ev \<longleftrightarrow> (\<forall>d. fl AND dir_flag d \<noteq> 0 \<longrightarrow> ev AND dir_event d \<noteq> 0)"

lemma covers_bits: "covers fl ev \<longleftrightarrow> (bit fl 0 \<longrightarrow> bit ev 0) \<and> (bit fl 1 \<longrightarrow> bit ev 2)"
proof -
  have "(\<forall>d. P d) \<longleftrightarrow> P Read \<and> P Write" for P
    by (metis dir.exhaust)
  then show ?thesis
    by (simp add: covers_def want_bits event_bits)
qed

lemma end_wait_choice_cases:
  assumes "end_wait_choice er rdy fl = (perform, e, fl', m)"
  obtains (cancelled) "perform = fl OR F_WANT_CANCEL" "fl' = 0" "m = 0"
    | (chosen) w r where "\<not> bit fl 2" "perform = (if bit fl 1 \<and> w then F_WANT_WRITE else 0) OR (if bit fl 0 \<and> r then F_WANT_READ else 0)"
      "m = (if bit fl 1 \<and> \<not> w then IOQ_EVENT_OUT else 0) OR (if bit fl 0 \<and> \<not> r then IOQ_EVENT_IN else 0)"
      "\<And>n. bit fl' n \<longleftrightarrow> bit fl n \<and> \<not> (n = 1 \<and> w) \<and> \<not> (n = 0 \<and> r)"
proof (cases "er \<noteq> 0 \<or> bit fl 2")
  case True
  with assms cancelled show ?thesis by (auto simp: end_wait_choice_def want_bits split: if_splits)
next
  case False
  define w where "w \<longleftrightarrow> rdy AND (IOQ_EVENT_OUT OR IOQ_EVENT_ERR OR IOQ_EVENT_HUP) \<noteq> 0"
  define r where "r \<longleftrightarrow> rdy AND (IOQ_EVENT_IN OR IOQ_EVENT_ERR OR IOQ_EVENT_HUP) \<noteq> 0"
  have len: "bit fl n \<Longrightarrow> n < 32" for n
    using bit_imp_le_length [of fl n] by simp
  show ?thesis
  proof (rule chosen [of w r])
    show "\<not> bit fl 2" using False by simp
  qed (use assms False in \<open>auto simp: end_wait_choice_def end_wait_write_def end_wait_read_def want_bits bit_and_iff bit_not_iff len
      simp flip: w_def r_def split: if_splits\<close>)
qed

text \<open>What the callback chooses: every flag is performed or kept, and it waits again exactly when a flag is kept, for events that cover them.\<close>

lemma end_wait_choice_ok:
  assumes "end_wait_choice er rdy fl = (perform, e, fl', m)" "three_bits fl"
  shows "three_bits fl'" "fl' = 0 \<longleftrightarrow> m = 0" "covers fl' m"
    "fires (perform AND dir_flag d \<noteq> 0) + fires (fl' AND dir_flag d \<noteq> 0) = fires (fl AND dir_flag d \<noteq> 0)"
proof -
  have z: "IOQ_EVENT_IN \<noteq> 0" "IOQ_EVENT_OUT \<noteq> 0"
    by (simp_all add: IOQ_EVENT_IN_def IOQ_EVENT_OUT_def)
  from assms(1) have "three_bits fl' \<and> (fl' = 0 \<longleftrightarrow> m = 0) \<and> covers fl' m \<and>
    fires (perform AND dir_flag d \<noteq> 0) + fires (fl' AND dir_flag d \<noteq> 0) = fires (fl AND dir_flag d \<noteq> 0)"
  proof (cases rule: end_wait_choice_cases)
    case cancelled
    then show ?thesis
      by (cases d) (simp_all add: three_bits_def covers_bits want_bits bit_or_iff)
  next
    case (chosen w r)
    have t: "three_bits fl'"
      using assms(2) chosen(4) by (simp add: three_bits_def)
    moreover have "fl' = 0 \<longleftrightarrow> m = 0"
      unfolding want_zero [OF t [unfolded three_bits_def]] chosen(3,4) or_eq_0_iff using z chosen(1) by auto
    ultimately show ?thesis
      using chosen(1,2,3,4) by (cases d) (auto simp: covers_bits want_bits event_bits bit_or_iff)
  qed
  then show "three_bits fl'" "fl' = 0 \<longleftrightarrow> m = 0" "covers fl' m"
    "fires (perform AND dir_flag d \<noteq> 0) + fires (fl' AND dir_flag d \<noteq> 0) = fires (fl AND dir_flag d \<noteq> 0)"
    by blast+
qed

text \<open>Threads that are about to perform an operation.\<close>

definition act_count :: "(addr \<times> u32 \<times> int) list \<Rightarrow> addr \<Rightarrow> dir \<Rightarrow> nat" where
  "act_count xs a d = length (filter (\<lambda>(b, p, e). b = a \<and> p AND dir_flag d \<noteq> 0) xs)"

lemma act_count_simps [simp]:
  "act_count [] a d = 0" "act_count ((b, p, e) # xs) a d = fires (b = a \<and> p AND dir_flag d \<noteq> 0) + act_count xs a d"
  "act_count (xs @ ys) a d = act_count xs a d + act_count ys a d"
  by (simp_all add: act_count_def)

definition requests_ok :: "addr set \<Rightarrow> (addr \<Rightarrow> u32) \<Rightarrow> (addr \<times> u32 \<times> int) list \<Rightarrow> (addr \<times> dir) set \<Rightarrow> bool" where
  "requests_ok A fl xs Q \<longleftrightarrow> (\<forall>a \<in> A. three_bits (fl a) \<and>
     (\<forall>d. fires (fl a AND dir_flag d \<noteq> 0) + act_count xs a d = fires ((a, d) \<in> Q)))"

abbreviation file_flags :: "afile_sys \<Rightarrow> addr \<Rightarrow> u32" where
  "file_flags s \<equiv> \<lambda>a. aflags (afl s a)"

text \<open>Every file has a descriptor of its own.\<close>

definition fds_apart :: "int \<Rightarrow> addr set \<Rightarrow> ioq_sys \<Rightarrow> bool" where
  "fds_apart rd A i \<longleftrightarrow> inj_on (\<lambda>a. fd (fds (ioq_of i) a)) A \<and> (\<forall>a \<in> A. fd (fds (ioq_of i) a) \<noteq> rd)"

lemma fds_apart_cong: "fds_apart rd A i \<Longrightarrow> (\<And>a. fd (fds (ioq_of i') a) = fd (fds (ioq_of i) a)) \<Longrightarrow> fds_apart rd A i'"
  by (simp add: fds_apart_def)

lemma fds_apart_free:
  assumes "queue_good ctl rd A i" "fds_apart rd A i" "a \<in> A" "a \<notin> pending i"
  shows "queue_free rd i a"
proof -
  have "pending i \<subseteq> A"
    using assms(1) ioq_reach_inv ioq_invD(2) unfolding queue_good_def by blast
  with assms(2-) show ?thesis
    by (auto simp: queue_free_def fds_apart_def inj_on_def)
qed

text \<open>The flags of a file, except when a cancellation without an operation has left them set for ever.\<close>

definition good_flags :: "addr set \<Rightarrow> (addr \<Rightarrow> u32) \<Rightarrow> addr \<Rightarrow> u32" where
  "good_flags X fl a = (if a \<in> X then 0 else fl a)"

lemma good_flags_upd: "good_flags X (fl(a := x)) = (if a \<in> X then good_flags X fl else (good_flags X fl)(a := x))"
  by (auto simp: good_flags_def)

definition stuck_ok :: "addr set \<Rightarrow> (addr \<Rightarrow> u32) \<Rightarrow> bool" where
  "stuck_ok X fl \<longleftrightarrow> (\<forall>a \<in> X. fl a \<noteq> 0)"

definition afile_inv :: "epoll_ctl_fn \<Rightarrow> int \<Rightarrow> addr set \<Rightarrow> afile_sys \<Rightarrow> bool" where
  "afile_inv ctl rd A s \<longleftrightarrow> queue_good ctl rd A (io s) \<and> fds_apart rd A (io s) \<and>
     client_ok covers A (pending (io s)) (request_of (io s)) (entering s) (good_flags (idle_cancels s) (file_flags s)) \<and>
     stuck_ok (idle_cancels s) (file_flags s) \<and> requests_ok A (file_flags s) (acts s) (asked s)"

lemma file_flags_upd [simp]:
  "aflags (add_flags w f) = aflags f OR w" "aflags (set_read p n c f) = aflags f" "aflags (set_write p n c f) = aflags f"
  "(\<lambda>b. aflags (upd_file a g fs b)) = (\<lambda>b. aflags (fs b))(a := aflags (g (fs a)))"
  "(\<lambda>b. aflags ((fs(a := f)) b)) = (\<lambda>b. aflags (fs b))(a := aflags f)"
  by (auto simp: add_flags_def set_read_def set_write_def upd_file_def)

lemma finish_flags:
  "finish_read sr n p e (f, m) = (f', m') \<Longrightarrow> aflags f' = aflags f"
  "finish_write sw n p e (f, m) = (f', m') \<Longrightarrow> aflags f' = aflags f"
  by (auto simp: finish_read_def finish_write_def Let_def split: prod.splits if_splits)

lemma flags_or:
  assumes "three_bits x" "w = dir_flag d \<or> w = F_WANT_CANCEL"
  shows "three_bits (x OR w)" "x OR w \<noteq> 0" "(x OR w) AND dir_flag d' \<noteq> 0 \<longleftrightarrow> x AND dir_flag d' \<noteq> 0 \<or> w = dir_flag d'"
proof -
  have n: "F_WANT_READ \<noteq> F_WANT_WRITE" "F_WANT_CANCEL \<noteq> F_WANT_READ" "F_WANT_CANCEL \<noteq> F_WANT_WRITE" "F_WANT_READ \<noteq> 0" "F_WANT_WRITE \<noteq> 0" "F_WANT_CANCEL \<noteq> 0"
    by (simp_all add: F_WANT_READ_def F_WANT_WRITE_def F_WANT_CANCEL_def)
  have w: "w = F_WANT_READ \<or> w = F_WANT_WRITE \<or> w = F_WANT_CANCEL"
    using assms(2) by (cases d) auto
  then show "three_bits (x OR w)"
    using assms(1) by (auto simp: three_bits_def bit_or_iff want_bits)
  show "x OR w \<noteq> 0"
    using w n by (auto simp: or_eq_0_iff)
  show "(x OR w) AND dir_flag d' \<noteq> 0 \<longleftrightarrow> x AND dir_flag d' \<noteq> 0 \<or> w = dir_flag d'"
    using w n by (cases d') (auto simp: want_bits bit_or_iff)
qed

lemma requests_add:
  assumes "requests_ok A fl xs Q" "(a, d) \<notin> Q"
  shows "requests_ok A (fl(a := fl a OR dir_flag d)) xs (insert (a, d) Q)"
proof -
  have dd: "dir_flag d = dir_flag d' \<longleftrightarrow> d = d'" for d'
    by (cases d; cases d') (simp_all add: F_WANT_READ_def F_WANT_WRITE_def)
  have "three_bits (fl a OR dir_flag d)" "fires ((fl a OR dir_flag d) AND dir_flag d' \<noteq> 0) + act_count xs a d' = fires ((a, d') \<in> insert (a, d) Q)"
    if "a \<in> A" for d'
  proof -
    have t: "three_bits (fl a)" and c: "fires (fl a AND dir_flag d' \<noteq> 0) + act_count xs a d' = fires ((a, d') \<in> Q)" for d'
      using assms(1) that by (simp_all add: requests_ok_def)
    show "three_bits (fl a OR dir_flag d)"
      using flags_or(1) [OF t] by blast
    have "(fl a OR dir_flag d) AND dir_flag d' \<noteq> 0 \<longleftrightarrow> fl a AND dir_flag d' \<noteq> 0 \<or> d = d'"
      using flags_or(3) [OF t, of "dir_flag d" d] dd by simp
    then show "fires ((fl a OR dir_flag d) AND dir_flag d' \<noteq> 0) + act_count xs a d' = fires ((a, d') \<in> insert (a, d) Q)"
      using c [of d'] assms(2) by (auto split: if_splits)
  qed
  with assms(1) show ?thesis
    by (auto simp: requests_ok_def)
qed

lemma requests_cancel:
  assumes "requests_ok A fl xs Q"
  shows "requests_ok A (fl(a := fl a OR F_WANT_CANCEL)) xs Q"
proof -
  have "F_WANT_CANCEL \<noteq> dir_flag d" for d
    by (cases d) (simp_all add: F_WANT_READ_def F_WANT_WRITE_def F_WANT_CANCEL_def)
  then show ?thesis
    using assms flags_or(1,3) [of "fl a" F_WANT_CANCEL] by (auto simp: requests_ok_def)
qed

lemma requests_enter:
  assumes "requests_ok A fl xs Q" "end_wait_choice er rdy (fl a) = (perform, e, fl', m)" "a \<in> A"
  shows "requests_ok A (fl(a := fl')) ((a, perform, e) # xs) Q"
proof -
  have t: "three_bits (fl a)" and c: "fires (fl a AND dir_flag d \<noteq> 0) + act_count xs a d = fires ((a, d) \<in> Q)" for d
    using assms(1,3) by (simp_all add: requests_ok_def)
  note C = end_wait_choice_ok [OF assms(2) t]
  have "fires (fl' AND dir_flag d \<noteq> 0) + act_count ((a, perform, e) # xs) a d = fires ((a, d) \<in> Q)" for d
    using c [of d] C(4) [of d] by (auto split: if_splits)
  with C(1) assms(1) show ?thesis
    by (simp add: requests_ok_def)
qed

lemma requests_done:
  assumes "requests_ok A fl (xs @ (a, p, e) # ys) Q" "p AND dir_flag d \<noteq> 0"
  shows "requests_ok A fl (xs @ (a, p AND NOT (dir_flag d), e) # ys) (Q - {(a, d)})"
proof -
  have dd: "(p AND NOT (dir_flag d)) AND dir_flag d' \<noteq> 0 \<longleftrightarrow> d' \<noteq> d \<and> p AND dir_flag d' \<noteq> 0" for d'
    by (cases d; cases d') (auto simp: want_bits bit_and_iff bit_not_iff)
  have "fires (fl b AND dir_flag d' \<noteq> 0) + act_count (xs @ (a, p AND NOT (dir_flag d), e) # ys) b d' = fires ((b, d') \<in> Q - {(a, d)})"
    if "b \<in> A" for b d'
  proof -
    have "fires (fl b AND dir_flag d' \<noteq> 0) + act_count (xs @ (a, p, e) # ys) b d' = fires ((b, d') \<in> Q)"
      using assms(1) that by (simp only: requests_ok_def)
    with assms(2) show ?thesis
      by (cases "b = a \<and> d' = d") (auto simp: dd split: if_splits)
  qed
  with assms(1) show ?thesis
    by (simp add: requests_ok_def)
qed

lemma afile_invI:
  assumes "queue_good ctl rd A (io s) \<and> client_ok covers A (pending (io s)) (request_of (io s)) (entering s) (good_flags (idle_cancels s) (file_flags s))"
    "stuck_ok (idle_cancels s) (file_flags s)" "requests_ok A (file_flags s) (acts s) (asked s)" "fds_apart rd A (io s)"
  shows "afile_inv ctl rd A s"
  using assms by (simp add: afile_inv_def)

lemma begin_request_ok:
  assumes "queue_good ctl rd A i" "client_ok covers A (pending i) (request_of i) E (good_flags X fl)" "a \<in> A" "three_bits (fl a)" "fds_apart rd A i"
    "stuck_ok X fl" and i': "i' = begin_request cbk a d (fl a) i"
  shows "queue_good ctl rd A i' \<and> client_ok covers A (pending i') (request_of i') E (good_flags X (fl(a := fl a OR dir_flag d))) \<and> fds_apart rd A i'"
proof -
  have ap: "fds_apart rd A i'"
    using assms(5) by (rule fds_apart_cong) (simp add: i' begin_request_def)
  have ev: "IOQ_EVENT_IN OR IOQ_EVENT_OUT \<noteq> 0" "dir_event d \<noteq> 0"
    by (cases d; simp add: IOQ_EVENT_IN_def IOQ_EVENT_OUT_def)+
  have cov: "covers x (IOQ_EVENT_IN OR IOQ_EVENT_OUT)" "covers (dir_flag d) (dir_event d)" for x
    by (cases d; simp add: covers_bits bit_or_iff want_bits event_bits)+
  have x: "fl a OR dir_flag d \<noteq> 0"
    using flags_or(2) [OF assms(4)] by blast
  consider "a \<in> X" "fl a \<noteq> 0" "good_flags X fl a = 0" | "a \<notin> X" "fl a = 0" "good_flags X fl a = 0" | "a \<notin> X" "fl a \<noteq> 0" "good_flags X fl a \<noteq> 0"
    using assms(6) by (auto simp: stuck_ok_def good_flags_def)
  then show ?thesis
  proof cases
    case 1
    with ap ioq_svc.client_rewait_idle [OF assms(1-3), of "IOQ_EVENT_IN OR IOQ_EVENT_OUT"] show ?thesis
      by (simp add: i' begin_request_def good_flags_upd)
  next
    case 2
    then have "queue_free rd i a"
      using fds_apart_free [OF assms(1,5,3)] assms(2,3) by (auto simp: client_ok_def)
    with 2 ap ioq_svc.client_start [OF assms(1,2,3), of "fl a OR dir_flag d" "dir_event d" cbk] x ev cov(2) show ?thesis
      by (simp add: i' begin_request_def good_flags_upd)
  next
    case 3
    with ap ioq_svc.client_rewait [OF assms(1,2,3), of "fl a OR dir_flag d" "IOQ_EVENT_IN OR IOQ_EVENT_OUT"] x cov(1) show ?thesis
      by (simp add: i' begin_request_def good_flags_upd)
  qed
qed

lemma afile_cancel_ok:
  assumes "queue_good ctl rd A i" "client_ok covers A (pending i) (request_of i) E (good_flags X fl)" "a \<in> A" "three_bits (fl a)" "stuck_ok X fl"
  defines "Y \<equiv> (if fl a = 0 then insert a X else X)"
  shows "queue_good ctl rd A (rewait_sys a 0 i) \<and>
    client_ok covers A (pending (rewait_sys a 0 i)) (request_of (rewait_sys a 0 i)) E (good_flags Y (fl(a := fl a OR F_WANT_CANCEL)))"
proof -
  have x: "fl a OR F_WANT_CANCEL \<noteq> 0"
    using flags_or(2) [OF assms(4)] by blast
  consider "a \<in> X \<or> fl a = 0" "good_flags X fl a = 0" | "a \<notin> X" "fl a \<noteq> 0" "good_flags X fl a \<noteq> 0"
    unfolding good_flags_def by argo
  then show ?thesis
  proof cases
    case 1
    then have "good_flags Y (fl(a := fl a OR F_WANT_CANCEL)) = good_flags X fl"
      using assms(5) by (auto simp: good_flags_def Y_def stuck_ok_def fun_eq_iff)
    with 1 ioq_svc.client_rewait_idle [OF assms(1-3), of 0] show ?thesis by simp
  next
    case 2
    with ioq_svc.client_rewait [OF assms(1,2,3), of "fl a OR F_WANT_CANCEL" 0] x show ?thesis
      by (simp add: good_flags_upd Y_def)
  qed
qed

lemma stuck_ok_or: "stuck_ok X fl \<Longrightarrow> x \<noteq> 0 \<Longrightarrow> Y \<subseteq> insert a X \<Longrightarrow> stuck_ok Y (fl(a := x))"
  by (auto simp: stuck_ok_def)

lemma afile_step_inv:
  assumes "afile_step ctl cbk A s s'" "afile_inv ctl rd A s"
  shows "afile_inv ctl rd A s'"
proof -
  have q: "queue_good ctl rd A (io s)"
    and c: "client_ok covers A (pending (io s)) (request_of (io s)) (entering s) (good_flags (idle_cancels s) (file_flags s))"
    and k: "stuck_ok (idle_cancels s) (file_flags s)" and r: "requests_ok A (file_flags s) (acts s) (asked s)" and ap: "fds_apart rd A (io s)"
    using assms(2) by (simp_all add: afile_inv_def)
  have t: "three_bits (aflags (afl s a))" if "a \<in> A" for a
    using r that by (simp add: requests_ok_def)
  have nz: "aflags (afl s a) OR dir_flag d \<noteq> 0" "aflags (afl s a) OR F_WANT_CANCEL \<noteq> 0" if "a \<in> A" for a d
    using flags_or(2) [OF t [OF that]] by blast+
  from assms(1) show ?thesis
  proof cases
    case (rd a p n func)
    show ?thesis
      unfolding rd(1)
      by (rule afile_invI) (use begin_request_ok [OF q c rd(2) t [OF rd(2)] ap k refl, of cbk Read] requests_add [OF r rd(3)]
        stuck_ok_or [OF k nz(1) [OF rd(2), of Read]] in auto)
  next
    case (wr a p n func)
    show ?thesis
      unfolding wr(1)
      by (rule afile_invI) (use begin_request_ok [OF q c wr(2) t [OF wr(2)] ap k refl, of cbk Write] requests_add [OF r wr(3)]
        stuck_ok_or [OF k nz(1) [OF wr(2), of Write]] in auto)
  next
    case (cancel a)
    show ?thesis
      unfolding cancel(1)
    proof (rule afile_invI)
      show "stuck_ok (idle_cancels (s\<lparr>io := rewait_sys a 0 (io s), afl := upd_file a (add_flags F_WANT_CANCEL) (afl s),
          idle_cancels := if aflags (afl s a) = 0 then insert a (idle_cancels s) else idle_cancels s\<rparr>))
        (file_flags (s\<lparr>io := rewait_sys a 0 (io s), afl := upd_file a (add_flags F_WANT_CANCEL) (afl s),
          idle_cancels := if aflags (afl s a) = 0 then insert a (idle_cancels s) else idle_cancels s\<rparr>))"
        using stuck_ok_or [OF k nz(2) [OF cancel(2)], where a = a and Y = "if aflags (afl s a) = 0 then insert a (idle_cancels s) else idle_cancels s"] subset_insertI [of "idle_cancels s" a] by (auto split: if_splits)
    qed (use afile_cancel_ok [OF q c cancel(2) t [OF cancel(2)] k] requests_cancel [OF r, of a] fds_apart_cong [OF ap] in \<open>simp_all split: if_splits\<close>)
  next
    case (take i u)
    then show ?thesis
      using ioq_svc.client_take [OF q c] r k fds_apart_cong [OF ap] by (intro afile_invI) (auto simp: takes_def)
  next
    case (enter a perform e fl m)
    have aA: "a \<in> A"
      using c enter(2) by (auto simp: client_ok_def)
    then have "good_flags (idle_cancels s) (file_flags s) a \<noteq> 0"
      using c enter(2) by (simp add: client_ok_def)
    with aA have a: "a \<in> A" "a \<notin> idle_cancels s"
      by (auto simp: good_flags_def)
    note C = end_wait_choice_ok [OF enter(3) t [OF a(1)]]
    have f: "queue_free rd (io s) a"
      using fds_apart_free [OF q ap a(1)] c enter(2) a(1) by (auto simp: client_ok_def)
    have "let i = if m \<noteq> 0 then wait_sys cbk a m (io s) else io s in queue_good ctl rd A i \<and>
        client_ok covers A (pending i) (request_of i) (entering s - {a}) ((good_flags (idle_cancels s) (file_flags s))(a := fl)) \<and> fds_apart rd A i"
      using ioq_svc.client_again [OF q c enter(2), of fl m cbk] ioq_svc.client_finish [OF q c enter(2)] fds_apart_cong [OF ap] C(2,3) q f by (auto simp: Let_def)
    moreover have "stuck_ok (idle_cancels s) ((file_flags s)(a := fl))"
      using k a(2) by (auto simp: stuck_ok_def)
    ultimately show ?thesis
      unfolding enter(1) using requests_enter [OF r enter(3) a(1)] a(2) by (intro afile_invI) (simp_all add: Let_def good_flags_upd)
  next
    case (done_rd xs a perform e ys sr f m)
    have "io s' = io s" "entering s' = entering s" "file_flags s' = file_flags s" "idle_cancels s' = idle_cancels s"
      using done_rd(1) finish_flags(1) [OF done_rd(4)] by (auto simp: fun_eq_iff)
    moreover have "requests_ok A (file_flags s) (acts s') (asked s')"
      using r requests_done [of A _ xs a perform e ys _ Read] done_rd by simp
    ultimately show ?thesis
      using q c k ap by (intro afile_invI) (simp_all only: simp_thms)
  next
    case (done_wr xs a perform e ys sw f m)
    have "io s' = io s" "entering s' = entering s" "file_flags s' = file_flags s" "idle_cancels s' = idle_cancels s"
      using done_wr(1) finish_flags(2) [OF done_wr(5)] by (auto simp: fun_eq_iff)
    moreover have "requests_ok A (file_flags s) (acts s') (asked s')"
      using r requests_done [of A _ xs a perform e ys _ Write] done_wr by simp
    ultimately show ?thesis
      using q c k ap by (intro afile_invI) (simp_all only: simp_thms)
  next
    case (queue i)
    then have "fds_apart rd A i"
      using internal_keeps [OF queue(2)] by (blast intro: fds_apart_cong [OF ap])
    then show ?thesis
      using ioq_svc.client_quiet [OF q c queue(2)] r k queue(1) by (intro afile_invI) simp_all
  qed
qed

lemma afile_reach_inv:
  assumes "afile_reach ctl rd cbk A s" "epoll_ok ctl"
  shows "afile_inv ctl rd A s"
  using assms
proof (induction rule: afile_reach.induct)
  case (init i fs mm)
  have "request_of i a = None" if "a \<in> A" for a
    using ioq_svc.request_busy [of ctl rd A i a] init that unfolding queue_good_def by blast
  with init show ?case
    by (intro afile_invI) (simp_all add: queue_good_def client_ok_def requests_ok_def three_bits_def fds_apart_def good_flags_def stuck_ok_def)
next
  case (step s s')
  then show ?case using afile_step_inv by blast
qed

section \<open>Properties\<close>

text \<open>
  C15: under every interleaving of reads, writes, cancellations, callbacks and the steps of the I/O queue, every read and
  write that was asked for and has not completed is in exactly one place: it is marked in the flags of
  the file, or one thread is about to perform it; so no request is performed twice. While some
  operation is marked, the file has exactly one wait in progress or one callback about to look at the
  flags, provided that the file was never cancelled while none was marked (\<open>idle_cancels\<close>, see \<open>cancel_idle_stuck\<close>).
\<close>

theorem afile_request_exactly_once:
  assumes "afile_reach ctl rd cbk A s" "epoll_ok ctl" "a \<in> A"
  shows "fires (aflags (afl s a) AND dir_flag d \<noteq> 0) + act_count (acts s) a d = fires ((a, d) \<in> asked s) \<and>
    (a \<notin> idle_cancels s \<longrightarrow> fires (a \<in> pending (io s)) + fires (a \<in> entering s) = fires (aflags (afl s a) \<noteq> 0))"
proof -
  have I: "client_ok covers A (pending (io s)) (request_of (io s)) (entering s) (good_flags (idle_cancels s) (file_flags s))"
      "requests_ok A (file_flags s) (acts s) (asked s)"
    using afile_reach_inv [OF assms(1,2)] by (simp_all add: afile_inv_def)
  have "fires (a \<in> pending (io s)) + fires (a \<in> entering s) = fires (aflags (afl s a) \<noteq> 0)" if "a \<notin> idle_cancels s"
  proof -
    have "(good_flags (idle_cancels s) (file_flags s) a \<noteq> 0 \<longleftrightarrow> a \<in> pending (io s) \<or> a \<in> entering s) \<and> \<not> (a \<in> pending (io s) \<and> a \<in> entering s)"
      using I(1) assms(3) unfolding client_ok_def by blast
    moreover have "good_flags (idle_cancels s) (file_flags s) a = aflags (afl s a)"
      using that by (simp add: good_flags_def)
    ultimately show ?thesis by auto
  qed
  then show ?thesis
    using I(2) assms(3) unfolding requests_ok_def by blast
qed

text \<open>
  C16: no request is lost on a file that was never cancelled while no operation was marked. While the thread that iterates the
  queue may sleep, a request that has not completed is
  about to be performed, or its callback has begun or is in the run queue, or the kernel watches the
  descriptor for an event that the request needs, or the change of the registration is listed and a wakeup is on its way.
\<close>

theorem afile_no_lost_request:
  assumes "afile_reach ctl rd cbk A s" "epoll_ok ctl" "(a, d) \<in> asked s" "a \<in> A" "dispatcher (io s) = Blocked" "a \<notin> idle_cancels s"
  shows "0 < act_count (acts s) a d \<or> a \<in> entering s \<or>
    (\<exists>xs ys. slist_rep (mod_list (ioq_of (io s))) xs \<and> slist_rep (job_list (run (wq (ioq_of (io s))))) ys \<and>
      (a \<in> set ys \<or> a \<in> set xs \<and> wakeup_due rd (io s) \<or>
       (\<exists>ev. ev AND dir_event d \<noteq> 0 \<and> epoll (ioq_of (io s)) (fd (fds (ioq_of (io s)) a)) = Some (ev, a))))"
proof -
  have q: "queue_good ctl rd A (io s)" and c: "client_ok covers A (pending (io s)) (request_of (io s)) (entering s) (good_flags (idle_cancels s) (file_flags s))"
    and r: "fires (aflags (afl s a) AND dir_flag d \<noteq> 0) + act_count (acts s) a d = 1"
    using afile_reach_inv [OF assms(1,2)] assms(3,4) by (auto simp: afile_inv_def requests_ok_def)
  show ?thesis
  proof (cases "act_count (acts s) a d = 0 \<and> a \<notin> entering s")
    case True
    with r have fl: "aflags (afl s a) AND dir_flag d \<noteq> 0"
      by (auto split: if_splits)
    then have g: "good_flags (idle_cancels s) (file_flags s) a \<noteq> 0" "good_flags (idle_cancels s) (file_flags s) a = aflags (afl s a)"
      using assms(6) by (auto simp: good_flags_def)
    with True c assms(4) have "a \<in> pending (io s)"
      by (auto simp: client_ok_def)
    moreover have "ev AND dir_event d \<noteq> 0" if "ev \<noteq> 0" "request_of (io s) a = Some ev" for ev
      using c assms(4) that fl g(2) by (fastforce simp: client_ok_def covers_def)
    ultimately show ?thesis
      using blocked_wait [OF q _ assms(5)] by blast
  qed auto
qed

definition file0 :: afile where
  "file0 = \<lparr>read_op = blank_op, write_op = blank_op, aflags = 0\<rparr>"

definition io0 :: ioq_sys where
  "io0 = \<lparr>ioq_of = ioq0, dispatcher = Blocked, notifying = 0, writing = 0, pending = {}, emptied = False\<rparr>"

lemma one_read_reach: "\<exists>s. afile_reach small_epoll 3 7 {20} s \<and> asked s = {(20, Read)} \<and> acts s = [] \<and> entering s = {} \<and> idle_cancels s = {} \<and> dispatcher (io s) = Blocked"
proof -
  let ?s = "\<lparr>io = io0, afl = (\<lambda>_. file0), smem = (\<lambda>_. 0), entering = {}, acts = [], asked = {}, idle_cancels = {}\<rparr>"
  have "afile_reach small_epoll 3 7 {20} ?s"
    using ioq0_reach by (intro afile_reach.init) (simp_all add: io0_def file0_def ioq0_fields blank_fd_def)
  from afile_reach.step [OF this afile_step.rd [of 20 "{20}" ?s small_epoll 7 100 5 1]] show ?thesis
    by (rule_tac exI) (force simp: begin_request_def file0_def io0_def)
qed

theorem afile_request_exactly_once_witness:
  "\<exists>s. afile_reach small_epoll 3 7 {20} s \<and> aflags (afl s 20) AND F_WANT_READ \<noteq> 0 \<and> aflags (afl s 20) AND F_WANT_WRITE = 0 \<and> 20 \<in> pending (io s)"
proof -
  obtain s where s: "afile_reach small_epoll 3 7 {20} s" "asked s = {(20, Read)}" "acts s = []" "entering s = {}" "idle_cancels s = {}"
    using one_read_reach by blast
  have rd: "aflags (afl s 20) AND F_WANT_READ \<noteq> 0"
    using conjunct1 [OF afile_request_exactly_once [OF s(1) small_epoll_ok, of 20 Read]] s(2,3) by (simp split: if_split_asm)
  moreover have "aflags (afl s 20) AND F_WANT_WRITE = 0"
    using conjunct1 [OF afile_request_exactly_once [OF s(1) small_epoll_ok, of 20 Write]] s(2,3) by (simp split: if_split_asm)
  moreover from rd have "aflags (afl s 20) \<noteq> 0" by auto
  then have "20 \<in> pending (io s)"
    using conjunct2 [OF afile_request_exactly_once [OF s(1) small_epoll_ok, of 20 Read]] s(4,5) by (simp split: if_split_asm)
  ultimately show ?thesis using s(1) by blast
qed

theorem afile_no_lost_request_witness:
  "\<exists>s xs ys. afile_reach small_epoll 3 7 {20} s \<and> slist_rep (mod_list (ioq_of (io s))) xs \<and> slist_rep (job_list (run (wq (ioq_of (io s))))) ys \<and>
     (20 \<in> set ys \<or> 20 \<in> set xs \<and> wakeup_due 3 (io s) \<or>
      (\<exists>ev. ev AND IOQ_EVENT_IN \<noteq> 0 \<and> epoll (ioq_of (io s)) (fd (fds (ioq_of (io s)) 20)) = Some (ev, 20)))"
proof -
  obtain s where s: "afile_reach small_epoll 3 7 {20} s" "asked s = {(20, Read)}" "acts s = []" "entering s = {}" "idle_cancels s = {}" "dispatcher (io s) = Blocked"
    using one_read_reach by blast
  from afile_no_lost_request [OF s(1) small_epoll_ok, of 20 Read] s show ?thesis
    by (simp, blast)
qed

section \<open>Results and defects\<close>

lemma sint_small: "sint (word_of_int (int k) :: u32) = int k" if "k < 2 ^ 31"
  using that unfolding int_word_sint by simp

text \<open>A callback that finds the descriptor ready for a read alone stores the bytes and the size, and calls the client's function once, with no flag left.\<close>

lemma afile_read_delivers:
  assumes "aflags (files s a) = F_WANT_READ" "ioq_fd_error a (io_q s) = 0" "ioq_fd_ready a (io_q s) AND (IOQ_EVENT_IN OR IOQ_EVENT_ERR OR IOQ_EVENT_HUP) \<noteq> 0"
    "rd (fd (fds (io_q s) a)) (op_size (read_op (files s a))) = (int (length bs), bs, errno)" "length bs < 2 ^ 31"
  shows "\<exists>f m. afile_ioq_cb rd wrt cl cbk a s = cl (op_func (read_op (files s a))) a (s\<lparr>files := (files s)(a := f), amem := m\<rparr>) \<and>
    aflags f = 0 \<and> afile_read_size f = length bs \<and> afile_read_error f = 0 \<and> bytes_at m (op_buffer (read_op (files s a))) (length bs) = bs"
proof -
  let ?f = "(files s a)\<lparr>aflags := 0, read_op := (read_op (files s a))\<lparr>op_size := length bs, op_error := 0\<rparr>\<rparr>"
  let ?m = "put_bytes (op_buffer (read_op (files s a))) bs (amem s)"
  have z: "F_WANT_READ AND F_WANT_READ \<noteq> 0" "F_WANT_READ AND F_WANT_WRITE = 0" "F_WANT_READ AND F_WANT_CANCEL = 0" "F_WANT_READ AND NOT F_WANT_READ = 0"
    by (simp_all add: F_WANT_READ_def F_WANT_WRITE_def F_WANT_CANCEL_def)
  have "end_wait_choice (ioq_fd_error a (io_q s)) (ioq_fd_ready a (io_q s)) (aflags (files s a)) = (F_WANT_READ, 0, 0, 0)"
    using assms(1-3) z by (simp add: end_wait_choice_def end_wait_write_def end_wait_read_def)
  then have "afile_end_wait cbk a s = ((F_WANT_READ, 0), s\<lparr>files := (files s)(a := (files s a)\<lparr>aflags := 0\<rparr>)\<rparr>)"
    by (simp add: afile_end_wait_def upd_file_def)
  then have "afile_ioq_cb rd wrt cl cbk a s = cl (op_func (read_op (files s a))) a (s\<lparr>files := (files s)(a := ?f), amem := ?m\<rparr>)"
    using assms(4) z sint_small [OF assms(5)] by (simp add: afile_ioq_cb_def finish_read_def)
  moreover have "bytes_at ?m (op_buffer (read_op (files s a))) (length bs) = bs"
    by (rule nth_equalityI) (simp_all add: bytes_at_def put_bytes_def)
  ultimately show ?thesis
    by (intro exI [of _ ?f] exI [of _ ?m]) (simp add: afile_read_size_def afile_read_error_def)
qed

text \<open>A write that succeeds or fails stores its result in the read operation: the result of the write is the size that was asked for, whatever happened.\<close>

lemma write_result_lost:
  assumes "finish_write wrt n perform e (f, m) = (f', m')" "perform AND F_WANT_CANCEL = 0" "wrt n (bytes_at m (op_buffer (write_op f)) (op_size (write_op f))) = (int k, errno)" "k < 2 ^ 31"
  shows "afile_write_size f' = op_size (write_op f)" "afile_write_error f' = op_error (write_op f)" "afile_read_size f' = k"
  using assms(1-3) sint_small [OF assms(4)] by (auto simp: finish_write_def afile_write_size_def afile_write_error_def afile_read_size_def)

text \<open>Cancelling a file with no operation marks it, and the next operation never starts: the queue does not change.\<close>

lemma cancel_idle_stuck:
  assumes "aflags (files s a) = 0" "\<not> waiting (io_q s) a"
  shows "io_q (afile_read cbk a p n func (afile_cancel a s)) = io_q s" "aflags (files (afile_read cbk a p n func (afile_cancel a s)) a) = F_WANT_CANCEL OR F_WANT_READ"
  using assms by (auto simp: afile_read_def afile_cancel_def ioq_fd_cancel_def ioq_fd_rewait_def rewait_locked_def upd_file_def add_flags_def set_read_def Let_def
    F_WANT_CANCEL_def)

text \<open>An operation that is begun after the cancellation, before the queue has seen it, renews the request for events.\<close>

lemma cancel_overridden:
  assumes "waiting (io_q s) a"
  shows "requested (fds (io_q (afile_write cbk a p n func (afile_cancel a s))) a) = IOQ_EVENT_IN OR IOQ_EVENT_OUT"
proof -
  have r: "waiting (ioq_fd_rewait a ev q) a" "requested (fds (ioq_fd_rewait a ev q) a) = ev" if "waiting q a" for ev q
  proof -
    define q1 where "q1 = upd_fd a (\<lambda>x. x\<lparr>requested := ev\<rparr>) q"
    have "waiting q1 a" "requested (fds q1 a) = ev"
      using that by (simp_all add: q1_def upd_fd_def)
    then show "waiting (ioq_fd_rewait a ev q) a" "requested (fds (ioq_fd_rewait a ev q) a) = ev"
      using that enqueue_fields(3,5) [of a q1 a] by (simp_all add: ioq_fd_rewait_def rewait_locked_def split_beta flip: q1_def)
  qed
  have "aflags (files s a) OR F_WANT_CANCEL \<noteq> 0"
    by (simp add: F_WANT_CANCEL_def or_eq_0_iff)
  then show ?thesis
    using r(2) [OF r(1) [OF assms]] by (simp add: afile_write_def afile_cancel_def ioq_fd_cancel_def upd_file_def add_flags_def set_write_def Let_def)
qed

end
