(* ===== verification/Dlb_Istr.thy ===== *)
theory Dlb_Istr
  imports Dlb_Strbuf Dlb_Slab Dlb_Slist
begin

text \<open>
  The pool of immutable strings (\<^verbatim>\<open>src/src/istr.c\<close>), over the string buffer and the slab allocator. The
  descriptors are objects of the slab cache; their fields are kept in a heap of records. There is
  one pool, so the \<open>owner\<close> field is left out. Reading the text outside of its block is an error (\<open>None\<close>), as
  for the string buffer. The parameters are \<open>realloc\<close> for the text and \<open>malloc\<close> for the descriptors.
\<close>

section \<open>State and operations\<close>

record istr_desc =
  dnext :: addr
  doffset :: nat
  dlength :: nat
  refcnt :: nat  \<comment> \<open>an unsigned int\<close>

definition DESC_SIZE :: nat where  \<comment> \<open>\<open>sizeof(struct istr_desc)\<close>\<close>
  "DESC_SIZE = 40"

record istr_pool =
  ptext :: strbuf
  pdescs :: slab_state
  pall :: addr
  desc_count :: nat  \<comment> \<open>unsigned ints\<close>
  gc_threshold :: nat
  desc :: "addr \<Rightarrow> istr_desc"

definition upd_desc :: "addr \<Rightarrow> (istr_desc \<Rightarrow> istr_desc) \<Rightarrow> istr_pool \<Rightarrow> istr_pool" where
  "upd_desc d g p = p\<lparr>desc := (desc p)(d := g (desc p d))\<rparr>"

definition istr_pool_init :: "addr \<Rightarrow> addr \<Rightarrow> list_heap \<Rightarrow> (addr \<Rightarrow> addr) \<Rightarrow> (addr \<Rightarrow> int) \<Rightarrow> (addr \<Rightarrow> istr_desc) \<Rightarrow> istr_pool" where
  "istr_pool_init fl pl h ip fc ds = \<lparr>ptext = strbuf_init, pdescs = slab_init (int DESC_SIZE) fl pl h ip fc, pall = NULL, desc_count = 0, gc_threshold = 128, desc = ds\<rparr>"

definition istr_pool_destroy :: "istr_pool \<Rightarrow> istr_pool option" where
  "istr_pool_destroy p = do {
     sl \<leftarrow> slab_free_all (pdescs p);
     Some (p\<lparr>ptext := strbuf_destroy (ptext p), pdescs := sl\<rparr>)
   }"

text \<open>The first loop of \<open>gc_desc\<close> drops the descriptors without references and reverses the list.\<close>

partial_function (option) filter_descs :: "addr \<Rightarrow> istr_pool \<Rightarrow> (addr \<times> istr_pool) option" where
  "filter_descs new_list p =
     (if pall p = NULL then Some (new_list, p)
      else
        (let d = pall p; p = p\<lparr>pall := dnext (desc p d)\<rparr> in
         if refcnt (desc p d) \<noteq> 0 then filter_descs d (upd_desc d (\<lambda>x. x\<lparr>dnext := new_list\<rparr>) p)
         else filter_descs new_list (p\<lparr>pdescs := slab_free d (pdescs p)\<rparr>)))"

declare filter_descs.simps [code]

text \<open>The second loop reverses it again and counts.\<close>

partial_function (option) relink_descs :: "addr \<Rightarrow> istr_pool \<Rightarrow> istr_pool option" where
  "relink_descs new_list p =
     (if new_list = NULL then Some p
      else
        (let d = new_list; new_list = dnext (desc p d); p = (upd_desc d (\<lambda>x. x\<lparr>dnext := pall p\<rparr>) p)\<lparr>pall := d\<rparr>
         in relink_descs new_list (p\<lparr>desc_count := wrap32 (desc_count p + 1)\<rparr>)))"

declare relink_descs.simps [code]

definition gc_desc :: "istr_pool \<Rightarrow> istr_pool option" where
  "gc_desc p = do {
     (new_list, p) \<leftarrow> filter_descs NULL p;
     relink_descs new_list (p\<lparr>desc_count := 0\<rparr>)
   }"

text \<open>The memory at \<open>istr_text\<close>: \<open>n\<close> bytes from the offset of the descriptor.\<close>

definition istr_text :: "nat \<Rightarrow> addr \<Rightarrow> istr_pool \<Rightarrow> block option" where
  "istr_text n d p = (case strbuf_text (ptext p) of
     Heap b \<Rightarrow> if doffset (desc p d) + n \<le> length b then Some (take n (drop (doffset (desc p d)) b)) else None
   | _ \<Rightarrow> None)"

definition istr_length :: "addr \<Rightarrow> istr_pool \<Rightarrow> nat" where
  "istr_length d p = wrap32 (dlength (desc p d))"

text \<open>The loop of \<open>gc_text\<close>. The new offset passes through an int; the result of the append is not looked at.\<close>

partial_function (option) copy_texts :: "realloc_fn \<Rightarrow> addr \<Rightarrow> strbuf \<Rightarrow> istr_pool \<Rightarrow> (strbuf \<times> istr_pool) option" where
  "copy_texts ra d new_buf p =
     (if d = NULL then Some (new_buf, p)
      else do {
        let new_offset = to_int32 (slength new_buf);
        let n = to_int32 (wrap64 (dlength (desc p d) + 1));
        s \<leftarrow> istr_text (nat n) d p;
        (r, new_buf) \<leftarrow> strbuf_add_string ra s n new_buf;
        let p = upd_desc d (\<lambda>x. x\<lparr>doffset := nat (new_offset mod 2 ^ 64)\<rparr>) p;
        copy_texts ra (dnext (desc p d)) new_buf p
      })"

declare copy_texts.simps [code]

definition gc_text :: "realloc_fn \<Rightarrow> istr_pool \<Rightarrow> (int \<times> istr_pool) option" where
  "gc_text ra p = do {
     (r, new_buf) \<leftarrow> strbuf_capacity_hint ra (slength (ptext p)) strbuf_init;
     if r < 0 then Some (-1, p)
     else do {
       (new_buf, p) \<leftarrow> copy_texts ra (pall p) new_buf p;
       (r, new_buf) \<leftarrow> strbuf_capacity_hint ra (slength new_buf) new_buf;
       Some (0, p\<lparr>ptext := new_buf\<rparr>)
     }
   }"

definition istr_pool_gc :: "realloc_fn \<Rightarrow> istr_pool \<Rightarrow> (int \<times> istr_pool) option" where
  "istr_pool_gc ra p = do { p \<leftarrow> gc_desc p; gc_text ra p }"

text \<open>The end of \<open>istr_pool_alloc\<close>: a turn of the collector when there are many descriptors.\<close>

definition maybe_gc :: "realloc_fn \<Rightarrow> istr_pool \<Rightarrow> istr_pool option" where
  "maybe_gc ra p =
     (if desc_count p \<ge> gc_threshold p then do {
        (r, p) \<leftarrow> istr_pool_gc ra p;
        let p = p\<lparr>gc_threshold := wrap32 (desc_count p * 4)\<rparr>;
        Some (if gc_threshold p < 128 then p\<lparr>gc_threshold := 128\<rparr> else p)
      } else Some p)"

definition link_desc :: "addr \<Rightarrow> istr_pool \<Rightarrow> istr_pool" where
  "link_desc d p = (upd_desc d (\<lambda>x. x\<lparr>dnext := pall p\<rparr>) (p\<lparr>desc_count := wrap32 (desc_count p + 1)\<rparr>))\<lparr>pall := d\<rparr>"

definition istr_pool_alloc :: "realloc_fn \<Rightarrow> malloc_fn \<Rightarrow> block \<Rightarrow> int \<Rightarrow> istr_pool \<Rightarrow> (addr \<times> istr_pool) option" where
  "istr_pool_alloc ra m text len p = do {
     len \<leftarrow> if len < 0 then map_option to_int32 (strlen text) else Some len;
     let (d, sl) = slab_alloc m (pdescs p);
     let p = p\<lparr>pdescs := sl\<rparr>;
     if d = NULL then Some (NULL, p)
     else do {
       let p = upd_desc d (\<lambda>x. x\<lparr>doffset := strbuf_len (ptext p), dlength := nat (len mod 2 ^ 64), refcnt := 1\<rparr>) p;
       (r, t) \<leftarrow> strbuf_add_string ra text len (ptext p);
       let p = p\<lparr>ptext := t\<rparr>;
       if r < 0 then Some (NULL, p\<lparr>pdescs := slab_free d (pdescs p)\<rparr>)
       else do {
         (r, t) \<leftarrow> strbuf_add_char ra 0 (ptext p);
         let p = p\<lparr>ptext := t\<rparr>;
         if r < 0 then Some (NULL, p\<lparr>pdescs := slab_free d (pdescs p)\<rparr>)
         else do { p \<leftarrow> maybe_gc ra (link_desc d p); Some (d, p) }
       }
     }
   }"

definition istr_ref :: "addr \<Rightarrow> istr_pool \<Rightarrow> istr_pool" where
  "istr_ref d p = upd_desc d (\<lambda>x. x\<lparr>refcnt := wrap32 (refcnt x + 1)\<rparr>) p"

definition istr_unref :: "addr \<Rightarrow> istr_pool \<Rightarrow> istr_pool" where
  "istr_unref d p = upd_desc d (\<lambda>x. x\<lparr>refcnt := nat ((int (refcnt x) - 1) mod 2 ^ 32)\<rparr>) p"

text \<open>
  \<open>memcmp\<close> of the C library is a parameter: on blocks of the same length it returns a number whose sign
  is that of the first difference of the bytes as unsigned numbers, and 0 when there is none.
\<close>

type_synonym memcmp_fn = "block \<Rightarrow> block \<Rightarrow> int"

fun byte_sign :: "block \<Rightarrow> block \<Rightarrow> int" where
  "byte_sign (x # xs) (y # ys) = (if x < y then -1 else if y < x then 1 else byte_sign xs ys)"
| "byte_sign _ _ = 0"

definition memcmp_ok :: "memcmp_fn \<Rightarrow> bool" where
  "memcmp_ok memcmp \<longleftrightarrow> (\<forall>s t. length s = length t \<longrightarrow> sgn (memcmp s t) = byte_sign s t)"

definition istr_equal :: "memcmp_fn \<Rightarrow> addr \<Rightarrow> addr \<Rightarrow> istr_pool \<Rightarrow> bool option" where
  "istr_equal memcmp a b p =
     (if dlength (desc p a) \<noteq> dlength (desc p b) then Some False
      else do {
        s \<leftarrow> istr_text (dlength (desc p a)) a p;
        t \<leftarrow> istr_text (dlength (desc p a)) b p;
        Some (memcmp s t = 0)
      })"

definition memcmp_texts :: "memcmp_fn \<Rightarrow> nat \<Rightarrow> addr \<Rightarrow> addr \<Rightarrow> istr_pool \<Rightarrow> int option" where
  "memcmp_texts memcmp n a b p = do { s \<leftarrow> istr_text n a p; t \<leftarrow> istr_text n b p; Some (memcmp s t) }"

definition istr_compare :: "memcmp_fn \<Rightarrow> addr \<Rightarrow> addr \<Rightarrow> istr_pool \<Rightarrow> int option" where
  "istr_compare memcmp a b p =
     (let la = to_int32 (istr_length a p); lb = to_int32 (istr_length b p) in
      if doffset (desc p a) = doffset (desc p b) then Some 0
      else if la < lb then do { r \<leftarrow> memcmp_texts memcmp (nat la) a b p; Some (if r = 0 then -1 else r) }
      else if la > lb then do { r \<leftarrow> memcmp_texts memcmp (nat lb) a b p; Some (if r = 0 then 1 else r) }
      else memcmp_texts memcmp (nat la) a b p)"

section \<open>The strings of a pool\<close>

definition extent :: "istr_desc \<Rightarrow> nat set" where
  "extent x = {doffset x..<doffset x + dlength x + 1}"

text \<open>The text holds the string and a terminator at the place of the descriptor.\<close>

definition holds_text :: "block \<Rightarrow> istr_desc \<Rightarrow> block \<Rightarrow> bool" where
  "holds_text t x s \<longleftrightarrow> dlength x = length s \<and> extent x \<subseteq> {..<length t} \<and> take (length s + 1) (drop (doffset x) t) = s @ [0]"

definition apart :: "(addr \<Rightarrow> istr_desc) \<Rightarrow> addr set \<Rightarrow> bool" where
  "apart ds A \<longleftrightarrow> (\<forall>a \<in> A. \<forall>b \<in> A. a \<noteq> b \<longrightarrow> extent (ds a) \<inter> extent (ds b) = {})"

abbreviation dnexts :: "istr_pool \<Rightarrow> addr \<Rightarrow> addr" where
  "dnexts p \<equiv> \<lambda>a. dnext (desc p a)"

definition pool_inv :: "istr_pool \<Rightarrow> addr list \<Rightarrow> (addr \<Rightarrow> block) \<Rightarrow> bool" where
  "pool_inv p ds S \<longleftrightarrow> slab_inv (pdescs p) (set ds) \<and> lseg (dnexts p) (pall p) ds NULL \<and> distinct ds \<and> NULL \<notin> set ds \<and>
     strbuf_wf (ptext p) \<and> slength (ptext p) < 2 ^ 31 \<and> apart (desc p) (set ds) \<and> desc_count p = length ds \<and>
     (\<forall>d \<in> set ds. holds_text (contents_of (ptext p)) (desc p d) (S d))"

lemma holds_textD:
  assumes "holds_text t x s"
  shows "dlength x = length s" "doffset x + length s + 1 \<le> length t"
proof -
  show "dlength x = length s"
    using assms by (simp add: holds_text_def)
  moreover have "doffset x + dlength x \<in> extent x"
    by (simp add: extent_def)
  ultimately show "doffset x + length s + 1 \<le> length t"
    using assms by (auto simp: holds_text_def)
qed

lemma holds_text_append: "holds_text t x s \<Longrightarrow> holds_text (t @ u) x s"
  using holds_textD(2) [of t x s] by (auto simp: holds_text_def)

lemma holds_text_new: "holds_text (t @ s @ [0] @ u) (x\<lparr>doffset := length t, dlength := length s\<rparr>) s"
  by (auto simp: holds_text_def extent_def)

text \<open>Strings that lie apart fit into the text together.\<close>

lemma texts_fit:
  assumes "apart ds (set xs)" "distinct xs" "\<And>x. x \<in> set xs \<Longrightarrow> holds_text t (ds x) (S x)"
  shows "(\<Sum>x\<leftarrow>xs. length (S x) + 1) \<le> length t"
proof -
  have "(\<Sum>x\<leftarrow>xs. length (S x) + 1) = (\<Sum>x \<in> set xs. length (S x) + 1)"
    by (rule sum_list_distinct_conv_sum_set [OF assms(2)])
  also have "\<dots> = (\<Sum>x \<in> set xs. card (extent (ds x)))"
    using holds_textD(1) [OF assms(3)] by (intro sum.cong) (auto simp: extent_def)
  also have "\<dots> = card (\<Union>x \<in> set xs. extent (ds x))"
    using assms(1) by (intro card_UN_disjoint [symmetric]) (auto simp: extent_def apart_def)
  also have "\<dots> \<le> card {..<length t}"
    using assms(3) by (intro card_mono) (auto simp: holds_text_def)
  finally show ?thesis by simp
qed

lemma istr_text_ok:
  assumes "strbuf_wf (ptext p)" "holds_text (contents_of (ptext p)) (desc p d) s"
  shows "istr_text (length s + 1) d p = Some (s @ [0])" "n \<le> length s \<Longrightarrow> istr_text n d p = Some (take n s)"
proof -
  obtain b where b: "stext (ptext p) = Heap b" "contents_of (ptext p) = take (slength (ptext p)) b"
    using holds_textD(2) [OF assms(2)] by (cases "stext (ptext p)") (auto simp: contents_of_def)
  define o' where "o' = doffset (desc p d)"
  have len: "o' + length s + 1 \<le> min (length b) (slength (ptext p))"
    using holds_textD(2) [OF assms(2)] by (simp add: b o'_def)
  have t: "take (length s + 1) (drop o' b) = s @ [0]"
    using assms(2) len by (simp add: holds_text_def b o'_def [symmetric] drop_take min_def split: if_splits)
  show "istr_text (length s + 1) d p = Some (s @ [0])"
    using t len by (simp add: istr_text_def strbuf_text_def b o'_def)
  assume n: "n \<le> length s"
  have "take n (drop o' b) = take n (take (length s + 1) (drop o' b))"
    using n by (simp add: min_def)
  also have "\<dots> = take n s"
    unfolding t using n by simp
  finally show "istr_text n d p = Some (take n s)"
    using len n by (simp add: istr_text_def strbuf_text_def b o'_def)
qed

section \<open>Comparison\<close>

lemma byte_sign_eq: "length s = length t \<Longrightarrow> byte_sign s t = 0 \<longleftrightarrow> s = t"
  by (induction s t rule: byte_sign.induct) auto

lemma memcmp_okD:
  assumes "memcmp_ok memcmp" "length s = length t"
  shows "sgn (memcmp s t) = byte_sign s t" "memcmp s t = 0 \<longleftrightarrow> s = t"
proof -
  show *: "sgn (memcmp s t) = byte_sign s t"
    using assms by (simp add: memcmp_ok_def)
  have "memcmp s t = 0 \<longleftrightarrow> sgn (memcmp s t) = 0"
    by (simp add: sgn_eq_0_iff)
  also have "\<dots> \<longleftrightarrow> s = t"
    unfolding * by (rule byte_sign_eq [OF assms(2)])
  finally show "memcmp s t = 0 \<longleftrightarrow> s = t" .
qed

text \<open>The order of the strings as sequences of bytes.\<close>

fun str_cmp :: "block \<Rightarrow> block \<Rightarrow> int" where
  "str_cmp [] [] = 0"
| "str_cmp [] (y # ys) = -1"
| "str_cmp (x # xs) [] = 1"
| "str_cmp (x # xs) (y # ys) = (if x < y then -1 else if y < x then 1 else str_cmp xs ys)"

lemma str_cmp_byte_sign:
  "str_cmp s t = (let n = min (length s) (length t); r = byte_sign (take n s) (take n t) in
     if r \<noteq> 0 then r else if length s < length t then -1 else if length s > length t then 1 else 0)"
  by (induction s t rule: str_cmp.induct) (auto simp: Let_def)

lemma str_cmp_self: "str_cmp s s = 0"
  by (induction s) auto

lemma str_cmp_eq: "str_cmp s t = 0 \<longleftrightarrow> s = t"
  by (induction s t rule: str_cmp.induct) auto

lemma pool_invD:
  assumes "pool_inv p ds S"
  shows "slab_inv (pdescs p) (set ds)" "lseg (dnexts p) (pall p) ds NULL" "distinct ds" "NULL \<notin> set ds" "strbuf_wf (ptext p)"
    "slength (ptext p) < 2 ^ 31" "apart (desc p) (set ds)" "desc_count p = length ds"
    "\<And>d. d \<in> set ds \<Longrightarrow> holds_text (contents_of (ptext p)) (desc p d) (S d)"
  using assms by (auto simp: pool_inv_def)

lemma pool_text_small:
  assumes "pool_inv p ds S" "d \<in> set ds"
  shows "length (S d) < 2 ^ 31 - 1" "istr_length d p = length (S d)" "doffset (desc p d) < 2 ^ 31"
proof -
  note I = pool_invD [OF assms(1)]
  have "doffset (desc p d) + length (S d) + 1 < 2 ^ 31" "dlength (desc p d) = length (S d)"
    using holds_textD [OF I(9) [OF assms(2)]] I(6) length_contents_of [OF I(5)] by simp_all
  then show "length (S d) < 2 ^ 31 - 1" "istr_length d p = length (S d)" "doffset (desc p d) < 2 ^ 31"
    by (simp_all add: istr_length_def)
qed

lemma pool_offset_inj:
  assumes "pool_inv p ds S" "a \<in> set ds" "b \<in> set ds"
  shows "doffset (desc p a) = doffset (desc p b) \<longleftrightarrow> a = b"
proof
  assume "doffset (desc p a) = doffset (desc p b)"
  then have "doffset (desc p a) \<in> extent (desc p a) \<inter> extent (desc p b)"
    by (simp add: extent_def)
  with pool_invD(7) [OF assms(1)] assms(2,3) show "a = b"
    unfolding apart_def by blast
qed simp

text \<open>
  C36: take two strings of one pool and any \<open>memcmp\<close> whose results have the right sign. \<open>istr_compare\<close>
  returns a number whose sign is the order of the strings as sequences of bytes, a proper prefix
  being smaller, and \<open>istr_equal\<close> is their equality.
\<close>

theorem istr_compare_correct:
  assumes "memcmp_ok memcmp" "pool_inv p ds S" "a \<in> set ds" "b \<in> set ds"
  shows "\<exists>r. istr_compare memcmp a b p = Some r \<and> sgn r = str_cmp (S a) (S b) \<and> istr_equal memcmp a b p = Some (S a = S b)"
proof -
  note I = pool_invD [OF assms(2)]
  note A = istr_text_ok(2) [OF I(5) I(9) [OF assms(3)]] and B = istr_text_ok(2) [OF I(5) I(9) [OF assms(4)]]
  note la = pool_text_small [OF assms(2,3)] and lb = pool_text_small [OF assms(2,4)]
  have int: "to_int32 (istr_length a p) = int (length (S a))" "to_int32 (istr_length b p) = int (length (S b))"
    using la lb by (simp_all add: to_int32_small)
  have m: "memcmp_texts memcmp n a b p = Some (memcmp (take n (S a)) (take n (S b)))"
      "sgn (memcmp (take n (S a)) (take n (S b))) = byte_sign (take n (S a)) (take n (S b))"
    if "n \<le> length (S a)" "n \<le> length (S b)" for n
    using A [OF that(1)] B [OF that(2)] that memcmp_okD(1) [OF assms(1)] by (simp_all add: memcmp_texts_def)
  have "\<exists>r. istr_compare memcmp a b p = Some r \<and> sgn r = str_cmp (S a) (S b)"
  proof (cases "a = b")
    case True
    then show ?thesis by (simp add: istr_compare_def Let_def str_cmp_self)
  next
    case False
    then have "doffset (desc p a) \<noteq> doffset (desc p b)"
      using pool_offset_inj [OF assms(2-4)] by simp
    then have cmp: "istr_compare memcmp a b p =
        (if length (S a) < length (S b) then do { r \<leftarrow> memcmp_texts memcmp (length (S a)) a b p; Some (if r = 0 then -1 else r) }
         else if length (S b) < length (S a) then do { r \<leftarrow> memcmp_texts memcmp (length (S b)) a b p; Some (if r = 0 then 1 else r) }
         else memcmp_texts memcmp (length (S a)) a b p)"
      by (simp add: istr_compare_def int)
    define n where "n = min (length (S a)) (length (S b))"
    define r where "r = memcmp (take n (S a)) (take n (S b))"
    have r: "memcmp_texts memcmp n a b p = Some r" "byte_sign (take n (S a)) (take n (S b)) = sgn r"
      using m [of n] by (simp_all add: r_def n_def)
    have "istr_compare memcmp a b p = Some (if r \<noteq> 0 then r else if length (S a) < length (S b) then -1
        else if length (S b) < length (S a) then 1 else 0)"
      unfolding cmp using r(1)
      by (cases "length (S a)" "length (S b)" rule: linorder_cases) (simp_all add: n_def)
    then show ?thesis
      unfolding str_cmp_byte_sign n_def [symmetric] Let_def r(2) by (simp add: sgn_eq_0_iff)
  qed
  moreover have "istr_equal memcmp a b p = Some (S a = S b)"
  proof (cases "length (S a) = length (S b)")
    case True
    then show ?thesis
      using holds_textD(1) [OF I(9) [OF assms(3)]] holds_textD(1) [OF I(9) [OF assms(4)]] A [of "length (S a)"] B [of "length (S a)"]
        memcmp_okD(2) [OF assms(1) True] by (simp add: istr_equal_def)
  next
    case False
    then have "S a \<noteq> S b" by auto
    with False show ?thesis
      using holds_textD(1) [OF I(9) [OF assms(3)]] holds_textD(1) [OF I(9) [OF assms(4)]] by (simp add: istr_equal_def)
  qed
  ultimately show ?thesis by blast
qed

section \<open>Garbage collection\<close>

text \<open>Two pools that differ only in their links and in the slab cache.\<close>

definition same_strings :: "istr_pool \<Rightarrow> istr_pool \<Rightarrow> bool" where
  "same_strings p q \<longleftrightarrow> ptext q = ptext p \<and> gc_threshold q = gc_threshold p \<and> slab_of (pdescs q) = slab_of (pdescs p) \<and>
     (\<forall>a. doffset (desc q a) = doffset (desc p a) \<and> dlength (desc q a) = dlength (desc p a) \<and> refcnt (desc q a) = refcnt (desc p a))"

lemma same_strings_trans: "same_strings p q \<Longrightarrow> same_strings q r \<Longrightarrow> same_strings p r"
  by (simp add: same_strings_def)

lemma same_strings_texts:
  assumes "same_strings p q"
  shows "holds_text t (desc q a) s = holds_text t (desc p a) s" "apart (desc q) A = apart (desc p) A" "refcnt (desc q a) = refcnt (desc p a)" "ptext q = ptext p"
  using assms by (simp_all add: same_strings_def holds_text_def apart_def extent_def)

lemma dnexts_upd: "dnexts (upd_desc d (\<lambda>x. x\<lparr>dnext := v\<rparr>) p) = (dnexts p)(d := v)"
  by (auto simp: upd_desc_def fun_eq_iff)

lemma filter_descs_ok:
  "lseg (dnexts p) (pall p) ds NULL \<Longrightarrow> lseg (dnexts p) new_list acc NULL \<Longrightarrow> distinct (ds @ acc) \<Longrightarrow> NULL \<notin> set ds \<Longrightarrow>
   slab_inv (pdescs p) (set ds \<union> set acc) \<Longrightarrow>
   \<exists>nl p'. filter_descs new_list p = Some (nl, p') \<and> same_strings p p' \<and> pall p' = NULL \<and> 
     lseg (dnexts p') nl (rev (filter (\<lambda>d. refcnt (desc p d) \<noteq> 0) ds) @ acc) NULL \<and>
     slab_inv (pdescs p') (set (filter (\<lambda>d. refcnt (desc p d) \<noteq> 0) ds) \<union> set acc)"
proof (induction ds arbitrary: p new_list acc)
  case Nil
  then have "pall p = NULL" by simp
  then have "filter_descs new_list p = Some (new_list, p)"
    by (subst filter_descs.simps) simp
  with Nil \<open>pall p = NULL\<close> show ?case
    by (intro exI [of _ new_list] exI [of _ p]) (simp add: same_strings_def)
next
  case (Cons d ds)
  have d: "pall p = d" "lseg (dnexts p) (dnext (desc p d)) ds NULL" "d \<noteq> NULL" "d \<notin> set ds" "d \<notin> set acc"
    using Cons.prems by auto
  define p1 where "p1 = p\<lparr>pall := dnext (desc p d)\<rparr>"
  show ?case
  proof (cases "refcnt (desc p d) = 0")
    case False
    define p2 where "p2 = upd_desc d (\<lambda>x. x\<lparr>dnext := new_list\<rparr>) p1"
    have step: "filter_descs new_list p = filter_descs d p2"
      using d False by (subst filter_descs.simps) (simp add: p1_def p2_def Let_def)
    have n2: "dnexts p2 = (dnexts p)(d := new_list)"
      unfolding p2_def dnexts_upd by (simp add: p1_def)
    have pre: "pall p2 = dnext (desc p d)" "pdescs p2 = pdescs p" "\<And>a. refcnt (desc p2 a) = refcnt (desc p a)" "same_strings p p2"
      by (simp_all add: p2_def p1_def upd_desc_def same_strings_def)
    have "lseg (dnexts p2) (pall p2) ds NULL" "lseg (dnexts p2) d (d # acc) NULL" "distinct (ds @ d # acc)"
        "NULL \<notin> set ds" "slab_inv (pdescs p2) (set ds \<union> set (d # acc))"
      using Cons.prems d lseg_frame [of d ds "dnexts p"] lseg_frame [of d acc "dnexts p"] unfolding n2 pre by auto
    note Cons.IH [OF this]
    then show ?thesis
      using False same_strings_trans [OF pre(4)] by (auto simp: step pre(3))
  next
    case True
    define p2 where "p2 = p1\<lparr>pdescs := slab_free d (pdescs p)\<rparr>"
    have step: "filter_descs new_list p = filter_descs new_list p2"
      using d True by (subst filter_descs.simps) (simp add: p1_def p2_def Let_def)
    have pre: "pall p2 = dnext (desc p d)" "desc p2 = desc p"
      by (simp_all add: p2_def p1_def)
    have sl: "slab_inv (pdescs p2) (set ds \<union> set acc)" "slab_of (pdescs p2) = slab_of (pdescs p)"
      using slab_free_ok [OF Cons.prems(5), of d] d by (simp_all add: p2_def p1_def insert_Diff_if)
    have ss: "same_strings p p2"
      using sl(2) by (simp add: p2_def p1_def same_strings_def)
    have "lseg (dnexts p2) (pall p2) ds NULL" "lseg (dnexts p2) new_list acc NULL" "distinct (ds @ acc)" "NULL \<notin> set ds"
      using Cons.prems d(2) unfolding pre by auto
    note Cons.IH [OF this sl(1)]
    then show ?thesis
      using True same_strings_trans [OF ss] by (auto simp: step pre(2))
  qed
qed

lemma relink_descs_ok:
  "lseg (dnexts p) nl xs NULL \<Longrightarrow> lseg (dnexts p) (pall p) acc NULL \<Longrightarrow> distinct (xs @ acc) \<Longrightarrow> NULL \<notin> set xs \<Longrightarrow>
   desc_count p + length xs < 2 ^ 32 \<Longrightarrow>
   \<exists>p'. relink_descs nl p = Some p' \<and> same_strings p p' \<and> pdescs p' = pdescs p \<and> lseg (dnexts p') (pall p') (rev xs @ acc) NULL \<and>
     desc_count p' = desc_count p + length xs"
proof (induction xs arbitrary: p nl acc)
  case Nil
  then show ?case
    by (subst relink_descs.simps) (simp add: same_strings_def)
next
  case (Cons d xs)
  have d: "nl = d" "lseg (dnexts p) (dnext (desc p d)) xs NULL" "d \<noteq> NULL" "d \<notin> set xs" "d \<notin> set acc"
    using Cons.prems by auto
  define p2 where "p2 = (upd_desc d (\<lambda>x. x\<lparr>dnext := pall p\<rparr>) p)\<lparr>pall := d, desc_count := desc_count p + 1\<rparr>"
  have w: "wrap32 (desc_count p + 1) = desc_count p + 1"
    using Cons.prems(5) by simp
  have step: "relink_descs nl p = relink_descs (dnext (desc p d)) p2"
    using d w by (subst relink_descs.simps) (simp add: p2_def Let_def upd_desc_def)
  have n2: "dnexts p2 = (dnexts p)(d := pall p)"
    using dnexts_upd [of d "pall p" p] by (simp add: p2_def)
  have pre: "pall p2 = d" "pdescs p2 = pdescs p" "desc_count p2 = desc_count p + 1" "same_strings p p2"
    by (simp_all add: p2_def upd_desc_def same_strings_def)
  have "lseg (dnexts p2) (dnext (desc p d)) xs NULL" "lseg (dnexts p2) (pall p2) (d # acc) NULL" "distinct (xs @ d # acc)"
      "NULL \<notin> set xs" "desc_count p2 + length xs < 2 ^ 32"
    using Cons.prems d lseg_frame [of d xs "dnexts p"] lseg_frame [of d acc "dnexts p"] unfolding n2 pre by auto
  note Cons.IH [OF this]
  then show ?case
    using same_strings_trans [OF pre(4)] by (auto simp: step pre)
qed

abbreviation live_descs :: "istr_pool \<Rightarrow> addr list \<Rightarrow> addr list" where
  "live_descs p ds \<equiv> filter (\<lambda>d. refcnt (desc p d) \<noteq> 0) ds"

lemma apart_mono: "apart ds A \<Longrightarrow> B \<subseteq> A \<Longrightarrow> apart ds B"
  unfolding apart_def by blast

lemma pool_count_small: "pool_inv p ds S \<Longrightarrow> length ds \<le> slength (ptext p)"
proof -
  assume p: "pool_inv p ds S"
  note I = pool_invD [OF p]
  have "length ds \<le> (\<Sum>x\<leftarrow>ds. length (S x) + 1)"
    by (induction ds) auto
  also have "\<dots> \<le> length (contents_of (ptext p))"
    by (rule texts_fit [OF I(7,3,9)])
  finally show ?thesis
    using length_contents_of [OF I(5)] by simp
qed

lemma gc_desc_ok:
  assumes "pool_inv p ds S"
  obtains p' where "gc_desc p = Some p'" "pool_inv p' (live_descs p ds) S" "same_strings p p'"
proof -
  note I = pool_invD [OF assms]
  obtain nl p1 where 1: "filter_descs NULL p = Some (nl, p1)" "same_strings p p1" "pall p1 = NULL"
      "lseg (dnexts p1) nl (rev (live_descs p ds)) NULL" "slab_inv (pdescs p1) (set (live_descs p ds))"
    using filter_descs_ok [OF I(2), of NULL "[]"] I(1,3,4) by auto
  define p2 where "p2 = p1\<lparr>desc_count := 0\<rparr>"
  have small: "length (live_descs p ds) < 2 ^ 32"
    using pool_count_small [OF assms] I(6) by (intro le_less_trans [OF length_filter_le]) simp
  obtain p' where 2: "relink_descs nl p2 = Some p'" "same_strings p2 p'" "pdescs p' = pdescs p2"
      "lseg (dnexts p') (pall p') (live_descs p ds) NULL" "desc_count p' = length (live_descs p ds)"
    using relink_descs_ok [of p2 nl "rev (live_descs p ds)" "[]"] 1(3,4) I(3,4) small by (auto simp: p2_def)
  have ss: "same_strings p p'"
    using 1(2) 2(2) by (simp add: same_strings_def p2_def)
  note T = same_strings_texts [OF ss]
  have "apart (desc p) (set (live_descs p ds))"
    using I(7) by (rule apart_mono) auto
  with I 1(5) 2(3-5) have "pool_inv p' (live_descs p ds) S"
    unfolding pool_inv_def T by (simp add: p2_def)
  moreover have "gc_desc p = Some p'"
    using 1(1) 2(1) by (simp add: gc_desc_def p2_def)
  ultimately show thesis
    using that ss by blast
qed

lemma add_string_total:
  assumes "realloc_ok ra" "ra_total ra" "strbuf_wf buf" "length s < 2 ^ 31" "slength buf < 2 ^ 59" "len = int (length s)"
  obtains buf' where "strbuf_add_string ra s len buf = Some (len, buf')" "strbuf_wf buf'" "contents_of buf' = contents_of buf @ s"
    "slength buf' = slength buf + length s"
proof -
  have "strbuf_add_string ra s len buf \<noteq> Some (-1, buf)"
    using hint_total [OF assms(2)] assms(6) by (auto simp: strbuf_add_string_def Let_def bind_eq_Some_conv split: if_splits)
  with strbuf_add_string_ok [OF assms(1,3), of s s len] assms(4-6) obtain buf' where
    "strbuf_add_string ra s len buf = Some (len, buf')" "strbuf_wf buf'" "contents_of buf' = contents_of buf @ s"
    by auto
  with that length_contents_of [of buf'] length_contents_of [OF assms(3)] show thesis by auto
qed

lemma copy_texts_ok:
  assumes ra: "realloc_ok ra" "ra_total ra"
  shows "lseg (dnexts p) d ds NULL \<Longrightarrow> distinct ds \<Longrightarrow> NULL \<notin> set ds \<Longrightarrow> strbuf_wf (ptext p) \<Longrightarrow> strbuf_wf nb \<Longrightarrow>
    (\<And>x. x \<in> set ds \<Longrightarrow> holds_text (contents_of (ptext p)) (desc p x) (S x)) \<Longrightarrow>
    slength nb + (\<Sum>x\<leftarrow>ds. length (S x) + 1) < 2 ^ 31 \<Longrightarrow>
    \<exists>nb' p'. copy_texts ra d nb p = Some (nb', p') \<and> strbuf_wf nb' \<and>
      contents_of nb' = contents_of nb @ concat (map (\<lambda>x. S x @ [0]) ds) \<and>
      (\<forall>x \<in> set ds. holds_text (contents_of nb') (desc p' x) (S x) \<and> slength nb \<le> doffset (desc p' x)) \<and>
      apart (desc p') (set ds) \<and> (\<forall>x. x \<notin> set ds \<longrightarrow> desc p' x = desc p x) \<and>
      (\<forall>x. dnext (desc p' x) = dnext (desc p x) \<and> refcnt (desc p' x) = refcnt (desc p x)) \<and> p' = p\<lparr>desc := desc p'\<rparr>"
proof (induction ds arbitrary: p d nb)
  case Nil
  then have "d = NULL" by simp
  then have "copy_texts ra d nb p = Some (nb, p)"
    by (subst copy_texts.simps) simp
  with Nil.prems(5) show ?case
    by (intro exI [of _ nb] exI [of _ p]) (simp add: apart_def)
next
  case (Cons x ds)
  have d: "d = x" "lseg (dnexts p) (dnext (desc p x)) ds NULL" "x \<noteq> NULL" "x \<notin> set ds"
    using Cons.prems(1-3) by auto
  note H = Cons.prems(6) [of x, simplified]
  have small: "slength nb < 2 ^ 31" "length (S x) + 1 < 2 ^ 31"
    using Cons.prems(7) by simp_all
  have n: "to_int32 (wrap64 (dlength (desc p x) + 1)) = int (length (S x @ [0]))" "to_int32 (slength nb) = int (slength nb)"
    using small holds_textD(1) [OF H] by (simp_all add: to_int32_small)
  have n': "to_int32 (Suc (dlength (desc p x)) mod 18446744073709551616) = 1 + int (length (S x))"
    using n(1) by simp
  have off: "nat (int (slength nb) mod 18446744073709551616) = slength nb"
    using small by (simp add: nat_mod_as_int)
  obtain nb1 where nb1: "strbuf_add_string ra (S x @ [0]) (int (length (S x @ [0]))) nb = Some (int (length (S x @ [0])), nb1)" "strbuf_wf nb1"
      "contents_of nb1 = contents_of nb @ S x @ [0]" "slength nb1 = slength nb + length (S x @ [0])"
    by (rule add_string_total [OF ra Cons.prems(5), of "S x @ [0]" "int (length (S x @ [0]))"]) (use small in auto)
  define p1 where "p1 = upd_desc x (\<lambda>y. y\<lparr>doffset := slength nb\<rparr>) p"
  have p1: "ptext p1 = ptext p" "\<And>y. y \<noteq> x \<Longrightarrow> desc p1 y = desc p y" "dnexts p1 = dnexts p" "refcnt (desc p1 y) = refcnt (desc p y)" for y
    by (auto simp: p1_def upd_desc_def fun_eq_iff)
  have step: "copy_texts ra d nb p = copy_texts ra (dnext (desc p1 x)) nb1 p1"
    using d(1,3) istr_text_ok(1) [OF Cons.prems(4) H] nb1(1) by (subst copy_texts.simps) (simp add: Let_def n(2) n' off p1_def nat_add_distrib)
  have "\<exists>nb' p'. copy_texts ra (dnext (desc p1 x)) nb1 p1 = Some (nb', p') \<and> strbuf_wf nb' \<and>
      contents_of nb' = contents_of nb1 @ concat (map (\<lambda>x. S x @ [0]) ds) \<and>
      (\<forall>x \<in> set ds. holds_text (contents_of nb') (desc p' x) (S x) \<and> slength nb1 \<le> doffset (desc p' x)) \<and>
      apart (desc p') (set ds) \<and> (\<forall>x. x \<notin> set ds \<longrightarrow> desc p' x = desc p1 x) \<and>
      (\<forall>x. dnext (desc p' x) = dnext (desc p1 x) \<and> refcnt (desc p' x) = refcnt (desc p1 x)) \<and> p' = p1\<lparr>desc := desc p'\<rparr>"
  proof (rule Cons.IH)
    show "lseg (dnexts p1) (dnext (desc p1 x)) ds NULL"
      using d(2) fun_cong [OF p1(3), of x] unfolding p1(3) by simp
    show "holds_text (contents_of (ptext p1)) (desc p1 y) (S y)" if "y \<in> set ds" for y
      using Cons.prems(6) [of y] that d(4) p1(1,2) by (metis list.set_intros(2))
  qed (use Cons.prems p1 nb1 in auto)
  then obtain nb' p' where r: "copy_texts ra (dnext (desc p1 x)) nb1 p1 = Some (nb', p')" "strbuf_wf nb'"
      "contents_of nb' = contents_of nb1 @ concat (map (\<lambda>x. S x @ [0]) ds)"
      "\<And>y. y \<in> set ds \<Longrightarrow> holds_text (contents_of nb') (desc p' y) (S y)" "\<And>y. y \<in> set ds \<Longrightarrow> slength nb1 \<le> doffset (desc p' y)"
      "apart (desc p') (set ds)" "\<And>y. y \<notin> set ds \<Longrightarrow> desc p' y = desc p1 y"
      "\<And>y. dnext (desc p' y) = dnext (desc p1 y)" "\<And>y. refcnt (desc p' y) = refcnt (desc p1 y)" "p' = p1\<lparr>desc := desc p'\<rparr>"
    by blast
  have x: "desc p' x = (desc p x)\<lparr>doffset := length (contents_of nb), dlength := length (S x)\<rparr>"
    using r(7) [OF d(4)] holds_textD(1) [OF H] length_contents_of [OF Cons.prems(5)] by (simp add: p1_def upd_desc_def)
  have hx: "holds_text (contents_of nb') (desc p' x) (S x)"
    unfolding x r(3) nb1(3) using holds_text_new [of "contents_of nb" "S x"] by simp
  have ex: "extent (desc p' x) \<inter> extent (desc p' y) = {}" if "y \<in> set ds" for y
    using r(5) [OF that] nb1(4) length_contents_of [OF Cons.prems(5)] by (auto simp: x extent_def)
  have "apart (desc p') (set (x # ds))"
    using r(6) ex unfolding apart_def by (auto simp: Int_commute)
  moreover have "slength nb \<le> doffset (desc p' y)" if "y \<in> set (x # ds)" for y
    using that r(5) [of y] nb1(4) length_contents_of [OF Cons.prems(5)] x by auto
  moreover have "p' = p\<lparr>desc := desc p'\<rparr>"
    by (subst r(10)) (simp add: p1_def upd_desc_def)
  moreover have "\<And>y. y \<notin> set (x # ds) \<Longrightarrow> desc p' y = desc p y" "\<And>y. dnext (desc p' y) = dnext (desc p y)"
    using r(7,8) p1(2,3) by (auto simp: fun_eq_iff)
  ultimately show ?case
    using step r(1-4) hx r(9) p1(4) nb1(3) by (intro exI [of _ nb'] exI [of _ p']) auto
qed

lemma strbuf_init_ok: "strbuf_wf strbuf_init" "contents_of strbuf_init = []" "slength strbuf_init = 0"
  by (simp_all add: strbuf_wf_def strbuf_init_def contents_of_def)

lemma hint_total_ok:
  assumes "realloc_ok ra" "ra_total ra" "strbuf_wf buf" "len < 2 ^ 60"
  obtains buf' where "strbuf_capacity_hint ra len buf = Some (0, buf')" "strbuf_wf buf'" "contents_of buf' = contents_of buf" "slength buf' = slength buf"
proof -
  obtain r buf' where r: "strbuf_capacity_hint ra len buf = Some (r, buf')" "r = 0 \<longrightarrow> strbuf_wf buf' \<and> contents_of buf' = contents_of buf \<and> slength buf' = slength buf"
    using strbuf_capacity_hint_ok [OF assms(1,3,4)] by blast
  then have "r = 0"
    using hint_total [OF assms(2)] by blast
  with r that show thesis by simp
qed

lemma gc_text_ok:
  assumes ra: "realloc_ok ra" "ra_total ra" and inv: "pool_inv p ds S"
  obtains p' where "gc_text ra p = Some (0, p')" "pool_inv p' ds S" "slength (ptext p') = (\<Sum>x\<leftarrow>ds. length (S x) + 1)"
    "\<And>x. refcnt (desc p' x) = refcnt (desc p x)" "gc_threshold p' = gc_threshold p" "slab_of (pdescs p') = slab_of (pdescs p)"
proof -
  note I = pool_invD [OF inv]
  obtain nb where nb: "strbuf_capacity_hint ra (slength (ptext p)) strbuf_init = Some (0, nb)" "strbuf_wf nb"
      "contents_of nb = []" "slength nb = 0"
    using hint_total_ok [OF ra strbuf_init_ok(1), of "slength (ptext p)"] I(6) strbuf_init_ok(2,3) by auto
  have fit: "(\<Sum>x\<leftarrow>ds. length (S x) + 1) < 2 ^ 31"
    using texts_fit [OF I(7,3,9)] I(6) length_contents_of [OF I(5)] by simp
  obtain nb1 p1 where c: "copy_texts ra (pall p) nb p = Some (nb1, p1)" "strbuf_wf nb1"
      "contents_of nb1 = contents_of nb @ concat (map (\<lambda>x. S x @ [0]) ds)"
      "\<forall>x \<in> set ds. holds_text (contents_of nb1) (desc p1 x) (S x) \<and> slength nb \<le> doffset (desc p1 x)"
      "apart (desc p1) (set ds)" "\<forall>x. dnext (desc p1 x) = dnext (desc p x) \<and> refcnt (desc p1 x) = refcnt (desc p x)" "p1 = p\<lparr>desc := desc p1\<rparr>"
    using copy_texts_ok [OF ra I(2,3,4,5) nb(2) I(9)] fit nb(4) by auto
  have len: "slength nb1 = (\<Sum>x\<leftarrow>ds. length (S x) + 1)"
    using arg_cong [OF c(3), of length] length_contents_of [OF c(2)] nb(3) by (simp add: length_concat comp_def)
  obtain nb2 where nb2: "strbuf_capacity_hint ra (slength nb1) nb1 = Some (0, nb2)" "strbuf_wf nb2" "contents_of nb2 = contents_of nb1"
      "slength nb2 = slength nb1"
    using hint_total_ok [OF ra c(2), of "slength nb1"] fit len by auto
  define p' where "p' = p1\<lparr>ptext := nb2\<rparr>"
  have r: "gc_text ra p = Some (0, p')"
    using nb(1) c(1) nb2(1) by (simp add: gc_text_def p'_def)
  have same: "pdescs p1 = pdescs p" "pall p1 = pall p" "desc_count p1 = desc_count p" "gc_threshold p1 = gc_threshold p"
    by (subst c(7), simp)+
  have "dnexts p1 = dnexts p"
    using c(6) by (simp add: fun_eq_iff)
  with I(1-4,8) c(4,5) nb2 len fit same have "pool_inv p' ds S"
    by (simp add: pool_inv_def p'_def)
  with that [OF r] len nb2(4) c(6) same show thesis
    by (simp add: p'_def)
qed

lemma istr_pool_gc_ok:
  assumes ra: "realloc_ok ra" "ra_total ra" and inv: "pool_inv p ds S"
  obtains p' where "istr_pool_gc ra p = Some (0, p')" "pool_inv p' (live_descs p ds) S" "slength (ptext p') = (\<Sum>x\<leftarrow>live_descs p ds. length (S x) + 1)"
    "\<And>x. refcnt (desc p' x) = refcnt (desc p x)" "slab_of (pdescs p') = slab_of (pdescs p)"
proof -
  obtain p1 where 1: "gc_desc p = Some p1" "pool_inv p1 (live_descs p ds) S" "same_strings p p1"
    by (rule gc_desc_ok [OF inv])
  obtain p' where 2: "gc_text ra p1 = Some (0, p')" "pool_inv p' (live_descs p ds) S" "slength (ptext p') = (\<Sum>x\<leftarrow>live_descs p ds. length (S x) + 1)"
      "\<And>x. refcnt (desc p' x) = refcnt (desc p1 x)" "slab_of (pdescs p') = slab_of (pdescs p1)"
    by (rule gc_text_ok [OF ra 1(2)]) (metis that)
  show thesis
    by (rule that [of p']) (use 1 2 in \<open>simp_all add: istr_pool_gc_def same_strings_def\<close>)
qed

text \<open>
  C34: garbage collection ends; it keeps exactly the strings with references, with the same contents, in the
  same order, and the text afterwards is exactly as long as these strings with their terminators.
\<close>

theorem istr_pool_gc_correct:
  assumes "realloc_ok ra" "ra_total ra" "pool_inv p ds S"
  shows "\<exists>p'. istr_pool_gc ra p = Some (0, p') \<and> pool_inv p' (filter (\<lambda>d. refcnt (desc p d) \<noteq> 0) ds) S \<and>
    slength (ptext p') = (\<Sum>x\<leftarrow>filter (\<lambda>d. refcnt (desc p d) \<noteq> 0) ds. length (S x) + 1)"
  using istr_pool_gc_ok [OF assms] by metis

text \<open>The optional collection at the end of an allocation.\<close>

lemma maybe_gc_ok:
  assumes ra: "realloc_ok ra" "ra_total ra \<or> desc_count p < gc_threshold p" and inv: "pool_inv p ds S"
  obtains p' ds' where "maybe_gc ra p = Some p'" "pool_inv p' ds' S" "set (live_descs p ds) \<subseteq> set ds'" "set ds' \<subseteq> set ds"
    "slab_of (pdescs p') = slab_of (pdescs p)" "\<And>x. refcnt (desc p' x) = refcnt (desc p x)"
proof (cases "gc_threshold p \<le> desc_count p")
  case False
  then show thesis
    using that [of p ds] inv by (auto simp: maybe_gc_def)
next
  case True
  then have "ra_total ra" using ra(2) by simp
  then obtain p1 where 1: "istr_pool_gc ra p = Some (0, p1)" "pool_inv p1 (live_descs p ds) S"
      "\<And>x. refcnt (desc p1 x) = refcnt (desc p x)" "slab_of (pdescs p1) = slab_of (pdescs p)"
    by (rule istr_pool_gc_ok [OF ra(1) _ inv]) blast
  define p2 where "p2 = p1\<lparr>gc_threshold := wrap32 (desc_count p1 * 4)\<rparr>"
  define p' where "p' = (if gc_threshold p2 < 128 then p2\<lparr>gc_threshold := 128\<rparr> else p2)"
  have "maybe_gc ra p = Some p'"
    using True 1(1) by (simp add: maybe_gc_def p'_def p2_def Let_def)
  moreover have "pool_inv p' (live_descs p ds) S" "slab_of (pdescs p') = slab_of (pdescs p)" "refcnt (desc p' x) = refcnt (desc p x)" for x
    using 1(2-4) by (simp_all add: pool_inv_def p'_def p2_def)
  ultimately show thesis
    using that [of p' "live_descs p ds"] by auto
qed

section \<open>Allocation\<close>

text \<open>The pool while a new descriptor is set up: its strings stay whatever is appended to the text.\<close>

lemma pool_extend:
  assumes inv: "pool_inv p ds S" and a: "a \<notin> set ds" and d: "\<And>x. x \<noteq> a \<Longrightarrow> desc p' x = desc p x" "dnext (desc p' a) = dnext (desc p a)"
    and t: "strbuf_wf (ptext p')" "contents_of (ptext p') = contents_of (ptext p) @ u" "slength (ptext p') < 2 ^ 31"
    and same: "pall p' = pall p" "desc_count p' = desc_count p" "slab_inv (pdescs p') (set ds)"
  shows "pool_inv p' ds S"
proof -
  note I = pool_invD [OF inv]
  have ds: "desc p' x = desc p x" if "x \<in> set ds" for x
    using d(1) a that by metis
  have "dnexts p' = dnexts p"
    using d by (auto simp: fun_eq_iff) (metis d)
  moreover have "apart (desc p') (set ds)"
    using I(7) by (simp add: apart_def ds)
  moreover have "holds_text (contents_of (ptext p')) (desc p' x) (S x)" if "x \<in> set ds" for x
    unfolding t(2) ds [OF that] by (rule holds_text_append [OF I(9) [OF that]])
  ultimately show ?thesis
    using I(2-4,8) t same by (simp add: pool_inv_def)
qed

lemma pool_link:
  assumes inv: "pool_inv p ds S" and a: "a \<notin> set ds" "a \<noteq> NULL" and d: "\<And>x. x \<noteq> a \<Longrightarrow> desc p' x = desc p x"
    and new: "doffset (desc p' a) = slength (ptext p)" "dlength (desc p' a) = length s"
    and t: "strbuf_wf (ptext p')" "contents_of (ptext p') = contents_of (ptext p) @ s @ [0]" "slength (ptext p') < 2 ^ 31"
    and same: "pall p' = pall p" "desc_count p' = desc_count p" "slab_inv (pdescs p') (insert a (set ds))"
  shows "pool_inv (link_desc a p') (a # ds) (S(a := s))"
proof -
  note I = pool_invD [OF inv]
  define q where "q = link_desc a p'"
  have q: "\<And>x. x \<noteq> a \<Longrightarrow> desc q x = desc p x" "desc q a = (desc p' a)\<lparr>dnext := pall p\<rparr>" "pall q = a" "ptext q = ptext p'" "pdescs q = pdescs p'"
    using d same(1) by (simp_all add: q_def link_desc_def upd_desc_def)
  have ds: "desc q x = desc p x" if "x \<in> set ds" for x
    using q(1) a(1) that by metis
  have off: "slength (ptext p) = length (contents_of (ptext p))"
    using length_contents_of [OF I(5)] by simp
  have count: "desc_count q = length ds + 1"
    using pool_count_small [OF inv] I(6,8) same(2) by (simp add: q_def link_desc_def upd_desc_def)
  have "dnexts q = (dnexts p)(a := pall p)"
    using q(1,2) by (auto simp: fun_eq_iff)
  then have seg: "lseg (dnexts q) (pall q) (a # ds) NULL"
    using I(2) lseg_frame [OF a(1), of "dnexts p"] by (simp add: q)
  have old: "holds_text (contents_of (ptext q)) (desc q x) (S x)" if "x \<in> set ds" for x
    unfolding q(4) t(2) ds [OF that] by (rule holds_text_append [OF I(9) [OF that]])
  have "holds_text (contents_of (ptext q)) (desc q a) s"
    using new off by (auto simp: q t(2) holds_text_def extent_def)
  moreover have "extent (desc q a) \<inter> extent (desc q x) = {}" if "x \<in> set ds" for x
    using I(9) [OF that] new off ds [OF that] by (fastforce simp: q(2) holds_text_def extent_def)
  then have "apart (desc q) (set (a # ds))"
    using I(7) ds unfolding apart_def by (auto simp: Int_commute)
  moreover from calculation old have "holds_text (contents_of (ptext q)) (desc q x) ((S(a := s)) x)" if "x \<in> set (a # ds)" for x
    using that a(1) by (cases "x = a") auto
  ultimately show ?thesis
    unfolding q_def [symmetric] using I(3,4) a t same(3) seg count by (simp add: pool_inv_def q(4,5))
qed

lemma add_string_take:
  assumes "0 \<le> n" "n < 2 ^ 64" "nat n \<le> length s"
  shows "strbuf_add_string ra s n buf = strbuf_add_string ra (take (nat n) s) n buf"
  using assms by (simp add: strbuf_add_string_def source_bytes_def Let_def cong: if_cong)

text \<open>
  C35: take a pool whose text stays below \<open>2 ^ 31\<close> bytes, readable bytes, and a \<open>realloc\<close> that does not
  fail when the garbage collector runs (the collector loses strings otherwise, see
  \<open>gc_text_drops\<close>): \<open>realloc\<close> never fails, or the number of descriptors stays below the threshold of the
  collector. \<open>istr_pool_alloc\<close> fails only when \<open>malloc\<close> or \<open>realloc\<close> does, with all strings of the pool
  as they were. Otherwise it returns a new descriptor with one reference that holds exactly the
  given string, and all strings with references are kept, also when the collector runs.
\<close>

theorem istr_pool_alloc_correct:
  assumes ra: "realloc_ok ra" "ra_total ra \<or> desc_count p + 1 < gc_threshold p" and m: "malloc_ok m (slab_of (pdescs p))"
    and inv: "pool_inv p ds S" and src: "readable s len"
    and small: "slength (ptext p) + length (appended s len) + 1 < 2 ^ 31"
  shows "\<exists>a p' ds'. istr_pool_alloc ra m s len p = Some (a, p') \<and>
    (if a = NULL then pool_inv p' ds S \<and> (\<not> ra_total ra \<or> m (owned (pdescs p)) (slabsize (slab_of (pdescs p))) = NULL)
     else a \<notin> set ds \<and> a \<in> set ds' \<and> pool_inv p' ds' (S(a := appended s len)) \<and> refcnt (desc p' a) = 1 \<and>
       {x \<in> set ds. refcnt (desc p x) \<noteq> 0} \<subseteq> set ds' \<and> set ds' \<subseteq> insert a (set ds))"
proof -
  note I = pool_invD [OF inv]
  define d where "d = appended s len"
  define n where "n = int (length d)"
  have n0: "(if len < 0 then map_option to_int32 (strlen s) else Some len) = Some n" "source_bytes (length d) s = Some d"
      "nat (n mod 2 ^ 64) = length d"
    using appended_length [OF src] small by (simp_all add: n_def d_def nat_mod_as_int)
  have ds: "length d \<le> length s" "take (length d) s = d" "n = int (length d)"
    using n0(2) by (simp_all add: source_bytes_def n_def split: if_splits)
  note small = small [folded d_def]
  obtain a sl where sl: "slab_alloc m (pdescs p) = (a, sl)" by (metis surj_pair)
  note A = slab_alloc_ok [OF I(1) m sl]
  define p1 where "p1 = upd_desc a (\<lambda>x. x\<lparr>doffset := slength (ptext p), dlength := length d, refcnt := 1\<rparr>) (p\<lparr>pdescs := sl\<rparr>)"
  have p1: "\<And>x. x \<noteq> a \<Longrightarrow> desc p1 x = desc p x" "dnext (desc p1 a) = dnext (desc p a)" "ptext p1 = ptext p" "pall p1 = pall p"
      "desc_count p1 = desc_count p" "pdescs p1 = sl" "doffset (desc p1 a) = slength (ptext p)" "dlength (desc p1 a) = length d" "refcnt (desc p1 a) = 1"
      "gc_threshold p1 = gc_threshold p"
    by (simp_all add: p1_def upd_desc_def)
  show ?thesis
  proof (cases "a = NULL")
    case True
    then have "istr_pool_alloc ra m s len p = Some (NULL, p)"
      using A sl by (simp add: istr_pool_alloc_def Let_def n0(1))
    with inv A True show ?thesis by auto
  next
    case False
    then have a: "a \<notin> set ds" "slab_inv sl (insert a (set ds))" "slab_of sl = slab_of (pdescs p)"
      using A by simp_all
    have fr: "slab_inv (slab_free a sl) (set ds)"
      using slab_free_ok [OF a(2), of a] a(1) by simp
    have fail: "pool_inv (p1\<lparr>ptext := t, pdescs := slab_free a sl\<rparr>) ds S"
      if "strbuf_wf t" "contents_of t = contents_of (ptext p) @ u" "length u \<le> length d" for t u
    proof (rule pool_extend [OF inv a(1), where u = u])
      show "slength (ptext (p1\<lparr>ptext := t, pdescs := slab_free a sl\<rparr>)) < 2 ^ 31"
        using that length_contents_of [OF that(1)] length_contents_of [OF I(5)] small ds(1) by simp
    qed (use p1 that fr in simp_all)
    define finish where "finish = (\<lambda>(r :: int, t). if r < 0 then Some (NULL, p1\<lparr>ptext := t, pdescs := slab_free a sl\<rparr>)
      else do { q \<leftarrow> maybe_gc ra (link_desc a (p1\<lparr>ptext := t\<rparr>)); Some (a, q) })"
    have add: "strbuf_add_string ra s n buf = strbuf_add_string ra d n buf" for buf
      using add_string_take [of n s ra buf] ds small by simp
    have alloc: "istr_pool_alloc ra m s len p = do {
        (r, t) \<leftarrow> strbuf_add_string ra d n (ptext p);
        if r < 0 then Some (NULL, p1\<lparr>ptext := t, pdescs := slab_free a sl\<rparr>)
        else Option.bind (strbuf_add_char ra 0 t) finish
      }"
      unfolding istr_pool_alloc_def n0(1) sl Let_def
      using False n0(3) by (simp add: p1_def upd_desc_def strbuf_len_def add finish_def cong: if_cong)
    from strbuf_add_string_ok [OF ra(1) I(5), of d d n] ds small consider
      "strbuf_add_string ra d n (ptext p) = Some (-1, ptext p)" "\<not> ra_total ra"
      | t where "strbuf_add_string ra d n (ptext p) = Some (n, t)" "strbuf_wf t" "contents_of t = contents_of (ptext p) @ d"
      by auto
    then show ?thesis
    proof cases
      case 1
      with fail [OF I(5), of "[]"] alloc show ?thesis by auto
    next
      case (2 t)
      have tl: "slength t = slength (ptext p) + length d"
        using length_contents_of [OF 2(2)] length_contents_of [OF I(5)] 2(3) by simp
      have r: "istr_pool_alloc ra m s len p = Option.bind (strbuf_add_string ra [0] 1 t) finish"
        using alloc 2(1) ds(3) by (simp add: strbuf_add_char_def)
      from strbuf_add_string_ok [OF ra(1) 2(2), of "[0]" "[0]" 1] appended_all [of "[0]"] tl small ds(1) consider
        "strbuf_add_string ra [0] 1 t = Some (-1, t)" "\<not> ra_total ra"
        | u where "strbuf_add_string ra [0] 1 t = Some (1, u)" "strbuf_wf u" "contents_of u = contents_of t @ [0]"
        by auto
      then show ?thesis
      proof cases
        case 1
        with fail [OF 2(2,3)] r show ?thesis by (auto simp: finish_def)
      next
        case (2 u)
        note u = this
        define p2 where "p2 = p1\<lparr>ptext := u\<rparr>"
        have ul: "slength u < 2 ^ 31"
          using length_contents_of [OF u(2)] length_contents_of [OF \<open>strbuf_wf t\<close>] u(3) tl small ds(1) by simp
        have p3: "pool_inv (link_desc a p2) (a # ds) (S(a := d))"
          by (rule pool_link [OF inv a(1) False])
            (use p1 u ul a(2) \<open>contents_of t = contents_of (ptext p) @ d\<close> in \<open>simp_all add: p2_def\<close>)
        have gc: "ra_total ra \<or> desc_count (link_desc a p2) < gc_threshold (link_desc a p2)"
          using ra(2) p1 by (auto simp: p2_def link_desc_def upd_desc_def intro: le_less_trans [OF mod_less_eq_dividend])
        obtain p' ds' where g: "maybe_gc ra (link_desc a p2) = Some p'" "pool_inv p' ds' (S(a := d))"
            "set (live_descs (link_desc a p2) (a # ds)) \<subseteq> set ds'" "set ds' \<subseteq> set (a # ds)" "\<And>x. refcnt (desc p' x) = refcnt (desc (link_desc a p2) x)"
          by (rule maybe_gc_ok [OF ra(1) gc p3]) blast
        have rc: "refcnt (desc (link_desc a p2) x) = (if x = a then 1 else refcnt (desc p x))" for x
          using p1(1,9) by (simp add: p2_def link_desc_def upd_desc_def)
        have live: "{x \<in> set ds. refcnt (desc p x) \<noteq> 0} \<subseteq> set ds'" "a \<in> set ds'"
          using g(3) a(1) by (auto simp: rc split: if_splits)
        have "istr_pool_alloc ra m s len p = Some (a, p')"
          using r u(1) g(1) by (simp add: finish_def p2_def)
        with False a(1) g live rc show ?thesis
          unfolding d_def [symmetric] by (intro exI [of _ a] exI [of _ p'] exI [of _ ds']) simp
      qed
    qed
  qed
qed

section \<open>Examples\<close>

definition desc0 :: istr_desc where
  "desc0 = \<lparr>dnext = NULL, doffset = 0, dlength = 0, refcnt = 0\<rparr>"

definition pool0 :: istr_pool where
  "pool0 = istr_pool_init 8 24 \<lparr>nxt = \<lambda>_. 0, prv = \<lambda>_. 0\<rparr> (\<lambda>_. 0) (\<lambda>_. 0) (\<lambda>_. desc0)"

lemma pool0_inv: "pool_inv pool0 [] S" "malloc_ok malloc_once (slab_of (pdescs pool0))"
proof -
  note F = slab_init_ok [of 8 24 DESC_SIZE "\<lparr>nxt = \<lambda>_. 0, prv = \<lambda>_. 0\<rparr>" "\<lambda>_. 0" "\<lambda>_. 0", unfolded DESC_SIZE_def, simplified]
  show "pool_inv pool0 [] S"
    using F(1) strbuf_init_ok by (simp add: pool_inv_def pool0_def istr_pool_init_def apart_def DESC_SIZE_def)
  show "malloc_ok malloc_once (slab_of (pdescs pool0))"
    using F(5,6) by (simp add: malloc_once_ok pool0_def istr_pool_init_def DESC_SIZE_def)
qed

lemma pool0_malloc: "malloc_once (owned (pdescs pool0)) (slabsize (slab_of (pdescs pool0))) \<noteq> NULL"
  using slab_init_layout(4) [of 40 8 24]
  by (simp add: malloc_once_def pool0_def istr_pool_init_def DESC_SIZE_def slab_init_owned layout_values)

lemma pool0_count: "8 \<le> count (slab_of (pdescs pool0))"
  using slab_init_layout(2) [of 40 8 24] by (simp add: pool0_def istr_pool_init_def DESC_SIZE_def layout_values)

lemma pool_example:
  obtains a p where "pool_inv p [a] ((\<lambda>_. [])(a := [104, 105]))" "refcnt (desc p a) = 1"
    "slab_of (pdescs p) = slab_of (pdescs pool0)" "contents_of (ptext p) = [104, 105, 0]" "a \<noteq> NULL"
proof -
  obtain a sl where sl: "slab_alloc malloc_once (pdescs pool0) = (a, sl)" by (metis surj_pair)
  have "malloc_once (owned (pdescs pool0)) (slabsize (slab_of (pdescs pool0))) \<noteq> NULL"
    by (rule pool0_malloc)
  with slab_alloc_ok [OF pool_invD(1) [OF pool0_inv(1)] pool0_inv(2) sl] have a: "a \<noteq> NULL" "slab_inv sl {a}" "slab_of sl = slab_of (pdescs pool0)" by auto
  define u where "u = \<lparr>stext = Heap [104, 105, 0, 0], slength = 3, scapacity = 4, failed = False\<rparr>"
  define p where "p = pool0\<lparr>ptext := u, pdescs := sl, desc := (\<lambda>_. desc0)(a := \<lparr>dnext = NULL, doffset = 0, dlength = 2, refcnt = 1\<rparr>)\<rparr>"
  have u: "strbuf_wf u" "contents_of u = [104, 105, 0]" "slength u = 3"
    by (simp_all add: u_def strbuf_wf_def contents_of_def)
  have "pool_inv (link_desc a p) [a] ((\<lambda>_. [])(a := [104, 105]))"
    by (rule pool_link [OF pool0_inv(1)])
      (use a u strbuf_init_ok in \<open>simp_all add: p_def pool0_def istr_pool_init_def\<close>)
  moreover have "refcnt (desc (link_desc a p) a) = 1" "slab_of (pdescs (link_desc a p)) = slab_of (pdescs pool0)"
      "contents_of (ptext (link_desc a p)) = [104, 105, 0]"
    using a(3) u(2) by (simp_all add: link_desc_def upd_desc_def p_def)
  ultimately show thesis using a(1) by (rule that)
qed

text \<open>A pool with the strings \<open>hi\<close> and \<open>hip\<close>.\<close>

lemma pool_example2:
  obtains a b p S where "pool_inv p [b, a] S" "S a = [104, 105]" "S b = [104, 105, 112]"
proof -
  obtain a q where q: "pool_inv q [a] ((\<lambda>_. [])(a := [104, 105]))" "refcnt (desc q a) = 1"
      "slab_of (pdescs q) = slab_of (pdescs pool0)" "contents_of (ptext q) = [104, 105, 0]" "a \<noteq> NULL"
    by (rule pool_example)
  note I = pool_invD [OF q(1)]
  obtain b sl where sl: "slab_alloc malloc_once (pdescs q) = (b, sl)" by (metis surj_pair)
  have m: "malloc_ok malloc_once (slab_of (pdescs q))"
    using pool0_inv(2) q(3) by simp
  have "slab_inv (pdescs q) {a}" "\<not> list_is_empty (partial (slab_of (pdescs q))) (lists (pdescs q))"
    using I(1) slab_room [of "pdescs q" "{a}"] pool0_count q(3) by simp_all
  with slab_alloc_ok [OF this(1) m sl] have b: "b \<noteq> NULL" "b \<noteq> a" "slab_inv sl {b, a}"
    by (auto simp: insert_commute)
  define u where "u = \<lparr>stext = Heap [104, 105, 0, 104, 105, 112, 0, 0], slength = 7, scapacity = 8, failed = False\<rparr>"
  define p where "p = q\<lparr>ptext := u, pdescs := sl, desc := (desc q)(b := \<lparr>dnext = NULL, doffset = 3, dlength = 3, refcnt = 1\<rparr>)\<rparr>"
  have u: "strbuf_wf u" "contents_of u = [104, 105, 0, 104, 105, 112, 0]" "slength u = 7"
    by (simp_all add: u_def strbuf_wf_def contents_of_def)
  have len: "slength (ptext q) = 3"
    using length_contents_of [OF I(5)] q(4) by simp
  have "pool_inv (link_desc b p) [b, a] ((\<lambda>_. [])(a := [104, 105], b := [104, 105, 112]))"
    by (rule pool_link [OF q(1)]) (use b u len q(4) in \<open>simp_all add: p_def insert_commute\<close>)
  then show thesis
    by (rule that) (use b in simp_all)
qed

text \<open>A \<open>memcmp\<close> that returns the difference of the first bytes that differ, as many libraries do.\<close>

fun memcmp_diff :: memcmp_fn where
  "memcmp_diff (x # xs) (y # ys) = (if x = y then memcmp_diff xs ys else uint x - uint y)"
| "memcmp_diff _ _ = 0"

lemma memcmp_diff_ok: "memcmp_ok memcmp_diff"
proof -
  have "sgn (memcmp_diff s t) = byte_sign s t" for s t
    by (induction s t rule: memcmp_diff.induct) (auto simp: word_less_def sgn_if word_uint_eq_iff)
  then show ?thesis by (simp add: memcmp_ok_def)
qed

theorem istr_compare_correct_witness:
  "\<exists>a b p ds S r r'. pool_inv p ds S \<and> S a = [104, 105] \<and> S b = [104, 105, 112] \<and>
     istr_compare memcmp_diff a b p = Some r \<and> r < 0 \<and> istr_compare memcmp_diff b a p = Some r' \<and> 0 < r' \<and>
     istr_equal memcmp_diff a b p = Some False"
proof -
  obtain a b p S where p: "pool_inv p [b, a] S" "S a = [104, 105]" "S b = [104, 105, 112]" by (rule pool_example2)
  have "str_cmp (S a) (S b) = -1" "str_cmp (S b) (S a) = 1" "S a \<noteq> S b"
    by (simp_all add: p)
  with istr_compare_correct [OF memcmp_diff_ok p(1), of a b] istr_compare_correct [OF memcmp_diff_ok p(1), of b a]
  obtain r r' where "istr_compare memcmp_diff a b p = Some r" "sgn r = -1" "istr_compare memcmp_diff b a p = Some r'" "sgn r' = 1"
      "istr_equal memcmp_diff a b p = Some False"
    by auto
  with p show ?thesis
    by (intro exI [of _ a] exI [of _ b] exI [of _ p] exI [of _ "[b, a]"] exI [of _ S] exI [of _ r] exI [of _ r']) (simp add: sgn_if split: if_splits)
qed

theorem istr_pool_gc_correct_witness:
  "\<exists>a p p'. refcnt (desc p a) = 1 \<and> istr_pool_gc ra_zero p = Some (0, p') \<and> pool_inv p' [a] ((\<lambda>_. [])(a := [104, 105])) \<and> slength (ptext p') = 3"
proof -
  obtain a p where p: "pool_inv p [a] ((\<lambda>_. [])(a := [104, 105]))" "refcnt (desc p a) = 1" by (rule pool_example)
  from istr_pool_gc_correct [OF ra_zero_ok ra_zero_total p(1)] p(2) obtain p' where
    "istr_pool_gc ra_zero p = Some (0, p')" "pool_inv p' [a] ((\<lambda>_. [])(a := [104, 105]))" "slength (ptext p') = 3"
    by auto
  with p(2) show ?thesis
    by (intro exI [of _ a] exI [of _ p] exI [of _ p']) simp
qed

theorem istr_pool_alloc_correct_witness:
  "\<exists>a p' ds' S. istr_pool_alloc ra_zero malloc_once [104, 105, 0] (-1) pool0 = Some (a, p') \<and> a \<noteq> NULL \<and> refcnt (desc p' a) = 1 \<and>
     a \<in> set ds' \<and> pool_inv p' ds' S \<and> S a = [104, 105]"
proof -
  have s: "slength (ptext pool0) = 0" "readable [104, 105, 0] (-1)" "appended [104, 105, 0] (-1) = [104, 105]"
    by (simp_all add: pool0_def istr_pool_init_def strbuf_init_ok readable_def appended_def)
  with istr_pool_alloc_correct [OF ra_zero_ok _ pool0_inv(2,1), of "[104, 105, 0]" "-1" "\<lambda>_. []"] ra_zero_total pool0_malloc
  obtain a p' ds' where "istr_pool_alloc ra_zero malloc_once [104, 105, 0] (-1) pool0 = Some (a, p')" "a \<noteq> NULL" "refcnt (desc p' a) = 1"
      "a \<in> set ds'" "pool_inv p' ds' ((\<lambda>_. [])(a := [104, 105]))"
    by (auto split: if_splits)
  then show ?thesis
    by (intro exI [of _ a] exI [of _ p'] exI [of _ ds'] exI [of _ "(\<lambda>_. [])(a := [104, 105])"]) simp
qed

text \<open>
  When \<open>realloc\<close> fails to shrink the new text during a collection, the result of the failed append is
  ignored: the strings are dropped and their descriptors share one offset.
\<close>

definition two_strings :: istr_pool where
  "two_strings = pool0\<lparr>ptext := \<lparr>stext = Heap ([104, 105, 0, 98, 121, 0] @ replicate 58 0), slength = 40, scapacity = 64, failed = False\<rparr>,
     pall := 4, desc_count := 2,
     desc := (\<lambda>_. desc0)(4 := \<lparr>dnext = 2, doffset = 0, dlength = 2, refcnt = 1\<rparr>, 2 := \<lparr>dnext = NULL, doffset = 3, dlength = 2, refcnt = 1\<rparr>)\<rparr>"

lemma gc_text_drops: "\<exists>p'. gc_text ra_big two_strings = Some (0, p') \<and> slength (ptext p') = 0 \<and> doffset (desc p' 4) = doffset (desc p' 2)"
proof -
  have c: "cap_loop 32 40 = Some 64" "cap_loop 32 3 = Some 32" "cap_loop 32 0 = Some 32"
    by (simp_all add: cap_loop.simps [of 32] cap_loop.simps [of 64])
  define nb where "nb = \<lparr>stext = Heap (replicate 64 0), slength = 0, scapacity = 64, failed = False\<rparr>"
  have add: "strbuf_add_string ra_big s 3 nb = Some (-1, nb)" for s
    by (simp add: strbuf_add_string_def strbuf_capacity_hint_def nb_def c Let_def ra_big_def)
  have h: "strbuf_capacity_hint ra_big 40 strbuf_init = Some (0, nb)" "strbuf_capacity_hint ra_big 0 nb = Some (-1, nb)"
    by (simp_all add: strbuf_capacity_hint_def strbuf_init_def nb_def c ra_big_def ra_zero_def heap_block_def)
  have d: "desc two_strings 4 = \<lparr>dnext = 2, doffset = 0, dlength = 2, refcnt = 1\<rparr>" "desc two_strings 2 = \<lparr>dnext = NULL, doffset = 3, dlength = 2, refcnt = 1\<rparr>"
      "stext (ptext two_strings) = Heap ([104, 105, 0, 98, 121, 0] @ replicate 58 0)" "slength (ptext two_strings) = 40" "pall two_strings = 4"
    by (simp_all add: two_strings_def)
  have n: "to_int32 3 = 3" "to_int32 0 = 0" "slength nb = 0"
    by (simp_all add: to_int32_def nb_def)
  define p1 where "p1 = upd_desc 4 (\<lambda>x. x\<lparr>doffset := 0\<rparr>) two_strings"
  define p2 where "p2 = upd_desc 2 (\<lambda>x. x\<lparr>doffset := 0\<rparr>) p1"
  have "copy_texts ra_big 4 nb two_strings = copy_texts ra_big 2 nb p1"
    by (subst copy_texts.simps) (simp add: Let_def d n istr_text_def strbuf_text_def add p1_def upd_desc_def)
  also have "\<dots> = copy_texts ra_big 0 nb p2"
    by (subst copy_texts.simps) (simp add: Let_def d n istr_text_def strbuf_text_def add p1_def p2_def upd_desc_def)
  also have "\<dots> = Some (nb, p2)"
    by (subst copy_texts.simps) simp
  finally have "gc_text ra_big two_strings = Some (0, p2\<lparr>ptext := nb\<rparr>)"
    using h by (simp add: gc_text_def d n)
  then show ?thesis
    by (auto simp: n p2_def p1_def upd_desc_def)
qed

end
