(* ===== verification/Spec2Isabelle.thy ===== *)
theory Spec2Isabelle
  imports Dlb_Prelude Dlb_Bytes Dlb_Cbuf Dlb_Slist Dlb_List Dlb_Strlcpy Dlb_Vector Dlb_Hash
    Dlb_Bint Dlb_Bint_Bits Dlb_Bint_Mul
    Dlb_Runq Dlb_Rbt Dlb_Rbt_Remove Dlb_Rbt_Iter Dlb_Mailbox Dlb_Waitq Dlb_Arena Dlb_Strbuf Dlb_Slab Dlb_Ioq Dlb_Ioq_Steps Dlb_Ioq_Client Dlb_Afile Dlb_Istr
begin

text \<open>
  A verification development of libdlb, a C library of data structures (\<^verbatim>\<open>src/src\<close>) and of an
  asynchronous I/O framework (\<^verbatim>\<open>src/io\<close>).

  \<^bold>\<open>The program.\<close> The data structures are intrusive: nodes are embedded in the caller's objects and
  the operations relink them. The containers are \<^verbatim>\<open>slist\<close>, \<^verbatim>\<open>list\<close>, \<^verbatim>\<open>rbt\<close> (with iterators and range
  queries) and \<^verbatim>\<open>hash\<close>; the buffers are \<^verbatim>\<open>cbuf\<close>, \<^verbatim>\<open>vector\<close>, \<^verbatim>\<open>strbuf\<close>; the allocators are \<^verbatim>\<open>slab\<close> and
  \<^verbatim>\<open>arena\<close>; \<^verbatim>\<open>istr\<close> is a string pool over \<^verbatim>\<open>strbuf\<close> and \<^verbatim>\<open>slab\<close>, and \<^verbatim>\<open>bint\<close> is integer arithmetic on
  chains of chunks. In the I/O framework tasks are submitted to a run queue (\<^verbatim>\<open>runq\<close>, over \<^verbatim>\<open>slist\<close> and
  \<^verbatim>\<open>thr\<close>) and run by worker threads; \<^verbatim>\<open>waitq\<close> turns timers (in an \<^verbatim>\<open>rbt\<close>) and \<^verbatim>\<open>mailbox\<close> turns flags into
  such tasks, and \<^verbatim>\<open>ioq\<close> joins both queues with the readiness of file descriptors
  (\<^verbatim>\<open>epoll\<close> on Linux): descriptors whose registration must change wait in a list, a pipe interrupts the
  kernel wait, and a finished wait becomes a task.

  \<^bold>\<open>Conventions.\<close> An address is a natural number and 0 is NULL. Linked structures are heaps, functions
  from addresses to records or pointers, and every operation returns the new heap. Machine integers are
  words or naturals with the reduction written out. An operation of type \<^verbatim>\<open>option\<close> is \<open>None\<close> when the C
  code follows a null pointer or does not end; the theorems show that it is \<open>Some\<close>. Allocation is an
  arbitrary stream of verdicts or an arbitrary function of the block, so that every failure path is
  covered. Callbacks, comparison and hash functions, \<^verbatim>\<open>memcmp\<close> and the calls of the kernel are parameters with the
  contract stated as a named hypothesis, and each theorem with hypotheses has a witness on a concrete state.

  \<^bold>\<open>Defects.\<close> Where the code has a defect, the definition has it too, a lemma exhibits it on a concrete
  input, and the theorem has a hypothesis that names the inputs on which the code is right: the lost
  carries (\<open>bint_add_loses_carry\<close>, \<open>bint_mul_loses_carry\<close>), the missing trim of shifted numbers
  (\<open>bint_shift_left_untrimmed\<close>, \<open>bint_div_short_quotient\<close>), the exact division with different signs
  (\<open>bint_div_exact_borrows\<close>), the layout of huge slab objects (\<open>slab_init_truncates\<close>), the arena with a
  rest that looks like a header and its order 31 (\<open>free_joins_garbage\<close>, \<open>alloc_order_31\<close>), the vector
  above \<open>2 ^ 30\<close> elements (\<open>vector_resize_overflow\<close>), strings lost by a collection without memory
  (\<open>gc_text_drops\<close>), waits for the empty set (\<open>mailbox_wait_empty_set\<close>, \<open>empty_wait_listed\<close>) and
  the cancellation of an idle file (\<open>cancel_idle_stuck\<close>). In the systems of interleaved steps these
  executions are part of the step relation; a ghost component records that one has happened (\<open>emptied\<close>,
  \<open>idle_cancels\<close>) and the theorems speak of the states where it has not.

  \<^bold>\<open>Theories.\<close>
  \<^item> \<open>Dlb_Prelude\<close>: machine types, addresses, shared lemmas.
  \<^item> \<open>Dlb_Bytes\<close> (\<^verbatim>\<open>bytes.h\<close>): the endian accessors; writing and reading back.
  \<^item> \<open>Dlb_Slist\<close> (\<^verbatim>\<open>slist.c\<close>), \<open>Dlb_List\<close> (\<^verbatim>\<open>list.c\<close>): list segments in the heap; FIFO order through the
    locale of queues, removal as the inverse of insertion.
  \<^item> \<open>Dlb_Cbuf\<close> (\<^verbatim>\<open>cbuf.c\<close>): the flat byte memory and the circular buffer; each transfer moves the
    longest possible prefix and touches nothing else.
  \<^item> \<open>Dlb_Strlcpy\<close> (\<^verbatim>\<open>strlcpy.c\<close>), \<open>Dlb_Vector\<close> (\<^verbatim>\<open>vector.c\<close>): truncation and termination; growth, up
    to \<open>2 ^ 30\<close> elements, where the int of the capacity overflows.
  \<^item> \<open>Dlb_Hash\<close> (\<^verbatim>\<open>hash.c\<close>): chained table with prime sizes; every operation refines a finite map. The
    hint may be at most \<open>2 ^ 31\<close>, for which the search for a prime is shown to end.
  \<^item> \<open>Dlb_Bint\<close>, \<open>Dlb_Bint_Bits\<close>, \<open>Dlb_Bint_Mul\<close> (\<^verbatim>\<open>bint.c\<close>): chains of 128-bit chunks with their
    allocator; each operation computes the mathematical one, keeps the normal form and leaks nothing,
    for numbers of fewer than \<open>2 ^ 23\<close> chunks, so that bit counts fit an int. The defects of the carry
    loops are theorems too.
  \<^item> \<open>Dlb_Rbt\<close>, \<open>Dlb_Rbt_Remove\<close>, \<open>Dlb_Rbt_Iter\<close> (\<^verbatim>\<open>rbt.c\<close>, \<^verbatim>\<open>rbt_iter.c\<close>, \<^verbatim>\<open>rbt_range.c\<close>): the tree with parent
    pointers against a functional tree seen through a context; insertion, removal, search, iteration
    and range queries, with termination, red-black invariant and the modification marks. The locale
    \<open>ordered_nodes\<close> is the interface that the timers use.
  \<^item> \<open>Dlb_Runq\<close> (\<^verbatim>\<open>runq.c\<close>, events of \<^verbatim>\<open>thr.c\<close>): an interleaving of submitters, workers and dispatchers at
    the granularity of the critical sections; order, no lost wakeup, quiescence, shutdown.
  \<^item> \<open>Dlb_Mailbox\<close> (\<^verbatim>\<open>mailbox.c\<close>): each wait completes exactly once under every interleaving.
  \<^item> \<open>Dlb_Waitq\<close> (\<^verbatim>\<open>waitq.c\<close>): expiry in the order of deadlines; starting, cancelling, rescheduling. Fewer
    than \<open>2 ^ 32\<close> timers are assumed, so that the count does not wrap.
  \<^item> \<open>Dlb_Alloc\<close>: the locale \<open>allocator\<close>, a contract of allocation and release from which follows the
    separation of everything a client holds; \<open>Dlb_Arena\<close> and \<open>Dlb_Slab\<close> interpret it.
  \<^item> \<open>Dlb_Arena\<close> (\<^verbatim>\<open>arena.c\<close>): the buddy allocator against a map of aligned, disjoint, covering blocks;
    releasing a block joins it with its free buddies as far as possible.
  \<^item> \<open>Dlb_Slab\<close> (\<^verbatim>\<open>slab.c\<close>): slabs of equal objects with their free lists, on the full or the partial list;
    allocation, release and return of empty slabs. The int fields of the layout are kept at 32 bits and
    hold it for objects of up to \<open>2 ^ 28 - 16\<close> bytes.
  \<^item> \<open>Dlb_Strbuf\<close> (\<^verbatim>\<open>strbuf.c\<close>): the growing string with its terminator; each operation changes the text as
    a list operation or fails and keeps it; the formatted write grows until the text fits.
  \<^item> \<open>Dlb_Istr\<close> (\<^verbatim>\<open>istr.c\<close>): immutable, reference-counted strings in a text buffer, with descriptors from a
    slab; allocation, compaction by the garbage collector, and the comparison against the lexicographic order, for
    one pool with less than \<open>2 ^ 31\<close> bytes of text.
  \<^item> \<open>Dlb_Ioq\<close> (\<^verbatim>\<open>ioq_linux.c\<close>): every operation on a composed state of run queue, wait queue, list of
    modifications, pipe and kernel interest set; the calls of the kernel are parameters. The loop of \<open>dispatch_mods\<close> ends by a
    weight that counts how often a descriptor can come back.
  \<^item> \<open>Dlb_Ioq_Steps\<close>: clients, the dispatcher and the kernel interleaved at the critical sections; each
    wait completes exactly once and none is lost, as long as no client waits for the empty set.
  \<^item> \<open>Dlb_Ioq_Client\<close>: the interface of the queue for the objects built on it: what the calls of a client and the
    internal steps of the queue do to its pending waits, as facts shared by the clients.
  \<^item> \<open>Dlb_Afile\<close> (\<^verbatim>\<open>afile_posix.c\<close>): asynchronous reads and writes on top of the queue, sequentially and as a system of
    interleaved steps; each request is performed exactly once and none is lost.

  \<^bold>\<open>Not modelled.\<close> The Windows variants, which are sequences of system calls on overlapped operations; the
  sockets and the name resolver, which like the files are clients of the queues, of \<^verbatim>\<open>src/io\<close>; clocks, handles and error texts, which only wrap system calls; the macros of
  \<^verbatim>\<open>containers.h\<close>, which is pointer arithmetic inside a structure that the model makes one address, and those of
  \<^verbatim>\<open>protothread.h\<close>, which change the control flow of C functions.
\<close>

end
